(* ===== verification/Prelude.thy ===== *)
theory Prelude
  imports Main "HOL-Library.Word"
begin

text \<open>
  Shared vocabulary of the development: the machine integers of the C sources,
  the result type in which every abort of the program is a value, the byte
  memory used for the log of the key-value store, and the generic facts about
  them that the component theories use.  The collections \<open>res_simps\<close> (results
  and their sequencing), \<open>mem_simps\<close> (reads and writes of byte memory) and
  \<open>word_conv\<close> (reading machine words as numbers) carry most of the routine
  steps of the component proofs.
\<close>

unbundle bit_operations_syntax

named_theorems res_simps \<open>evaluation of results and of their sequencing\<close>
named_theorems mem_simps \<open>reads and writes of byte memory\<close>
named_theorems word_conv \<open>reading words as natural numbers\<close>

section \<open>Machine integers\<close>

type_synonym u8 = "8 word"
type_synonym u16 = "16 word"
type_synonym u32 = "32 word"
type_synonym u64 = "64 word"

section \<open>Results\<close>

text \<open>
  The three ways in which a C function of the program fails to return: a failed
  \<open>assert\<close>, an access outside an object, and a spin loop whose exit condition
  never becomes true.
\<close>

datatype fault = Assert_Failed | Out_Of_Bounds | Spins

type_synonym 'a result = "fault + 'a"

definition bind_res :: "'a result \<Rightarrow> ('a \<Rightarrow> 'b result) \<Rightarrow> 'b result" where
  "bind_res r f = (case r of Inl e \<Rightarrow> Inl e | Inr x \<Rightarrow> f x)"

definition assert_res :: "bool \<Rightarrow> 'a result \<Rightarrow> 'a result" where
  "assert_res b r = (if b then r else Inl Assert_Failed)"

fun fold_res :: "('a \<Rightarrow> 's \<Rightarrow> 's result) \<Rightarrow> 'a list \<Rightarrow> 's \<Rightarrow> 's result" where
  "fold_res f [] s = Inr s"
| "fold_res f (x # xs) s = bind_res (f x s) (fold_res f xs)"

lemma bind_res_simps [simp, res_simps]:
  "bind_res (Inl e) f = Inl e"
  "bind_res (Inr x) f = f x"
  by (simp_all add: bind_res_def)

lemma assert_res_simps [simp, res_simps]:
  "assert_res True r = r"
  "assert_res False r = Inl Assert_Failed"
  by (simp_all add: assert_res_def)

lemma bind_res_Inr_iff [res_simps]:
  "bind_res r f = Inr y \<longleftrightarrow> (\<exists>x. r = Inr x \<and> f x = Inr y)"
  by (cases r) simp_all

lemma assert_res_Inr_iff [res_simps]:
  "assert_res b r = Inr y \<longleftrightarrow> b \<and> r = Inr y"
  by (cases b) simp_all

lemma bind_res_cong [fundef_cong]:
  "r = r' \<Longrightarrow> (\<And>x. r' = Inr x \<Longrightarrow> f x = g x) \<Longrightarrow> bind_res r f = bind_res r' g"
  by (cases r') simp_all

lemma fold_res_append:
  "fold_res f (xs @ ys) s = bind_res (fold_res f xs s) (fold_res f ys)"
proof (induction xs arbitrary: s)
  case (Cons x xs)
  then show ?case by (cases "f x s") simp_all
qed simp

text \<open>An invariant kept by the body is kept by the loop, and a body that
  succeeds from every state satisfying it makes the loop succeed.\<close>

lemma fold_res_invariant:
  assumes "fold_res f xs s = Inr s'" and "I s"
    and "\<And>x s s'. x \<in> set xs \<Longrightarrow> I s \<Longrightarrow> f x s = Inr s' \<Longrightarrow> I s'"
  shows "I s'"
  using assms
proof (induction xs arbitrary: s)
  case (Cons x xs)
  from Cons.prems(1) obtain s1 where s1: "f x s = Inr s1" "fold_res f xs s1 = Inr s'"
    by (auto simp: bind_res_Inr_iff)
  from Cons.prems(2,3) s1(1) have "I s1" by auto
  from Cons.IH[OF s1(2) this] Cons.prems(3) show ?case by auto
qed simp

lemma fold_res_total:
  assumes "I s"
    and "\<And>x s. x \<in> set xs \<Longrightarrow> I s \<Longrightarrow> \<exists>s'. f x s = Inr s' \<and> I s'"
  shows "\<exists>s'. fold_res f xs s = Inr s' \<and> I s'"
  using assms
proof (induction xs arbitrary: s)
  case (Cons x xs)
  then obtain s1 where "f x s = Inr s1" "I s1" by force
  with Cons.IH[of s1] Cons.prems(2) show ?case by auto
qed simp

text \<open>A computation that returns.\<close>

definition returns :: "'a result \<Rightarrow> bool" where
  "returns r \<longleftrightarrow> (\<exists>x. r = Inr x)"

named_theorems returns_intro \<open>introduction rules for computations that return\<close>

lemma returns_Inr [simp, returns_intro]: "returns (Inr x)"
  by (simp add: returns_def)

lemma returns_Inl [simp]: "\<not> returns (Inl e)"
  by (simp add: returns_def)

lemma returns_bind [returns_intro]:
  "returns r \<Longrightarrow> (\<And>x. r = Inr x \<Longrightarrow> returns (f x)) \<Longrightarrow> returns (bind_res r f)"
  by (auto simp: returns_def)

lemma returns_assert [returns_intro]: "b \<Longrightarrow> returns r \<Longrightarrow> returns (assert_res b r)"
  by simp

lemma returns_if [returns_intro]:
  "(b \<Longrightarrow> returns r) \<Longrightarrow> (\<not> b \<Longrightarrow> returns r') \<Longrightarrow> returns (if b then r else r')"
  by simp

lemma returns_Let [returns_intro]: "(\<And>x. x = t \<Longrightarrow> returns (f x)) \<Longrightarrow> returns (Let t f)"
  by simp

lemma returns_prod [returns_intro]:
  "(\<And>a b. p = (a, b) \<Longrightarrow> returns (f a b)) \<Longrightarrow> returns (case p of (a, b) \<Rightarrow> f a b)"
  by (cases p) simp

section \<open>Byte memory\<close>

definition mem_read :: "u8 list \<Rightarrow> nat \<Rightarrow> nat \<Rightarrow> u8 list result" where
  "mem_read m off n =
    (if off + n \<le> length m then Inr (take n (drop off m)) else Inl Out_Of_Bounds)"

definition mem_write :: "u8 list \<Rightarrow> nat \<Rightarrow> u8 list \<Rightarrow> u8 list result" where
  "mem_write m off bs =
    (if off + length bs \<le> length m
     then Inr (take off m @ bs @ drop (off + length bs) m) else Inl Out_Of_Bounds)"

text \<open>\<open>memcpy (dst, src, n)\<close> between two byte arrays.\<close>

definition copy_value :: "nat \<Rightarrow> u8 list \<Rightarrow> u8 list \<Rightarrow> u8 list result" where
  "copy_value n src dst =
    (if n \<le> length src \<and> n \<le> length dst then Inr (take n src @ drop n dst)
     else Inl Out_Of_Bounds)"

lemma mem_write_Inr_iff [mem_simps]:
  "mem_write m off bs = Inr m' \<longleftrightarrow>
   off + length bs \<le> length m \<and> m' = take off m @ bs @ drop (off + length bs) m"
  by (auto simp: mem_write_def)

lemma mem_read_Inr_iff [mem_simps]:
  "mem_read m off n = Inr bs \<longleftrightarrow> off + n \<le> length m \<and> bs = take n (drop off m)"
  by (auto simp: mem_read_def)

lemma mem_write_length: "mem_write m off bs = Inr m' \<Longrightarrow> length m' = length m"
  by (auto simp: mem_simps)

lemma mem_write_read_same:
  assumes "mem_write m off bs = Inr m'"
  shows "take (length bs) (drop off m') = bs"
  using assms by (auto simp: mem_simps)

lemma mem_write_read_before:
  assumes "mem_write m off bs = Inr m'" and "p + n \<le> off"
  shows "take n (drop p m') = take n (drop p m)"
proof (rule nth_equalityI)
  show "length (take n (drop p m')) = length (take n (drop p m))"
    using mem_write_length[OF assms(1)] by simp
  fix i assume "i < length (take n (drop p m'))"
  then show "take n (drop p m') ! i = take n (drop p m) ! i"
    using assms by (auto simp: mem_simps nth_append)
qed

lemma mem_write_read_after:
  assumes "mem_write m off bs = Inr m'" and "off + length bs \<le> p"
  shows "take n (drop p m') = take n (drop p m)"
  using assms by (auto simp: mem_simps)

lemma mem_write_read_disjoint:
  assumes "mem_write m off bs = Inr m'" and "p + n \<le> off \<or> off + length bs \<le> p"
  shows "take n (drop p m') = take n (drop p m)"
  using assms mem_write_read_before mem_write_read_after by blast

lemma copy_value_Inr_iff [mem_simps]:
  "copy_value n src dst = Inr v \<longleftrightarrow>
   n \<le> length src \<and> n \<le> length dst \<and> v = take n src @ drop n dst"
  by (auto simp: copy_value_def)

lemma copy_value_length: "copy_value n src dst = Inr v \<Longrightarrow> length v = length dst"
  by (auto simp: mem_simps)

section \<open>Bytes of machine words\<close>

definition bytes16 :: "u16 \<Rightarrow> u8 list" where
  "bytes16 w = [ucast w, ucast (drop_bit 8 w)]"

definition bytes32 :: "u32 \<Rightarrow> u8 list" where
  "bytes32 w = [ucast w, ucast (drop_bit 8 w), ucast (drop_bit 16 w), ucast (drop_bit 24 w)]"

definition word16 :: "u8 list \<Rightarrow> u16" where
  "word16 bs = ucast (bs ! 0) OR push_bit 8 (ucast (bs ! 1))"

definition word32 :: "u8 list \<Rightarrow> u32" where
  "word32 bs = ucast (bs ! 0) OR push_bit 8 (ucast (bs ! 1)) OR
     push_bit 16 (ucast (bs ! 2)) OR push_bit 24 (ucast (bs ! 3))"

lemma bytes_length [simp]: "length (bytes16 w) = 2" "length (bytes32 v) = 4"
  by (simp_all add: bytes16_def bytes32_def)

lemma word16_bytes16 [simp]: "word16 (bytes16 w) = w"
  by (rule bit_word_eqI)
     (auto simp: word16_def bytes16_def bit_simps)

lemma word32_bytes32 [simp]: "word32 (bytes32 w) = w"
proof (rule bit_word_eqI)
  fix n :: nat assume "n < LENGTH(32)"
  then show "bit (word32 (bytes32 w)) n \<longleftrightarrow> bit w n"
    by (cases "n < 24"; cases "n < 16"; cases "n < 8") (auto simp: word32_def bytes32_def bit_simps)
qed

section \<open>Words as numbers\<close>

lemma unat_add_small [word_conv]:
  fixes a b :: "'a::len word"
  shows "unat a + unat b < 2 ^ LENGTH('a) \<Longrightarrow> unat (a + b) = unat a + unat b"
  by (simp add: unat_word_ariths)

lemma unat_ucast_mod [word_conv]:
  "unat (ucast (w :: 'a::len word) :: 'b::len word) = unat w mod 2 ^ LENGTH('b)"
  by transfer (simp add: take_bit_eq_mod nat_mod_distrib nat_power_eq)

lemma unat_bound: "unat (w :: 'a::len word) < 2 ^ LENGTH('a)"
  by (rule unsigned_less)

lemma unat_pow2:
  assumes "n < LENGTH('a)"
  shows "unat ((2 :: 'a::len word) ^ n) = 2 ^ n"
proof -
  have "(2 :: 'a word) ^ n = of_nat (2 ^ n)" by simp
  moreover have "(2 :: nat) ^ n < 2 ^ LENGTH('a)" using assms by simp
  ultimately show ?thesis by (simp add: unat_of_nat del: of_nat_power)
qed

lemma unat_and_mask [word_conv]:
  "unat ((w :: 'a::len word) AND mask n) = unat w mod 2 ^ n"
  by (simp add: unsigned_take_bit_eq flip: take_bit_eq_mask take_bit_eq_mod)

lemma unat_and_not_mask [word_conv]:
  "unat ((w :: 'a::len word) AND NOT (mask n)) = unat w - unat w mod 2 ^ n"
proof -
  have sum: "(w AND mask n) + (w AND NOT (mask n)) = w"
    by (subst disjunctive_add_eq_or) (auto intro!: bit_word_eqI simp: bit_simps)
  have "w AND mask n \<le> w" by (rule word_and_le2)
  then have "unat w = unat (w AND mask n) + unat (w AND NOT (mask n))"
    using unat_plus_simple[of "w AND mask n" "w AND NOT (mask n)"] unfolding sum by simp
  then show ?thesis by (simp add: unat_and_mask)
qed

lemma even_word_mod2: "(w :: u32) mod 2 = 0 \<longleftrightarrow> even w"
  by (simp add: even_iff_mod_2_eq_zero)

lemma even_word_add_2: "even ((w :: u32) + 2) \<longleftrightarrow> even w"
  by simp

end
