(* ===== verification/Config.thy ===== *)
theory Config
  imports Prelude
begin

text \<open>
  The compile-time configuration of the system: the numeric codes of states,
  opcodes and responses (\<open>cache.h\<close>, \<open>mica.h\<close>), the sizes of objects, batches,
  buffers and credits (\<open>hrd.h\<close>, \<open>mica.h\<close>, \<open>cache.h\<close>, \<open>main.h\<close>), and the static
  checks \<open>main\<close> performs on them before it starts any thread.  Codes are words of
  the width of the field that carries them, sizes are natural numbers; the
  collection \<open>config\<close> unfolds the sizes.
\<close>

named_theorems config \<open>the configured sizes\<close>

section \<open>Codes\<close>

subsection \<open>Cache states\<close>

abbreviation VALID_STATE :: u8 where "VALID_STATE \<equiv> 1"
abbreviation INVALID_STATE :: u8 where "INVALID_STATE \<equiv> 2"
abbreviation INVALID_REPLAY_STATE :: u8 where "INVALID_REPLAY_STATE \<equiv> 3"
abbreviation WRITE_STATE :: u8 where "WRITE_STATE \<equiv> 4"
abbreviation WRITE_REPLAY_STATE :: u8 where "WRITE_REPLAY_STATE \<equiv> 5"

subsection \<open>Cache opcodes\<close>

abbreviation CACHE_OP_GET :: u8 where "CACHE_OP_GET \<equiv> 111"
abbreviation CACHE_OP_PUT :: u8 where "CACHE_OP_PUT \<equiv> 112"
abbreviation CACHE_OP_UPD :: u8 where "CACHE_OP_UPD \<equiv> 113"
abbreviation CACHE_OP_INV :: u8 where "CACHE_OP_INV \<equiv> 114"
abbreviation CACHE_OP_ACK :: u8 where "CACHE_OP_ACK \<equiv> 115"
abbreviation CACHE_OP_BRC :: u8 where "CACHE_OP_BRC \<equiv> 116"

subsection \<open>Cache responses\<close>

abbreviation EMPTY :: u8 where "EMPTY \<equiv> 120"
abbreviation CACHE_GET_SUCCESS :: u8 where "CACHE_GET_SUCCESS \<equiv> 121"
abbreviation CACHE_PUT_SUCCESS :: u8 where "CACHE_PUT_SUCCESS \<equiv> 122"
abbreviation CACHE_UPD_SUCCESS :: u8 where "CACHE_UPD_SUCCESS \<equiv> 123"
abbreviation CACHE_INV_SUCCESS :: u8 where "CACHE_INV_SUCCESS \<equiv> 124"
abbreviation CACHE_ACK_SUCCESS :: u8 where "CACHE_ACK_SUCCESS \<equiv> 125"
abbreviation CACHE_LAST_ACK_SUCCESS :: u8 where "CACHE_LAST_ACK_SUCCESS \<equiv> 126"
abbreviation RETRY :: u8 where "RETRY \<equiv> 127"
abbreviation CACHE_MISS :: u8 where "CACHE_MISS \<equiv> 130"
abbreviation CACHE_GET_STALL :: u8 where "CACHE_GET_STALL \<equiv> 131"
abbreviation CACHE_PUT_STALL :: u8 where "CACHE_PUT_STALL \<equiv> 132"
abbreviation CACHE_UPD_FAIL :: u8 where "CACHE_UPD_FAIL \<equiv> 133"
abbreviation CACHE_INV_FAIL :: u8 where "CACHE_INV_FAIL \<equiv> 134"
abbreviation CACHE_ACK_FAIL :: u8 where "CACHE_ACK_FAIL \<equiv> 135"
abbreviation CACHE_GET_FAIL :: u8 where "CACHE_GET_FAIL \<equiv> 136"
abbreviation CACHE_PUT_FAIL :: u8 where "CACHE_PUT_FAIL \<equiv> 137"
abbreviation UNSERVED_CACHE_MISS :: u8 where "UNSERVED_CACHE_MISS \<equiv> 140"

subsection \<open>MICA opcodes and responses\<close>

abbreviation MICA_OP_GET :: u8 where "MICA_OP_GET \<equiv> 111"
abbreviation MICA_OP_PUT :: u8 where "MICA_OP_PUT \<equiv> 112"
abbreviation MICA_OP_MULTI_GET :: u8 where "MICA_OP_MULTI_GET \<equiv> 117"
abbreviation MICA_RESP_GET_SUCCESS :: u8 where "MICA_RESP_GET_SUCCESS \<equiv> 113"
abbreviation MICA_RESP_PUT_SUCCESS :: u8 where "MICA_RESP_PUT_SUCCESS \<equiv> 114"
abbreviation MICA_RESP_GET_FAIL :: u8 where "MICA_RESP_GET_FAIL \<equiv> 115"

subsection \<open>Commands of a trace\<close>

abbreviation NOP :: u8 where "NOP \<equiv> 0"
abbreviation HOT_WRITE :: u8 where "HOT_WRITE \<equiv> 1"
abbreviation HOT_READ :: u8 where "HOT_READ \<equiv> 2"
abbreviation REMOTE_WRITE :: u8 where "REMOTE_WRITE \<equiv> 3"
abbreviation REMOTE_READ :: u8 where "REMOTE_READ \<equiv> 4"
abbreviation LOCAL_WRITE :: u8 where "LOCAL_WRITE \<equiv> 5"
abbreviation LOCAL_READ :: u8 where "LOCAL_READ \<equiv> 6"

section \<open>Arithmetic macros\<close>

definition CEILING :: "nat \<Rightarrow> nat \<Rightarrow> nat" where
  "CEILING x y = (x + y - 1) div y"

definition C_MAX :: "nat \<Rightarrow> nat \<Rightarrow> nat" where
  "C_MAX x y = (if x > y then x else y)"

definition C_MIN :: "nat \<Rightarrow> nat \<Rightarrow> nat" where
  "C_MIN x y = (if x < y then x else y)"

text \<open>
  \<open>HRD_MOD_ADD(x, N)\<close> and \<open>MOD_ADD_WITH_BASE(x, N, B)\<close>: the increment of a ring
  index, without a division.
\<close>

definition HRD_MOD_ADD :: "nat \<Rightarrow> nat \<Rightarrow> nat" where
  "HRD_MOD_ADD x n = (if x + 1 = n then 0 else x + 1)"

definition MOD_ADD_WITH_BASE :: "nat \<Rightarrow> nat \<Rightarrow> nat \<Rightarrow> nat" where
  "MOD_ADD_WITH_BASE x n b = (if x + 1 = n + b then b else x + 1)"

lemmas macro_defs [config] = CEILING_def C_MAX_def C_MIN_def

section \<open>Sizes\<close>

subsection \<open>Settings of objects and values\<close>

definition USE_BIG_OBJECTS :: nat where
  [config]: "USE_BIG_OBJECTS = 0"
definition EXTRA_CACHE_LINES :: nat where
  [config]: "EXTRA_CACHE_LINES = 1"
definition BASE_VALUE_SIZE :: nat where
  [config]: "BASE_VALUE_SIZE = 32"
definition SHIFT_BITS :: nat where
  [config]: "SHIFT_BITS = (if USE_BIG_OBJECTS = 1 then 3 else 0)"
definition HERD_NUM_BKTS :: nat where
  [config]: "HERD_NUM_BKTS = (if USE_BIG_OBJECTS = 1 then 128 * 1024 else 2 * 1024 * 1024)"
definition HERD_LOG_CAP :: nat where
  [config]: "HERD_LOG_CAP = 1024 * 1024 * 1024"
definition HERD_NUM_KEYS :: nat where
  [config]: "HERD_NUM_KEYS = (if USE_BIG_OBJECTS = 1 then 512 * 1024 else 4 * 1024 * 1024)"
definition HERD_VALUE_SIZE :: nat where
  [config]: "HERD_VALUE_SIZE = (if USE_BIG_OBJECTS = 1 then EXTRA_CACHE_LINES * 64 + BASE_VALUE_SIZE else BASE_VALUE_SIZE)"
definition KEY_SIZE :: nat where
  [config]: "KEY_SIZE = 16"
definition HERD_GET_REQ_SIZE :: nat where
  [config]: "HERD_GET_REQ_SIZE = KEY_SIZE + 1"
definition HERD_PUT_REQ_SIZE :: nat where
  [config]: "HERD_PUT_REQ_SIZE = KEY_SIZE + 1 + 1 + HERD_VALUE_SIZE"
definition GRH_SIZE :: nat where
  [config]: "GRH_SIZE = 40"
definition MICA_OP_SIZE :: nat where
  [config]: "MICA_OP_SIZE = (if USE_BIG_OBJECTS = 1 then 64 + EXTRA_CACHE_LINES * 64 else 64)"
definition UD_REQ_SIZE :: nat where
  [config]: "UD_REQ_SIZE = MICA_OP_SIZE + GRH_SIZE"
definition ENABLE_COALESCING :: nat where
  [config]: "ENABLE_COALESCING = 0"
definition ENABLE_WORKER_COALESCING_base :: nat where
  [config]: "ENABLE_WORKER_COALESCING_base = (if USE_BIG_OBJECTS = 0 then 1 else 0)"
definition ENABLE_WORKER_COALESCING :: nat where
  [config]: "ENABLE_WORKER_COALESCING = (if ENABLE_COALESCING = 1 then ENABLE_WORKER_COALESCING_base else 0)"
definition DESIRED_COALESCING_FACTOR :: nat where
  [config]: "DESIRED_COALESCING_FACTOR = 32"
definition WRKR_COALESCING_BUF_SLOT_SIZE_base :: nat where
  [config]: "WRKR_COALESCING_BUF_SLOT_SIZE_base = DESIRED_COALESCING_FACTOR * HERD_VALUE_SIZE"
definition WRKR_COALESCING_BUF_SLOT_SIZE :: nat where
  [config]: "WRKR_COALESCING_BUF_SLOT_SIZE = (if ENABLE_WORKER_COALESCING = 1 then WRKR_COALESCING_BUF_SLOT_SIZE_base else HERD_VALUE_SIZE)"
definition MINIMUM_WORKER_REQ_SIZE :: nat where
  [config]: "MINIMUM_WORKER_REQ_SIZE = DESIRED_COALESCING_FACTOR * HERD_GET_REQ_SIZE + 1 + GRH_SIZE"
definition EXTRA_WORKER_REQ_BYTES_base :: nat where
  [config]: "EXTRA_WORKER_REQ_BYTES_base = (if MINIMUM_WORKER_REQ_SIZE \<le> UD_REQ_SIZE then 0 else MINIMUM_WORKER_REQ_SIZE - UD_REQ_SIZE)"
definition EXTRA_WORKER_REQ_BYTES :: nat where
  [config]: "EXTRA_WORKER_REQ_BYTES = (if ENABLE_COALESCING = 1 then EXTRA_WORKER_REQ_BYTES_base else 0)"

subsection \<open>Settings of the MICA store\<close>

definition MICA_MAX_BATCH_SIZE :: nat where
  [config]: "MICA_MAX_BATCH_SIZE = 512"
definition MICA_OP_METADATA :: nat where
  [config]: "MICA_OP_METADATA = KEY_SIZE + 1 + 1"
definition MICA_MIN_VALUE :: nat where
  [config]: "MICA_MIN_VALUE = 64 - MICA_OP_METADATA"
definition MICA_MAX_VALUE :: nat where
  [config]: "MICA_MAX_VALUE = (if USE_BIG_OBJECTS = 1 then MICA_MIN_VALUE + EXTRA_CACHE_LINES * 64 else MICA_MIN_VALUE)"
definition MICA_LOG_BITS :: nat where
  [config]: "MICA_LOG_BITS = 40"

subsection \<open>Settings of the cache\<close>

definition CACHE_NUM_BKTS :: nat where
  [config]: "CACHE_NUM_BKTS = 64 * 1024"
definition CACHE_NUM_KEYS :: nat where
  [config]: "CACHE_NUM_KEYS = 250 * 1000"
definition WRITE_RATIO :: nat where
  [config]: "WRITE_RATIO = 10"
definition CACHE_BATCH_SIZE :: nat where
  [config]: "CACHE_BATCH_SIZE = 600"

subsection \<open>Settings of threads and machines\<close>

definition TOTAL_CORES :: nat where
  [config]: "TOTAL_CORES = 40"
definition TOTAL_CORES_base :: nat where
  [config]: "TOTAL_CORES_base = TOTAL_CORES - 1"
definition SOCKET_NUM :: nat where
  [config]: "SOCKET_NUM = 2"
definition PHYSICAL_CORES_PER_SOCKET :: nat where
  [config]: "PHYSICAL_CORES_PER_SOCKET = 10"
definition PHYSICAL_CORE_DISTANCE :: nat where
  [config]: "PHYSICAL_CORE_DISTANCE = 4"
definition VIRTUAL_CORES_PER_SOCKET :: nat where
  [config]: "VIRTUAL_CORES_PER_SOCKET = 20"
definition WORKER_HYPERTHREADING :: nat where
  [config]: "WORKER_HYPERTHREADING = 1"
definition WORKERS_PER_MACHINE :: nat where
  [config]: "WORKERS_PER_MACHINE = 20"
definition CLIENTS_PER_MACHINE :: nat where
  [config]: "CLIENTS_PER_MACHINE = 20"
definition MACHINE_NUM :: nat where
  [config]: "MACHINE_NUM = 4"
definition CACHE_SOCKET :: nat where
  [config]: "CACHE_SOCKET = 0"
definition CLIENT_NUM :: nat where
  [config]: "CLIENT_NUM = CLIENTS_PER_MACHINE * MACHINE_NUM"
definition WORKER_NUM :: nat where
  [config]: "WORKER_NUM = WORKERS_PER_MACHINE * MACHINE_NUM"
definition WORKER_NUM_UD_QPS :: nat where
  [config]: "WORKER_NUM_UD_QPS = 1"
definition CLIENT_UD_QPS :: nat where
  [config]: "CLIENT_UD_QPS = 3"
definition ENABLE_WORKERS_CRCW :: nat where
  [config]: "ENABLE_WORKERS_CRCW = 1"
definition ENABLE_STATIC_LOCAL_ALLOCATION :: nat where
  [config]: "ENABLE_STATIC_LOCAL_ALLOCATION = 1"
definition DISABLE_LOCALS :: nat where
  [config]: "DISABLE_LOCALS = 1"
definition ENABLE_LOCAL_WORKERS_base :: nat where
  [config]: "ENABLE_LOCAL_WORKERS_base = 0"
definition ENABLE_LOCAL_WORKERS :: nat where
  [config]: "ENABLE_LOCAL_WORKERS = (if ENABLE_WORKERS_CRCW = 1 \<and> DISABLE_LOCALS = 0 then ENABLE_LOCAL_WORKERS_base else 0)"
definition LOCAL_WORKERS :: nat where
  [config]: "LOCAL_WORKERS = 1"
definition ACTIVE_WORKERS_PER_MACHINE :: nat where
  [config]: "ACTIVE_WORKERS_PER_MACHINE = (if ENABLE_LOCAL_WORKERS = 1 \<and> DISABLE_LOCALS = 0 then WORKERS_PER_MACHINE - LOCAL_WORKERS else WORKERS_PER_MACHINE)"
definition ENABLE_CACHE_STATS :: nat where
  [config]: "ENABLE_CACHE_STATS = 0"
definition SEQUENTIAL_CONSISTENCY :: nat where
  [config]: "SEQUENTIAL_CONSISTENCY = 1"
definition LINEARIZABILITY :: nat where
  [config]: "LINEARIZABILITY = 2"
definition ENABLE_MULTIPLE_SESSIONS :: nat where
  [config]: "ENABLE_MULTIPLE_SESSIONS = 1"
definition SESSIONS_PER_CLIENT :: nat where
  [config]: "SESSIONS_PER_CLIENT = 6"
definition ENABLE_THREAD_PARTITIONING_C_TO_W_base :: nat where
  [config]: "ENABLE_THREAD_PARTITIONING_C_TO_W_base = 1"
definition ENABLE_THREAD_PARTITIONING_C_TO_W :: nat where
  [config]: "ENABLE_THREAD_PARTITIONING_C_TO_W = (if ENABLE_WORKERS_CRCW = 1 then ENABLE_THREAD_PARTITIONING_C_TO_W_base else 0)"
definition BALANCE_REQS_base :: nat where
  [config]: "BALANCE_REQS_base = 0"
definition BALANCE_REQS :: nat where
  [config]: "BALANCE_REQS = (if ENABLE_WORKERS_CRCW = 1 \<and> ENABLE_THREAD_PARTITIONING_C_TO_W = 0 then BALANCE_REQS_base else 0)"
definition WINDOW_SIZE :: nat where
  [config]: "WINDOW_SIZE = 512"
definition KVS_BATCH :: nat where
  [config]: "KVS_BATCH = 100"
definition LOCAL_WINDOW :: nat where
  [config]: "LOCAL_WINDOW = 66"
definition LOCAL_REGIONS :: nat where
  [config]: "LOCAL_REGIONS = 3"
definition LOCAL_REGION_SIZE :: nat where
  [config]: "LOCAL_REGION_SIZE = LOCAL_WINDOW div LOCAL_REGIONS"
definition WS_PER_WORKER :: nat where
  [config]: "WS_PER_WORKER = (if ENABLE_THREAD_PARTITIONING_C_TO_W = 1 then KVS_BATCH else 20)"
definition MAX_OUTSTANDING_REQS :: nat where
  [config]: "MAX_OUTSTANDING_REQS = WS_PER_WORKER * (WORKER_NUM - WORKERS_PER_MACHINE)"
definition ENABLE_MULTI_BATCHES :: nat where
  [config]: "ENABLE_MULTI_BATCHES = 0"
definition MINIMUM_BATCH_ABILITY :: nat where
  [config]: "MINIMUM_BATCH_ABILITY = 16"
definition MIN_EMPTY_PERCENTAGE :: nat where
  [config]: "MIN_EMPTY_PERCENTAGE = 5"
definition FINISH_BATCH_ON_MISSING_CREDIT :: nat where
  [config]: "FINISH_BATCH_ON_MISSING_CREDIT = 0"
definition WORKER_REQ_SIZE :: nat where
  [config]: "WORKER_REQ_SIZE = (if ENABLE_COALESCING = 1 then UD_REQ_SIZE + EXTRA_WORKER_REQ_BYTES else UD_REQ_SIZE)"
definition WORKER_NET_REQ_SIZE :: nat where
  [config]: "WORKER_NET_REQ_SIZE = WORKER_REQ_SIZE - GRH_SIZE"
definition MULTIGET_AVAILABLE_SIZE :: nat where
  [config]: "MULTIGET_AVAILABLE_SIZE = WORKER_NET_REQ_SIZE"
definition MAX_COALESCE_PER_MACH :: nat where
  [config]: "MAX_COALESCE_PER_MACH = (MULTIGET_AVAILABLE_SIZE - 1) div HERD_GET_REQ_SIZE"
definition MAXIMUM_INLINE_SIZE :: nat where
  [config]: "MAXIMUM_INLINE_SIZE = 188"
definition WORKER_MAX_BATCH :: nat where
  [config]: "WORKER_MAX_BATCH = KVS_BATCH * MACHINE_NUM"
definition CLIENT_ENABLE_INLINING :: nat where
  [config]: "CLIENT_ENABLE_INLINING = (if USE_BIG_OBJECTS = 1 \<or> MULTIGET_AVAILABLE_SIZE > MAXIMUM_INLINE_SIZE then 0 else 1)"
definition ENABLE_HOT_KEY_TRACKING :: nat where
  [config]: "ENABLE_HOT_KEY_TRACKING = 1"
definition HOTTEST_KEYS_TO_TRACK :: nat where
  [config]: "HOTTEST_KEYS_TO_TRACK = 20"
definition ENABLE_ASSERTIONS :: nat where
  [config]: "ENABLE_ASSERTIONS = 1"
definition MEASURE_LATENCY :: nat where
  [config]: "MEASURE_LATENCY = 1"
definition ENABLE_WAKE_UP :: nat where
  [config]: "ENABLE_WAKE_UP = 0"
definition DISABLE_CACHE :: nat where
  [config]: "DISABLE_CACHE = 0"

subsection \<open>Settings of broadcasts and flow control\<close>

definition ENABLE_MULTICAST :: nat where
  [config]: "ENABLE_MULTICAST = 0"
definition MAX_BCAST_BATCH :: nat where
  [config]: "MAX_BCAST_BATCH = (if ENABLE_MULTICAST = 1 then 4 else 4)"
definition MESSAGES_IN_BCAST :: nat where
  [config]: "MESSAGES_IN_BCAST = (if ENABLE_MULTICAST = 1 then 1 else MACHINE_NUM - 1)"
definition BCAST_TO_CACHE_BATCH :: nat where
  [config]: "BCAST_TO_CACHE_BATCH = 500"
definition SC_CREDITS :: nat where
  [config]: "SC_CREDITS = 30"
definition SC_CREDIT_DIVIDER :: nat where
  [config]: "SC_CREDIT_DIVIDER = 2"
definition SC_CREDITS_IN_MESSAGE :: nat where
  [config]: "SC_CREDITS_IN_MESSAGE = SC_CREDITS div SC_CREDIT_DIVIDER"
definition SC_MAX_CREDIT_WRS :: nat where
  [config]: "SC_MAX_CREDIT_WRS = (SC_CREDITS div SC_CREDITS_IN_MESSAGE) * (MACHINE_NUM - 1)"
definition SC_MAX_COH_MESSAGES :: nat where
  [config]: "SC_MAX_COH_MESSAGES = SC_CREDITS * (MACHINE_NUM - 1)"
definition SC_MAX_COH_RECEIVES :: nat where
  [config]: "SC_MAX_COH_RECEIVES = SC_CREDITS * (MACHINE_NUM - 1)"
definition SC_MAX_CREDIT_RECVS :: nat where
  [config]: "SC_MAX_CREDIT_RECVS = CEILING SC_MAX_COH_MESSAGES SC_CREDITS_IN_MESSAGE"
definition CREDITS_FOR_EACH_CLIENT :: nat where
  [config]: "CREDITS_FOR_EACH_CLIENT = 60"
definition UPD_CREDITS :: nat where
  [config]: "UPD_CREDITS = CREDITS_FOR_EACH_CLIENT"
definition ACK_CREDITS :: nat where
  [config]: "ACK_CREDITS = CREDITS_FOR_EACH_CLIENT"
definition INV_CREDITS :: nat where
  [config]: "INV_CREDITS = CREDITS_FOR_EACH_CLIENT"
definition BROADCAST_CREDITS :: nat where
  [config]: "BROADCAST_CREDITS = UPD_CREDITS + ACK_CREDITS + INV_CREDITS"
definition ACK_VC :: nat where
  [config]: "ACK_VC = 0"
definition INV_VC :: nat where
  [config]: "INV_VC = 1"
definition UPD_VC :: nat where
  [config]: "UPD_VC = 2"
definition LIN_CREDIT_DIVIDER :: nat where
  [config]: "LIN_CREDIT_DIVIDER = 2"
definition CREDITS_IN_MESSAGE :: nat where
  [config]: "CREDITS_IN_MESSAGE = CREDITS_FOR_EACH_CLIENT div LIN_CREDIT_DIVIDER"
definition MAX_CREDIT_WRS :: nat where
  [config]: "MAX_CREDIT_WRS = (BROADCAST_CREDITS div CREDITS_IN_MESSAGE) * (MACHINE_NUM - 1)"
definition MAX_COH_MESSAGES :: nat where
  [config]: "MAX_COH_MESSAGES = (MACHINE_NUM - 1) * BROADCAST_CREDITS"
definition LIN_MAX_COH_RECEIVES :: nat where
  [config]: "LIN_MAX_COH_RECEIVES = (MACHINE_NUM - 1) * BROADCAST_CREDITS"
definition MAX_CREDIT_RECVS_FOR_BCASTS :: nat where
  [config]: "MAX_CREDIT_RECVS_FOR_BCASTS = (MACHINE_NUM - 1) * CEILING MAX_BCAST_BATCH CREDITS_IN_MESSAGE"
definition MAX_CREDIT_RECVS_FOR_ACKS :: nat where
  [config]: "MAX_CREDIT_RECVS_FOR_ACKS = CEILING BCAST_TO_CACHE_BATCH CREDITS_IN_MESSAGE"
definition MAX_CREDIT_RECVS :: nat where
  [config]: "MAX_CREDIT_RECVS = C_MAX MAX_CREDIT_RECVS_FOR_BCASTS MAX_CREDIT_RECVS_FOR_ACKS"
definition MIN_SS_BATCH :: nat where
  [config]: "MIN_SS_BATCH = 127"
definition CREDIT_SS_BATCH :: nat where
  [config]: "CREDIT_SS_BATCH = C_MAX MIN_SS_BATCH (MAX_CREDIT_WRS + 1)"
definition SC_CREDIT_SS_BATCH :: nat where
  [config]: "SC_CREDIT_SS_BATCH = C_MAX MIN_SS_BATCH (SC_MAX_CREDIT_WRS + 1)"
definition CLIENT_SS_BATCH :: nat where
  [config]: "CLIENT_SS_BATCH = C_MAX MIN_SS_BATCH (WINDOW_SIZE + 1)"
definition BROADCAST_SS_BATCH :: nat where
  [config]: "BROADCAST_SS_BATCH = C_MAX (MIN_SS_BATCH div (MACHINE_NUM - 1)) (MAX_BCAST_BATCH + 2)"
definition ACK_SS_BATCH :: nat where
  [config]: "ACK_SS_BATCH = C_MAX MIN_SS_BATCH (BCAST_TO_CACHE_BATCH + 1)"
definition LIN_CLT_BUF_SLOTS :: nat where
  [config]: "LIN_CLT_BUF_SLOTS = (MACHINE_NUM - 1) * BROADCAST_CREDITS"
definition SC_CLT_BUF_SIZE :: nat where
  [config]: "SC_CLT_BUF_SIZE = UD_REQ_SIZE * (MACHINE_NUM - 1) * SC_CREDITS"
definition SC_CLT_BUF_SLOTS :: nat where
  [config]: "SC_CLT_BUF_SLOTS = SC_CLT_BUF_SIZE div UD_REQ_SIZE"
definition COH_BUF_SLOTS :: nat where
  [config]: "COH_BUF_SLOTS = (if CLIENT_ENABLE_INLINING = 1 then MAX_BCAST_BATCH else BROADCAST_SS_BATCH)"
definition CLIENT_RECV_REM_Q_DEPTH :: nat where
  [config]: "CLIENT_RECV_REM_Q_DEPTH = (if ENABLE_MULTI_BATCHES = 1 then MAX_OUTSTANDING_REQS else 2 * CLIENT_SS_BATCH) + 3"
definition SC_CLIENT_RECV_BR_Q_DEPTH :: nat where
  [config]: "SC_CLIENT_RECV_BR_Q_DEPTH = SC_MAX_COH_RECEIVES + 3"
definition LIN_CLIENT_RECV_BR_Q_DEPTH :: nat where
  [config]: "LIN_CLIENT_RECV_BR_Q_DEPTH = LIN_MAX_COH_RECEIVES + 3"
definition SC_CLIENT_RECV_CR_Q_DEPTH :: nat where
  [config]: "SC_CLIENT_RECV_CR_Q_DEPTH = SC_MAX_CREDIT_RECVS + 3"
definition LIN_CLIENT_RECV_CR_Q_DEPTH :: nat where
  [config]: "LIN_CLIENT_RECV_CR_Q_DEPTH = MAX_COH_MESSAGES + 8"
definition WORKER_SEND_Q_DEPTH :: nat where
  [config]: "WORKER_SEND_Q_DEPTH = WORKER_MAX_BATCH + 3"
definition CLIENT_SEND_REM_Q_DEPTH :: nat where
  [config]: "CLIENT_SEND_REM_Q_DEPTH = (if ENABLE_MULTI_BATCHES = 1 then MAX_OUTSTANDING_REQS else CLIENT_SS_BATCH) + 3"
definition MAX_LATENCY :: nat where
  [config]: "MAX_LATENCY = 400"
definition LATENCY_BUCKETS :: nat where
  [config]: "LATENCY_BUCKETS = 200"
definition SC_VIRTUAL_CHANNELS :: nat where
  [config]: "SC_VIRTUAL_CHANNELS = 1"
definition SC_UPD_VC :: nat where
  [config]: "SC_UPD_VC = 0"
definition VIRTUAL_CHANNELS :: nat where
  [config]: "VIRTUAL_CHANNELS = 3"

subsection \<open>Settings of debugging and counting switches\<close>

definition ENABLE_KVS_BATCHING :: nat where
  [config]: "ENABLE_KVS_BATCHING = 1"
definition ENABLE_STAT_COUNTING :: nat where
  [config]: "ENABLE_STAT_COUNTING = 1"
definition STALLING_DEBUG_LIN :: nat where
  [config]: "STALLING_DEBUG_LIN = 0"
definition FEED_FROM_TRACE :: nat where
  [config]: "FEED_FROM_TRACE = 1"

subsection \<open>Settings of the trace\<close>

definition DO_ONLY_LOCALS :: nat where
  [config]: "DO_ONLY_LOCALS = 0"
definition USE_A_SINGLE_KEY :: nat where
  [config]: "USE_A_SINGLE_KEY = 0"
definition ONLY_CACHE_HITS :: nat where
  [config]: "ONLY_CACHE_HITS = 0"
definition SEND_ONLY_TO_ONE_MACHINE :: nat where
  [config]: "SEND_ONLY_TO_ONE_MACHINE = 0"
definition SEND_ONLY_TO_NEXT_MACHINE :: nat where
  [config]: "SEND_ONLY_TO_NEXT_MACHINE = 0"
definition BALANCE_REQS_IN_CHUNKS :: nat where
  [config]: "BALANCE_REQS_IN_CHUNKS = 0"
definition CHUNK_NUM :: nat where
  [config]: "CHUNK_NUM = 0"
definition BALANCE_HOT_REQS :: nat where
  [config]: "BALANCE_HOT_REQS = 0"
definition BALANCE_HOT_WRITES :: nat where
  [config]: "BALANCE_HOT_WRITES = 0"
definition ENABLE_HOT_REQ_GROUPING :: nat where
  [config]: "ENABLE_HOT_REQ_GROUPING = 0"
definition NUM_OF_KEYS_TO_GROUP :: nat where
  [config]: "NUM_OF_KEYS_TO_GROUP = 10"
definition GROUP_SIZE :: nat where
  [config]: "GROUP_SIZE = 50"
definition EMULATING_CREW :: nat where
  [config]: "EMULATING_CREW = 1"
definition RANDOM_MACHINE :: nat where
  [config]: "RANDOM_MACHINE = 0"
definition LOAD_BALANCE :: nat where
  [config]: "LOAD_BALANCE = 1"

subsection \<open>Settings of the periods of measurements\<close>

definition K_32 :: nat where
  [config]: "K_32 = 32768"
definition M_256 :: nat where
  [config]: "M_256 = 268435456"
subsection \<open>Sizes of the message structures\<close>

definition sizeof_mica_op :: nat where
  [config]: "sizeof_mica_op = KEY_SIZE + 1 + 1 + MICA_MAX_VALUE"
definition sizeof_extended_cache_op :: nat where
  [config]: "sizeof_extended_cache_op = KEY_SIZE + 1 + 1 + (MICA_MAX_VALUE + EXTRA_WORKER_REQ_BYTES)"
definition sizeof_ud_req :: nat where
  [config]: "sizeof_ud_req = GRH_SIZE + sizeof_mica_op"
definition sizeof_wrkr_ud_req :: nat where
  [config]: "sizeof_wrkr_ud_req = GRH_SIZE + sizeof_mica_op + EXTRA_WORKER_REQ_BYTES"

section \<open>Rounding to powers of two\<close>

definition pow2roundup :: "u32 \<Rightarrow> u32" where
  "pow2roundup x0 =
    (if x0 = 0 then 1 else
     let x = x0 - 1;
         x = x OR drop_bit 1 x;
         x = x OR drop_bit 2 x;
         x = x OR drop_bit 4 x;
         x = x OR drop_bit 8 x;
         x = x OR drop_bit 16 x
     in x + 1)"

section \<open>The static checks of main\<close>

text \<open>The assertions of \<open>main\<close> that precede the parsing of its arguments, in
  their order.\<close>

definition main_static_checks :: bool where
  "main_static_checks \<longleftrightarrow>
    (ENABLE_MULTI_BATCHES = 0 \<or> CLIENT_SEND_REM_Q_DEPTH > MAX_OUTSTANDING_REQS) \<and>
    WORKER_SEND_Q_DEPTH > WORKER_MAX_BATCH \<and>
    (DISABLE_CACHE = 0 \<longrightarrow>
       SC_CLIENT_RECV_CR_Q_DEPTH > SC_MAX_CREDIT_RECVS \<and>
       LIN_CLIENT_RECV_CR_Q_DEPTH > MAX_CREDIT_RECVS \<and>
       SC_CLIENT_RECV_BR_Q_DEPTH > SC_MAX_COH_RECEIVES \<and>
       LIN_CLIENT_RECV_BR_Q_DEPTH > LIN_MAX_COH_RECEIVES) \<and>
    CLIENT_UD_QPS = 3 \<and>
    CLIENT_RECV_REM_Q_DEPTH > WINDOW_SIZE \<and>
    (ENABLE_MULTI_BATCHES = 0 \<or> CLIENT_RECV_REM_Q_DEPTH > MAX_OUTSTANDING_REQS) \<and>
    SC_MAX_CREDIT_WRS > 0 \<and>
    LOCAL_WINDOW \<le> MICA_MAX_BATCH_SIZE \<and>
    WORKER_MAX_BATCH \<le> MICA_MAX_BATCH_SIZE \<and>
    (WRITE_RATIO > 0 \<and> DISABLE_CACHE = 0 \<longrightarrow> BCAST_TO_CACHE_BATCH \<le> CACHE_BATCH_SIZE) \<and>
    SC_CREDITS mod SC_CREDIT_DIVIDER = 0 \<and>
    CREDITS_FOR_EACH_CLIENT mod LIN_CREDIT_DIVIDER = 0 \<and>
    MAX_COH_MESSAGES < 65536 \<and>
    SESSIONS_PER_CLIENT * CLIENTS_PER_MACHINE \<le> 255 \<and>
    WS_PER_WORKER < 256 \<and>
    LOCAL_WINDOW mod LOCAL_REGIONS = 0 \<and>
    LOCAL_REGIONS \<le> 64 \<and>
    (ENABLE_LOCAL_WORKERS \<noteq> 0 \<longrightarrow> LOCAL_WORKERS > 0 \<and> LOCAL_WORKERS < WORKERS_PER_MACHINE) \<and>
    CLIENTS_PER_MACHINE \<ge> WORKER_NUM_UD_QPS \<and>
    MAX_BCAST_BATCH < BROADCAST_SS_BATCH \<and>
    sizeof_mica_op > HERD_PUT_REQ_SIZE \<and>
    sizeof_ud_req = UD_REQ_SIZE \<and>
    sizeof_mica_op = MICA_OP_SIZE \<and>
    sizeof_extended_cache_op \<le> sizeof_wrkr_ud_req - GRH_SIZE \<and>
    (WORKER_HYPERTHREADING \<noteq> 0 \<longrightarrow> WORKERS_PER_MACHINE \<le> VIRTUAL_CORES_PER_SOCKET) \<and>
    EXTRA_WORKER_REQ_BYTES \<ge> 0 \<and>
    WORKER_REQ_SIZE \<le> sizeof_wrkr_ud_req \<and>
    BASE_VALUE_SIZE mod unat (pow2roundup (of_nat SHIFT_BITS)) = 0 \<and>
    (ENABLE_COALESCING = 1 \<and> DESIRED_COALESCING_FACTOR < MAX_COALESCE_PER_MACH \<longrightarrow>
       ENABLE_WORKER_COALESCING = 0) \<and>
    (CLIENT_ENABLE_INLINING = 1 \<longrightarrow>
       MAX_COALESCE_PER_MACH * HERD_GET_REQ_SIZE + 1 \<le> MAXIMUM_INLINE_SIZE)"

section \<open>Ring indices\<close>

lemma HRD_MOD_ADD_mod: "x < n \<Longrightarrow> HRD_MOD_ADD x n = (x + 1) mod n"
  by (auto simp: HRD_MOD_ADD_def)

lemma HRD_MOD_ADD_less: "x < n \<Longrightarrow> HRD_MOD_ADD x n < n"
  by (auto simp: HRD_MOD_ADD_def)

lemma MOD_ADD_WITH_BASE_range:
  "b \<le> x \<Longrightarrow> x < b + n \<Longrightarrow> MOD_ADD_WITH_BASE x n b = b + (x - b + 1) mod n"
  by (auto simp: MOD_ADD_WITH_BASE_def mod_Suc)

lemma MACHINE_NUM_pos: "0 < MACHINE_NUM" "1 < MACHINE_NUM" "MACHINE_NUM \<le> 255"
  by (simp_all add: config)

lemma MICA_MAX_VALUE_eq: "MICA_MAX_VALUE = 46" and HERD_VALUE_SIZE_eq: "HERD_VALUE_SIZE = 32"
  by (simp_all add: config)

end
