(* ===== verification/Optik.thy ===== *)
theory Optik
  imports Config "HOL-Library.Product_Lexorder"
begin

text \<open>
  The per-object metadata and the versioned spin lock kept in it
  (\<open>optik_mod.h\<close>).  An object is unlocked when its lock byte is free, and then
  its version is even; taking the lock makes the version odd, and each of the
  three ways of releasing it makes it even again: \<open>optik_unlock_write\<close> moves on to
  the next even version, \<open>optik_unlock_decrement_version\<close> goes back to the previous
  one, and \<open>optik_unlock\<close> installs the version of a received message.  The
  operations are modelled as they run when no other thread interferes between
  their steps; a thread that finds the lock taken spins.
\<close>

section \<open>Metadata\<close>

record cache_meta =
  state :: u8
  pending_acks :: u8
  cid :: u8
  lock :: u8
  version :: u32

abbreviation OPTIK_LOCKED :: u8 where "OPTIK_LOCKED \<equiv> 1"
abbreviation OPTIK_FREE :: u8 where "OPTIK_FREE \<equiv> 0"

definition optik_is_locked :: "cache_meta \<Rightarrow> bool" where
  "optik_is_locked ol \<longleftrightarrow> lock ol = OPTIK_LOCKED"

definition optik_get_version :: "cache_meta \<Rightarrow> u32" where
  "optik_get_version ol = version ol"

definition optik_get_cid :: "cache_meta \<Rightarrow> u32" where
  "optik_get_cid ol = ucast (cid ol)"

definition optik_init :: "cache_meta \<Rightarrow> cache_meta" where
  "optik_init ol = ol\<lparr>cid := 0, version := 0, lock := OPTIK_FREE\<rparr>"

section \<open>The lock\<close>

text \<open>
  One round of the loop of \<open>optik_lock\<close>: it leaves the inner loop only when the
  lock byte is not \<open>OPTIK_LOCKED\<close>, and the outer one only when the compare-and-swap
  finds the byte free.  With nobody else writing the object, a round that fails
  fails for ever.
\<close>

definition optik_lock :: "cache_meta \<Rightarrow> cache_meta result" where
  "optik_lock ol =
    (if optik_is_locked ol then Inl Spins
     else if lock ol = OPTIK_FREE
     then Inr (ol\<lparr>lock := OPTIK_LOCKED, version := version ol + 1\<rparr>)
     else Inl Spins)"

definition optik_lock_backoff :: "cache_meta \<Rightarrow> cache_meta result" where
  "optik_lock_backoff ol =
    (if optik_is_locked ol then Inl Spins
     else if lock ol = OPTIK_FREE
     then Inr (ol\<lparr>lock := OPTIK_LOCKED, version := version ol + 1\<rparr>)
     else Inl Spins)"

definition optik_unlock_write :: "cache_meta \<Rightarrow> u8 \<Rightarrow> cache_meta \<times> u32" where
  "optik_unlock_write ol c =
    (let v = version ol + 1 in (ol\<lparr>cid := c, version := v, lock := OPTIK_FREE\<rparr>, v))"

definition optik_unlock_decrement_version :: "cache_meta \<Rightarrow> cache_meta result" where
  "optik_unlock_decrement_version ol =
    (let v = version ol - 1
     in assert_res (v mod 2 = 0) (Inr (ol\<lparr>version := v, lock := OPTIK_FREE\<rparr>)))"

definition optik_unlock :: "cache_meta \<Rightarrow> u8 \<Rightarrow> u32 \<Rightarrow> cache_meta result" where
  "optik_unlock ol c v =
    assert_res (v mod 2 = 0) (Inr (ol\<lparr>cid := c, version := v, lock := OPTIK_FREE\<rparr>))"

section \<open>Comparing versions\<close>

definition optik_is_same_version_plus_one :: "cache_meta \<Rightarrow> cache_meta \<Rightarrow> bool" where
  "optik_is_same_version_plus_one v1 v2 \<longleftrightarrow>
     version v1 = version v2 + 1 \<and> cid v1 = cid v2"

definition optik_is_same_version_and_valid :: "cache_meta \<Rightarrow> cache_meta \<Rightarrow> bool" where
  "optik_is_same_version_and_valid v1 v2 \<longleftrightarrow>
     version v1 = version v2 \<and> cid v1 = cid v2 \<and> version v1 mod 2 = 0"

definition optik_is_greater_version :: "cache_meta \<Rightarrow> cache_meta \<Rightarrow> bool" where
  "optik_is_greater_version cur receiv \<longleftrightarrow>
     version cur < version receiv \<or>
     version cur - 1 = version receiv \<and> cid cur < cid receiv"

definition optik_is_greater_version_session :: "cache_meta \<Rightarrow> cache_meta \<Rightarrow> nat \<Rightarrow> bool" where
  "optik_is_greater_version_session cur receiv machine_id \<longleftrightarrow>
     version cur < version receiv \<or>
     version cur - 1 = version receiv \<and> machine_id < unat (cid receiv)"

section \<open>Timestamps\<close>

text \<open>
  An unlocked object carries the timestamp of its last write: the version, ties
  broken by the identity of the writer.  Timestamps are compared
  lexicographically.
\<close>

type_synonym stamp = "nat \<times> nat"

definition meta_ok :: "cache_meta \<Rightarrow> bool" where
  "meta_ok m \<longleftrightarrow> lock m = OPTIK_FREE \<and> even (version m)"

definition stamp_of :: "cache_meta \<Rightarrow> stamp" where
  "stamp_of m = (unat (version m), unat (cid m))"

lemma even_unat_u32: "even (w :: u32) \<longleftrightarrow> even (unat w)"
proof -
  have "bit (unat w) 0 \<longleftrightarrow> bit w 0" by (simp only: bit_unsigned_iff) simp
  then show ?thesis by (simp add: bit_0)
qed

lemma unat_succ_even:
  assumes "even (v :: u32)"
  shows "unat (v + 1) = unat v + 1"
proof -
  have "unat v < 2 ^ 32" using unsigned_less[of v] by simp
  moreover have "even (unat v)" using assms by (simp add: even_unat_u32)
  ultimately have "unat v + 1 < 2 ^ 32" by (cases "unat v = 2 ^ 32 - 1") auto
  then show ?thesis by (simp add: unat_word_ariths)
qed

lemma succ_even_less_iff:
  assumes "even (v :: u32)" "even r"
  shows "v + 1 < r \<longleftrightarrow> unat v < unat r"
proof -
  have "v + 1 < r \<longleftrightarrow> unat v + 1 < unat r"
    by (simp add: word_less_nat_alt unat_succ_even[OF assms(1)])
  also have "\<dots> \<longleftrightarrow> unat v < unat r"
    using assms by (auto simp: even_unat_u32) (metis Suc_lessI even_Suc)
  finally show ?thesis .
qed

lemma optik_init_ok [intro, simp]: "meta_ok (optik_init m)"
  by (simp add: meta_ok_def optik_init_def)

lemma optik_lock_ok [simp]:
  "meta_ok m \<Longrightarrow> optik_lock m = Inr (m\<lparr>lock := OPTIK_LOCKED, version := version m + 1\<rparr>)"
  by (simp add: optik_lock_def meta_ok_def optik_is_locked_def)

lemma optik_lock_backoff_eq: "optik_lock_backoff = optik_lock"
  by (simp add: fun_eq_iff optik_lock_def optik_lock_backoff_def)

lemma optik_lock_Inr_iff:
  "optik_lock m = Inr m' \<longleftrightarrow>
   lock m = OPTIK_FREE \<and> m' = m\<lparr>lock := OPTIK_LOCKED, version := version m + 1\<rparr>"
  by (auto simp: optik_lock_def optik_is_locked_def)

text \<open>
  The comparison against a received message is made on the locked object, whose
  version is one more than that of the timestamp: for even received versions it
  decides the lexicographic order of the timestamps, at every version, the
  largest even one included.
\<close>

lemma optik_is_greater_version_locked:
  assumes "meta_ok m" and "even (version r)"
  shows "optik_is_greater_version (m\<lparr>lock := OPTIK_LOCKED, version := version m + 1\<rparr>) r \<longleftrightarrow>
         stamp_of m < stamp_of r"
  using assms
  by (auto simp: optik_is_greater_version_def stamp_of_def meta_ok_def succ_even_less_iff
      word_less_nat_alt [of "cid m"] word_unat_eq_iff [of "version m"])

lemma optik_is_greater_version_session_locked:
  assumes "meta_ok m" and "even (version r)"
  shows "optik_is_greater_version_session
           (m\<lparr>lock := OPTIK_LOCKED, version := version m + 1\<rparr>) r machine_id \<longleftrightarrow>
         (unat (version m), machine_id) < stamp_of r"
  using assms
  by (auto simp: optik_is_greater_version_session_def stamp_of_def meta_ok_def
      succ_even_less_iff word_unat_eq_iff [of "version m"])

lemma optik_is_same_version_plus_one_locked:
  "optik_is_same_version_plus_one (m\<lparr>lock := OPTIK_LOCKED, version := version m + 1\<rparr>) r \<longleftrightarrow>
   stamp_of m = stamp_of r"
  by (auto simp: optik_is_same_version_plus_one_def stamp_of_def
      word_unat_eq_iff [of "version m"] word_unat_eq_iff [of "cid m"])

lemma optik_same_version_valid_self [simp]:
  "meta_ok m \<Longrightarrow> optik_is_same_version_and_valid m m"
  by (simp add: optik_is_same_version_and_valid_def meta_ok_def even_iff_mod_2_eq_zero)

lemma optik_unlock_decrement_version_Inr:
  "even (version ol - 1) \<Longrightarrow>
   optik_unlock_decrement_version ol = Inr (ol\<lparr>version := version ol - 1, lock := OPTIK_FREE\<rparr>)"
  by (simp add: optik_unlock_decrement_version_def even_iff_mod_2_eq_zero)

lemma optik_unlock_Inr:
  "even v \<Longrightarrow> optik_unlock ol c v = Inr (ol\<lparr>cid := c, version := v, lock := OPTIK_FREE\<rparr>)"
  by (simp add: optik_unlock_def even_iff_mod_2_eq_zero)

lemma optik_unlock_Inr_iff:
  "optik_unlock ol c v = Inr m \<longleftrightarrow>
   even v \<and> m = ol\<lparr>cid := c, version := v, lock := OPTIK_FREE\<rparr>"
  by (auto simp: optik_unlock_def even_iff_mod_2_eq_zero assert_res_Inr_iff)

lemma optik_unlock_write_eq:
  "optik_unlock_write ol c =
   (ol\<lparr>cid := c, version := version ol + 1, lock := OPTIK_FREE\<rparr>, version ol + 1)"
  by (simp add: optik_unlock_write_def Let_def)

lemmas optik_release = optik_unlock_decrement_version_Inr optik_unlock_Inr optik_unlock_write_eq

end
