(* ===== verification/Layout.thy ===== *)
theory Layout
  imports Optik
begin

text \<open>
  The objects of the store and the messages of the protocols, and how they lie
  in memory.  A \<open>struct cache_op\<close> and a \<open>struct mica_op\<close> are the same 64 bytes: the
  first eight of them, unused in MICA, hold the \<open>cache_meta\<close>; the sources cast
  freely between the two, and the model has one record for both.  The log of a
  MICA store is an array of bytes; \<open>encode_op\<close> lays a record out in it and
  \<open>read_op\<close> reads it back, little-endian, and \<open>key_word\<close> is the second 64-bit word
  of the key, which is what the store compares.
\<close>

section \<open>Objects and messages\<close>

record cache_key =
  meta :: cache_meta
  bkt :: u32
  server :: u16
  tag :: u16

record cache_op =
  key :: cache_key
  opcode :: u8
  val_len :: u8
  "value" :: "u8 list"

type_synonym mica_op = cache_op

record mica_resp =
  rtype :: u8
  rval_len :: u8
  val_ptr :: "nat option"

section \<open>Layout in memory\<close>

definition encode_meta :: "cache_meta \<Rightarrow> u8 list" where
  "encode_meta m = [state m, pending_acks m, cid m, lock m] @ bytes32 (version m)"

definition decode_meta :: "u8 list \<Rightarrow> cache_meta" where
  "decode_meta bs = \<lparr>state = bs ! 0, pending_acks = bs ! 1, cid = bs ! 2, lock = bs ! 3,
     version = word32 (take 4 (drop 4 bs))\<rparr>"

definition encode_key :: "cache_key \<Rightarrow> u8 list" where
  "encode_key k = encode_meta (meta k) @ bytes32 (bkt k) @ bytes16 (server k) @ bytes16 (tag k)"

definition decode_key :: "u8 list \<Rightarrow> cache_key" where
  "decode_key bs = \<lparr>meta = decode_meta (take 8 bs), bkt = word32 (take 4 (drop 8 bs)),
     server = word16 (take 2 (drop 12 bs)), tag = word16 (take 2 (drop 14 bs))\<rparr>"

definition encode_op :: "cache_op \<Rightarrow> u8 list" where
  "encode_op e = encode_key (key e) @ [opcode e, val_len e] @ value e"

text \<open>An entry of the log read as a \<open>struct cache_op\<close>: it holds only the bytes of
  the value that its length field announces.\<close>

definition read_op :: "u8 list \<Rightarrow> nat \<Rightarrow> cache_op result" where
  "read_op m off = bind_res (mem_read m off 18) (\<lambda>h.
     Inr \<lparr>key = decode_key (take 16 h), opcode = h ! 16, val_len = h ! 17,
          value = take (unat (h ! 17)) (drop (off + 18) m)\<rparr>)"

definition write_op :: "u8 list \<Rightarrow> nat \<Rightarrow> cache_op \<Rightarrow> u8 list result" where
  "write_op m off e = mem_write m off (encode_op e)"

text \<open>\<open>memcpy\<close> of the first \<open>n\<close> bytes of one object over another, \<open>n\<close> being at least the
  size of the key and the opcode.\<close>

definition copy_op :: "nat \<Rightarrow> cache_op \<Rightarrow> cache_op \<Rightarrow> cache_op" where
  "copy_op n src dst =
     \<lparr>key = key src, opcode = opcode src,
      val_len = (if n \<ge> MICA_OP_METADATA then val_len src else val_len dst),
      value = take (n - MICA_OP_METADATA) (value src) @ drop (n - MICA_OP_METADATA) (value dst)\<rparr>"

text \<open>The second 64-bit word of a key, and the key a 64-bit word stored there
  stands for.\<close>

definition key_word :: "cache_key \<Rightarrow> u64" where
  "key_word k = ucast (bkt k) OR push_bit 32 (ucast (server k)) OR push_bit 48 (ucast (tag k))"

definition set_key_word :: "u64 \<Rightarrow> cache_key \<Rightarrow> cache_key" where
  "set_key_word w k =
     k\<lparr>bkt := ucast w, server := ucast (drop_bit 32 w), tag := ucast (drop_bit 48 w)\<rparr>"

text \<open>The first 64-bit word of a key holds the metadata.\<close>

definition set_meta_word :: "u64 \<Rightarrow> cache_key \<Rightarrow> cache_key" where
  "set_meta_word w k = k\<lparr>meta :=
     \<lparr>state = ucast w, pending_acks = ucast (drop_bit 8 w), cid = ucast (drop_bit 16 w),
      lock = ucast (drop_bit 24 w), version = ucast (drop_bit 32 w)\<rparr>\<rparr>"

section \<open>Copies of objects\<close>

text \<open>The sizes that the program copies: a key and an opcode, or a whole request with
  its value.\<close>

lemma copy_op_get:
  "copy_op HERD_GET_REQ_SIZE src dst = dst\<lparr>key := key src, opcode := opcode src\<rparr>"
  by (simp add: copy_op_def HERD_GET_REQ_SIZE_def MICA_OP_METADATA_def)

lemma copy_op_put:
  "copy_op HERD_PUT_REQ_SIZE src dst =
   \<lparr>key = key src, opcode = opcode src, val_len = val_len src,
    value = take HERD_VALUE_SIZE (value src) @ drop HERD_VALUE_SIZE (value dst)\<rparr>"
  by (simp add: copy_op_def HERD_PUT_REQ_SIZE_def MICA_OP_METADATA_def)

lemma copy_op_simps [simp]:
  "key (copy_op n src dst) = key src" "opcode (copy_op n src dst) = opcode src"
  by (simp_all add: copy_op_def)

lemma copy_op_length:
  assumes "length (value src) = length (value dst)"
  shows "length (value (copy_op n src dst)) = length (value dst)"
  using assms by (simp add: copy_op_def)

section \<open>Round trips\<close>

lemma encode_length [simp]:
  "length (encode_meta m) = 8" "length (encode_key k) = 16"
  "length (encode_op e) = 18 + length (value e)"
  by (simp_all add: encode_meta_def encode_key_def encode_op_def)

lemma decode_encode_meta [simp]: "decode_meta (encode_meta m) = m"
  by (simp add: decode_meta_def encode_meta_def)

lemma decode_encode_key [simp]: "decode_key (encode_key k) = k"
  by (simp add: decode_key_def encode_key_def)

lemma bit_key_word:
  "bit (key_word k) n \<longleftrightarrow>
   (if n < 32 then bit (bkt k) n else if n < 48 then bit (server k) (n - 32)
    else n < 64 \<and> bit (tag k) (n - 48))"
  by (auto simp: key_word_def bit_simps dest: bit_imp_le_length)

text \<open>Two keys have the same second word exactly when bucket, server and tag
  agree: the comparison of the store ignores the metadata and nothing else.\<close>

lemma key_word_eq_iff:
  "key_word k = key_word k' \<longleftrightarrow> bkt k = bkt k' \<and> server k = server k' \<and> tag k = tag k'"
proof
  assume eq: "key_word k = key_word k'"
  have bits: "bit (key_word k) n = bit (key_word k') n" for n by (simp add: eq)
  have "bkt k = bkt k'"
  proof (rule bit_word_eqI)
    fix n :: nat assume "n < LENGTH(32)"
    with bits[of n] show "bit (bkt k) n = bit (bkt k') n" by (simp add: bit_key_word)
  qed
  moreover have "server k = server k'"
  proof (rule bit_word_eqI)
    fix n :: nat assume "n < LENGTH(16)"
    with bits[of "n + 32"] show "bit (server k) n = bit (server k') n" by (simp add: bit_key_word)
  qed
  moreover have "tag k = tag k'"
  proof (rule bit_word_eqI)
    fix n :: nat assume "n < LENGTH(16)"
    with bits[of "n + 48"] show "bit (tag k) n = bit (tag k') n" by (simp add: bit_key_word)
  qed
  ultimately show "bkt k = bkt k' \<and> server k = server k' \<and> tag k = tag k'" by simp
next
  assume "bkt k = bkt k' \<and> server k = server k' \<and> tag k = tag k'"
  then show "key_word k = key_word k'" by (simp add: key_word_def)
qed

lemma key_word_set [simp]: "key_word (set_key_word w k) = w"
proof (rule bit_word_eqI)
  fix n :: nat assume "n < LENGTH(64)"
  then show "bit (key_word (set_key_word w k)) n = bit w n"
    by (auto simp: bit_key_word set_key_word_def bit_simps)
qed

text \<open>An entry is well formed when its length field counts the bytes of its value.\<close>

definition entry_wf :: "cache_op \<Rightarrow> bool" where
  "entry_wf e \<longleftrightarrow> length (value e) = unat (val_len e)"

lemma read_op_encoded:
  assumes "off + 18 + length (value e) \<le> length m" and "entry_wf e"
    and "take (18 + length (value e)) (drop off m) = encode_op e"
  shows "read_op m off = Inr e"
proof -
  let ?n = "length (value e)"
  have h: "take 18 (drop off m) = encode_key (key e) @ [opcode e, val_len e]"
  proof -
    have "take 18 (drop off m) = take 18 (take (18 + ?n) (drop off m))" by (simp add: min_def)
    also have "\<dots> = encode_key (key e) @ [opcode e, val_len e]"
      unfolding assms(3) by (simp add: encode_op_def)
    finally show ?thesis .
  qed
  have v: "take ?n (drop (off + 18) m) = value e"
  proof -
    have "take ?n (drop (off + 18) m) = drop 18 (take (18 + ?n) (drop off m))"
      by (simp add: drop_take add.commute)
    also have "\<dots> = value e" unfolding assms(3) by (simp add: encode_op_def)
    finally show ?thesis .
  qed
  have "mem_read m off 18 = Inr (encode_key (key e) @ [opcode e, val_len e])"
    using assms(1) h by (simp add: mem_read_def)
  then show ?thesis
    using assms(2) v by (simp add: read_op_def entry_wf_def nth_append)
qed

lemma write_op_Inr_iff [mem_simps]:
  "write_op m off e = Inr m' \<longleftrightarrow> mem_write m off (encode_op e) = Inr m'"
  by (simp add: write_op_def)

lemma write_op_length: "write_op m off e = Inr m' \<Longrightarrow> length m' = length m"
  by (auto simp: write_op_def dest: mem_write_length)

lemma read_write_op_same:
  assumes "write_op m off e = Inr m'" and "entry_wf e"
  shows "read_op m' off = Inr e"
proof (rule read_op_encoded)
  show "off + 18 + length (value e) \<le> length m'"
    using assms(1) by (auto simp: write_op_def mem_simps)
  show "take (18 + length (value e)) (drop off m') = encode_op e"
    using mem_write_read_same[of m off "encode_op e" m'] assms(1) by (simp add: write_op_def)
qed fact

lemma read_op_wf:
  assumes "read_op m off = Inr e" and "off + 18 + unat (val_len e) \<le> length m"
  shows "entry_wf e"
  using assms by (auto simp: read_op_def res_simps mem_simps entry_wf_def)

text \<open>Reading an entry depends only on the bytes it occupies.\<close>

lemma read_op_cong:
  assumes "read_op m off = Inr e" and "off + 18 + unat (val_len e) \<le> length m"
    and "length m' = length m"
    and "take (18 + unat (val_len e)) (drop off m') = take (18 + unat (val_len e)) (drop off m)"
  shows "read_op m' off = Inr e"
proof -
  let ?n = "unat (val_len e)"
  have h: "take 18 (drop off m') = take 18 (drop off m)"
    using arg_cong[OF assms(4), of "take 18"] by (simp add: min_def)
  have v: "take ?n (drop (off + 18) m') = take ?n (drop (off + 18) m)"
    using arg_cong[OF assms(4), of "drop 18"] by (simp add: drop_take add.commute)
  from assms(1-3) h v show ?thesis
    by (auto simp: read_op_def res_simps mem_read_def split: if_splits)
qed

end
