(* ===== verification/City.thy ===== *)
theory City
  imports Prelude
begin

text \<open>
  CityHash (\<open>city.c\<close>), which turns the key identifiers of the trace into the
  16-byte keys of the stores.  A string is a byte buffer together with a
  position and a length; every load checks that it stays inside the buffer, so
  that the absence of out-of-bounds reads is a theorem about the model and not
  an assumption of it.
\<close>

section \<open>Loads and mixing\<close>

record uint128 =
  first :: u64
  second :: u64

definition word64 :: "u8 list \<Rightarrow> u64" where
  "word64 bs = ucast (word32 (take 4 bs)) OR push_bit 32 (ucast (word32 (drop 4 bs)))"

definition Fetch64 :: "u8 list \<Rightarrow> nat \<Rightarrow> u64 result" where
  "Fetch64 buf p = bind_res (mem_read buf p 8) (\<lambda>bs. Inr (word64 bs))"

definition Fetch32 :: "u8 list \<Rightarrow> nat \<Rightarrow> u32 result" where
  "Fetch32 buf p = bind_res (mem_read buf p 4) (\<lambda>bs. Inr (word32 bs))"

definition Fetch8 :: "u8 list \<Rightarrow> nat \<Rightarrow> u8 result" where
  "Fetch8 buf p = (if p < length buf then Inr (buf ! p) else Inl Out_Of_Bounds)"

definition k0 :: u64 where "k0 = 0xc3a5c85c97cb3127"
definition k1 :: u64 where "k1 = 0xb492b66fbe98f273"
definition k2 :: u64 where "k2 = 0x9ae16a3b2f90404f"
definition k3 :: u64 where "k3 = 0xc949d7c7509e6557"

definition Hash128to64 :: "uint128 \<Rightarrow> u64" where
  "Hash128to64 x =
    (let kMul = 0x9ddfea08eb382d69;
         a = (first x XOR second x) * kMul;
         a = a XOR drop_bit 47 a;
         b = (second x XOR a) * kMul;
         b = b XOR drop_bit 47 b
     in b * kMul)"

definition Rotate :: "u64 \<Rightarrow> nat \<Rightarrow> u64" where
  "Rotate val shift =
    (if shift = 0 then val else drop_bit shift val OR push_bit (64 - shift) val)"

definition RotateByAtLeast1 :: "u64 \<Rightarrow> nat \<Rightarrow> u64" where
  "RotateByAtLeast1 val shift = drop_bit shift val OR push_bit (64 - shift) val"

definition ShiftMix :: "u64 \<Rightarrow> u64" where
  "ShiftMix val = val XOR drop_bit 47 val"

definition HashLen16 :: "u64 \<Rightarrow> u64 \<Rightarrow> u64" where
  "HashLen16 u v = Hash128to64 \<lparr>first = u, second = v\<rparr>"

section \<open>Short strings\<close>

definition HashLen0to16 :: "u8 list \<Rightarrow> nat \<Rightarrow> nat \<Rightarrow> u64 result" where
  "HashLen0to16 buf s len =
    (if len > 8 then
       bind_res (Fetch64 buf s) (\<lambda>a.
       bind_res (Fetch64 buf (s + len - 8)) (\<lambda>b.
       Inr (HashLen16 a (RotateByAtLeast1 (b + of_nat len) len) XOR b)))
     else if len \<ge> 4 then
       bind_res (Fetch32 buf s) (\<lambda>a.
       bind_res (Fetch32 buf (s + len - 4)) (\<lambda>b.
       Inr (HashLen16 (of_nat len + push_bit 3 (ucast a)) (ucast b))))
     else if len > 0 then
       bind_res (Fetch8 buf s) (\<lambda>a.
       bind_res (Fetch8 buf (s + len div 2)) (\<lambda>b.
       bind_res (Fetch8 buf (s + len - 1)) (\<lambda>c.
       let y = ucast a + push_bit 8 (ucast b) :: u32;
           z = of_nat len + push_bit 2 (ucast c) :: u32
       in Inr (ShiftMix (ucast y * k2 XOR ucast z * k3) * k2))))
     else Inr k2)"

definition HashLen17to32 :: "u8 list \<Rightarrow> nat \<Rightarrow> nat \<Rightarrow> u64 result" where
  "HashLen17to32 buf s len =
    bind_res (Fetch64 buf s) (\<lambda>f0.
    bind_res (Fetch64 buf (s + 8)) (\<lambda>b.
    bind_res (Fetch64 buf (s + len - 8)) (\<lambda>f2.
    bind_res (Fetch64 buf (s + len - 16)) (\<lambda>f3.
    let a = f0 * k1; c = f2 * k2; d = f3 * k0
    in Inr (HashLen16 (Rotate (a - b) 43 + Rotate c 30 + d)
                      (a + Rotate (b XOR k3) 20 - c + of_nat len))))))"

definition WeakHashLen32WithSeeds6 ::
    "u64 \<Rightarrow> u64 \<Rightarrow> u64 \<Rightarrow> u64 \<Rightarrow> u64 \<Rightarrow> u64 \<Rightarrow> uint128" where
  "WeakHashLen32WithSeeds6 w x y z a b =
    (let a = a + w;
         b = Rotate (b + a + z) 21;
         c = a;
         a = a + x;
         a = a + y;
         b = b + Rotate a 44
     in \<lparr>first = a + z, second = b + c\<rparr>)"

definition WeakHashLen32WithSeeds :: "u8 list \<Rightarrow> nat \<Rightarrow> u64 \<Rightarrow> u64 \<Rightarrow> uint128 result" where
  "WeakHashLen32WithSeeds buf s a b =
    bind_res (Fetch64 buf s) (\<lambda>w.
    bind_res (Fetch64 buf (s + 8)) (\<lambda>x.
    bind_res (Fetch64 buf (s + 16)) (\<lambda>y.
    bind_res (Fetch64 buf (s + 24)) (\<lambda>z.
    Inr (WeakHashLen32WithSeeds6 w x y z a b)))))"

definition HashLen33to64 :: "u8 list \<Rightarrow> nat \<Rightarrow> nat \<Rightarrow> u64 result" where
  "HashLen33to64 buf s len =
    bind_res (Fetch64 buf (s + 24)) (\<lambda>z.
    bind_res (Fetch64 buf s) (\<lambda>f0.
    bind_res (Fetch64 buf (s + len - 16)) (\<lambda>fm16.
    bind_res (Fetch64 buf (s + 8)) (\<lambda>f8.
    bind_res (Fetch64 buf (s + 16)) (\<lambda>f16.
    bind_res (Fetch64 buf (s + len - 32)) (\<lambda>fm32.
    bind_res (Fetch64 buf (s + len - 8)) (\<lambda>fm8.
    bind_res (Fetch64 buf (s + len - 24)) (\<lambda>fm24.
    let a = f0 + (of_nat len + fm16) * k0;
        b = Rotate (a + z) 52;
        c = Rotate a 37;
        a = a + f8;
        c = c + Rotate a 7;
        a = a + f16;
        vf = a + z;
        vs = b + Rotate a 31 + c;
        a = f16 + fm32;
        z = fm8;
        b = Rotate (a + z) 52;
        c = Rotate a 37;
        a = a + fm24;
        c = c + Rotate a 7;
        a = a + fm16;
        wf = a + z;
        ws = b + Rotate a 31 + c;
        r = ShiftMix ((vf + ws) * k2 + (wf + vs) * k0)
    in Inr (ShiftMix (r * k0 + vs) * k2)))))))))"

section \<open>Long strings\<close>

text \<open>The 56 bytes of state \<open>x\<close>, \<open>y\<close>, \<open>z\<close>, \<open>v\<close>, \<open>w\<close>, and the 64-byte round that
  \<open>CityHash64\<close> and \<open>CityHash128WithSeed\<close> share.\<close>

type_synonym city_state = "u64 \<times> u64 \<times> u64 \<times> uint128 \<times> uint128"

definition city_round :: "u8 list \<Rightarrow> nat \<Rightarrow> city_state \<Rightarrow> city_state result" where
  "city_round buf s st = (case st of (x, y, z, v, w) \<Rightarrow>
    bind_res (Fetch64 buf (s + 8)) (\<lambda>f8.
    bind_res (Fetch64 buf (s + 48)) (\<lambda>f48.
    bind_res (Fetch64 buf (s + 40)) (\<lambda>f40.
    let x = Rotate (x + y + first v + f8) 37 * k1;
        y = Rotate (y + second v + f48) 42 * k1;
        x = x XOR second w;
        y = y + (first v + f40);
        z = Rotate (z + first w) 33 * k1
    in bind_res (WeakHashLen32WithSeeds buf s (second v * k1) (x + first w)) (\<lambda>v'.
       bind_res (Fetch64 buf (s + 16)) (\<lambda>f16.
       bind_res (WeakHashLen32WithSeeds buf (s + 32) (z + second w) (y + f16)) (\<lambda>w'.
       Inr (z, y, x, v', w'))))))))"

fun city64_loop :: "u8 list \<Rightarrow> nat \<Rightarrow> nat \<Rightarrow> city_state \<Rightarrow> city_state result" where
  "city64_loop buf s len st =
    bind_res (city_round buf s st) (\<lambda>st'.
      let len' = len - 64 in if len' \<noteq> 0 then city64_loop buf (s + 64) len' st' else Inr st')"

definition CityHash64 :: "u8 list \<Rightarrow> nat \<Rightarrow> nat \<Rightarrow> u64 result" where
  "CityHash64 buf s len =
    (if len \<le> 32 then
       (if len \<le> 16 then HashLen0to16 buf s len else HashLen17to32 buf s len)
     else if len \<le> 64 then HashLen33to64 buf s len
     else
       bind_res (Fetch64 buf (s + len - 40)) (\<lambda>x.
       bind_res (Fetch64 buf (s + len - 16)) (\<lambda>fm16.
       bind_res (Fetch64 buf (s + len - 56)) (\<lambda>fm56.
       bind_res (Fetch64 buf (s + len - 48)) (\<lambda>fm48.
       bind_res (Fetch64 buf (s + len - 24)) (\<lambda>fm24.
       let y = fm16 + fm56;
           z = HashLen16 (fm48 + of_nat len) fm24
       in bind_res (WeakHashLen32WithSeeds buf (s + len - 64) (of_nat len) z) (\<lambda>v.
          bind_res (WeakHashLen32WithSeeds buf (s + len - 32) (y + k1) x) (\<lambda>w.
          bind_res (Fetch64 buf s) (\<lambda>f0.
          bind_res (city64_loop buf s ((len - 1) div 64 * 64) (x * k1 + f0, y, z, v, w))
            (\<lambda>(x, y, z, v, w).
              Inr (HashLen16 (HashLen16 (first v) (first w) + ShiftMix y * k1 + z)
                             (HashLen16 (second v) (second w) + x))))))))))))"

definition CityHash64WithSeeds :: "u8 list \<Rightarrow> nat \<Rightarrow> nat \<Rightarrow> u64 \<Rightarrow> u64 \<Rightarrow> u64 result" where
  "CityHash64WithSeeds buf s len seed0 seed1 =
    bind_res (CityHash64 buf s len) (\<lambda>h. Inr (HashLen16 (h - seed0) seed1))"

definition CityHash64WithSeed :: "u8 list \<Rightarrow> nat \<Rightarrow> nat \<Rightarrow> u64 \<Rightarrow> u64 result" where
  "CityHash64WithSeed buf s len seed = CityHash64WithSeeds buf s len k2 seed"

section \<open>128-bit hashes\<close>

fun murmur_loop :: "u8 list \<Rightarrow> nat \<Rightarrow> int \<Rightarrow> u64 \<times> u64 \<times> u64 \<times> u64 \<Rightarrow>
    (u64 \<times> u64 \<times> u64 \<times> u64) result" where
  "murmur_loop buf s l (a, b, c, d) =
    bind_res (Fetch64 buf s) (\<lambda>f0.
    bind_res (Fetch64 buf (s + 8)) (\<lambda>f8.
    let a = a XOR (ShiftMix (f0 * k1) * k1);
        a = a * k1;
        b = b XOR a;
        c = c XOR (ShiftMix (f8 * k1) * k1);
        c = c * k1;
        d = d XOR c;
        l' = l - 16
    in if l' > 0 then murmur_loop buf (s + 16) l' (a, b, c, d) else Inr (a, b, c, d)))"

definition CityMurmur :: "u8 list \<Rightarrow> nat \<Rightarrow> nat \<Rightarrow> uint128 \<Rightarrow> uint128 result" where
  "CityMurmur buf s len seed =
    (let a = first seed; b = second seed; l = int len - 16
     in bind_res
       (if l \<le> 0 then
          let a = ShiftMix (a * k1) * k1
          in bind_res (HashLen0to16 buf s len) (\<lambda>h.
             let c = b * k1 + h
             in bind_res (if len \<ge> 8 then Fetch64 buf s else Inr c) (\<lambda>f.
                Inr (a, b, c, ShiftMix (a + f))))
        else
          bind_res (Fetch64 buf (s + len - 8)) (\<lambda>fm8.
          bind_res (Fetch64 buf (s + len - 16)) (\<lambda>fm16.
          let c = HashLen16 (fm8 + k1) a;
              d = HashLen16 (b + of_nat len) (c + fm16)
          in murmur_loop buf s l (a + d, b, c, d))))
       (\<lambda>(a, b, c, d).
          let a = HashLen16 a c;
              b = HashLen16 d b
          in Inr \<lparr>first = a XOR b, second = HashLen16 b a\<rparr>))"

text \<open>The main loop consumes 128 bytes per iteration and returns the position and
  the length that are left; the tail loop then takes chunks of 32 bytes back from
  the end of the string.\<close>

fun city128_loop :: "u8 list \<Rightarrow> nat \<Rightarrow> nat \<Rightarrow> city_state \<Rightarrow> (nat \<times> nat \<times> city_state) result" where
  "city128_loop buf s len st =
    bind_res (city_round buf s st) (\<lambda>st1.
    bind_res (city_round buf (s + 64) st1) (\<lambda>st2.
      let s' = s + 128; len' = len - 128
      in if len' \<ge> 128 then city128_loop buf s' len' st2 else Inr (s', len', st2)))"

function city128_tail :: "u8 list \<Rightarrow> nat \<Rightarrow> nat \<Rightarrow> nat \<Rightarrow> city_state \<Rightarrow> city_state result" where
  "city128_tail buf s len tail_done (x, y, z, v, w) =
    (if tail_done < len then
       let td = tail_done + 32;
           y = Rotate (x + y) 42 * k0 + second v
       in bind_res (Fetch64 buf (s + len - td + 16)) (\<lambda>f16.
          let w1 = first w + f16;
              x = x * k0 + w1
          in bind_res (Fetch64 buf (s + len - td)) (\<lambda>f0.
             let z = z + (second w + f0);
                 w2 = second w + first v
             in bind_res (WeakHashLen32WithSeeds buf (s + len - td) (first v + z) (second v)) (\<lambda>v'.
                city128_tail buf s len td (x, y, z, v', \<lparr>first = w1, second = w2\<rparr>))))
     else Inr (x, y, z, v, w))"
  by pat_completeness auto
termination by (relation "measure (\<lambda>(buf, s, len, td, st). len - td)") auto

definition CityHash128WithSeed :: "u8 list \<Rightarrow> nat \<Rightarrow> nat \<Rightarrow> uint128 \<Rightarrow> uint128 result" where
  "CityHash128WithSeed buf s len seed =
    (if len < 128 then CityMurmur buf s len seed
     else
       let x = first seed; y = second seed; z = of_nat len * k1
       in bind_res (Fetch64 buf s) (\<lambda>f0.
          bind_res (Fetch64 buf (s + 8)) (\<lambda>f8.
          bind_res (Fetch64 buf (s + 88)) (\<lambda>f88.
          let v1 = Rotate (y XOR k1) 49 * k1 + f0;
              v2 = Rotate v1 42 * k1 + f8;
              w1 = Rotate (y + z) 35 * k1 + x;
              w2 = Rotate (x + f88) 53 * k1
          in bind_res (city128_loop buf s len
               (x, y, z, \<lparr>first = v1, second = v2\<rparr>, \<lparr>first = w1, second = w2\<rparr>))
             (\<lambda>(s, len, x, y, z, v, w).
               let x = x + Rotate (first v + z) 49 * k0;
                   z = z + Rotate (first w) 37 * k0
               in bind_res (city128_tail buf s len 0 (x, y, z, v, w)) (\<lambda>(x, y, z, v, w).
                  let x = HashLen16 x (first v);
                      y = HashLen16 (y + z) (first w)
                  in Inr \<lparr>first = HashLen16 (x + second v) (second w) + y,
                          second = HashLen16 (x + second w) (y + second v)\<rparr>))))))"

definition CityHash128 :: "u8 list \<Rightarrow> nat \<Rightarrow> nat \<Rightarrow> uint128 result" where
  "CityHash128 buf s len =
    (if len \<ge> 16 then
       bind_res (Fetch64 buf s) (\<lambda>f0.
       bind_res (Fetch64 buf (s + 8)) (\<lambda>f8.
       CityHash128WithSeed buf (s + 16) (len - 16) \<lparr>first = f0 XOR k3, second = f8\<rparr>))
     else if len \<ge> 8 then
       bind_res (Fetch64 buf s) (\<lambda>f0.
       bind_res (Fetch64 buf (s + len - 8)) (\<lambda>fm8.
       CityHash128WithSeed [] 0 0 \<lparr>first = f0 XOR (of_nat len * k0), second = fm8 XOR k1\<rparr>))
     else CityHash128WithSeed buf s len \<lparr>first = k0, second = k1\<rparr>)"

declare city64_loop.simps [simp del] murmur_loop.simps [simp del]
  city128_loop.simps [simp del] city128_tail.simps [simp del]

section \<open>Every load stays inside the string\<close>

lemma Fetch_inside [returns_intro]:
  "p + 8 \<le> length buf \<Longrightarrow> returns (Fetch64 buf p)"
  "p + 4 \<le> length buf \<Longrightarrow> returns (Fetch32 buf p)"
  "p < length buf \<Longrightarrow> returns (Fetch8 buf p)"
  by (simp_all add: Fetch64_def Fetch32_def Fetch8_def mem_read_def)

lemma HashLen0to16_safe [returns_intro]:
  "s + len \<le> length buf \<Longrightarrow> returns (HashLen0to16 buf s len)"
proof -
  assume a: "s + len \<le> length buf"
  have d: "len > 0 \<Longrightarrow> len div 2 < len" by simp
  show ?thesis
    unfolding HashLen0to16_def using a d by (intro returns_intro; linarith)
qed

lemma HashLen17to32_safe [returns_intro]:
  "s + len \<le> length buf \<Longrightarrow> 16 \<le> len \<Longrightarrow> returns (HashLen17to32 buf s len)"
  unfolding HashLen17to32_def by (intro returns_intro; linarith)

lemma WeakHashLen32WithSeeds_safe [returns_intro]:
  "s + 32 \<le> length buf \<Longrightarrow> returns (WeakHashLen32WithSeeds buf s a b)"
  unfolding WeakHashLen32WithSeeds_def by (intro returns_intro; linarith)

lemma HashLen33to64_safe [returns_intro]:
  "s + len \<le> length buf \<Longrightarrow> 32 \<le> len \<Longrightarrow> returns (HashLen33to64 buf s len)"
  unfolding HashLen33to64_def by (intro returns_intro; linarith)

lemma city_round_safe [returns_intro]:
  "s + 64 \<le> length buf \<Longrightarrow> returns (city_round buf s st)"
  unfolding city_round_def by (intro returns_intro; linarith)

lemma city64_loop_safe:
  assumes "s + len \<le> length buf" and "64 dvd len" and "0 < len"
  shows "returns (city64_loop buf s len st)"
  using assms
proof (induction buf s len st rule: city64_loop.induct)
  case (1 buf s len st)
  have len: "64 \<le> len" using "1.prems" by (auto dest: dvd_imp_le)
  show ?case
  proof (subst city64_loop.simps, intro returns_intro)
    show "s + 64 \<le> length buf" using "1.prems" len by simp
    fix st1 l assume st1: "city_round buf s st = Inr st1" and l: "l = len - 64" "l \<noteq> 0"
    show "returns (city64_loop buf (s + 64) l st1)"
      using "1.prems" len l by (intro "1.IH"[OF st1 l(1)]) (auto simp: dvd_diff_nat)
  qed
qed

lemma CityHash64_safe:
  assumes "s + len \<le> length buf"
  shows "returns (CityHash64 buf s len)"
proof (cases "len \<le> 64")
  case True
  with assms show ?thesis
    unfolding CityHash64_def by (intro returns_intro; linarith)
next
  case False
  let ?n = "(len - 1) div 64 * 64"
  have n: "?n \<le> len" "0 < ?n" "64 dvd ?n" using False by (auto simp: div_greater_zero_iff)
  have "s + ?n \<le> length buf" using assms n(1) by linarith
  with n have loop: "returns (city64_loop buf s ?n st)" for st
    by (intro city64_loop_safe) auto
  show ?thesis
    unfolding CityHash64_def using assms False
    by (intro returns_intro loop; linarith)
qed

lemma murmur_loop_safe:
  assumes "int s + l + 15 \<le> int (length buf)" and "0 < l"
  shows "returns (murmur_loop buf s l st)"
  using assms
proof (induction buf s l st rule: murmur_loop.induct)
  case (1 buf s l a b c d)
  show ?case
  proof (subst murmur_loop.simps, intro returns_intro)
    show "s + 8 \<le> length buf" "s + 8 + 8 \<le> length buf" using "1.prems" by linarith+
  next
    fix f0 f8 a' a'' b' c' c'' d' l'
    assume *: "Fetch64 buf s = Inr f0" "Fetch64 buf (s + 8) = Inr f8"
      "a' = a XOR (ShiftMix (f0 * k1) * k1)" "a'' = a' * k1" "b' = b XOR a''"
      "c' = c XOR (ShiftMix (f8 * k1) * k1)" "c'' = c' * k1" "d' = d XOR c''"
      "l' = l - 16" "0 < l'"
    show "returns (murmur_loop buf (s + 16) l' (a'', b', c'', d'))"
      using "1.prems" *(9,10) by (intro "1.IH"[OF *]) linarith+
  qed
qed

lemma CityMurmur_safe [returns_intro]:
  assumes "s + len \<le> length buf"
  shows "returns (CityMurmur buf s len seed)"
proof -
  have loop: "int len - 16 > 0 \<Longrightarrow> returns (murmur_loop buf s (int len - 16) st)" for st
    using assms by (intro murmur_loop_safe) linarith+
  show ?thesis
    unfolding CityMurmur_def Let_def using assms
    by (intro returns_intro loop; linarith)
qed

lemma city128_loop_safe:
  assumes "s + len \<le> length buf" and "128 \<le> len"
  shows "returns (city128_loop buf s len st)"
  using assms
proof (induction buf s len st rule: city128_loop.induct)
  case (1 buf s len st)
  show ?case
  proof (subst city128_loop.simps, intro returns_intro)
    show "s + 64 \<le> length buf" "s + 64 + 64 \<le> length buf" using "1.prems" by linarith+
  next
    fix st1 st2 s' len'
    assume *: "city_round buf s st = Inr st1" "city_round buf (s + 64) st1 = Inr st2"
      "s' = s + 128" "len' = len - 128" "128 \<le> len'"
    show "returns (city128_loop buf s' len' st2)"
      using "1.prems" *(3-5) by (intro "1.IH"[OF *]) linarith+
  qed
qed

lemma city128_loop_bounds:
  assumes "city128_loop buf s len st = Inr (s', len', st')" and "128 \<le> len"
  shows "s' + len' = s + len \<and> 128 \<le> s' \<and> len' < 128"
  using assms
proof (induction buf s len st rule: city128_loop.induct)
  case (1 buf s len st)
  from "1.prems"(1) obtain st1 st2 where r: "city_round buf s st = Inr st1"
    "city_round buf (s + 64) st1 = Inr st2"
    by (subst (asm) city128_loop.simps) (auto simp: res_simps)
  show ?case
  proof (cases "128 \<le> len - 128")
    case True
    with "1.prems"(1) have "city128_loop buf (s + 128) (len - 128) st2 = Inr (s', len', st')"
      by (subst (asm) city128_loop.simps) (simp add: r Let_def)
    with "1.IH"[OF r refl refl True] True show ?thesis by simp
  next
    case False
    with "1.prems" show ?thesis by (subst (asm) city128_loop.simps) (auto simp: r Let_def)
  qed
qed

lemma city128_tail_safe:
  assumes "s + len \<le> length buf" and "32 \<le> s"
  shows "returns (city128_tail buf s len td st)"
  using assms
proof (induction buf s len td st rule: city128_tail.induct)
  case (1 buf s len td x y z v w)
  show ?case
  proof (subst city128_tail.simps, intro returns_intro)
    fix td' assume "td < len" "td' = td + 32"
    then show "s + len - td' + 16 + 8 \<le> length buf" "s + len - td' + 8 \<le> length buf"
      "s + len - td' + 32 \<le> length buf"
      using "1.prems" by linarith+
  next
    fix td' y' f16 w1 x' f0 z' w2 v'
    assume *: "td < len" "td' = td + 32" "y' = Rotate (x + y) 42 * k0 + second v"
      "Fetch64 buf (s + len - td' + 16) = Inr f16" "w1 = first w + f16" "x' = x * k0 + w1"
      "Fetch64 buf (s + len - td') = Inr f0" "z' = z + (second w + f0)"
      "w2 = second w + first v"
      "WeakHashLen32WithSeeds buf (s + len - td') (first v + z') (second v) = Inr v'"
    show "returns (city128_tail buf s len td' (x', y', z', v', \<lparr>first = w1, second = w2\<rparr>))"
      using "1.prems" by (intro "1.IH"[OF *])
  qed
qed

lemma CityHash128WithSeed_safe [returns_intro]:
  assumes "s + len \<le> length buf"
  shows "returns (CityHash128WithSeed buf s len seed)"
proof (cases "len < 128")
  case True
  with assms show ?thesis by (simp add: CityHash128WithSeed_def CityMurmur_safe)
next
  case False
  have loop: "returns (city128_loop buf s len st)" for st
    using assms False by (intro city128_loop_safe) simp_all
  have tail: "returns (city128_tail buf s' len' 0 st')"
    if "city128_loop buf s len st = Inr (s', len', st'')" for s' len' st st' st''
    using city128_loop_bounds[OF that] False assms by (intro city128_tail_safe) linarith+
  show ?thesis
    unfolding CityHash128WithSeed_def Let_def using assms False
    by (intro returns_intro loop; (simp; fail)?; (linarith)?) (auto intro!: returns_intro tail)
qed

end
