(* ===== verification/Mica.thy ===== *)
theory Mica
  imports Layout City
begin

text \<open>
  The MICA key-value store (\<open>mica.c\<close>): a hash index of eight-slot buckets over a
  circular log of bytes.  A slot holds the tag of a key and the virtual offset of
  its entry in the log; the log is written at its head, which grows for ever and
  is masked down to a physical position.  The same store backs both the cache and
  the store of the workers.
\<close>

section \<open>Index and log\<close>

record mica_slot =
  in_use :: "1 word"
  slot_tag :: "23 word"
  offset :: "40 word"

type_synonym mica_bkt = "mica_slot list"

record mica_kv =
  ht_index :: "mica_bkt list"
  ht_log :: "u8 list"
  instance_id :: int
  node_id :: int
  num_bkts :: int
  bkt_mask :: u32
  log_cap :: u64
  log_mask :: u64
  log_head :: u64
  num_get_op :: int
  num_put_op :: int
  num_get_fail :: int
  num_put_fail :: int
  num_insert_op :: int
  num_index_evictions :: int

definition is_power_of_2 :: "int \<Rightarrow> bool" where
  "is_power_of_2 x \<longleftrightarrow>
    x = 1 \<or> x = 2 \<or> x = 4 \<or> x = 8 \<or> x = 16 \<or> x = 32 \<or>
    x = 64 \<or> x = 128 \<or> x = 256 \<or> x = 512 \<or> x = 1024 \<or>
    x = 2048 \<or> x = 4096 \<or> x = 8192 \<or> x = 16384 \<or>
    x = 32768 \<or> x = 65536 \<or> x = 131072 \<or> x = 262144 \<or>
    x = 524288 \<or> x = 1048576 \<or> x = 2097152 \<or>
    x = 4194304 \<or> x = 8388608 \<or> x = 16777216 \<or>
    x = 33554432 \<or> x = 67108864 \<or> x = 134217728 \<or>
    x = 268435456 \<or> x = 536870912 \<or> x = 1073741824"

text \<open>
  \<open>mica_init\<close>.  The two shared-memory segments it asks for are arguments of the
  model, with whatever contents the operating system gives them; initialisation
  clears the use bit of every slot and leaves the rest.
\<close>

definition mica_init ::
    "int \<Rightarrow> int \<Rightarrow> int \<Rightarrow> u64 \<Rightarrow> mica_bkt list \<Rightarrow> u8 list \<Rightarrow> mica_kv result" where
  "mica_init instance node bkts cap index_mem log_mem =
    assert_res (node = 0 \<or> node = 1)
    (assert_res (is_power_of_2 bkts \<and> bkts \<le> 16777216)
    (assert_res (MICA_LOG_BITS \<ge> 24)
    (Inr \<lparr>ht_index = map (map (\<lambda>s. s\<lparr>in_use := 0\<rparr>)) index_mem, ht_log = log_mem,
      instance_id = instance, node_id = node,
      num_bkts = bkts, bkt_mask = of_int (bkts - 1),
      log_cap = cap, log_mask = cap - 1, log_head = 0,
      num_get_op = 0, num_put_op = 0, num_get_fail = 0, num_put_fail = 0,
      num_insert_op = 0, num_index_evictions = 0\<rparr>)))"

section \<open>Inserting\<close>

text \<open>The slot loop: the last slot that carries the tag or is free, if any.\<close>

definition slot_usable :: "mica_bkt \<Rightarrow> u32 \<Rightarrow> nat \<Rightarrow> bool" where
  "slot_usable b t i \<longleftrightarrow> ucast (slot_tag (b ! i)) = t \<or> in_use (b ! i) = 0"

definition slot_to_use :: "mica_bkt \<Rightarrow> u32 \<Rightarrow> nat option" where
  "slot_to_use b t = fold (\<lambda>i s. if slot_usable b t i then Some i else s) [0..<8] None"

definition slot_to_evict :: "u32 \<Rightarrow> nat" where
  "slot_to_evict t = unat (t AND 7)"

definition encode_slot :: "mica_bkt \<Rightarrow> u32 \<Rightarrow> u64 \<Rightarrow> mica_bkt" where
  "encode_slot b t head =
    (let i = (case slot_to_use b t of Some i \<Rightarrow> i | None \<Rightarrow> slot_to_evict t)
     in b[i := \<lparr>in_use = 1, slot_tag = ucast t, offset = ucast head\<rparr>])"

text \<open>Pasting \<open>len\<close> bytes of an object at the head of the log, aligning the head,
  and wrapping it when it comes close to the physical end.\<close>

definition advance_head :: "u64 \<Rightarrow> u64 \<Rightarrow> u64 \<Rightarrow> nat \<Rightarrow> u64" where
  "advance_head cap msk head len =
    (let head = head + of_nat len;
         head = (head + 7) AND NOT 7
     in if cap - head \<le> of_nat (MICA_MAX_VALUE + 32)
        then (head + cap) AND NOT msk else head)"

definition log_append :: "mica_kv \<Rightarrow> mica_op \<Rightarrow> nat \<Rightarrow> mica_kv result" where
  "log_append kv op len =
    assert_res (push_bit MICA_LOG_BITS 1 - log_head kv > of_nat (len + 8))
    (if len \<le> length (encode_op op) then
       bind_res (mem_write (ht_log kv) (unat (log_head kv AND log_mask kv)) (take len (encode_op op)))
         (\<lambda>l. Inr (kv\<lparr>ht_log := l,
            log_head := advance_head (log_cap kv) (log_mask kv) (log_head kv) len\<rparr>))
     else Inl Out_Of_Bounds)"

definition index_insert :: "mica_kv \<Rightarrow> cache_key \<Rightarrow> mica_kv result" where
  "index_insert kv k =
    (let i = unat (bkt k AND bkt_mask kv); t = ucast (tag k)
     in if i < length (ht_index kv) then
          let b = ht_index kv ! i
          in Inr (kv\<lparr>num_insert_op := num_insert_op kv + 1,
                num_index_evictions := num_index_evictions kv +
                  (if slot_to_use b t = None then 1 else 0),
                ht_index := (ht_index kv)[i := encode_slot b t (log_head kv)]\<rparr>)
        else Inl Out_Of_Bounds)"

definition mica_insert_one :: "mica_kv \<Rightarrow> mica_op \<Rightarrow> mica_kv result" where
  "mica_insert_one kv op =
    bind_res (index_insert kv (key op)) (\<lambda>kv.
      log_append kv op (KEY_SIZE + 1 + 1 + HERD_VALUE_SIZE))"

section \<open>Looking up\<close>

text \<open>The slot loop of the lookups: the first slot in use with the tag; an entry the
  head of the log has gone past is not found.\<close>

definition slot_hit :: "mica_bkt \<Rightarrow> u32 \<Rightarrow> nat \<Rightarrow> bool" where
  "slot_hit b t j \<longleftrightarrow> in_use (b ! j) = 1 \<and> ucast (slot_tag (b ! j)) = t"

definition bkt_find :: "mica_bkt \<Rightarrow> u32 \<Rightarrow> (40 word) option" where
  "bkt_find b t = map_option (\<lambda>j. offset (b ! j)) (find (slot_hit b t) [0..<8])"

definition kv_ptr :: "mica_kv \<Rightarrow> cache_key \<Rightarrow> nat option" where
  "kv_ptr kv k =
    (case bkt_find (ht_index kv ! unat (bkt k AND bkt_mask kv)) (ucast (tag k)) of
       None \<Rightarrow> None
     | Some off \<Rightarrow>
         if log_head kv - ucast off \<ge> log_cap kv then None
         else Some (unat (ucast off AND log_mask kv)))"

text \<open>The comparison of the log entry with the request, which ends every lookup.\<close>

definition entry_at :: "mica_kv \<Rightarrow> nat option \<Rightarrow> cache_key \<Rightarrow> (nat \<times> cache_op) option result" where
  "entry_at kv p k =
    (case p of None \<Rightarrow> Inr None
     | Some off \<Rightarrow> bind_res (read_op (ht_log kv) off) (\<lambda>e.
         Inr (if key_word (key e) = key_word k then Some (off, e) else None)))"

definition mica_lookup :: "mica_kv \<Rightarrow> cache_key \<Rightarrow> (nat \<times> cache_op) option result" where
  "mica_lookup kv k = entry_at kv (kv_ptr kv k) k"

section \<open>Batches\<close>

text \<open>The address of the value field of the entry at a log position.\<close>

definition value_addr :: "nat \<Rightarrow> nat" where
  "value_addr off = off + 18"

definition mica_op_hit :: "mica_kv \<Rightarrow> nat \<Rightarrow> cache_op \<Rightarrow> mica_op \<Rightarrow> (mica_kv \<times> mica_resp) result" where
  "mica_op_hit kv off e op =
    (if opcode op = MICA_OP_GET then
       Inr (kv\<lparr>num_get_op := num_get_op kv + 1\<rparr>,
            \<lparr>rtype = MICA_RESP_GET_SUCCESS, rval_len = val_len e, val_ptr = Some (value_addr off)\<rparr>)
     else if opcode op = MICA_OP_PUT then
       assert_res (val_len op = val_len e)
       (bind_res (copy_value (unat (val_len e)) (value op) (value e)) (\<lambda>v.
        bind_res (write_op (ht_log kv) off (e\<lparr>value := v\<rparr>)) (\<lambda>l.
        Inr (kv\<lparr>num_put_op := num_put_op kv + 1, ht_log := l\<rparr>,
             \<lparr>rtype = MICA_RESP_PUT_SUCCESS, rval_len = 0, val_ptr = None\<rparr>))))
     else Inl Assert_Failed)"

definition mica_op_miss :: "mica_kv \<Rightarrow> mica_op \<Rightarrow> (mica_kv \<times> mica_resp) result" where
  "mica_op_miss kv op =
    (if opcode op = MICA_OP_GET then
       Inr (kv\<lparr>num_get_fail := num_get_fail kv + 1\<rparr>,
            \<lparr>rtype = MICA_RESP_GET_FAIL, rval_len = 0, val_ptr = None\<rparr>)
     else
       bind_res (mica_insert_one kv op) (\<lambda>kv.
         Inr (kv, \<lparr>rtype = MICA_RESP_PUT_SUCCESS, rval_len = 0, val_ptr = None\<rparr>)))"

definition mica_step :: "mica_op \<times> nat option \<Rightarrow> mica_kv \<times> mica_resp list \<Rightarrow>
    (mica_kv \<times> mica_resp list) result" where
  "mica_step = (\<lambda>(op, p) (kv, rs).
    bind_res (entry_at kv p (key op)) (\<lambda>hit.
    bind_res (case hit of Some (off, e) \<Rightarrow> mica_op_hit kv off e op | None \<Rightarrow> mica_op_miss kv op)
      (\<lambda>(kv, r). Inr (kv, rs @ [r]))))"

text \<open>All lookups of a batch precede its first operation.\<close>

definition mica_batch_op :: "mica_kv \<Rightarrow> mica_op list \<Rightarrow> (mica_kv \<times> mica_resp list) result" where
  "mica_batch_op kv ops =
    (if length ops \<le> MICA_MAX_BATCH_SIZE
     then fold_res mica_step (zip ops (map (\<lambda>op. kv_ptr kv (key op)) ops)) (kv, [])
     else Inl Out_Of_Bounds)"

section \<open>Populating\<close>

definition mica_gen_keys :: "int \<Rightarrow> uint128 list result" where
  "mica_gen_keys n =
    assert_res (n > 0 \<and> n \<le> 1073741824 div 16)
    (fold_res (\<lambda>i ks. bind_res (CityHash128 (bytes32 (of_nat i)) 0 4) (\<lambda>h. Inr (ks @ [h])))
       [0..<nat n] [])"

text \<open>The object inserted for one key: the first word of the hash over the metadata,
  the second over the rest of the key, every byte of the value equal to the least
  significant byte of the key.  The bytes behind the value stay as the previous
  iteration left them.\<close>

definition populate_op :: "nat \<Rightarrow> mica_op \<Rightarrow> uint128 \<Rightarrow> mica_op" where
  "populate_op len op k =
     op\<lparr>key := set_key_word (second k) (set_meta_word (first k) (key op)),
        opcode := MICA_OP_PUT,
        val_len := of_nat (len div 2 ^ SHIFT_BITS),
        value := replicate len (ucast (second k AND 0xff)) @ drop len (value op)\<rparr>"

definition mica_populate_fixed_len :: "mica_kv \<Rightarrow> int \<Rightarrow> int \<Rightarrow> mica_op \<Rightarrow> mica_kv result" where
  "mica_populate_fixed_len kv n len op0 =
    assert_res (n > 0)
    (assert_res (len > 0 \<and> len \<le> int MICA_MAX_VALUE)
    (assert_res (num_insert_op kv = 0 \<and> num_index_evictions kv = 0)
    (bind_res (mica_gen_keys n) (\<lambda>ks.
     bind_res (fold_res (\<lambda>k (kv, op).
         let op = populate_op (nat len) op k
         in bind_res (mica_insert_one kv op) (\<lambda>kv. Inr (kv, op))) ks (kv, op0))
       (\<lambda>(kv, op). assert_res (num_insert_op kv = n) (Inr kv))))))"

section \<open>Buckets\<close>

text \<open>
  A bucket is well formed when its used slots form a suffix of the eight and carry
  different tags.  (The slot loop of the insertion does not stop at the first
  usable slot, so a bucket fills from its last slot downwards.)
\<close>

definition bkt_wf :: "mica_bkt \<Rightarrow> bool" where
  "bkt_wf b \<longleftrightarrow> length b = 8 \<and>
    (\<forall>i j. i < j \<longrightarrow> j < 8 \<longrightarrow> in_use (b ! i) = 1 \<longrightarrow> in_use (b ! j) = 1) \<and>
    (\<forall>i < 8. \<forall>j < 8. in_use (b ! i) = 1 \<longrightarrow> in_use (b ! j) = 1 \<longrightarrow>
       slot_tag (b ! i) = slot_tag (b ! j) \<longrightarrow> i = j)"

definition bkt_full :: "mica_bkt \<Rightarrow> bool" where
  "bkt_full b \<longleftrightarrow> (\<forall>i < 8. in_use (b ! i) = 1)"

lemma in_use_cases: "in_use s = 0 \<or> in_use s = 1"
proof -
  have "uint (in_use s) < 2" using uint_lt2p[of "in_use s"] by simp
  moreover have "0 \<le> uint (in_use s)" by simp
  ultimately have "uint (in_use s) = 0 \<or> uint (in_use s) = 1" by linarith
  then show ?thesis by (auto simp: word_uint_eq_iff)
qed

lemma in_use_not_0 [simp]: "in_use s \<noteq> 0 \<longleftrightarrow> in_use s = 1" "in_use s \<noteq> 1 \<longleftrightarrow> in_use s = 0"
  using in_use_cases[of s] by auto

lemma fold_last_aux:
  "fold (\<lambda>i s. if P i then Some i else s) [0..<n] None = None \<longleftrightarrow> (\<forall>i<n. \<not> P i)"
  "fold (\<lambda>i s. if P i then Some i else s) [0..<n] None = Some m \<longleftrightarrow>
   m < n \<and> P m \<and> (\<forall>k. m < k \<longrightarrow> k < n \<longrightarrow> \<not> P k)"
  by (induction n) (auto simp: less_Suc_eq)

lemma slot_to_use_None: "slot_to_use b t = None \<longleftrightarrow> (\<forall>i<8. \<not> slot_usable b t i)"
  unfolding slot_to_use_def by (rule fold_last_aux)

lemma slot_to_use_Some: "slot_to_use b t = Some m \<longleftrightarrow>
   m < 8 \<and> slot_usable b t m \<and> (\<forall>k. m < k \<longrightarrow> k < 8 \<longrightarrow> \<not> slot_usable b t k)"
  unfolding slot_to_use_def by (rule fold_last_aux)

lemma slot_to_evict_less: "slot_to_evict t < 8"
proof -
  have "t AND 7 \<le> 7" by (rule word_and_le1)
  then show ?thesis by (simp add: slot_to_evict_def word_le_nat_alt)
qed

lemma tag23: "(t :: u32) < 2 ^ 23 \<Longrightarrow> ucast (ucast t :: 23 word) = t"
  by (simp add: word_unat_eq_iff word_conv word_less_nat_alt)

lemma tag16_less [simp]: "(ucast (w :: u16) :: u32) < 2 ^ 23"
  using unat_bound[of w] by (simp add: word_less_nat_alt word_conv)

lemma tag16_23 [simp]: "ucast (ucast (ucast (w :: u16) :: u32) :: 23 word) = (ucast w :: u32)"
  by (rule tag23[OF tag16_less])

lemma ucast_slot_tag_eq: "(ucast (a :: 23 word) :: u32) = ucast b \<longleftrightarrow> a = b"
  using unat_bound[of a] unat_bound[of b] by (simp add: word_unat_eq_iff word_conv)

lemma slot_hit_unique:
  "bkt_wf b \<Longrightarrow> slot_hit b t i \<Longrightarrow> slot_hit b t j \<Longrightarrow> i < 8 \<Longrightarrow> j < 8 \<Longrightarrow> i = j"
  by (auto simp: bkt_wf_def slot_hit_def simp flip: ucast_slot_tag_eq)

lemma bkt_find_None: "bkt_find b t = None \<longleftrightarrow> (\<forall>j<8. \<not> slot_hit b t j)"
  by (auto simp: bkt_find_def find_None_iff)

lemma bkt_find_hit:
  assumes "bkt_wf b" and "slot_hit b t j" and "j < 8"
  shows "bkt_find b t = Some (offset (b ! j))"
proof -
  from assms have "find (slot_hit b t) [0..<8] \<noteq> None" by (auto simp: find_None_iff)
  then obtain i where i: "find (slot_hit b t) [0..<8] = Some i" by auto
  then have "slot_hit b t i" "i < 8" by (auto simp: find_Some_iff)
  with assms have "i = j" by (intro slot_hit_unique)
  with i show ?thesis by (simp add: bkt_find_def)
qed

lemma bkt_find_cong:
  assumes "bkt_wf b" and "bkt_wf b'"
    and "\<And>j. j < 8 \<Longrightarrow> slot_hit b t j \<longleftrightarrow> slot_hit b' t j"
    and "\<And>j. j < 8 \<Longrightarrow> slot_hit b t j \<Longrightarrow> offset (b ! j) = offset (b' ! j)"
  shows "bkt_find b t = bkt_find b' t"
proof (cases "\<exists>j<8. slot_hit b t j")
  case True
  then obtain j where j: "j < 8" "slot_hit b t j" by blast
  with assms(3) have "slot_hit b' t j" by simp
  with bkt_find_hit[OF assms(1) j(2,1)] bkt_find_hit[OF assms(2) _ j(1)] assms(4)[OF j]
  show ?thesis by simp
next
  case False
  with assms(3) have "bkt_find b t = None" "bkt_find b' t = None"
    by (auto simp: bkt_find_None)
  then show ?thesis by simp
qed

text \<open>The slot an insertion writes: every slot above it is in use, and no other slot
  carries the tag.\<close>

definition chosen_slot :: "mica_bkt \<Rightarrow> u32 \<Rightarrow> nat" where
  "chosen_slot b t = (case slot_to_use b t of Some i \<Rightarrow> i | None \<Rightarrow> slot_to_evict t)"

lemma encode_slot_eq:
  "encode_slot b t head =
   b[chosen_slot b t := \<lparr>in_use = 1, slot_tag = ucast t, offset = ucast head\<rparr>]"
  by (simp add: encode_slot_def chosen_slot_def Let_def)

lemma chosen_slot_less: "chosen_slot b t < 8"
  using slot_to_evict_less slot_to_use_Some[of b t]
  by (auto simp: chosen_slot_def split: option.splits)

lemma chosen_slot_above:
  assumes "bkt_wf b" and "chosen_slot b t < j" and "j < 8"
  shows "in_use (b ! j) = 1"
proof (cases "slot_to_use b t")
  case None
  with assms(3) show ?thesis by (auto simp: slot_to_use_None slot_usable_def)
next
  case (Some i)
  with assms have "\<not> slot_usable b t j" by (simp add: slot_to_use_Some chosen_slot_def)
  then show ?thesis by (simp add: slot_usable_def)
qed

lemma chosen_slot_other:
  assumes "bkt_wf b" and "j < 8" and "j \<noteq> chosen_slot b t"
  shows "\<not> slot_hit b t j"
proof
  assume hit: "slot_hit b t j"
  then have "slot_usable b t j" by (simp add: slot_usable_def slot_hit_def)
  with assms(2) obtain i where i: "slot_to_use b t = Some i"
    by (cases "slot_to_use b t") (auto simp: slot_to_use_None)
  with assms(3) have ij: "j \<noteq> i" by (simp add: chosen_slot_def)
  from i have i': "i < 8" "slot_usable b t i" "\<And>k. i < k \<Longrightarrow> k < 8 \<Longrightarrow> \<not> slot_usable b t k"
    by (auto simp: slot_to_use_Some)
  from i'(3)[of j] assms(2) \<open>slot_usable b t j\<close> ij have "j < i" by linarith
  with assms(1) hit i'(1) have "in_use (b ! i) = 1" by (auto simp: bkt_wf_def slot_hit_def)
  with i'(2) have "slot_hit b t i" by (simp add: slot_usable_def slot_hit_def)
  with slot_hit_unique[OF assms(1) hit] assms(2) i'(1) ij show False by blast
qed

lemma encode_slot_wf:
  assumes "bkt_wf b" and "t < 2 ^ 23"
  shows "bkt_wf (encode_slot b t head)"
proof -
  let ?i = "chosen_slot b t"
  have len: "length b = 8" using assms(1) by (simp add: bkt_wf_def)
  have other: "slot_tag (b ! j) \<noteq> ucast t" if "j < 8" "j \<noteq> ?i" "in_use (b ! j) = 1" for j
    using chosen_slot_other[OF assms(1) that(1,2)] that(3) tag23[OF assms(2)]
    by (auto simp: slot_hit_def)
  show ?thesis
    unfolding encode_slot_eq bkt_wf_def
  proof (intro conjI allI impI)
    fix i j :: nat
    assume "i < j" "j < 8"
      "in_use (b[?i := \<lparr>in_use = 1, slot_tag = ucast t, offset = ucast head\<rparr>] ! i) = 1"
    then show "in_use (b[?i := \<lparr>in_use = 1, slot_tag = ucast t, offset = ucast head\<rparr>] ! j) = 1"
      using assms(1) chosen_slot_above[OF assms(1), of t j] len chosen_slot_less[of b t]
      by (auto simp: nth_list_update bkt_wf_def split: if_splits)
  next
    fix i j :: nat
    assume "i < 8" "j < 8"
      "in_use (b[?i := \<lparr>in_use = 1, slot_tag = ucast t, offset = ucast head\<rparr>] ! i) = 1"
      "in_use (b[?i := \<lparr>in_use = 1, slot_tag = ucast t, offset = ucast head\<rparr>] ! j) = 1"
      "slot_tag (b[?i := \<lparr>in_use = 1, slot_tag = ucast t, offset = ucast head\<rparr>] ! i) =
       slot_tag (b[?i := \<lparr>in_use = 1, slot_tag = ucast t, offset = ucast head\<rparr>] ! j)"
    then show "i = j"
      using assms(1) other[of i] other[of j] len chosen_slot_less[of b t]
      by (auto simp: nth_list_update bkt_wf_def split: if_splits)
  qed (simp add: len)
qed

lemma slot_hit_encode:
  assumes "bkt_wf b" and "t < 2 ^ 23" and "j < 8"
  shows "slot_hit (encode_slot b t head) t' j \<longleftrightarrow>
         (if j = chosen_slot b t then t' = t else slot_hit b t' j)"
  using assms tag23[OF assms(2)]
  by (auto simp: encode_slot_eq slot_hit_def bkt_wf_def nth_list_update)

lemma bkt_find_encode_same:
  assumes "bkt_wf b" and "t < 2 ^ 23"
  shows "bkt_find (encode_slot b t head) t = Some (ucast head)"
proof -
  let ?i = "chosen_slot b t"
  have "slot_hit (encode_slot b t head) t ?i"
    by (simp add: slot_hit_encode[OF assms chosen_slot_less])
  from bkt_find_hit[OF encode_slot_wf[OF assms] this chosen_slot_less]
  show ?thesis using assms(1) chosen_slot_less[of b t]
    by (simp add: encode_slot_eq bkt_wf_def)
qed

text \<open>An insertion into a full bucket that does not hold the tag evicts the key of
  one slot; no other key is affected.\<close>

definition evicts :: "mica_bkt \<Rightarrow> u32 \<Rightarrow> u32 \<Rightarrow> bool" where
  "evicts b t t' \<longleftrightarrow> slot_to_use b t = None \<and> slot_hit b t' (slot_to_evict t)"

lemma bkt_find_encode_other:
  assumes "bkt_wf b" and "t < 2 ^ 23" and "t' \<noteq> t" and "\<not> evicts b t t'"
  shows "bkt_find (encode_slot b t head) t' = bkt_find b t'"
proof (rule bkt_find_cong[symmetric])
  have no: "\<not> slot_hit b t' (chosen_slot b t)"
  proof (cases "slot_to_use b t")
    case None
    with assms(4) show ?thesis by (simp add: evicts_def chosen_slot_def)
  next
    case (Some i)
    then have "slot_usable b t i" by (simp add: slot_to_use_Some)
    with Some assms(3) show ?thesis by (auto simp: chosen_slot_def slot_usable_def slot_hit_def)
  qed
  fix j :: nat assume j: "j < 8"
  show "slot_hit b t' j \<longleftrightarrow> slot_hit (encode_slot b t head) t' j"
    using no assms(3) by (auto simp: slot_hit_encode[OF assms(1,2) j])
  assume "slot_hit b t' j"
  with no have "j \<noteq> chosen_slot b t" by auto
  then show "offset (b ! j) = offset (encode_slot b t head ! j)" by (simp add: encode_slot_eq)
qed (use assms encode_slot_wf in auto)

end
