(* ===== verification/Interfaces.thy ===== *)
theory Interfaces
  imports Prelude
begin

text \<open>
  The contracts between the components, as locales: a bucketed store that the
  loaders of the system fill (\<open>bucket_store\<close>), a register in which the last writer
  wins (\<open>lww_register\<close>), and a transition system whose replicas only ever move to
  later timestamps (\<open>monotone_replicas\<close>).  Each is interpreted on the model's own
  definitions in the theory of the component that provides it.
\<close>

section \<open>Filling a bucketed store\<close>

text \<open>
  A store whose keys live in homes of a bounded width.  An insertion is total as
  long as there is room, it installs its object, and it removes at most the
  objects that collide with it or, when its home is full, one other.
\<close>

locale bucket_store =
  fixes inv :: "'s \<Rightarrow> bool"
    and room :: "'s \<Rightarrow> nat \<Rightarrow> bool"
    and good :: "'o \<Rightarrow> bool"
    and ins :: "'s \<Rightarrow> 'o \<Rightarrow> 's result"
    and look :: "'s \<Rightarrow> 'k \<Rightarrow> 'o option"
    and key_of :: "'o \<Rightarrow> 'k"
    and norm :: "'o \<Rightarrow> 'o"
    and home :: "'s \<Rightarrow> 'k \<Rightarrow> nat"
    and load :: "'s \<Rightarrow> nat \<Rightarrow> nat"
    and width :: nat
    and same :: "'k \<Rightarrow> 'k \<Rightarrow> bool"
    and collide :: "'k \<Rightarrow> 'k \<Rightarrow> bool"
    and clash :: "'s \<Rightarrow> 'k \<Rightarrow> 'k \<Rightarrow> bool"
  assumes ins_ok: "inv s \<Longrightarrow> room s (Suc n) \<Longrightarrow> good x \<Longrightarrow>
      \<exists>s'. ins s x = Inr s' \<and> inv s' \<and> room s' n"
    and home_ins: "ins s x = Inr s' \<Longrightarrow> home s' = home s"
    and load_ins: "inv s \<Longrightarrow> room s (Suc n) \<Longrightarrow> good x \<Longrightarrow> ins s x = Inr s' \<Longrightarrow>
      load s' b \<le> load s b + (if home s (key_of x) = b then 1 else 0)"
    and look_ins: "inv s \<Longrightarrow> room s (Suc n) \<Longrightarrow> good x \<Longrightarrow> ins s x = Inr s' \<Longrightarrow>
      look s' k = (if same k (key_of x) then Some (norm x)
                   else if clash s (key_of x) k then None else look s k)"
    and clash_cases: "inv s \<Longrightarrow> clash s k k' \<Longrightarrow>
      home s k' = home s k \<and> (collide k k' \<or> width \<le> load s (home s k))"
    and same_refl: "same k k"
    and same_collide: "same k k' \<Longrightarrow> home s k = home s k' \<and> collide k' k"
    and collide_sym: "collide k k' \<Longrightarrow> collide k' k"
begin

text \<open>Filling never fails while there is room.\<close>

lemma fill_total:
  assumes "inv s" and "room s (length xs + n)" and "\<forall>x\<in>set xs. good x"
  shows "\<exists>s'. fold_res (\<lambda>x s. ins s x) xs s = Inr s' \<and> inv s' \<and> room s' n"
  using assms
proof (induction xs arbitrary: s)
  case (Cons x xs)
  from Cons.prems ins_ok[of s "length xs + n" x] obtain s1
    where s1: "ins s x = Inr s1" "inv s1" "room s1 (length xs + n)" by auto
  with Cons.IH[of s1] Cons.prems(3) show ?case by simp
qed simp

text \<open>Whatever holds of the objects of the store and of the inserted ones holds of all
  objects found afterwards.\<close>

lemma fill_all:
  assumes "inv s" and "room s (length xs + n)" and "\<forall>x\<in>set xs. good x \<and> P (norm x)"
    and "fold_res (\<lambda>x s. ins s x) xs s = Inr s'" and "\<And>k e. look s k = Some e \<Longrightarrow> P e"
  shows "look s' k = Some e \<Longrightarrow> P e"
  using assms
proof (induction xs arbitrary: s)
  case (Cons x xs)
  from Cons.prems(2-4) ins_ok[of s "length xs + n" x] obtain s1
    where s1: "ins s x = Inr s1" "inv s1" "room s1 (length xs + n)" by auto
  have r: "room s (Suc (length xs + n))" and g: "good x" using Cons.prems(3,4) by auto
  have "P e'" if "look s1 k' = Some e'" for k' e'
    using that look_ins[OF Cons.prems(2) r g s1(1), of k'] Cons.prems(4,6) by (auto split: if_splits)
  with Cons.IH[OF Cons.prems(1) s1(2,3)] Cons.prems(4,5) s1(1) show ?case by auto
qed simp

text \<open>
  Objects whose keys do not collide, at most \<open>width\<close> of them in one home, are all
  found afterwards, and no unrelated key is touched.
\<close>

lemma fill_found:
  assumes "inv s" and "room s (length xs + n)" and "\<forall>x\<in>set xs. good x"
    and "fold_res (\<lambda>x s. ins s x) xs s = Inr s'"
    and "sorted_wrt (\<lambda>x y. \<not> (home s (key_of x) = home s (key_of y) \<and> collide (key_of x) (key_of y))) xs"
    and "\<forall>b. load s b + length (filter (\<lambda>x. home s (key_of x) = b) xs) \<le> width"
  shows "(\<forall>x\<in>set xs. look s' (key_of x) = Some (norm x)) \<and>
    (\<forall>k. (\<forall>x\<in>set xs. \<not> (home s k = home s (key_of x) \<and> collide (key_of x) k)) \<longrightarrow>
         look s' k = look s k)"
  using assms
proof (induction xs arbitrary: s)
  case (Cons x xs)
  from Cons.prems(1-3) ins_ok[of s "length xs + n" x] obtain s1
    where s1: "ins s x = Inr s1" "inv s1" "room s1 (length xs + n)" by auto
  have h: "home s1 = home s" using home_ins[OF s1(1)] .
  have r: "room s (Suc (length xs + n))" and g: "good x" using Cons.prems(2,3) by auto
  have "load s1 b + length (filter (\<lambda>y. home s1 (key_of y) = b) xs) \<le> width" for b
    using load_ins[OF Cons.prems(1) r g s1(1), of b] spec[OF Cons.prems(6), of b]
    by (auto simp: h split: if_splits)
  with Cons.prems s1 h have IH: "(\<forall>y\<in>set xs. look s' (key_of y) = Some (norm y)) \<and>
    (\<forall>k. (\<forall>y\<in>set xs. \<not> (home s k = home s (key_of y) \<and> collide (key_of y) k)) \<longrightarrow>
         look s' k = look s1 k)"
    using Cons.IH[of s1] by (simp add: h)
  have nofull: "\<not> width \<le> load s (home s (key_of x))"
    using spec[OF Cons.prems(6), of "home s (key_of x)"] by simp
  have look1: "look s1 k = look s k" if "\<not> (home s k = home s (key_of x) \<and> collide (key_of x) k)" for k
    using that look_ins[OF Cons.prems(1) r g s1(1), of k] clash_cases[OF Cons.prems(1), of "key_of x" k]
      same_collide[of k "key_of x" s] nofull by auto
  have "\<forall>y\<in>set xs. \<not> (home s (key_of x) = home s (key_of y) \<and> collide (key_of y) (key_of x))"
    using Cons.prems(5) collide_sym by auto
  with IH have "look s' (key_of x) = look s1 (key_of x)" by blast
  also have "\<dots> = Some (norm x)"
    using look_ins[OF Cons.prems(1) r g s1(1)] same_refl by simp
  finally show ?case using IH look1 by auto
qed simp

end

section \<open>Registers in which the last writer wins\<close>

text \<open>
  A replica that applies a message exactly when the message carries a later
  timestamp than its own, taking over timestamp and contents.
\<close>

locale lww_register =
  fixes ok :: "'r \<Rightarrow> bool"
    and fit :: "'m \<Rightarrow> bool"
    and apply_msg :: "'m \<Rightarrow> 'r \<Rightarrow> 'r"
    and stamp :: "'r \<Rightarrow> 't :: linorder"
    and mstamp :: "'m \<Rightarrow> 't"
    and content :: "'r \<Rightarrow> 'c"
    and mcontent :: "'m \<Rightarrow> 'c"
  assumes apply_ok: "ok r \<Longrightarrow> fit m \<Longrightarrow> ok (apply_msg m r)"
    and apply_stamp: "ok r \<Longrightarrow> fit m \<Longrightarrow> stamp (apply_msg m r) = max (stamp r) (mstamp m)"
    and apply_content: "ok r \<Longrightarrow> fit m \<Longrightarrow>
      content (apply_msg m r) = (if stamp r < mstamp m then mcontent m else content r)"
begin

lemma apply_all:
  assumes "ok r" and "\<forall>m\<in>set ms. fit m"
  shows "ok (fold apply_msg ms r) \<and> stamp (fold apply_msg ms r) = Max (set (stamp r # map mstamp ms))"
  using assms
proof (induction ms arbitrary: r)
  case (Cons m ms)
  then have IH: "ok (fold apply_msg ms (apply_msg m r)) \<and>
      stamp (fold apply_msg ms (apply_msg m r)) = Max (set (stamp (apply_msg m r) # map mstamp ms))"
    using apply_ok[of r m] by simp
  have "Max (insert (max (stamp r) (mstamp m)) (mstamp ` set ms)) =
        Max (insert (stamp r) (insert (mstamp m) (mstamp ` set ms)))"
    by (cases "set ms = {}") (auto simp: max.assoc)
  with IH Cons.prems apply_stamp[of r m] show ?case by simp
qed simp

text \<open>The contents after any sequence of messages are those of the latest timestamp,
  whatever the order of arrival.\<close>

lemma content_of_latest:
  assumes "ok r" and "\<forall>m\<in>set ms. fit m"
    and "\<forall>m\<in>set ms. mcontent m = f (mstamp m)" and "content r = f (stamp r)"
  shows "content (fold apply_msg ms r) = f (stamp (fold apply_msg ms r))"
  using assms
proof (induction ms arbitrary: r)
  case (Cons m ms)
  have "content (apply_msg m r) = f (stamp (apply_msg m r))"
    using Cons.prems apply_stamp[of r m] apply_content[of r m] by (auto simp: max_def)
  with Cons.prems apply_ok[of r m] Cons.IH[of "apply_msg m r"] show ?case by simp
qed simp

lemma order_irrelevant:
  assumes "ok r" and "\<forall>m\<in>set ms. fit m" and "set ms' = set ms"
    and "\<forall>m\<in>set ms. mcontent m = f (mstamp m)" and "content r = f (stamp r)"
  shows "stamp (fold apply_msg ms' r) = stamp (fold apply_msg ms r) \<and>
         content (fold apply_msg ms' r) = content (fold apply_msg ms r)"
proof -
  have "stamp (fold apply_msg ms' r) = stamp (fold apply_msg ms r)"
    using apply_all[of r ms] apply_all[of r ms'] assms(1-3) by simp
  moreover have "content (fold apply_msg ms' r) = f (stamp (fold apply_msg ms' r))"
    using content_of_latest[of r ms' f] assms by simp
  moreover have "content (fold apply_msg ms r) = f (stamp (fold apply_msg ms r))"
    using content_of_latest[of r ms f] assms by simp
  ultimately show ?thesis by simp
qed

end

section \<open>Replicas that only move forward\<close>

locale monotone_replicas =
  fixes step :: "'s \<Rightarrow> 's \<Rightarrow> bool"
    and good :: "'s \<Rightarrow> bool"
    and ts :: "'s \<Rightarrow> nat \<Rightarrow> 't :: linorder"
  assumes good_step: "good s \<Longrightarrow> step s s' \<Longrightarrow> good s'"
    and ts_step: "good s \<Longrightarrow> step s s' \<Longrightarrow> ts s i \<le> ts s' i"
begin

lemma good_steps: "step\<^sup>*\<^sup>* s s' \<Longrightarrow> good s \<Longrightarrow> good s'"
  by (induction rule: rtranclp_induct) (auto intro: good_step)

lemma ts_steps:
  assumes "step\<^sup>*\<^sup>* s s'" and "good s"
  shows "ts s i \<le> ts s' i"
  using assms
proof (induction rule: rtranclp_induct)
  case (step y z)
  with good_steps[of s y] ts_step[of y z i] show ?case by (auto intro: order_trans)
qed simp

end

end
