(* ===== verification/Mica_Store.thy ===== *)
theory Mica_Store
  imports Mica Interfaces
begin

text \<open>
  The MICA store as a map from keys to objects.  \<open>kv_wf\<close> is the invariant of a
  store during the first lap of its log: masks fit the sizes, buckets are well
  formed, and every used slot points at an entry of its own bucket and tag that
  lies wholly behind the head of the log, apart from all other entries.  \<open>kv_abs\<close>
  is the map a store stands for, read off by the lookup the code performs.
\<close>

section \<open>The invariant\<close>

definition used :: "mica_kv \<Rightarrow> nat \<Rightarrow> nat \<Rightarrow> bool" where
  "used kv i j \<longleftrightarrow> i < length (ht_index kv) \<and> j < 8 \<and> in_use (ht_index kv ! i ! j) = 1"

definition off_at :: "mica_kv \<Rightarrow> nat \<Rightarrow> nat \<Rightarrow> nat" where
  "off_at kv i j = unat (offset (ht_index kv ! i ! j))"

definition bkt_of :: "mica_kv \<Rightarrow> cache_key \<Rightarrow> nat" where
  "bkt_of kv k = unat (bkt k AND bkt_mask kv)"

text \<open>The entry of a used slot: where it ends, and that it belongs there.\<close>

definition slot_entry :: "mica_kv \<Rightarrow> nat \<Rightarrow> nat \<Rightarrow> cache_op \<Rightarrow> bool" where
  "slot_entry kv i j e \<longleftrightarrow> read_op (ht_log kv) (off_at kv i j) = Inr e \<and> entry_wf e \<and>
     off_at kv i j + 18 + unat (val_len e) \<le> unat (log_head kv) \<and>
     bkt_of kv (key e) = i \<and> ucast (tag (key e)) = (ucast (slot_tag (ht_index kv ! i ! j)) :: u32)"

definition index_wf :: "mica_kv \<Rightarrow> bool" where
  "index_wf kv \<longleftrightarrow> (\<exists>n \<le> 24. length (ht_index kv) = 2 ^ n \<and> bkt_mask kv = mask n) \<and>
     (\<forall>i < length (ht_index kv). bkt_wf (ht_index kv ! i))"

definition log_wf :: "mica_kv \<Rightarrow> bool" where
  "log_wf kv \<longleftrightarrow> (\<exists>c. 8 \<le> c \<and> c \<le> 39 \<and> log_cap kv = 2 ^ c \<and> log_mask kv = mask c \<and>
       length (ht_log kv) = 2 ^ c) \<and>
     8 dvd unat (log_head kv) \<and> unat (log_head kv) \<le> unat (log_cap kv)"

definition entries_wf :: "mica_kv \<Rightarrow> bool" where
  "entries_wf kv \<longleftrightarrow> (\<forall>i j. used kv i j \<longrightarrow> (\<exists>e. slot_entry kv i j e)) \<and>
     (\<forall>i j i' j' e e'. used kv i j \<longrightarrow> used kv i' j' \<longrightarrow> (i, j) \<noteq> (i', j') \<longrightarrow>
        slot_entry kv i j e \<longrightarrow> slot_entry kv i' j' e' \<longrightarrow>
        off_at kv i j + 18 + unat (val_len e) \<le> off_at kv i' j' \<or>
        off_at kv i' j' + 18 + unat (val_len e') \<le> off_at kv i j)"

definition kv_wf :: "mica_kv \<Rightarrow> bool" where
  "kv_wf kv \<longleftrightarrow> index_wf kv \<and> log_wf kv \<and> entries_wf kv"

text \<open>Room for one more object before the head has to wrap.\<close>

definition log_room :: "mica_kv \<Rightarrow> bool" where
  "log_room kv \<longleftrightarrow> unat (log_head kv) + (MICA_MAX_VALUE + 32) < unat (log_cap kv)"

definition in_first_lap :: "mica_kv \<Rightarrow> bool" where
  "in_first_lap kv \<longleftrightarrow> unat (log_head kv) < unat (log_cap kv)"

definition op_ok :: "mica_op \<Rightarrow> bool" where
  "op_ok op \<longleftrightarrow> length (value op) = MICA_MAX_VALUE \<and> unat (val_len op) \<le> HERD_VALUE_SIZE"

text \<open>The object the log holds after an insertion.\<close>

definition stored :: "cache_op \<Rightarrow> cache_op" where
  "stored op = op\<lparr>value := take (unat (val_len op)) (value op)\<rparr>"

definition kv_abs :: "mica_kv \<Rightarrow> cache_key \<Rightarrow> cache_op option" where
  "kv_abs kv k = (case mica_lookup kv k of Inr (Some (off, e)) \<Rightarrow> Some e | _ \<Rightarrow> None)"

text \<open>The keys that lose their entry to an insertion: those with the same bucket and
  tag, and the one whose slot is taken in a full bucket.\<close>

definition displaced :: "mica_kv \<Rightarrow> cache_key \<Rightarrow> cache_key \<Rightarrow> bool" where
  "displaced kv kn k \<longleftrightarrow> bkt_of kv k = bkt_of kv kn \<and>
     (tag k = tag kn \<or> evicts (ht_index kv ! bkt_of kv kn) (ucast (tag kn)) (ucast (tag k)))"

section \<open>Basic facts\<close>

lemma ucast_tag_eq [simp]: "(ucast (a :: u16) :: u32) = ucast b \<longleftrightarrow> a = b"
  using unat_bound[of a] unat_bound[of b] by (simp add: word_unat_eq_iff word_conv)

lemma ucast_off [simp]: "unat (ucast (off :: 40 word) :: u64) = unat off"
  using unat_bound[of off] by (simp add: word_conv)

lemma bkt_of_less: "index_wf kv \<Longrightarrow> bkt_of kv k < length (ht_index kv)"
  by (auto simp: index_wf_def bkt_of_def word_conv)

lemma bkt_of_key_word: "key_word k = key_word k' \<Longrightarrow> bkt_of kv k = bkt_of kv k'"
  by (simp add: key_word_eq_iff bkt_of_def)

lemma log_wf_cases:
  assumes "log_wf kv"
  obtains c where "8 \<le> c" "c \<le> 39" "log_cap kv = 2 ^ c" "log_mask kv = mask c"
    "length (ht_log kv) = 2 ^ c" "unat (log_cap kv) = 2 ^ c"
proof -
  from assms obtain c where c: "8 \<le> c" "c \<le> 39" "log_cap kv = 2 ^ c" "log_mask kv = mask c"
    "length (ht_log kv) = 2 ^ c" by (auto simp: log_wf_def)
  from c(2) have "(2 :: nat) ^ c < 2 ^ 64" by (intro power_strict_increasing) auto
  then have "unat (log_cap kv) = 2 ^ c" using c(2,3) by (simp add: unat_pow2)
  with c show ?thesis by (rule that)
qed

lemma head_le_log: "log_wf kv \<Longrightarrow> unat (log_head kv) \<le> length (ht_log kv)"
  by (auto simp: log_wf_def unat_pow2)

lemma used_slot_entry: "kv_wf kv \<Longrightarrow> used kv i j \<Longrightarrow> \<exists>e. slot_entry kv i j e"
  unfolding kv_wf_def entries_wf_def by blast

lemma entry_at_slot:
  assumes "kv_wf kv" and "in_first_lap kv" and "used kv i j" and "slot_entry kv i j e"
    and "bkt_of kv k = i" and "ucast (tag k) = (ucast (slot_tag (ht_index kv ! i ! j)) :: u32)"
  shows "kv_ptr kv k = Some (off_at kv i j)"
    and "mica_lookup kv k =
      Inr (if key_word (key e) = key_word k then Some (off_at kv i j, e) else None)"
proof -
  let ?b = "ht_index kv ! i" and ?off = "offset (ht_index kv ! i ! j)"
  from assms(1) obtain c where c: "c \<le> 39" "log_mask kv = mask c" "unat (log_cap kv) = 2 ^ c"
    by (auto simp: kv_wf_def elim: log_wf_cases)
  have b: "bkt_wf ?b" using assms(1,3) by (auto simp: kv_wf_def index_wf_def used_def)
  have hit: "slot_hit ?b (ucast (tag k)) j"
    using assms(3,6) by (simp add: slot_hit_def used_def)
  from bkt_find_hit[OF b this] assms(3) have find: "bkt_find ?b (ucast (tag k)) = Some ?off"
    by (simp add: used_def)
  have less: "unat ?off < unat (log_head kv)" "unat (log_head kv) < 2 ^ c"
    using assms(2,4) c by (auto simp: slot_entry_def off_at_def in_first_lap_def)
  have "unat (log_head kv - ucast ?off) = unat (log_head kv) - unat ?off"
    using less by (subst unat_sub) (auto simp: word_le_nat_alt)
  with less c have "\<not> log_cap kv \<le> log_head kv - ucast ?off" by (simp add: word_le_nat_alt)
  moreover have "unat (ucast ?off AND log_mask kv) = unat ?off"
    using less c by (simp add: unat_and_mask)
  ultimately show ptr: "kv_ptr kv k = Some (off_at kv i j)"
    using find assms(5) by (simp add: kv_ptr_def off_at_def bkt_of_def)
  show "mica_lookup kv k =
      Inr (if key_word (key e) = key_word k then Some (off_at kv i j, e) else None)"
    using assms(4) by (simp add: mica_lookup_def ptr entry_at_def slot_entry_def)
qed

lemma lookup_no_slot:
  assumes "\<forall>j<8. \<not> slot_hit (ht_index kv ! bkt_of kv k) (ucast (tag k)) j"
  shows "mica_lookup kv k = Inr None"
  using assms by (simp add: mica_lookup_def kv_ptr_def entry_at_def bkt_of_def flip: bkt_find_None)

text \<open>A lookup in a well-formed store returns; what it finds is the entry of a slot.\<close>

lemma lookup_cases:
  assumes "kv_wf kv" and "in_first_lap kv"
  obtains (none) "mica_lookup kv k = Inr None"
    "\<forall>j<8. \<not> slot_hit (ht_index kv ! bkt_of kv k) (ucast (tag k)) j"
  | (slot) i j e where "used kv i j" "slot_entry kv i j e" "bkt_of kv k = i"
    "ucast (tag k) = (ucast (slot_tag (ht_index kv ! i ! j)) :: u32)"
    "mica_lookup kv k = Inr (if key_word (key e) = key_word k then Some (off_at kv i j, e) else None)"
proof (cases "\<forall>j<8. \<not> slot_hit (ht_index kv ! bkt_of kv k) (ucast (tag k)) j")
  case True
  from none[OF lookup_no_slot[OF this] this] show ?thesis .
next
  case False
  then obtain j where j: "j < 8" "slot_hit (ht_index kv ! bkt_of kv k) (ucast (tag k)) j" by blast
  with assms(1) bkt_of_less[of kv k] have u: "used kv (bkt_of kv k) j"
    by (simp add: used_def slot_hit_def kv_wf_def)
  with used_slot_entry[OF assms(1)] obtain e where e: "slot_entry kv (bkt_of kv k) j e" by blast
  from j have t: "ucast (tag k) = (ucast (slot_tag (ht_index kv ! bkt_of kv k ! j)) :: u32)"
    by (simp add: slot_hit_def)
  from entry_at_slot[OF assms u e refl t] show ?thesis
    by (intro slot[OF u e refl t]) simp
qed

lemma mica_lookup_returns:
  assumes "kv_wf kv" and "in_first_lap kv"
  shows "returns (mica_lookup kv k)"
  using assms by (cases rule: lookup_cases[of kv k]) auto

section \<open>Appending to the log\<close>

lemma advance_head_spec:
  assumes "8 \<le> c" "c \<le> 39" and "unat head + 78 < 2 ^ c" and "len \<le> 64"
  shows "unat (advance_head (2 ^ c) (mask c) head len) =
    (let h = unat head + len + 7 - (unat head + len + 7) mod 8
     in if 2 ^ c - h \<le> 78 then 2 ^ c else h)"
proof -
  have big: "(2 :: nat) ^ c \<le> 2 ^ 39" using assms(2) by (intro power_increasing) auto
  have cap: "unat (2 ^ c :: u64) = 2 ^ c" using assms(2) by (simp add: unat_pow2)
  define h where "h = unat head + len + 7 - (unat head + len + 7) mod 8"
  have h: "h < 2 ^ c" using assms(3,4) by (auto simp: h_def)
  have lenw: "unat (of_nat len :: u64) = len" using assms(4) by (simp add: unat_of_nat)
  have s1: "unat (head + of_nat len) = unat head + len"
    using assms(3,4) big by (subst unat_add_small) (auto simp: lenw)
  have s2: "unat (head + of_nat len + 7) = unat head + len + 7"
    using assms(3,4) big s1 by (subst unat_add_small) auto
  have m: "(7 :: u64) = mask 3" by (simp add: mask_eq_exp_minus_1)
  define hw where "hw = (head + of_nat len + 7) AND NOT (7 :: u64)"
  have hw: "unat hw = h"
    unfolding hw_def m unat_and_not_mask h_def using s2 unfolding m by simp
  have d: "unat (2 ^ c - hw) = 2 ^ c - h"
    using h by (subst unat_sub) (auto simp: word_le_nat_alt cap hw)
  have cmp: "(2 ^ c :: u64) - hw \<le> of_nat (MICA_MAX_VALUE + 32) \<longleftrightarrow> 2 ^ c - h \<le> 78"
    by (simp add: word_le_nat_alt d MICA_MAX_VALUE_eq)
  have "unat (hw + 2 ^ c) = h + 2 ^ c"
    using h big by (subst unat_add_small) (auto simp: hw cap)
  then have wrap: "unat ((hw + 2 ^ c) AND NOT (mask c)) = 2 ^ c"
    using h by (simp add: unat_and_not_mask)
  have "advance_head (2 ^ c) (mask c) head len =
      (if 2 ^ c - h \<le> 78 then (hw + 2 ^ c) AND NOT (mask c) else hw)"
    unfolding advance_head_def Let_def hw_def[symmetric] cmp ..
  with wrap hw show ?thesis by (simp add: Let_def flip: h_def)
qed

lemma log_append_ok:
  assumes "log_wf kv" "log_room kv" and "18 + unat (val_len op) \<le> len" "len \<le> 64"
    and "length (value op) = MICA_MAX_VALUE"
  obtains l h where "log_append kv op len = Inr (kv\<lparr>ht_log := l, log_head := h\<rparr>)"
    "length l = length (ht_log kv)"
    "\<And>p n. p + n \<le> unat (log_head kv) \<Longrightarrow> take n (drop p l) = take n (drop p (ht_log kv))"
    "read_op l (unat (log_head kv)) = Inr (stored op)"
    "8 dvd unat h" "unat h \<le> unat (log_cap kv)" "unat (log_head kv) + len \<le> unat h"
    "h = advance_head (log_cap kv) (log_mask kv) (log_head kv) len"
proof -
  from assms(1) obtain c where c: "8 \<le> c" "c \<le> 39" "log_cap kv = 2 ^ c" "log_mask kv = mask c"
    "length (ht_log kv) = 2 ^ c" "unat (log_cap kv) = 2 ^ c" by (rule log_wf_cases)
  define hd where "hd = unat (log_head kv)"
  have room: "hd + 78 < 2 ^ c"
    using assms(2) c(6) by (simp add: log_room_def MICA_MAX_VALUE_eq hd_def)
  have big: "(2 :: nat) ^ c \<le> 2 ^ 39" using c(2) by (intro power_increasing) auto
  have phys: "unat (log_head kv AND log_mask kv) = hd"
    using room by (simp add: c(4) unat_and_mask hd_def)
  have enc: "length (encode_op op) = 64" using assms(5) by (simp add: MICA_MAX_VALUE_eq)
  define bs where "bs = take len (encode_op op)"
  have bs: "length bs = len" using enc assms(4) by (simp add: bs_def)
  obtain l where l: "mem_write (ht_log kv) hd bs = Inr l"
    using room bs assms(4) c(5) by (simp add: mem_write_def)
  have sub: "unat ((2 :: u64) ^ 40 - log_head kv) = 2 ^ 40 - hd"
    using room big by (subst unat_sub) (auto simp: word_le_nat_alt unat_pow2 hd_def)
  have "of_nat (len + 8) < (push_bit MICA_LOG_BITS 1 - log_head kv)"
    using room big assms(4) sub
    by (simp add: word_less_nat_alt unat_of_nat MICA_LOG_BITS_def push_bit_eq_mult del: of_nat_add)
  then have app: "log_append kv op len = Inr (kv\<lparr>ht_log := l,
      log_head := advance_head (log_cap kv) (log_mask kv) (log_head kv) len\<rparr>)"
    using enc assms(4) l by (simp add: log_append_def phys bs_def)
  define h where "h = advance_head (log_cap kv) (log_mask kv) (log_head kv) len"
  have "(hd + len + 7) mod 8 < 8" by simp
  then have h: "unat h \<le> 2 ^ c" "hd + len \<le> unat h" "8 dvd unat h"
    using advance_head_spec[OF c(1,2) room[unfolded hd_def] assms(4)] room assms(4) c(1)
    by (auto simp: h_def c(3,4) Let_def hd_def[symmetric] dvd_minus_mod
        intro: le_imp_power_dvd[of 3 c "2 :: nat", simplified])
  have rd: "read_op l hd = Inr (stored op)"
  proof (rule read_op_encoded)
    let ?n = "unat (val_len op)"
    have v: "length (value (stored op)) = ?n"
      using assms(3-5) by (simp add: stored_def MICA_MAX_VALUE_eq)
    then show "entry_wf (stored op)" by (simp add: entry_wf_def stored_def)
    show "hd + 18 + length (value (stored op)) \<le> length l"
      using v assms(3,4) room c(5) mem_write_length[OF l] by simp
    have "take (18 + ?n) (drop hd l) = take (18 + ?n) (take len (drop hd l))"
      using assms(3) by (simp add: min_def)
    also have "take len (drop hd l) = bs" using mem_write_read_same[OF l] bs by simp
    also have "take (18 + ?n) bs = encode_op (stored op)"
      using assms(3) by (simp add: bs_def encode_op_def stored_def min_def)
    finally show "take (18 + length (value (stored op))) (drop hd l) = encode_op (stored op)"
      by (simp add: v)
  qed
  show ?thesis
    by (rule that[OF app[folded h_def] mem_write_length[OF l] _ rd[unfolded hd_def] h(3)])
       (use mem_write_read_before[OF l] h c in \<open>auto simp: hd_def h_def\<close>)
qed

section \<open>Inserting\<close>

text \<open>
  What an insertion does to a store: it writes one slot, moves the head, and leaves
  the log behind the old head alone.  Both \<open>mica_insert_one\<close> and its concurrent
  variant are instances.
\<close>

definition inserted :: "mica_kv \<Rightarrow> mica_op \<Rightarrow> mica_kv \<Rightarrow> bool" where
  "inserted kv op kv' \<longleftrightarrow>
    (let i = bkt_of kv (key op); t = ucast (tag (key op))
     in bkt_mask kv' = bkt_mask kv \<and> log_cap kv' = log_cap kv \<and> log_mask kv' = log_mask kv \<and>
        ht_index kv' = (ht_index kv)[i := encode_slot (ht_index kv ! i) t (log_head kv)] \<and>
        length (ht_log kv') = length (ht_log kv) \<and>
        (\<forall>p n. p + n \<le> unat (log_head kv) \<longrightarrow>
           take n (drop p (ht_log kv')) = take n (drop p (ht_log kv))) \<and>
        read_op (ht_log kv') (unat (log_head kv)) = Inr (stored op) \<and>
        8 dvd unat (log_head kv') \<and> unat (log_head kv') \<le> unat (log_cap kv) \<and>
        unat (log_head kv) + 18 + unat (val_len op) \<le> unat (log_head kv'))"

lemma inserted_append:
  assumes "index_wf kv" "log_wf kv" "log_room kv"
    and "18 + unat (val_len op) \<le> len" "len \<le> 64" "length (value op) = MICA_MAX_VALUE"
  obtains kv' where "bind_res (index_insert kv (key op)) (\<lambda>kv. log_append kv op len) = Inr kv'"
    "inserted kv op kv'" "num_insert_op kv' = num_insert_op kv + 1"
    "log_head kv' = advance_head (log_cap kv) (log_mask kv) (log_head kv) len"
proof -
  let ?i = "bkt_of kv (key op)" and ?t = "ucast (tag (key op)) :: u32"
  from bkt_of_less[OF assms(1)] obtain kv1 where kv1: "index_insert kv (key op) = Inr kv1"
    and kv1_def: "kv1 = kv\<lparr>num_insert_op := num_insert_op kv + 1,
      num_index_evictions := num_index_evictions kv +
        (if slot_to_use (ht_index kv ! ?i) ?t = None then 1 else 0),
      ht_index := (ht_index kv)[?i := encode_slot (ht_index kv ! ?i) ?t (log_head kv)]\<rparr>"
    by (simp add: index_insert_def bkt_of_def Let_def)
  have same: "log_head kv1 = log_head kv" "log_cap kv1 = log_cap kv" "log_mask kv1 = log_mask kv"
    "ht_log kv1 = ht_log kv" "bkt_mask kv1 = bkt_mask kv"
    by (simp_all add: kv1_def)
  have wf1: "log_wf kv1" "log_room kv1"
    using assms(2,3) by (simp_all add: log_wf_def log_room_def same)
  obtain l h where app: "log_append kv1 op len = Inr (kv1\<lparr>ht_log := l, log_head := h\<rparr>)"
    "length l = length (ht_log kv1)"
    "\<And>p n. p + n \<le> unat (log_head kv1) \<Longrightarrow> take n (drop p l) = take n (drop p (ht_log kv1))"
    "read_op l (unat (log_head kv1)) = Inr (stored op)"
    "8 dvd unat h" "unat h \<le> unat (log_cap kv1)" "unat (log_head kv1) + len \<le> unat h"
    "h = advance_head (log_cap kv1) (log_mask kv1) (log_head kv1) len"
    by (rule log_append_ok[OF wf1 assms(4-6)]) (rule that)
  note app = app[unfolded same]
  let ?kv' = "kv1\<lparr>ht_log := l, log_head := h\<rparr>"
  have "inserted kv op ?kv'"
    using app(2-7) assms(4) by (simp add: inserted_def Let_def kv1_def)
  with kv1 app(1,8) show ?thesis by (intro that[of ?kv']) (simp_all add: kv1_def)
qed

text \<open>The slot an insertion takes, and the entries of the others.\<close>

lemma inserted_slots:
  assumes "kv_wf kv" "log_room kv" "inserted kv op kv'"
  defines "i0 \<equiv> bkt_of kv (key op)" and "t0 \<equiv> ucast (tag (key op)) :: u32"
  defines "j0 \<equiv> chosen_slot (ht_index kv ! i0) t0"
  shows "i0 < length (ht_index kv)" "j0 < 8" "length (ht_index kv') = length (ht_index kv)"
    and "used kv' i j \<longleftrightarrow> used kv i j \<or> i = i0 \<and> j = j0"
    and "(i, j) \<noteq> (i0, j0) \<Longrightarrow> i < length (ht_index kv) \<Longrightarrow>
         ht_index kv' ! i ! j = ht_index kv ! i ! j"
    and "ht_index kv' ! i0 ! j0 = \<lparr>in_use = 1, slot_tag = ucast t0, offset = ucast (log_head kv)\<rparr>"
    and "off_at kv' i0 j0 = unat (log_head kv)"
proof -
  have idx: "ht_index kv' = (ht_index kv)[i0 := encode_slot (ht_index kv ! i0) t0 (log_head kv)]"
    using assms(3) by (simp add: inserted_def Let_def i0_def t0_def)
  show i0: "i0 < length (ht_index kv)"
    unfolding i0_def using assms(1) by (intro bkt_of_less) (simp add: kv_wf_def)
  show j0: "j0 < 8" unfolding j0_def by (rule chosen_slot_less)
  show "length (ht_index kv') = length (ht_index kv)" by (simp add: idx)
  have len: "length (ht_index kv ! i0) = 8"
    using assms(1) i0 by (simp add: kv_wf_def index_wf_def bkt_wf_def)
  show slot: "ht_index kv' ! i0 ! j0 =
      \<lparr>in_use = 1, slot_tag = ucast t0, offset = ucast (log_head kv)\<rparr>"
    using i0 j0 len by (simp add: idx encode_slot_eq j0_def)
  show other: "ht_index kv' ! i ! j = ht_index kv ! i ! j"
    if "(i, j) \<noteq> (i0, j0)" "i < length (ht_index kv)" for i j
    using that i0 by (cases "i = i0") (simp_all add: idx encode_slot_eq j0_def)
  show "used kv' i j \<longleftrightarrow> used kv i j \<or> i = i0 \<and> j = j0"
    using slot i0 j0 other[of i j] by (cases "(i, j) = (i0, j0)") (auto simp: used_def idx)
  have "unat (log_head kv) < 2 ^ 40"
  proof -
    from assms(1) obtain c where "c \<le> 39" "unat (log_cap kv) = 2 ^ c"
      by (auto simp: kv_wf_def elim: log_wf_cases)
    moreover from this(1) have "(2 :: nat) ^ c \<le> 2 ^ 39" by (intro power_increasing) auto
    ultimately show ?thesis using assms(2) by (simp add: log_room_def)
  qed
  then show "off_at kv' i0 j0 = unat (log_head kv)"
    by (simp add: off_at_def slot word_conv)
qed

lemma inserted_entry_new:
  assumes "kv_wf kv" "log_room kv" "inserted kv op kv'" "length (value op) = MICA_MAX_VALUE"
    "unat (val_len op) \<le> MICA_MAX_VALUE"
  shows "slot_entry kv' (bkt_of kv (key op))
    (chosen_slot (ht_index kv ! bkt_of kv (key op)) (ucast (tag (key op)))) (stored op)"
  using inserted_slots(6,7)[OF assms(1-3)] assms(3-5)
  by (auto simp: slot_entry_def inserted_def Let_def stored_def entry_wf_def bkt_of_def tag23)

lemma inserted_entry_old:
  assumes "kv_wf kv" "log_room kv" "inserted kv op kv'" "used kv i j" "slot_entry kv i j e"
    and "(i, j) \<noteq> (bkt_of kv (key op),
           chosen_slot (ht_index kv ! bkt_of kv (key op)) (ucast (tag (key op))))"
  shows "slot_entry kv' i j e"
proof -
  have slot: "ht_index kv' ! i ! j = ht_index kv ! i ! j"
    using inserted_slots(5)[OF assms(1-3,6)] assms(4) by (simp add: used_def)
  then have off: "off_at kv' i j = off_at kv i j" by (simp add: off_at_def)
  let ?n = "18 + unat (val_len e)"
  have e: "off_at kv i j + ?n \<le> unat (log_head kv)" "read_op (ht_log kv) (off_at kv i j) = Inr e"
    using assms(5) by (simp_all add: slot_entry_def)
  have ins: "length (ht_log kv') = length (ht_log kv)"
    "take ?n (drop (off_at kv i j) (ht_log kv')) = take ?n (drop (off_at kv i j) (ht_log kv))"
    "unat (log_head kv) \<le> unat (log_head kv')" "bkt_mask kv' = bkt_mask kv"
    using assms(3) e(1) by (simp_all add: inserted_def Let_def)
  from assms(1) have "unat (log_head kv) \<le> length (ht_log kv)"
    by (simp add: kv_wf_def head_le_log)
  then have "read_op (ht_log kv') (off_at kv i j) = Inr e"
    using read_op_cong[OF e(2) _ ins(1,2)] e(1) by simp
  then show ?thesis
    using assms(5) ins(3,4) by (simp add: slot_entry_def off slot bkt_of_def)
qed

lemma slot_entry_unique: "slot_entry kv i j e \<Longrightarrow> slot_entry kv i j e' \<Longrightarrow> e = e'"
  by (simp add: slot_entry_def)

lemma inserted_wf:
  assumes "kv_wf kv" "log_room kv" "inserted kv op kv'" "length (value op) = MICA_MAX_VALUE"
    "unat (val_len op) \<le> MICA_MAX_VALUE"
  shows "kv_wf kv'"
proof -
  define i0 where "i0 = bkt_of kv (key op)"
  define j0 where "j0 = chosen_slot (ht_index kv ! i0) (ucast (tag (key op)))"
  note sl = inserted_slots[OF assms(1-3), folded i0_def, folded j0_def]
  note new = inserted_entry_new[OF assms, folded i0_def, folded j0_def]
  note old = inserted_entry_old[OF assms(1-3), folded i0_def, folded j0_def]
  have ins: "bkt_mask kv' = bkt_mask kv" "log_cap kv' = log_cap kv" "log_mask kv' = log_mask kv"
    "length (ht_log kv') = length (ht_log kv)" "8 dvd unat (log_head kv')"
    "unat (log_head kv') \<le> unat (log_cap kv)"
    "ht_index kv' = (ht_index kv)[i0 := encode_slot (ht_index kv ! i0) (ucast (tag (key op))) (log_head kv)]"
    using assms(3) by (simp_all add: inserted_def Let_def i0_def)
  have "index_wf kv'"
    using assms(1) sl(1) encode_slot_wf[OF _ tag16_less]
    by (auto simp: kv_wf_def index_wf_def ins nth_list_update)
  moreover have "log_wf kv'"
    using assms(1) ins by (simp add: kv_wf_def log_wf_def)
  moreover have "entries_wf kv'"
    unfolding entries_wf_def
  proof (intro conjI allI impI)
    fix i j assume u: "used kv' i j"
    show "\<exists>e. slot_entry kv' i j e"
    proof (cases "(i, j) = (i0, j0)")
      case False
      with u have "used kv i j" by (auto simp: sl(4))
      with used_slot_entry[OF assms(1)] old False show ?thesis by blast
    qed (use new in auto)
  next
    fix i j i' j' e e'
    assume u: "used kv' i j" "used kv' i' j'" and ne: "(i, j) \<noteq> (i', j')"
      and e: "slot_entry kv' i j e" "slot_entry kv' i' j' e'"
    have past: "off_at kv' p q + 18 + unat (val_len x) \<le> off_at kv' i0 j0"
      if "used kv' p q" "(p, q) \<noteq> (i0, j0)" "slot_entry kv' p q x" for p q x
    proof -
      from that(1,2) have pq: "used kv p q" by (auto simp: sl(4))
      then obtain y where y: "slot_entry kv p q y" using used_slot_entry[OF assms(1)] by blast
      from slot_entry_unique[OF that(3) old[OF pq y that(2)]] have "x = y" .
      moreover have "off_at kv' p q = off_at kv p q"
        using sl(5)[OF that(2)] pq by (simp add: off_at_def used_def)
      ultimately show ?thesis using y by (simp add: slot_entry_def sl(7))
    qed
    consider "(i, j) = (i0, j0)" | "(i', j') = (i0, j0)" |
      "(i, j) \<noteq> (i0, j0)" "(i', j') \<noteq> (i0, j0)" by blast
    then show "off_at kv' i j + 18 + unat (val_len e) \<le> off_at kv' i' j' \<or>
        off_at kv' i' j' + 18 + unat (val_len e') \<le> off_at kv' i j"
    proof cases
      case 1
      with past[OF u(2) _ e(2)] ne show ?thesis by auto
    next
      case 2
      with past[OF u(1) _ e(1)] ne show ?thesis by auto
    next
      case 3
      with u have k: "used kv i j" "used kv i' j'" by (auto simp: sl(4))
      then obtain y y' where y: "slot_entry kv i j y" "slot_entry kv i' j' y'"
        using used_slot_entry[OF assms(1)] by blast
      have "e = y" "e' = y'"
        using slot_entry_unique[OF e(1) old[OF k(1) y(1) 3(1)]]
          slot_entry_unique[OF e(2) old[OF k(2) y(2) 3(2)]] by simp_all
      moreover have "off_at kv' i j = off_at kv i j" "off_at kv' i' j' = off_at kv i' j'"
        using sl(5)[OF 3(1)] sl(5)[OF 3(2)] k by (simp_all add: off_at_def used_def)
      ultimately show ?thesis
        using assms(1) k ne y unfolding kv_wf_def entries_wf_def by metis
    qed
  qed
  ultimately show ?thesis by (simp add: kv_wf_def)
qed

lemma room_first_lap: "log_room kv \<Longrightarrow> in_first_lap kv"
  by (simp add: log_room_def in_first_lap_def)

lemma kv_abs_slot:
  assumes "kv_wf kv" "in_first_lap kv" "used kv i j" "slot_entry kv i j e" "bkt_of kv k = i"
    "ucast (tag k) = (ucast (slot_tag (ht_index kv ! i ! j)) :: u32)"
  shows "kv_abs kv k = (if key_word (key e) = key_word k then Some e else None)"
  using entry_at_slot(2)[OF assms] by (simp add: kv_abs_def)

text \<open>The map after an insertion: the new object under its key, nothing under the
  displaced keys, and every other key as before.\<close>

lemma inserted_abs:
  assumes "kv_wf kv" "log_room kv" "inserted kv op kv'" "length (value op) = MICA_MAX_VALUE"
    "unat (val_len op) \<le> MICA_MAX_VALUE" "in_first_lap kv'"
  shows "kv_abs kv' k =
    (if key_word k = key_word (key op) then Some (stored op)
     else if displaced kv (key op) k then None else kv_abs kv k)"
proof -
  define i0 where "i0 = bkt_of kv (key op)"
  define t0 where "t0 = (ucast (tag (key op)) :: u32)"
  define j0 where "j0 = chosen_slot (ht_index kv ! i0) t0"
  note defs = i0_def t0_def j0_def
  note sl = inserted_slots[OF assms(1-3), folded i0_def t0_def, folded j0_def]
  note new = inserted_entry_new[OF assms(1-5), folded i0_def t0_def, folded j0_def]
  note old = inserted_entry_old[OF assms(1-3), folded i0_def t0_def, folded j0_def]
  note wf' = inserted_wf[OF assms(1-5)]
  have b: "bkt_wf (ht_index kv ! i0)" using assms(1) sl(1) by (simp add: kv_wf_def index_wf_def)
  have t0: "t0 < 2 ^ 23" unfolding t0_def by (rule tag16_less)
  have idx: "ht_index kv' = (ht_index kv)[i0 := encode_slot (ht_index kv ! i0) t0 (log_head kv)]"
    and bk: "bkt_of kv' = bkt_of kv"
    using assms(3) by (simp_all add: inserted_def Let_def defs bkt_of_def fun_eq_iff)
  have tag_new: "(ucast (slot_tag (ht_index kv' ! i0 ! j0)) :: u32) = t0"
    using sl(6) t0 by (simp add: tag23)
  have hit': "slot_hit (ht_index kv' ! i0) t j \<longleftrightarrow>
      (if j = j0 then t = t0 else slot_hit (ht_index kv ! i0) t j)" if "j < 8" for t j
    using slot_hit_encode[OF b t0 that] sl(1) by (simp add: idx j0_def)
  show ?thesis
  proof (cases "bkt_of kv k = i0 \<and> tag k = tag (key op)")
    case True
    with sl(4) have "kv_abs kv' k = (if key_word (key (stored op)) = key_word k then Some (stored op) else None)"
      by (intro kv_abs_slot[OF wf' assms(6) _ new]) (auto simp: bk tag_new t0_def)
    with True show ?thesis by (auto simp: stored_def displaced_def i0_def)
  next
    case False
    then have ne: "key_word k \<noteq> key_word (key op)"
      by (auto simp: i0_def key_word_eq_iff bkt_of_def)
    have tne: "bkt_of kv k = i0 \<Longrightarrow> ucast (tag k) \<noteq> t0" using False by (auto simp: t0_def)
    show ?thesis
    proof (cases "displaced kv (key op) k")
      case True
      with False have d: "bkt_of kv k = i0" "slot_to_use (ht_index kv ! i0) t0 = None"
        "slot_hit (ht_index kv ! i0) (ucast (tag k)) j0"
        by (auto simp: displaced_def evicts_def defs chosen_slot_def)
      have "\<forall>j<8. \<not> slot_hit (ht_index kv' ! bkt_of kv' k) (ucast (tag k)) j"
        using slot_hit_unique[OF b d(3) _ sl(2)] hit' tne[OF d(1)] by (auto simp: bk d(1))
      from lookup_no_slot[OF this] show ?thesis using ne True by (simp add: kv_abs_def)
    next
      case nd: False
      have no: "\<not> (i = i0 \<and> j = j0)" if "used kv i j" "bkt_of kv k = i"
        "ucast (tag k) = (ucast (slot_tag (ht_index kv ! i ! j)) :: u32)" for i j
      proof
        assume ij: "i = i0 \<and> j = j0"
        with that have h: "slot_hit (ht_index kv ! i0) (ucast (tag k)) j0"
          by (simp add: slot_hit_def used_def)
        with ij that(2) nd have "slot_to_use (ht_index kv ! i0) t0 \<noteq> None"
          by (auto simp: displaced_def evicts_def defs chosen_slot_def split: option.splits)
        then obtain y where y: "slot_to_use (ht_index kv ! i0) t0 = Some y" by auto
        then have "y = j0" by (simp add: j0_def chosen_slot_def)
        with y have "slot_usable (ht_index kv ! i0) t0 j0" by (simp add: slot_to_use_Some)
        with h tne ij that(2) show False by (auto simp: slot_usable_def slot_hit_def)
      qed
      from assms(1) room_first_lap[OF assms(2)] show ?thesis
      proof (cases rule: lookup_cases[of kv k])
        case none
        have "\<forall>j<8. \<not> slot_hit (ht_index kv' ! bkt_of kv' k) (ucast (tag k)) j"
          using none(2) hit' tne by (cases "bkt_of kv k = i0") (auto simp: bk idx)
        from lookup_no_slot[OF this] none(1) show ?thesis using ne nd by (simp add: kv_abs_def)
      next
        case (slot i j e)
        with no have ij: "(i, j) \<noteq> (i0, j0)" by auto
        from slot(1) sl(4) have "used kv' i j" by simp
        moreover have "ucast (tag k) = (ucast (slot_tag (ht_index kv' ! i ! j)) :: u32)"
          using slot(1,4) sl(5)[OF ij] by (simp add: used_def)
        ultimately have "kv_abs kv' k = (if key_word (key e) = key_word k then Some e else None)"
          using slot(3) by (intro kv_abs_slot[OF wf' assms(6) _ old[OF slot(1,2) ij]]) (simp_all add: bk)
        with slot(5) show ?thesis using ne nd by (simp add: kv_abs_def)
      qed
    qed
  qed
qed

section \<open>Insertion as the code performs it\<close>

definition room_for :: "mica_kv \<Rightarrow> nat \<Rightarrow> bool" where
  "room_for kv n \<longleftrightarrow> unat (log_head kv) + 56 * n + 78 < unat (log_cap kv)"

lemma room_for_Suc: "room_for kv (Suc n) \<Longrightarrow> log_room kv"
  by (simp add: room_for_def log_room_def MICA_MAX_VALUE_eq)

lemma mica_insert_one_ok:
  assumes "kv_wf kv" "log_room kv" "op_ok op"
  obtains kv' where "mica_insert_one kv op = Inr kv'" "inserted kv op kv'" "kv_wf kv'"
    "num_insert_op kv' = num_insert_op kv + 1"
    "log_head kv' = advance_head (log_cap kv) (log_mask kv) (log_head kv) 50"
proof -
  have l: "KEY_SIZE + 1 + 1 + HERD_VALUE_SIZE = 50" by (simp add: config)
  have op: "18 + unat (val_len op) \<le> 50" "length (value op) = MICA_MAX_VALUE"
    using assms(3) by (simp_all add: op_ok_def HERD_VALUE_SIZE_eq)
  from assms(1) have wf: "index_wf kv" "log_wf kv" by (simp_all add: kv_wf_def)
  obtain kv' where kv': "bind_res (index_insert kv (key op)) (\<lambda>kv. log_append kv op 50) = Inr kv'"
    "inserted kv op kv'" "num_insert_op kv' = num_insert_op kv + 1"
    "log_head kv' = advance_head (log_cap kv) (log_mask kv) (log_head kv) 50"
    by (rule inserted_append[OF wf assms(2) op(1) _ op(2)]) simp
  from inserted_wf[OF assms(1,2) kv'(2) op(2)] op(1) have "kv_wf kv'"
    by (simp add: MICA_MAX_VALUE_eq)
  with kv' show ?thesis by (intro that[of kv']) (simp_all only: mica_insert_one_def l)
qed

lemma head_after_insert:
  assumes "kv_wf kv" "room_for kv (Suc n)" "inserted kv op kv'"
    "log_head kv' = advance_head (log_cap kv) (log_mask kv) (log_head kv) 50"
  shows "unat (log_head kv') = unat (log_head kv) + 56" "room_for kv' n" "in_first_lap kv'"
proof -
  from assms(1) obtain c where c: "8 \<le> c" "c \<le> 39" "log_cap kv = 2 ^ c" "log_mask kv = mask c"
    "unat (log_cap kv) = 2 ^ c" by (auto simp: kv_wf_def elim: log_wf_cases)
  have r: "unat (log_head kv) + 78 + 56 < 2 ^ c" using assms(2) c(5) by (simp add: room_for_def)
  obtain q where q: "unat (log_head kv) = 8 * q"
    using assms(1) by (auto simp: kv_wf_def log_wf_def elim: dvdE)
  have "(8 * q + 50 + 7) mod 8 = 1" by (simp add: mod_mult_self2 add.commute flip: add.assoc)
  then show h: "unat (log_head kv') = unat (log_head kv) + 56"
    using advance_head_spec[OF c(1,2), of "log_head kv" 50] r q by (simp add: assms(4) c(3,4) Let_def)
  have cap: "log_cap kv' = log_cap kv" using assms(3) by (simp add: inserted_def Let_def)
  show "room_for kv' n" "in_first_lap kv'"
    using assms(2) h by (simp_all add: room_for_def in_first_lap_def cap)
qed

text \<open>The number of slots a bucket has in use.\<close>

definition bkt_load :: "mica_kv \<Rightarrow> nat \<Rightarrow> nat" where
  "bkt_load kv i = card {j. used kv i j}"

lemma finite_used [simp]: "finite {j. used kv i j}"
  by (rule finite_subset[of _ "{..<8}"]) (auto simp: used_def)

lemma bkt_load_inserted:
  assumes "kv_wf kv" "log_room kv" "inserted kv op kv'"
  shows "bkt_load kv' i \<le> bkt_load kv i + (if bkt_of kv (key op) = i then 1 else 0)"
proof -
  let ?j0 = "chosen_slot (ht_index kv ! bkt_of kv (key op)) (ucast (tag (key op)))"
  have "{j. used kv' i j} = (if bkt_of kv (key op) = i then insert ?j0 {j. used kv i j}
      else {j. used kv i j})"
    by (auto simp: inserted_slots(4)[OF assms])
  then show ?thesis by (simp add: bkt_load_def card_insert_if)
qed

lemma displaced_cases:
  assumes "kv_wf kv" "displaced kv k k'"
  shows "bkt_of kv k' = bkt_of kv k \<and> (tag k = tag k' \<or> 8 \<le> bkt_load kv (bkt_of kv k))"
proof (cases "tag k = tag k'")
  case False
  let ?b = "ht_index kv ! bkt_of kv k"
  from False assms(2) have "slot_to_use ?b (ucast (tag k)) = None"
    by (auto simp: displaced_def evicts_def)
  then have "\<forall>j<8. in_use (?b ! j) = 1" by (auto simp: slot_to_use_None slot_usable_def)
  then have "{..<8} \<subseteq> {j. used kv (bkt_of kv k) j}"
    using bkt_of_less[of kv k] assms(1) by (auto simp: used_def kv_wf_def)
  from card_mono[OF finite_used this] have "8 \<le> bkt_load kv (bkt_of kv k)"
    by (simp add: bkt_load_def)
  with assms(2) show ?thesis by (simp add: displaced_def)
qed (use assms(2) in \<open>simp add: displaced_def\<close>)

interpretation mica: bucket_store kv_wf room_for op_ok mica_insert_one kv_abs key stored bkt_of
  bkt_load 8 "\<lambda>k k'. key_word k = key_word k'" "\<lambda>k k'. tag k = tag k'" displaced
proof unfold_locales
  fix kv n op
  assume a: "kv_wf kv" "room_for kv (Suc n)" "op_ok op"
  from mica_insert_one_ok[OF a(1) room_for_Suc[OF a(2)] a(3)] obtain kv' where
    "mica_insert_one kv op = Inr kv'" "inserted kv op kv'" "kv_wf kv'"
    "log_head kv' = advance_head (log_cap kv) (log_mask kv) (log_head kv) 50" by metis
  with head_after_insert[OF a(1,2)] show
    "\<exists>kv'. mica_insert_one kv op = Inr kv' \<and> kv_wf kv' \<and> room_for kv' n" by blast
next
  fix kv op kv'
  assume "mica_insert_one kv op = Inr kv'"
  then show "bkt_of kv' = bkt_of kv"
    by (auto simp: mica_insert_one_def index_insert_def log_append_def Let_def res_simps
        bkt_of_def fun_eq_iff split: if_splits)
next
  fix kv n op kv' b
  assume a: "kv_wf kv" "room_for kv (Suc n)" "op_ok op" "mica_insert_one kv op = Inr kv'"
  from mica_insert_one_ok[OF a(1) room_for_Suc[OF a(2)] a(3)] a(4) have "inserted kv op kv'"
    by (metis Inr_inject)
  then show "bkt_load kv' b \<le> bkt_load kv b + (if bkt_of kv (key op) = b then 1 else 0)"
    by (rule bkt_load_inserted[OF a(1) room_for_Suc[OF a(2)]])
next
  fix kv n op kv' k
  assume a: "kv_wf kv" "room_for kv (Suc n)" "op_ok op" "mica_insert_one kv op = Inr kv'"
  from mica_insert_one_ok[OF a(1) room_for_Suc[OF a(2)] a(3)] a(4) have ins: "inserted kv op kv'"
    "log_head kv' = advance_head (log_cap kv) (log_mask kv) (log_head kv) 50"
    by (metis Inr_inject)+
  show "kv_abs kv' k = (if key_word k = key_word (key op) then Some (stored op)
      else if displaced kv (key op) k then None else kv_abs kv k)"
    using a(3) head_after_insert(3)[OF a(1,2) ins]
    by (intro inserted_abs[OF a(1) room_for_Suc[OF a(2)] ins(1)])
      (auto simp: op_ok_def MICA_MAX_VALUE_eq HERD_VALUE_SIZE_eq)
next
  fix kv k k'
  assume "kv_wf kv" "displaced kv k k'"
  then show "bkt_of kv k' = bkt_of kv k \<and> (tag k = tag k' \<or> 8 \<le> bkt_load kv (bkt_of kv k))"
    by (rule displaced_cases)
qed (auto simp: key_word_eq_iff bkt_of_def)

end
