(* ===== verification/Mica_Ops.thy ===== *)
theory Mica_Ops
  imports Mica_Store
begin

text \<open>
  The operations of the MICA store over the map it stands for: updates of an
  entry in place, batches, initialisation and population, and the behaviour of
  the log after its first lap.
\<close>

section \<open>Updating an entry in place\<close>

text \<open>What a successful lookup points at.\<close>

lemma lookup_Some_slot:
  assumes "kv_wf kv" "in_first_lap kv" "mica_lookup kv k = Inr (Some (off, e))"
  obtains i j where "used kv i j" "slot_entry kv i j e" "off = off_at kv i j"
    "bkt_of kv k = i" "ucast (tag k) = (ucast (slot_tag (ht_index kv ! i ! j)) :: u32)"
    "key_word (key e) = key_word k"
  using assms(1,2)
proof (cases rule: lookup_cases[of kv k])
  case (slot i j x)
  with assms(3) have x: "x = e" "off = off_at kv i j" "key_word (key e) = key_word k"
    by (auto split: if_splits)
  show ?thesis using slot(1-4) x by (intro that[of i j]) simp_all
qed (use assms(3) in auto)

text \<open>
  Rewriting the entry of a slot without changing its key or its length: the store
  stays well formed, and the map changes at that key only.
\<close>

definition updated :: "mica_kv \<Rightarrow> nat \<Rightarrow> nat \<Rightarrow> cache_op \<Rightarrow> cache_op \<Rightarrow> mica_kv \<Rightarrow> bool" where
  "updated kv i j e e' kv' \<longleftrightarrow>
     used kv i j \<and> slot_entry kv i j e \<and> key_word (key e') = key_word (key e) \<and>
     val_len e' = val_len e \<and> entry_wf e' \<and>
     (\<exists>l. write_op (ht_log kv) (off_at kv i j) e' = Inr l \<and> kv' = kv\<lparr>ht_log := l\<rparr>)"

lemma updated_fields:
  assumes "updated kv i j e e' kv'"
  shows "ht_index kv' = ht_index kv" "bkt_mask kv' = bkt_mask kv" "log_cap kv' = log_cap kv"
    "log_mask kv' = log_mask kv" "log_head kv' = log_head kv"
    "used kv' = used kv" "off_at kv' = off_at kv" "bkt_of kv' = bkt_of kv"
    "length (ht_log kv') = length (ht_log kv)"
  using assms write_op_length
  by (auto simp: updated_def used_def off_at_def bkt_of_def fun_eq_iff)

lemma updated_exists:
  assumes "kv_wf kv" "used kv i j" "slot_entry kv i j e" "key_word (key e') = key_word (key e)"
    "val_len e' = val_len e" "entry_wf e'"
  obtains l where "write_op (ht_log kv) (off_at kv i j) e' = Inr l"
    "updated kv i j e e' (kv\<lparr>ht_log := l\<rparr>)"
proof -
  have "unat (log_head kv) \<le> length (ht_log kv)" using assms(1) by (simp add: kv_wf_def head_le_log)
  with assms(3,5,6) obtain l where "write_op (ht_log kv) (off_at kv i j) e' = Inr l"
    by (auto simp: write_op_def mem_write_def slot_entry_def entry_wf_def)
  with assms show ?thesis by (intro that[of l]) (auto simp: updated_def)
qed

lemma updated_new:
  assumes "updated kv i j e e' kv'"
  shows "slot_entry kv' i j e'"
proof -
  from assms have e: "slot_entry kv i j e" "key_word (key e') = key_word (key e)"
    "val_len e' = val_len e" "entry_wf e'" by (auto simp: updated_def)
  from assms have "read_op (ht_log kv') (off_at kv i j) = Inr e'"
    by (auto simp: updated_def read_write_op_same)
  with e show ?thesis
    by (simp add: slot_entry_def updated_fields[OF assms] bkt_of_def key_word_eq_iff)
qed

lemma updated_old:
  assumes "kv_wf kv" "updated kv i j e e' kv'" "used kv p q" "slot_entry kv p q x" "(p, q) \<noteq> (i, j)"
  shows "slot_entry kv' p q x"
proof -
  let ?off = "off_at kv i j" and ?n = "18 + unat (val_len x)"
  from assms(2) obtain l where e: "used kv i j" "slot_entry kv i j e" "val_len e' = val_len e"
    "entry_wf e'" and l: "mem_write (ht_log kv) ?off (encode_op e') = Inr l" "ht_log kv' = l"
    by (auto simp: updated_def write_op_def)
  have x: "read_op (ht_log kv) (off_at kv p q) = Inr x" "off_at kv p q + ?n \<le> unat (log_head kv)"
    using assms(4) by (simp_all add: slot_entry_def)
  have "?off + 18 + unat (val_len e) \<le> off_at kv p q \<or> off_at kv p q + ?n \<le> ?off"
    using assms(1,3-5) e(1,2) unfolding kv_wf_def entries_wf_def add.assoc by metis
  then have "take ?n (drop (off_at kv p q) l) = take ?n (drop (off_at kv p q) (ht_log kv))"
    using e(3,4) by (intro mem_write_read_disjoint[OF l(1)]) (auto simp: entry_wf_def)
  moreover have "off_at kv p q + 18 + unat (val_len x) \<le> length (ht_log kv)"
    using x(2) assms(1) head_le_log[of kv] by (simp add: kv_wf_def)
  ultimately have "read_op l (off_at kv p q) = Inr x"
    using read_op_cong[OF x(1) _ mem_write_length[OF l(1)]] by simp
  with assms(4) show ?thesis
    by (simp add: slot_entry_def updated_fields[OF assms(2)] l(2) bkt_of_def)
qed

lemma updated_entry_len:
  assumes "kv_wf kv" "updated kv i j e e' kv'" "used kv p q" "slot_entry kv' p q x"
  shows "\<exists>y. slot_entry kv p q y \<and> val_len y = val_len x"
proof (cases "(p, q) = (i, j)")
  case True
  with assms(4) updated_new[OF assms(2)] have "x = e'" using slot_entry_unique by blast
  with True assms(2) show ?thesis by (auto simp: updated_def)
next
  case False
  from used_slot_entry[OF assms(1,3)] obtain y where y: "slot_entry kv p q y" by blast
  with updated_old[OF assms(1,2,3) y False] assms(4) slot_entry_unique show ?thesis by blast
qed

lemma updated_wf:
  assumes "kv_wf kv" "updated kv i j e e' kv'"
  shows "kv_wf kv'"
  unfolding kv_wf_def
proof (intro conjI)
  note f = updated_fields[OF assms(2)]
  show "index_wf kv'" using assms(1) by (simp add: kv_wf_def index_wf_def f)
  show "log_wf kv'" using assms(1) by (simp add: kv_wf_def log_wf_def f)
  show "entries_wf kv'"
    unfolding entries_wf_def f
  proof (intro conjI allI impI)
    fix p q assume pq: "used kv p q"
    show "\<exists>x. slot_entry kv' p q x"
    proof (cases "(p, q) = (i, j)")
      case False
      with used_slot_entry[OF assms(1) pq] updated_old[OF assms pq] show ?thesis by blast
    qed (use updated_new[OF assms(2)] in auto)
  next
    fix p q p' q' x x'
    assume a: "used kv p q" "used kv p' q'" "(p, q) \<noteq> (p', q')"
      "slot_entry kv' p q x" "slot_entry kv' p' q' x'"
    from updated_entry_len[OF assms a(1,4)] updated_entry_len[OF assms a(2,5)] obtain y y' where
      y: "slot_entry kv p q y" "val_len y = val_len x" "slot_entry kv p' q' y'" "val_len y' = val_len x'"
      by blast
    from assms(1) a(1-3) y(1,3) have "off_at kv p q + 18 + unat (val_len y) \<le> off_at kv p' q' \<or>
        off_at kv p' q' + 18 + unat (val_len y') \<le> off_at kv p q"
      unfolding kv_wf_def entries_wf_def by metis
    with y(2,4) show "off_at kv p q + 18 + unat (val_len x) \<le> off_at kv p' q' \<or>
        off_at kv p' q' + 18 + unat (val_len x') \<le> off_at kv p q" by simp
  qed
qed

lemma slot_of_key:
  assumes "kv_wf kv" "used kv i j" "slot_entry kv i j e" "used kv p q" "bkt_of kv k = p"
    "ucast (tag k) = (ucast (slot_tag (ht_index kv ! p ! q)) :: u32)" "key_word k = key_word (key e)"
  shows "(p, q) = (i, j)"
proof -
  from assms(3,5,7) have "p = i" "tag k = tag (key e)"
    by (auto simp: key_word_eq_iff slot_entry_def bkt_of_def)
  then have "slot_hit (ht_index kv ! i) (ucast (tag k)) q" "slot_hit (ht_index kv ! i) (ucast (tag k)) j"
    using assms(2-4,6) by (auto simp: slot_hit_def used_def slot_entry_def)
  moreover have "bkt_wf (ht_index kv ! i)"
    using assms(1,2) by (simp add: kv_wf_def index_wf_def used_def)
  ultimately have "q = j" using slot_hit_unique assms(2,4) by (auto simp: used_def)
  with \<open>p = i\<close> show ?thesis by simp
qed

lemma updated_abs:
  assumes "kv_wf kv" "in_first_lap kv" "updated kv i j e e' kv'"
  shows "kv_abs kv' k = (if key_word k = key_word (key e) then Some e' else kv_abs kv k)"
  using assms(1,2)
proof (cases rule: lookup_cases[of kv k])
  case none
  then have "mica_lookup kv' k = Inr None"
    by (intro lookup_no_slot) (simp add: updated_fields[OF assms(3)])
  moreover have "key_word k \<noteq> key_word (key e)"
    using none(2) assms(3)
    by (auto simp: updated_def key_word_eq_iff slot_entry_def slot_hit_def used_def bkt_of_def)
  ultimately show ?thesis using none(1) by (simp add: kv_abs_def)
next
  case (slot p q x)
  note f = updated_fields[OF assms(3)]
  have lap: "in_first_lap kv'" using assms(2) by (simp add: in_first_lap_def f)
  from assms(3) have e: "used kv i j" "slot_entry kv i j e" "key_word (key e') = key_word (key e)"
    by (auto simp: updated_def)
  show ?thesis
  proof (cases "(p, q) = (i, j)")
    case True
    with slot(2) e(2) have xe: "x = e" using slot_entry_unique by blast
    have "kv_abs kv' k = (if key_word (key e') = key_word k then Some e' else None)"
      using slot True
      by (intro kv_abs_slot[OF updated_wf[OF assms(1,3)] lap _ updated_new[OF assms(3)]])
         (simp_all add: f)
    with slot(5) xe e(3) show ?thesis by (auto simp: kv_abs_def)
  next
    case False
    have "kv_abs kv' k = (if key_word (key x) = key_word k then Some x else None)"
      using slot
      by (intro kv_abs_slot[OF updated_wf[OF assms(1,3)] lap _ updated_old[OF assms(1,3) slot(1,2) False]])
         (simp_all add: f)
    moreover have "key_word k \<noteq> key_word (key e)"
      using slot_of_key[OF assms(1) e(1,2) slot(1,3,4)] False by blast
    ultimately show ?thesis using slot(5) by (simp add: kv_abs_def)
  qed
qed

section \<open>Batches of operations on present keys\<close>

text \<open>The effect of one operation on the map.\<close>

definition abs_step :: "mica_op \<Rightarrow> (cache_key \<Rightarrow> cache_op option) \<Rightarrow> cache_key \<Rightarrow> cache_op option" where
  "abs_step op m k =
    (if opcode op = MICA_OP_PUT \<and> key_word k = key_word (key op)
     then map_option (\<lambda>e. e\<lparr>value := take (unat (val_len e)) (value op)\<rparr>) (m k) else m k)"

definition hit_ok :: "(cache_key \<Rightarrow> cache_op option) \<Rightarrow> mica_op \<Rightarrow> bool" where
  "hit_ok m op \<longleftrightarrow> (opcode op = MICA_OP_GET \<or> opcode op = MICA_OP_PUT) \<and>
     (\<exists>e. m (key op) = Some e \<and>
        (opcode op = MICA_OP_PUT \<longrightarrow> val_len op = val_len e \<and> unat (val_len e) \<le> length (value op)))"

definition hit_resp :: "mica_op \<Rightarrow> u8" where
  "hit_resp op = (if opcode op = MICA_OP_GET then MICA_RESP_GET_SUCCESS else MICA_RESP_PUT_SUCCESS)"

definition hit_answer :: "(cache_key \<Rightarrow> nat option) \<Rightarrow> (cache_key \<Rightarrow> cache_op option) \<Rightarrow> mica_op \<Rightarrow> mica_resp" where
  "hit_answer loc m op =
    (if opcode op = MICA_OP_GET
     then \<lparr>rtype = MICA_RESP_GET_SUCCESS, rval_len = val_len (the (m (key op))),
           val_ptr = map_option value_addr (loc (key op))\<rparr>
     else \<lparr>rtype = MICA_RESP_PUT_SUCCESS, rval_len = 0, val_ptr = None\<rparr>)"

lemma kv_abs_lookup:
  "kv_wf kv \<Longrightarrow> in_first_lap kv \<Longrightarrow> kv_abs kv k = Some e \<longleftrightarrow> (\<exists>off. mica_lookup kv k = Inr (Some (off, e)))"
  using mica_lookup_returns[of kv k]
  by (auto simp: kv_abs_def returns_def split: option.splits)

lemma kv_abs_key_word:
  assumes "key_word k' = key_word k"
  shows "kv_abs kv k' = kv_abs kv k"
proof -
  have "kv_ptr kv k' = kv_ptr kv k" using assms by (simp add: kv_ptr_def key_word_eq_iff)
  then show ?thesis by (simp add: kv_abs_def mica_lookup_def entry_at_def assms cong: option.case_cong)
qed

lemma updated_kv_ptr:
  assumes "updated kv i j e e' kv'"
  shows "kv_ptr kv' = kv_ptr kv"
  by (simp add: fun_eq_iff kv_ptr_def updated_fields[OF assms] cong: option.case_cong if_cong)

text \<open>Statistics do not matter to the map.\<close>

lemma kv_ptr_stats [simp]:
  "kv_ptr (kv\<lparr>num_get_op := n\<rparr>) = kv_ptr kv" "kv_ptr (kv\<lparr>num_put_op := n\<rparr>) = kv_ptr kv"
  by (simp_all add: fun_eq_iff kv_ptr_def cong: option.case_cong if_cong)

lemma kv_abs_stats [simp]:
  "kv_abs (kv\<lparr>num_get_op := n\<rparr>) = kv_abs kv" "kv_abs (kv\<lparr>num_put_op := n\<rparr>) = kv_abs kv"
  by (simp_all add: fun_eq_iff kv_abs_def mica_lookup_def entry_at_def cong: option.case_cong)

lemma lap_stats [simp]:
  "in_first_lap (kv\<lparr>num_get_op := n\<rparr>) = in_first_lap kv"
  "in_first_lap (kv\<lparr>num_put_op := n\<rparr>) = in_first_lap kv"
  by (simp_all add: in_first_lap_def)

lemma kv_wf_cong:
  assumes "ht_index kv' = ht_index kv" "ht_log kv' = ht_log kv" "log_head kv' = log_head kv"
    "bkt_mask kv' = bkt_mask kv" "log_cap kv' = log_cap kv" "log_mask kv' = log_mask kv"
  shows "kv_wf kv' = kv_wf kv"
proof -
  have "used kv' = used kv" "off_at kv' = off_at kv" "slot_entry kv' = slot_entry kv"
    by (simp_all add: fun_eq_iff used_def off_at_def slot_entry_def bkt_of_def assms)
  then show ?thesis by (simp only: kv_wf_def index_wf_def log_wf_def entries_wf_def assms)
qed

lemma kv_wf_stats [simp]:
  "kv_wf (kv\<lparr>num_get_op := n\<rparr>) = kv_wf kv" "kv_wf (kv\<lparr>num_put_op := n\<rparr>) = kv_wf kv"
  by (rule kv_wf_cong; simp)+

lemma mica_step_hit:
  assumes wf: "kv_wf kv" "in_first_lap kv" and hit: "hit_ok (kv_abs kv) op"
  obtains kv' r where "mica_step (op, kv_ptr kv (key op)) (kv, rs) = Inr (kv', rs @ [r])"
    "kv_wf kv'" "in_first_lap kv'" "kv_ptr kv' = kv_ptr kv"
    "kv_abs kv' = abs_step op (kv_abs kv)" "rtype r = hit_resp op" "r = hit_answer (kv_ptr kv) (kv_abs kv) op"
proof -
  from hit obtain e where e: "kv_abs kv (key op) = Some e" by (auto simp: hit_ok_def)
  with kv_abs_lookup[OF wf] obtain off
    where lk: "mica_lookup kv (key op) = Inr (Some (off, e))" by blast
  then have look: "entry_at kv (kv_ptr kv (key op)) (key op) = Inr (Some (off, e))"
    by (simp add: mica_lookup_def)
  then have ptr: "kv_ptr kv (key op) = Some off"
    by (auto simp: entry_at_def res_simps split: option.splits if_splits)
  show ?thesis
  proof (cases "opcode op = MICA_OP_GET")
    case True
    then have "abs_step op (kv_abs kv) = kv_abs kv" by (simp add: abs_step_def fun_eq_iff)
    with True look wf show ?thesis
      by (intro that[of "kv\<lparr>num_get_op := num_get_op kv + 1\<rparr>"
            "\<lparr>rtype = MICA_RESP_GET_SUCCESS, rval_len = val_len e, val_ptr = Some (value_addr off)\<rparr>"])
        (simp_all add: mica_step_def mica_op_hit_def hit_resp_def hit_answer_def e ptr)
  next
    case False
    with hit e have put: "opcode op = MICA_OP_PUT" "val_len op = val_len e"
      "unat (val_len e) \<le> length (value op)" by (auto simp: hit_ok_def)
    obtain i j where sl: "used kv i j" "slot_entry kv i j e" "off = off_at kv i j"
      "key_word (key e) = key_word (key op)"
      by (rule lookup_Some_slot[OF wf lk])
    let ?v = "take (unat (val_len e)) (value op)"
    have len: "length (value e) = unat (val_len e)" using sl(2) by (simp add: slot_entry_def entry_wf_def)
    have e': "key_word (key (e\<lparr>value := ?v\<rparr>)) = key_word (key e)"
      "val_len (e\<lparr>value := ?v\<rparr>) = val_len e" "entry_wf (e\<lparr>value := ?v\<rparr>)"
      using put(3) by (simp_all add: entry_wf_def)
    obtain l where l: "write_op (ht_log kv) (off_at kv i j) (e\<lparr>value := ?v\<rparr>) = Inr l"
      "updated kv i j e (e\<lparr>value := ?v\<rparr>) (kv\<lparr>ht_log := l\<rparr>)"
      by (rule updated_exists[OF wf(1) sl(1,2) e'])
    have "kv_abs (kv\<lparr>ht_log := l\<rparr>) k = abs_step op (kv_abs kv) k" for k
      using updated_abs[OF wf l(2), of k] kv_abs_key_word[of k "key op" kv] e sl(4) put(1)
      by (auto simp: abs_step_def)
    then have "kv_abs (kv\<lparr>ht_log := l\<rparr>) = abs_step op (kv_abs kv)" by (rule ext)
    moreover have "in_first_lap (kv\<lparr>ht_log := l\<rparr>)" using wf(2) by (simp add: in_first_lap_def)
    moreover have "copy_value (unat (val_len e)) (value op) (value e) = Inr ?v"
      using put(3) len by (simp add: copy_value_def)
    ultimately show ?thesis
      using look sl(3) l put False updated_wf[OF wf(1) l(2)] updated_kv_ptr[OF l(2)] wf(2)
      by (intro that[of "kv\<lparr>ht_log := l, num_put_op := num_put_op kv + 1\<rparr>"
            "\<lparr>rtype = MICA_RESP_PUT_SUCCESS, rval_len = 0, val_ptr = None\<rparr>"])
        (simp_all add: mica_step_def mica_op_hit_def hit_resp_def hit_answer_def)
  qed
qed

lemma hit_ok_abs_step: "hit_ok m op' \<Longrightarrow> hit_ok (abs_step op m) op'"
  by (auto simp: hit_ok_def abs_step_def)

lemma mica_steps_hit:
  assumes "kv_wf kv" "in_first_lap kv" "\<forall>op\<in>set ops. hit_ok (kv_abs kv) op" "ptr = kv_ptr kv"
  shows "\<exists>kv' rs'. fold_res mica_step (zip ops (map (\<lambda>op. ptr (key op)) ops)) (kv, rs) =
      Inr (kv', rs @ rs') \<and> kv_wf kv' \<and> in_first_lap kv' \<and>
      kv_abs kv' = fold abs_step ops (kv_abs kv) \<and> map rtype rs' = map hit_resp ops"
  using assms
proof (induction ops arbitrary: kv rs)
  case (Cons op ops)
  have hit: "hit_ok (kv_abs kv) op" using Cons.prems(3) by simp
  obtain kv1 r where s: "mica_step (op, kv_ptr kv (key op)) (kv, rs) = Inr (kv1, rs @ [r])"
    "kv_wf kv1" "in_first_lap kv1" "kv_ptr kv1 = kv_ptr kv"
    "kv_abs kv1 = abs_step op (kv_abs kv)" "rtype r = hit_resp op"
    by (rule mica_step_hit[OF Cons.prems(1,2) hit]) (rule that)
  have "\<forall>op'\<in>set ops. hit_ok (kv_abs kv1) op'"
    using Cons.prems(3) by (simp add: hit_ok_abs_step s(5))
  from Cons.IH[OF s(2,3) this] Cons.prems(4) s(4) obtain kv' rs' where
    "fold_res mica_step (zip ops (map (\<lambda>op. ptr (key op)) ops)) (kv1, rs @ [r]) =
      Inr (kv', (rs @ [r]) @ rs')" "kv_wf kv'" "in_first_lap kv'"
    "kv_abs kv' = fold abs_step ops (kv_abs kv1)" "map rtype rs' = map hit_resp ops"
    by metis
  with s Cons.prems(4) show ?case by (intro exI[of _ kv'] exI[of _ "r # rs'"]) simp
qed simp

section \<open>Initialising\<close>

lemma is_power_of_2_iff: "is_power_of_2 x \<longleftrightarrow> (\<exists>n\<in>set [0..<31]. x = 2 ^ n)"
  by (simp add: is_power_of_2_def upt_rec)

text \<open>The memory segments the operating system hands out have the sizes asked for.\<close>

definition segments_ok :: "nat \<Rightarrow> nat \<Rightarrow> mica_bkt list \<Rightarrow> u8 list \<Rightarrow> bool" where
  "segments_ok n c index_mem log_mem \<longleftrightarrow>
     length index_mem = 2 ^ n \<and> (\<forall>b\<in>set index_mem. length b = 8) \<and> length log_mem = 2 ^ c"

lemma mica_init_ok:
  assumes "segments_ok n c index_mem log_mem" "n \<le> 24" "8 \<le> c" "c \<le> 39" "node = 0 \<or> node = 1"
  obtains kv where "mica_init instance node (2 ^ n) (2 ^ c) index_mem log_mem = Inr kv"
    "kv_wf kv" "log_head kv = 0" "log_cap kv = 2 ^ c" "num_insert_op kv = 0"
    "num_index_evictions kv = 0" "\<And>i. bkt_load kv i = 0" "\<And>k. kv_abs kv k = None"
    "bkt_mask kv = mask n"
proof -
  let ?idx = "map (map (\<lambda>s. s\<lparr>in_use := 0\<rparr>)) index_mem"
  define kv where "kv = \<lparr>ht_index = ?idx, ht_log = log_mem, instance_id = instance, node_id = node,
      num_bkts = 2 ^ n, bkt_mask = of_int (2 ^ n - 1), log_cap = 2 ^ c, log_mask = 2 ^ c - 1,
      log_head = 0, num_get_op = 0, num_put_op = 0, num_get_fail = 0, num_put_fail = 0,
      num_insert_op = 0, num_index_evictions = 0\<rparr>"
  have "(2 :: int) ^ n \<le> 2 ^ 24" using assms(2) by (intro power_increasing) auto
  moreover have "is_power_of_2 (2 ^ n)" using assms(2) by (auto simp: is_power_of_2_iff)
  ultimately have init: "mica_init instance node (2 ^ n) (2 ^ c) index_mem log_mem = Inr kv"
    using assms(5) by (simp add: mica_init_def kv_def MICA_LOG_BITS_def)
  have free: "in_use (ht_index kv ! i ! j) = 0" if "i < length (ht_index kv)" "j < 8" for i j
    using that assms(1) by (simp add: kv_def segments_ok_def)
  have unused: "\<not> used kv i j" for i j using free[of i j] by (auto simp: used_def)
  have mask: "bkt_mask kv = mask n" "log_mask kv = mask c"
    by (simp_all add: kv_def mask_eq_exp_minus_1)
  have "bkt_wf b" if "b \<in> set (ht_index kv)" for b
  proof -
    from that obtain i where "i < length (ht_index kv)" "b = ht_index kv ! i" by (auto simp: in_set_conv_nth)
    with free[of i] have "\<forall>j<8. in_use (b ! j) = 0" by simp
    moreover have "length b = 8" using that assms(1) by (auto simp: kv_def segments_ok_def)
    ultimately show ?thesis by (auto simp: bkt_wf_def)
  qed
  then have "index_wf kv"
    using assms(1,2) mask by (auto simp: index_wf_def segments_ok_def kv_def)
  moreover have "log_wf kv"
    using assms(1,3,4) mask by (auto simp: log_wf_def kv_def segments_ok_def unat_pow2)
  moreover have "entries_wf kv" by (simp add: entries_wf_def unused)
  ultimately have wf: "kv_wf kv" by (simp add: kv_wf_def)
  then have "bkt_of kv k < length (ht_index kv)" for k by (simp add: kv_wf_def bkt_of_less)
  then have "mica_lookup kv k = Inr None" for k
    using free by (intro lookup_no_slot) (auto simp: slot_hit_def)
  with init wf mask unused show ?thesis
    by (intro that[of kv]) (simp_all add: kv_def kv_abs_def bkt_load_def)
qed

section \<open>Populating\<close>

text \<open>The sequence of objects a population inserts: the loaders reuse one stack object
  and fill it anew for each key.\<close>

fun populate_ops :: "(mica_op \<Rightarrow> uint128 \<Rightarrow> mica_op) \<Rightarrow> uint128 list \<Rightarrow> mica_op \<Rightarrow> mica_op list" where
  "populate_ops f [] op = []"
| "populate_ops f (k # ks) op = (let op' = f op k in op' # populate_ops f ks op')"

lemma populate_loop:
  "fold_res (\<lambda>k (kv, op). let op = f op k
       in bind_res (mica_insert_one kv op) (\<lambda>kv. Inr (kv, op))) ks (kv, op) =
   bind_res (fold_res (\<lambda>op kv. mica_insert_one kv op) (populate_ops f ks op) kv)
     (\<lambda>kv'. Inr (kv', last (op # populate_ops f ks op)))"
proof (induction ks arbitrary: kv op)
  case (Cons k ks)
  show ?case
  proof (cases "mica_insert_one kv (f op k)")
    case (Inr kv1)
    with Cons.IH[of kv1 "f op k"] show ?thesis by (simp add: Let_def)
  qed (simp add: Let_def)
qed simp

lemma populate_ops_length [simp]: "length (populate_ops f ks op) = length ks"
  by (induction ks arbitrary: op) (simp_all add: Let_def)

lemma populate_ops_all2:
  assumes "I op" "\<And>op k. I op \<Longrightarrow> I (f op k) \<and> P (f op k) k"
  shows "list_all2 P (populate_ops f ks op) ks"
  using assms(1)
proof (induction ks arbitrary: op)
  case (Cons k ks)
  with assms(2)[of op k] show ?case by (simp add: Let_def)
qed simp

lemma populate_op_ok:
  assumes "length (value op) = MICA_MAX_VALUE" "len \<le> HERD_VALUE_SIZE"
  shows "op_ok (populate_op len op k)"
  using assms
  by (simp add: op_ok_def populate_op_def MICA_MAX_VALUE_eq HERD_VALUE_SIZE_eq SHIFT_BITS_def
      USE_BIG_OBJECTS_def unat_of_nat)

lemma populate_ops_ok:
  assumes "length (value op) = MICA_MAX_VALUE" "len \<le> HERD_VALUE_SIZE"
  shows "\<forall>x\<in>set (populate_ops (populate_op len) ks op). op_ok x"
proof -
  have "list_all2 (\<lambda>x k. op_ok x) (populate_ops (populate_op len) ks op) ks"
    using assms populate_op_ok[of _ len]
    by (intro populate_ops_all2[where I = "\<lambda>op. length (value op) = MICA_MAX_VALUE"])
       (auto simp: op_ok_def)
  then show ?thesis by (auto simp: list_all2_conv_all_nth in_set_conv_nth)
qed

lemma populate_ops_keys:
  "map (\<lambda>op. key_word (key op)) (populate_ops (populate_op len) ks op) = map second ks"
  by (induction ks arbitrary: op) (simp_all add: Let_def populate_op_def)

lemma insert_one_counts:
  "mica_insert_one kv op = Inr kv' \<Longrightarrow> num_insert_op kv' = num_insert_op kv + 1"
  by (auto simp: mica_insert_one_def index_insert_def log_append_def Let_def res_simps split: if_splits)

lemma insert_all_counts:
  "fold_res (\<lambda>op kv. mica_insert_one kv op) ops kv = Inr kv' \<Longrightarrow>
   num_insert_op kv' = num_insert_op kv + int (length ops)"
  by (induction ops arbitrary: kv) (auto simp: bind_res_Inr_iff dest: insert_one_counts)

lemma gen_keys_ok:
  assumes "0 < n" "n \<le> 1073741824 div 16"
  shows "\<exists>ks. mica_gen_keys n = Inr ks \<and> length ks = nat n"
proof -
  let ?f = "\<lambda>i ks. bind_res (CityHash128 (bytes32 (of_nat i)) 0 4) (\<lambda>h. Inr (ks @ [h]))"
  have hash: "\<exists>h. CityHash128 (bytes32 w) 0 4 = Inr h" for w
  proof -
    have "returns (CityHash128 (bytes32 w) 0 4)"
      unfolding CityHash128_def by (intro returns_intro; simp)
    then show ?thesis by (simp add: returns_def)
  qed
  have "\<exists>ks'. fold_res ?f xs ks = Inr ks' \<and> length ks' = length ks + length xs" for xs ks
  proof (induction xs arbitrary: ks)
    case (Cons x xs)
    from hash obtain h where "CityHash128 (bytes32 (of_nat x)) 0 4 = Inr h" by blast
    with Cons.IH[of "ks @ [h]"] show ?case by auto
  qed simp
  from this[of "[0..<nat n]" "[]"] assms show ?thesis by (auto simp: mica_gen_keys_def)
qed

lemma mica_populate_eq:
  assumes "0 < n" "0 < len" "len \<le> int MICA_MAX_VALUE" "num_insert_op kv = 0"
    "num_index_evictions kv = 0" "mica_gen_keys n = Inr ks" "length ks = nat n"
  shows "mica_populate_fixed_len kv n len op0 =
    fold_res (\<lambda>op kv. mica_insert_one kv op) (populate_ops (populate_op (nat len)) ks op0) kv"
proof (cases "fold_res (\<lambda>op kv. mica_insert_one kv op) (populate_ops (populate_op (nat len)) ks op0) kv")
  case (Inr kv')
  with insert_all_counts[OF Inr] assms show ?thesis
    by (simp add: mica_populate_fixed_len_def populate_loop)
qed (use assms in \<open>simp add: mica_populate_fixed_len_def populate_loop\<close>)

section \<open>After the first lap\<close>

text \<open>
  The test that decides whether to wrap is made on unsigned numbers: once the head
  is past the capacity, the difference is huge and the test never succeeds again.
\<close>

lemma advance_head_second_lap:
  assumes "8 \<le> c" "c \<le> 39" "2 ^ c \<le> unat head" "unat head < 2 ^ 62" "0 < len" "len \<le> 64"
  shows "unat (advance_head (2 ^ c) (mask c) head len) =
    unat head + len + 7 - (unat head + len + 7) mod 8"
proof -
  have big: "(2 :: nat) ^ c \<le> 2 ^ 39" using assms(2) by (intro power_increasing) auto
  have cap: "unat (2 ^ c :: u64) = 2 ^ c" using assms(2) by (simp add: unat_pow2)
  define h where "h = unat head + len + 7 - (unat head + len + 7) mod 8"
  have "(unat head + len + 7) mod 8 \<le> 7" by simp
  then have h: "unat head + len \<le> h" "h \<le> unat head + 71" using assms(6) by (auto simp: h_def)
  have lenw: "unat (of_nat len :: u64) = len" using assms(6) by (simp add: unat_of_nat)
  have s1: "unat (head + of_nat len) = unat head + len"
    using assms(4,6) by (subst unat_add_small) (auto simp: lenw)
  have s2: "unat (head + of_nat len + 7) = unat head + len + 7"
    using assms(4,6) s1 by (subst unat_add_small) auto
  have m: "(7 :: u64) = mask 3" by (simp add: mask_eq_exp_minus_1)
  define hw where "hw = (head + of_nat len + 7) AND NOT (7 :: u64)"
  have hw: "unat hw = h"
    unfolding hw_def m unat_and_not_mask h_def using s2 unfolding m by simp
  have d: "unat (2 ^ c - hw) = 2 ^ 64 + 2 ^ c - h" if "2 ^ c < h"
    using that h(2) assms(4) by (subst unat_sub_if') (auto simp: cap hw)
  from h(1) assms(3,5) have "2 ^ c < h" by linarith
  from d[OF this] h(2) assms(4) have "\<not> (2 ^ c :: u64) - hw \<le> of_nat (MICA_MAX_VALUE + 32)"
    by (simp add: word_le_nat_alt MICA_MAX_VALUE_eq)
  then have "advance_head (2 ^ c) (mask c) head len = hw"
    unfolding advance_head_def Let_def hw_def[symmetric] by simp
  with hw show ?thesis by (simp add: h_def)
qed

text \<open>A store in its second lap, \<open>p\<close> bytes past the wrap.\<close>

definition second_lap :: "nat \<Rightarrow> nat \<Rightarrow> mica_kv \<Rightarrow> bool" where
  "second_lap c p kv \<longleftrightarrow> index_wf kv \<and> 8 \<le> c \<and> c \<le> 38 \<and> log_cap kv = 2 ^ c \<and>
     log_mask kv = mask c \<and> length (ht_log kv) = 2 ^ c \<and>
     unat (log_head kv) = 2 ^ c + p \<and> p < 2 ^ c \<and> 56 dvd p"

lemma index_insert_wf:
  assumes "index_wf kv"
  obtains idx m ev where "index_insert kv k =
      Inr (kv\<lparr>num_insert_op := m, num_index_evictions := ev, ht_index := idx\<rparr>)"
    "index_wf (kv\<lparr>num_insert_op := m, num_index_evictions := ev, ht_index := idx\<rparr>)"
proof -
  let ?i = "bkt_of kv k" and ?t = "ucast (tag k) :: u32"
  let ?idx = "(ht_index kv)[?i := encode_slot (ht_index kv ! ?i) ?t (log_head kv)]"
  have i: "?i < length (ht_index kv)" using assms by (rule bkt_of_less)
  have "bkt_wf (encode_slot (ht_index kv ! ?i) ?t (log_head kv))"
    using assms i by (intro encode_slot_wf[OF _ tag16_less]) (auto simp: index_wf_def)
  with assms i show ?thesis
    by (intro that[of ?idx "num_index_evictions kv +
            (if slot_to_use (ht_index kv ! ?i) ?t = None then 1 else 0)" "num_insert_op kv + 1"])
       (auto simp: index_insert_def bkt_of_def[symmetric] Let_def index_wf_def nth_list_update)
qed

lemma seven_not_dvd_pow2: "\<not> 7 dvd (2 :: nat) ^ c"
proof -
  have "(2 :: nat) ^ c mod 7 \<in> {1, 2, 4}"
  proof (induction c)
    case (Suc c)
    have "(2 :: nat) ^ Suc c mod 7 = 2 * (2 ^ c mod 7) mod 7" by (simp add: mod_mult_right_eq)
    with Suc show ?case by auto
  qed simp
  then show ?thesis by (auto simp: dvd_eq_mod_eq_0)
qed

lemma insert_second_lap:
  assumes "second_lap c p kv" "length (value op) = MICA_MAX_VALUE"
  shows "2 ^ c < p + 50 \<Longrightarrow> mica_insert_one kv op = Inl Out_Of_Bounds"
    and "p + 50 \<le> 2 ^ c \<Longrightarrow> \<exists>kv'. mica_insert_one kv op = Inr kv' \<and> second_lap c (p + 56) kv'"
proof -
  from assms(1) have sl: "index_wf kv" "8 \<le> c" "c \<le> 38" "log_cap kv = 2 ^ c" "log_mask kv = mask c"
    "length (ht_log kv) = 2 ^ c" "unat (log_head kv) = 2 ^ c + p" "p < 2 ^ c" "56 dvd p"
    by (simp_all add: second_lap_def)
  have big: "(2 :: nat) ^ c \<le> 2 ^ 38" using sl(3) by (intro power_increasing) auto
  have phys: "unat (log_head kv AND mask c) = p"
    using sl(8) by (simp add: sl(7) unat_and_mask)
  have sub: "unat ((2 :: u64) ^ 40 - log_head kv) = 2 ^ 40 - unat (log_head kv)"
    using sl(7,8) big by (subst unat_sub) (auto simp: word_le_nat_alt unat_pow2)
  have pass: "of_nat (50 + 8) < (push_bit MICA_LOG_BITS 1 - log_head kv)"
    using sl(7,8) big sub by (simp add: word_less_nat_alt MICA_LOG_BITS_def push_bit_eq_mult)
  have l: "KEY_SIZE + 1 + 1 + HERD_VALUE_SIZE = 50" by (simp add: config)
  have enc: "length (encode_op op) = 64" using assms(2) by (simp add: MICA_MAX_VALUE_eq)
  obtain idx m ev where idx: "index_insert kv (key op) =
      Inr (kv\<lparr>num_insert_op := m, num_index_evictions := ev, ht_index := idx\<rparr>)"
    "index_wf (kv\<lparr>num_insert_op := m, num_index_evictions := ev, ht_index := idx\<rparr>)"
    by (rule index_insert_wf[OF sl(1)])
  have eq: "mica_insert_one kv op = bind_res (mem_write (ht_log kv) p (take 50 (encode_op op)))
        (\<lambda>l. Inr (kv\<lparr>num_insert_op := m, num_index_evictions := ev, ht_index := idx, ht_log := l,
            log_head := advance_head (2 ^ c) (mask c) (log_head kv) 50\<rparr>))"
    unfolding mica_insert_one_def l using pass enc by (simp add: idx(1) log_append_def phys sl(4,5))
  show "mica_insert_one kv op = Inl Out_Of_Bounds" if "2 ^ c < p + 50"
    using that enc sl(6) by (simp add: eq mem_write_def)
  assume fits: "p + 50 \<le> 2 ^ c"
  obtain q where q: "p = 56 * q" using sl(9) by (auto elim: dvdE)
  obtain r where r: "(2 :: nat) ^ c = 8 * r"
    using sl(2) le_imp_power_dvd[of 3 c "2 :: nat"] by (auto elim: dvdE)
  have "\<not> 7 dvd (2 :: nat) ^ c" by (rule seven_not_dvd_pow2)
  moreover have "7 dvd p + 56" using q by presburger
  ultimately have "p + 56 \<noteq> 2 ^ c" by metis
  with fits q r have p': "p + 56 < 2 ^ c" by presburger
  have "8 dvd unat (log_head kv)" using sl(7) q r by simp
  then have "(unat (log_head kv) + 50 + 7) mod 8 = 1" by presburger
  then have "unat (advance_head (2 ^ c) (mask c) (log_head kv) 50) = 2 ^ c + (p + 56)"
    using advance_head_second_lap[OF sl(2) _ _ _ _ , of "log_head kv" 50] sl(3,7,8) big by simp
  moreover obtain lg where "mem_write (ht_log kv) p (take 50 (encode_op op)) = Inr lg"
    "length lg = 2 ^ c"
    using fits enc sl(6) by (auto simp: mem_write_def)
  ultimately show "\<exists>kv'. mica_insert_one kv op = Inr kv' \<and> second_lap c (p + 56) kv'"
    using idx(2) sl p' by (simp add: eq second_lap_def index_wf_def)
qed

section \<open>What population leaves in the store\<close>

definition word_bkt :: "mica_kv \<Rightarrow> u64 \<Rightarrow> nat" where
  "word_bkt kv w = unat (ucast w AND bkt_mask kv)"

definition word_tag :: "u64 \<Rightarrow> u16" where
  "word_tag w = ucast (drop_bit 48 w)"

text \<open>Keys of which no two share bucket and tag, at most eight to a bucket.\<close>

definition spread :: "mica_kv \<Rightarrow> u64 list \<Rightarrow> bool" where
  "spread kv ws \<longleftrightarrow>
     sorted_wrt (\<lambda>v w. \<not> (word_bkt kv v = word_bkt kv w \<and> word_tag v = word_tag w)) ws \<and>
     (\<forall>i < length (ht_index kv). length (filter (\<lambda>w. word_bkt kv w = i) ws) \<le> 8)"

lemma word_bkt_key: "bkt_of kv k = word_bkt kv (key_word k)"
  and word_tag_key: "tag k = word_tag (key_word k)"
proof -
  have "ucast (key_word k) = bkt k"
    by (rule bit_word_eqI) (simp add: bit_simps bit_key_word)
  then show "bkt_of kv k = word_bkt kv (key_word k)" by (simp add: bkt_of_def word_bkt_def)
  show "tag k = word_tag (key_word k)"
    unfolding word_tag_def by (rule bit_word_eqI) (simp add: bit_simps bit_key_word)
qed

lemma populate_ops_contents:
  assumes "length (value op) = MICA_MAX_VALUE" "len \<le> HERD_VALUE_SIZE"
  shows "list_all2 (\<lambda>x h. key_word (key x) = second h \<and> val_len x = of_nat len \<and>
     take len (value x) = replicate len (ucast (second h AND 0xff)))
   (populate_ops (populate_op len) ks op) ks"
  using assms populate_op_ok[of _ len]
  by (intro populate_ops_all2[where I = "\<lambda>op. length (value op) = MICA_MAX_VALUE"])
     (auto simp: op_ok_def populate_op_def SHIFT_BITS_def USE_BIG_OBJECTS_def)

lemma spread_ops:
  assumes "kv_wf kv" "spread kv (map (\<lambda>op. key_word (key op)) ops)" "\<And>i. bkt_load kv i = 0"
  shows "sorted_wrt (\<lambda>x y. \<not> (bkt_of kv (key x) = bkt_of kv (key y) \<and> tag (key x) = tag (key y))) ops"
    and "\<forall>b. bkt_load kv b + length (filter (\<lambda>x. bkt_of kv (key x) = b) ops) \<le> 8"
proof -
  let ?g = "\<lambda>x. key_word (key x)"
  from assms(2) show "sorted_wrt (\<lambda>x y. \<not> (bkt_of kv (key x) = bkt_of kv (key y) \<and>
      tag (key x) = tag (key y))) ops"
    unfolding spread_def sorted_wrt_map word_bkt_key word_tag_key by simp
  have *: "length (filter (\<lambda>w. word_bkt kv w = b) (map ?g ops)) \<le> 8" if "b < length (ht_index kv)" for b
    using assms(2) that unfolding spread_def by simp
  have none: "filter (\<lambda>x. bkt_of kv (key x) = b) ops = []" if "\<not> b < length (ht_index kv)" for b
    using bkt_of_less[of kv] assms(1) that by (auto simp: filter_empty_conv kv_wf_def)
  show "\<forall>b. bkt_load kv b + length (filter (\<lambda>x. bkt_of kv (key x) = b) ops) \<le> 8"
  proof
    fix b
    show "bkt_load kv b + length (filter (\<lambda>x. bkt_of kv (key x) = b) ops) \<le> 8"
      using *[of b] none[of b] assms(3)[of b]
      by (cases "b < length (ht_index kv)") (simp_all add: filter_map o_def word_bkt_key)
  qed
qed

lemma spread_rev: "spread kv (rev ws) = spread kv ws"
  by (auto simp: spread_def sorted_wrt_rev rev_filter[symmetric] eq_commute)

end
