(* ===== verification/Cache.thy ===== *)
theory Cache
  imports Mica_Ops
begin

text \<open>
  The cache of hot keys (\<open>cache.c\<close>): a MICA store whose objects carry coherence
  metadata.  Every \<open>cache_batch_op\<close> function of the source has the same shape: look
  all keys of the batch up, then walk over the batch, skip the operations that are
  marked as unserved misses, answer those whose key is absent with a miss, and
  dispatch the others on their opcode.  \<open>cache_batch\<close> is that shape; the handlers
  that the dispatch selects are the subject of the theories for the two protocols.
\<close>

section \<open>Batches\<close>

text \<open>A handler receives the address of the value in the log, the object in the log,
  the operation and its response, and returns the three objects updated.\<close>

type_synonym handler =
  "nat \<Rightarrow> cache_op \<Rightarrow> cache_op \<Rightarrow> mica_resp \<Rightarrow> (cache_op \<times> cache_op \<times> mica_resp) result"

abbreviation op_meta :: "cache_op \<Rightarrow> cache_meta" where
  "op_meta e \<equiv> meta (key e)"

definition set_meta :: "cache_meta \<Rightarrow> cache_op \<Rightarrow> cache_op" where
  "set_meta m e = e\<lparr>key := (key e)\<lparr>meta := m\<rparr>\<rparr>"

definition miss_resp :: "mica_resp \<Rightarrow> mica_resp" where
  "miss_resp r = r\<lparr>rval_len := 0, val_ptr := None, rtype := CACHE_MISS\<rparr>"

definition skipped :: "mica_resp \<Rightarrow> bool" where
  "skipped r \<longleftrightarrow> rtype r = UNSERVED_CACHE_MISS"

definition lin_skipped :: "mica_resp \<Rightarrow> bool" where
  "lin_skipped r \<longleftrightarrow> rtype r = UNSERVED_CACHE_MISS \<or>
     ENABLE_WAKE_UP = 1 \<and> (rtype r = CACHE_GET_STALL \<or> rtype r = CACHE_PUT_STALL)"

definition batch_step :: "handler \<Rightarrow> (mica_resp \<Rightarrow> bool) \<Rightarrow> (cache_op \<times> mica_resp) \<times> nat option \<Rightarrow>
    mica_kv \<times> (cache_op \<times> mica_resp) list \<Rightarrow> (mica_kv \<times> (cache_op \<times> mica_resp) list) result" where
  "batch_step h skip = (\<lambda>((op, r), p) (kv, out).
     if skip r then Inr (kv, out @ [(op, r)])
     else bind_res (entry_at kv p (key op)) (\<lambda>hit.
       case hit of
         None \<Rightarrow> Inr (kv, out @ [(op, miss_resp r)])
       | Some (off, e) \<Rightarrow>
           bind_res (h (value_addr off) e op r) (\<lambda>(e', op', r').
           bind_res (write_op (ht_log kv) off e') (\<lambda>l.
           Inr (kv\<lparr>ht_log := l\<rparr>, out @ [(op', r')])))))"

definition cache_batch :: "handler \<Rightarrow> (mica_resp \<Rightarrow> bool) \<Rightarrow> mica_kv \<Rightarrow> (cache_op \<times> mica_resp) list \<Rightarrow>
    (mica_kv \<times> (cache_op \<times> mica_resp) list) result" where
  "cache_batch h skip kv ops =
    (if length ops \<le> CACHE_BATCH_SIZE
     then fold_res (batch_step h skip)
       (zip ops (map (\<lambda>(op, r). if skip r then None else kv_ptr kv (key op)) ops)) (kv, [])
     else Inl Out_Of_Bounds)"

text \<open>What a batch may answer to an operation.\<close>

definition answered :: "handler \<Rightarrow> (mica_resp \<Rightarrow> bool) \<Rightarrow> cache_op \<times> mica_resp \<Rightarrow> cache_op \<times> mica_resp \<Rightarrow> bool" where
  "answered h skip = (\<lambda>(op, r) (op', r').
     if skip r then op' = op \<and> r' = r
     else op' = op \<and> r' = miss_resp r \<or> (\<exists>vp e e'. h vp e op r = Inr (e', op', r')))"

lemma batch_step_answered:
  assumes "batch_step h skip (x, p) (kv, out) = Inr (kv', out')"
  obtains y where "out' = out @ [y]" "answered h skip x y"
  using assms by (cases x) (fastforce simp: batch_step_def answered_def res_simps split: if_splits option.splits)

lemma batch_fold_answered:
  assumes "fold_res (batch_step h skip) xs (kv, out) = Inr (kv', out')"
  shows "\<exists>new. out' = out @ new \<and> list_all2 (answered h skip) (map fst xs) new"
  using assms
proof (induction xs arbitrary: kv out)
  case (Cons x xs)
  then obtain kv1 out1 where s: "batch_step h skip x (kv, out) = Inr (kv1, out1)"
    "fold_res (batch_step h skip) xs (kv1, out1) = Inr (kv', out')" by (auto simp: bind_res_Inr_iff)
  obtain y where y: "out1 = out @ [y]" "answered h skip (fst x) y"
    using batch_step_answered[of h skip "fst x" "snd x" kv out kv1 out1] s(1) by auto
  from Cons.IH[OF s(2)] obtain new where "out' = out1 @ new" "list_all2 (answered h skip) (map fst xs) new" by blast
  then show ?case using y by (intro exI[of _ "y # new"]) simp
qed simp

lemma cache_batch_answered:
  assumes "cache_batch h skip kv ops = Inr (kv', out)"
  shows "list_all2 (answered h skip) ops out"
  using assms batch_fold_answered[of h skip _ kv "[]" kv' out]
  by (fastforce simp: cache_batch_def split: if_splits)

section \<open>The batch on the map of objects\<close>

text \<open>
  The same walk over the map the store stands for; \<open>loc\<close> gives the position of a
  key, which a batch never changes.
\<close>

definition map_upd :: "cache_key \<Rightarrow> cache_op \<Rightarrow> (cache_key \<Rightarrow> cache_op option) \<Rightarrow>
    cache_key \<Rightarrow> cache_op option" where
  "map_upd k e m k' = (if key_word k' = key_word k then Some e else m k')"

definition abs_batch_step :: "handler \<Rightarrow> (mica_resp \<Rightarrow> bool) \<Rightarrow> (cache_key \<Rightarrow> nat option) \<Rightarrow>
    cache_op \<times> mica_resp \<Rightarrow> (cache_key \<Rightarrow> cache_op option) \<times> (cache_op \<times> mica_resp) list \<Rightarrow>
    ((cache_key \<Rightarrow> cache_op option) \<times> (cache_op \<times> mica_resp) list) result" where
  "abs_batch_step h skip loc = (\<lambda>(op, r) (m, out).
     if skip r then Inr (m, out @ [(op, r)])
     else case m (key op) of
         None \<Rightarrow> Inr (m, out @ [(op, miss_resp r)])
       | Some e \<Rightarrow>
           bind_res (h (value_addr (the (loc (key op)))) e op r) (\<lambda>(e', op', r').
           Inr (map_upd (key op) e' m, out @ [(op', r')])))"

text \<open>
  The interface of an entry handler: it keeps the identity and the size of the
  object it is given.  That is all the store needs to stay well formed.
\<close>

locale entry_handler =
  fixes h :: handler
  assumes keeps: "entry_wf e \<Longrightarrow> h vp e op r = Inr (e', op', r') \<Longrightarrow>
    key_word (key e') = key_word (key e) \<and> val_len e' = val_len e \<and> entry_wf e'"
begin

lemma batch_step_refines:
  assumes wf: "kv_wf kv" "in_first_lap kv" and p: "p = (if skip r then None else kv_ptr kv (key op))"
  shows "(\<exists>kv' o'. batch_step h skip ((op, r), p) (kv, out) = Inr (kv', o') \<and>
      abs_batch_step h skip (kv_ptr kv) (op, r) (kv_abs kv, out) = Inr (kv_abs kv', o') \<and>
      kv_wf kv' \<and> in_first_lap kv' \<and> kv_ptr kv' = kv_ptr kv) \<or>
    (\<exists>f. batch_step h skip ((op, r), p) (kv, out) = Inl f \<and>
      abs_batch_step h skip (kv_ptr kv) (op, r) (kv_abs kv, out) = Inl f)"
proof (cases "skip r")
  case True
  with wf show ?thesis by (simp add: batch_step_def abs_batch_step_def)
next
  case ns: False
  from p ns have e_at: "entry_at kv p (key op) = mica_lookup kv (key op)"
    by (simp add: mica_lookup_def)
  show ?thesis
  proof (cases "kv_abs kv (key op)")
    case None
    with mica_lookup_returns[OF wf, of "key op"] have "mica_lookup kv (key op) = Inr None"
      by (auto simp: kv_abs_def returns_def split: sum.splits option.splits)
    with ns None wf e_at show ?thesis by (simp add: batch_step_def abs_batch_step_def)
  next
    case (Some e)
    with kv_abs_lookup[OF wf] obtain off where lk: "mica_lookup kv (key op) = Inr (Some (off, e))" by blast
    obtain i j where sl: "used kv i j" "slot_entry kv i j e" "off = off_at kv i j"
      "bkt_of kv (key op) = i" "ucast (tag (key op)) = (ucast (slot_tag (ht_index kv ! i ! j)) :: u32)"
      "key_word (key e) = key_word (key op)"
      by (rule lookup_Some_slot[OF wf lk])
    have loc: "kv_ptr kv (key op) = Some off"
      using entry_at_slot(1)[OF wf sl(1,2,4,5)] sl(3) by simp
    show ?thesis
    proof (cases "h (value_addr off) e op r")
      case (Inl f)
      with ns Some lk loc e_at show ?thesis by (simp add: batch_step_def abs_batch_step_def)
    next
      case (Inr x)
      obtain e' op' r' where x: "x = (e', op', r')" by (cases x)
      from sl(2) have "entry_wf e" by (simp add: slot_entry_def)
      from keeps[OF this Inr[unfolded x]] have e':
        "key_word (key e') = key_word (key e)" "val_len e' = val_len e" "entry_wf e'" by auto
      obtain l where l: "write_op (ht_log kv) (off_at kv i j) e' = Inr l"
        "updated kv i j e e' (kv\<lparr>ht_log := l\<rparr>)"
        by (rule updated_exists[OF wf(1) sl(1,2) e'])
      have "kv_abs (kv\<lparr>ht_log := l\<rparr>) k = map_upd (key op) e' (kv_abs kv) k" for k
        using updated_abs[OF wf l(2), of k] sl(6) by (simp add: map_upd_def)
      then have "kv_abs (kv\<lparr>ht_log := l\<rparr>) = map_upd (key op) e' (kv_abs kv)" by (rule ext)
      moreover have "in_first_lap (kv\<lparr>ht_log := l\<rparr>)" using wf(2) by (simp add: in_first_lap_def)
      ultimately show ?thesis
        using ns Some lk loc e_at Inr x l sl(3) updated_wf[OF wf(1) l(2)] updated_kv_ptr[OF l(2)]
        by (simp add: batch_step_def abs_batch_step_def)
    qed
  qed
qed

text \<open>The batch over the bytes of the log computes exactly the batch over the map:
  the same map, the same operations and responses, and the same fault if any.\<close>

lemma batch_fold_refines:
  assumes "kv_wf kv" "in_first_lap kv" "ptr = kv_ptr kv"
  shows "(\<exists>kv' o'. fold_res (batch_step h skip)
        (zip ops (map (\<lambda>(op, r). if skip r then None else ptr (key op)) ops)) (kv, out) = Inr (kv', o') \<and>
      fold_res (abs_batch_step h skip ptr) ops (kv_abs kv, out) = Inr (kv_abs kv', o') \<and>
      kv_wf kv' \<and> in_first_lap kv' \<and> kv_ptr kv' = ptr) \<or>
    (\<exists>f. fold_res (batch_step h skip)
        (zip ops (map (\<lambda>(op, r). if skip r then None else ptr (key op)) ops)) (kv, out) = Inl f \<and>
      fold_res (abs_batch_step h skip ptr) ops (kv_abs kv, out) = Inl f)"
  using assms
proof (induction ops arbitrary: kv out)
  case (Cons x ops)
  obtain op r where x: "x = (op, r)" by (cases x)
  let ?p = "if skip r then None else ptr (key op)"
  have "?p = (if skip r then None else kv_ptr kv (key op))" using Cons.prems(3) by simp
  from batch_step_refines[where skip = skip and r = r and op = op, OF Cons.prems(1,2) this, of out] Cons.prems(3)
  consider (ok) kv1 o1 where "batch_step h skip ((op, r), ?p) (kv, out) = Inr (kv1, o1)"
      "abs_batch_step h skip ptr (op, r) (kv_abs kv, out) = Inr (kv_abs kv1, o1)"
      "kv_wf kv1" "in_first_lap kv1" "kv_ptr kv1 = ptr"
    | (bad) f where "batch_step h skip ((op, r), ?p) (kv, out) = Inl f"
      "abs_batch_step h skip ptr (op, r) (kv_abs kv, out) = Inl f"
    by (elim disjE exE conjE) (simp_all only:)
  then show ?case
  proof cases
    case ok
    from Cons.IH[OF ok(3,4) ok(5)[symmetric], of o1] show ?thesis by (simp add: x ok(1,2))
  qed (simp add: x)
qed simp

lemma cache_batch_refines:
  assumes "kv_wf kv" "in_first_lap kv" "length ops \<le> CACHE_BATCH_SIZE"
  shows "map_sum id (\<lambda>(kv', out). (kv_abs kv', out)) (cache_batch h skip kv ops) =
    fold_res (abs_batch_step h skip (kv_ptr kv)) ops (kv_abs kv, [])"
  using batch_fold_refines[OF assms(1,2) refl, of skip ops "[]"] assms(3)
  by (auto simp: cache_batch_def)

lemma cache_batch_wf:
  assumes "kv_wf kv" "in_first_lap kv" "cache_batch h skip kv ops = Inr (kv', out)"
  shows "kv_wf kv' \<and> in_first_lap kv' \<and> kv_ptr kv' = kv_ptr kv"
  using batch_fold_refines[OF assms(1,2) refl, of skip ops "[]"] assms(3)
  by (auto simp: cache_batch_def split: if_splits)

end

lemma set_meta_simps [simp]:
  "op_meta (set_meta m e) = m" "key_word (key (set_meta m e)) = key_word (key e)"
  "val_len (set_meta m e) = val_len e" "value (set_meta m e) = value e"
  "opcode (set_meta m e) = opcode e" "set_meta m' (set_meta m e) = set_meta m' e"
  "entry_wf (set_meta m e) = entry_wf e" "set_meta (op_meta e) e = e"
  by (simp_all add: set_meta_def key_word_def entry_wf_def)

lemma set_meta_value [simp]:
  "set_meta m (e\<lparr>value := v\<rparr>) = (set_meta m e)\<lparr>value := v\<rparr>"
  "op_meta (e\<lparr>value := v\<rparr>) = op_meta e"
  by (simp_all add: set_meta_def)

text \<open>Two keys with the same second word stand for the same object.\<close>

definition key_fn :: "(cache_key \<Rightarrow> cache_op option) \<Rightarrow> bool" where
  "key_fn m \<longleftrightarrow> (\<forall>k k'. key_word k = key_word k' \<longrightarrow> m k = m k')"

lemma key_fnD: "key_fn m \<Longrightarrow> key_word k = key_word k' \<Longrightarrow> m k = m k'"
  unfolding key_fn_def by blast

lemma key_fn_kv_abs [simp]: "key_fn (kv_abs kv)"
  unfolding key_fn_def by (blast intro: kv_abs_key_word)

lemma key_fn_upd: "key_fn m \<Longrightarrow> key_fn (map_upd k e m)"
  unfolding key_fn_def
proof (intro allI impI)
  fix k1 k2
  assume m: "\<forall>k k'. key_word k = key_word k' \<longrightarrow> m k = m k'" and k: "key_word k1 = key_word k2"
  from m k have "m k1 = m k2" by blast
  with k show "map_upd k e m k1 = map_upd k e m k2" by (simp add: map_upd_def)
qed

text \<open>A batch returns when its handler returns on every object it may meet; the
  objects keep what the handler keeps.\<close>

lemma abs_batch_total:
  assumes h: "\<And>vp e op r. P e \<Longrightarrow> Q (val_len e) op \<Longrightarrow>
      \<exists>e' op' r'. h vp e op r = Inr (e', op', r') \<and> P e' \<and> val_len e' = val_len e"
    and "key_fn m" and "\<forall>k e. m k = Some e \<longrightarrow> P e"
    and "\<forall>(op, r)\<in>set ops. skip r \<or> (\<forall>e. m (key op) = Some e \<longrightarrow> Q (val_len e) op)"
  shows "\<exists>m' out'. fold_res (abs_batch_step h skip loc) ops (m, out) = Inr (m', out') \<and>
    (\<forall>k e. m' k = Some e \<longrightarrow> P e) \<and> (\<forall>k. map_option val_len (m' k) = map_option val_len (m k)) \<and>
    length out' = length out + length ops"
  using assms(2-)
proof (induction ops arbitrary: m out)
  case (Cons x ops)
  obtain op r where x: "x = (op, r)" by (cases x)
  show ?case
  proof (cases "skip r \<or> m (key op) = None")
    case True
    then have "\<exists>y. abs_batch_step h skip loc x (m, out) = Inr (m, out @ [y])"
      by (auto simp: x abs_batch_step_def)
    then obtain y where y: "abs_batch_step h skip loc x (m, out) = Inr (m, out @ [y])" by blast
    from Cons.IH[OF Cons.prems(1,2), where out = "out @ [y]"] Cons.prems(3) y show ?thesis by simp
  next
    case False
    then obtain e where e: "m (key op) = Some e" and ns: "\<not> skip r" by auto
    have "P e" using Cons.prems(2) e by blast
    moreover have "Q (val_len e) op" using Cons.prems(3) e ns by (simp add: x)
    ultimately obtain e' op' r' where e': "h (value_addr (the (loc (key op)))) e op r = Inr (e', op', r')"
      "P e'" "val_len e' = val_len e"
      using h by blast
    let ?m = "map_upd (key op) e' m"
    have step: "abs_batch_step h skip loc x (m, out) = Inr (?m, out @ [(op', r')])"
      using ns e e' by (simp add: x abs_batch_step_def)
    have same: "m k = Some e" if "key_word k = key_word (key op)" for k
      using key_fnD[OF Cons.prems(1) that] e by simp
    have len: "map_option val_len (?m k) = map_option val_len (m k)" for k
      using same[of k] e'(3) by (simp add: map_upd_def)
    have P: "\<forall>k e. ?m k = Some e \<longrightarrow> P e"
      using e'(2) Cons.prems(2) by (auto simp: map_upd_def)
    have "\<forall>(op, r)\<in>set ops. skip r \<or> (\<forall>e. ?m (key op) = Some e \<longrightarrow> Q (val_len e) op)"
    proof (clarify)
      fix op1 r1 e1
      assume in1: "(op1, r1) \<in> set ops" and "\<not> skip r1" and e1: "?m (key op1) = Some e1"
      from len[of "key op1"] e1 obtain e2 where "m (key op1) = Some e2" "val_len e2 = val_len e1"
        by (cases "m (key op1)") auto
      moreover from Cons.prems(3) in1 have "skip r1 \<or> (\<forall>e. m (key op1) = Some e \<longrightarrow> Q (val_len e) op1)"
        by (simp add: x) blast
      ultimately show "Q (val_len e1) op1" using \<open>\<not> skip r1\<close> by metis
    qed
    from Cons.IH[OF key_fn_upd[OF Cons.prems(1)] P this, where out = "out @ [(op', r')]"]
    show ?thesis by (simp only: fold_res.simps step bind_res_simps len) simp
  qed
qed simp

text \<open>The same of the batch over the bytes of the log.\<close>

context entry_handler
begin

lemma cache_batch_returns:
  assumes h: "\<And>vp e op r. P e \<Longrightarrow> Q (val_len e) op \<Longrightarrow>
      \<exists>e' op' r'. h vp e op r = Inr (e', op', r') \<and> P e' \<and> val_len e' = val_len e"
    and wf: "kv_wf kv" "in_first_lap kv" "length ops \<le> CACHE_BATCH_SIZE"
    and P: "\<forall>k e. kv_abs kv k = Some e \<longrightarrow> P e"
    and Q: "\<forall>(op, r)\<in>set ops. skip r \<or> (\<forall>e. kv_abs kv (key op) = Some e \<longrightarrow> Q (val_len e) op)"
  shows "\<exists>kv' out. cache_batch h skip kv ops = Inr (kv', out) \<and> kv_wf kv' \<and> in_first_lap kv' \<and>
    (\<forall>k e. kv_abs kv' k = Some e \<longrightarrow> P e) \<and> length out = length ops \<and>
    (\<forall>k. map_option val_len (kv_abs kv' k) = map_option val_len (kv_abs kv k))"
proof -
  from abs_batch_total[where P = P and Q = Q and h = h and skip = skip
      and loc = "kv_ptr kv" and out = "[]", OF h key_fn_kv_abs P Q]
  obtain m' out' where abs:
    "fold_res (abs_batch_step h skip (kv_ptr kv)) ops (kv_abs kv, []) = Inr (m', out')"
    "\<forall>k e. m' k = Some e \<longrightarrow> P e" "\<forall>k. map_option val_len (m' k) = map_option val_len (kv_abs kv k)"
    "length out' = length ops" by auto
  from cache_batch_refines[OF wf, of skip] abs(1) obtain kv' where
    kv': "cache_batch h skip kv ops = Inr (kv', out')" "kv_abs kv' = m'"
    by (cases "cache_batch h skip kv ops") auto
  with cache_batch_wf[OF wf(1,2) kv'(1)] abs show ?thesis by simp
qed

end

text \<open>The bytes a response points to are the value of the object.\<close>

lemma kv_abs_memory:
  assumes "kv_wf kv" "in_first_lap kv" "kv_abs kv k = Some e"
  obtains off where "kv_ptr kv k = Some off"
    "mem_read (ht_log kv) (value_addr off) (unat (val_len e)) = Inr (value e)"
proof -
  from kv_abs_lookup[OF assms(1,2)] assms(3) obtain off where
    lk: "mica_lookup kv k = Inr (Some (off, e))" by blast
  obtain i j where sl: "used kv i j" "slot_entry kv i j e" "off = off_at kv i j"
    "bkt_of kv k = i" "ucast (tag k) = (ucast (slot_tag (ht_index kv ! i ! j)) :: u32)"
    by (rule lookup_Some_slot[OF assms(1,2) lk])
  have ptr: "kv_ptr kv k = Some off"
    using entry_at_slot(1)[OF assms(1,2) sl(1,2,4,5)] sl(3) by simp
  from sl(2,3) have "read_op (ht_log kv) off = Inr e" "entry_wf e" by (simp_all add: slot_entry_def)
  then have "value e = take (unat (val_len e)) (drop (off + 18) (ht_log kv))"
    "off + 18 \<le> length (ht_log kv)" "length (value e) = unat (val_len e)"
    by (auto simp: read_op_def res_simps mem_simps entry_wf_def)
  then have "mem_read (ht_log kv) (value_addr off) (unat (val_len e)) = Inr (value e)"
    by (auto simp: mem_simps value_addr_def)
  with ptr show ?thesis by (rule that)
qed

end
