(* ===== verification/Cache_State.thy ===== *)
theory Cache_State
  imports Cache
begin

text \<open>
  The global state of the cache (\<open>struct cache\<close> of \<open>cache.h\<close>), its statistics, its
  initialisation and its population (\<open>cache.c\<close>).  The 64-bit counters of the
  statistics are integers here; they grow by at most one per operation.
\<close>

section \<open>State\<close>

record cache_meta_stats =
  num_get_success :: int
  num_put_success :: int
  num_upd_success :: int
  num_inv_success :: int
  num_ack_success :: int
  num_get_stall :: int
  num_put_stall :: int
  num_upd_fail :: int
  num_inv_fail :: int
  num_ack_fail :: int
  num_get_miss :: int
  num_put_miss :: int
  num_unserved_get_miss :: int
  num_unserved_put_miss :: int

record extended_cache_meta_stats =
  num_hit :: int
  num_miss :: int
  num_stall :: int
  num_coherence_fail :: int
  num_coherence_success :: int
  metadata :: cache_meta_stats

record cache =
  num_threads :: nat
  hash_table :: mica_kv
  total_ops_issued :: int
  aggregated_meta :: extended_cache_meta_stats
  thread_meta :: "cache_meta_stats list"
  protocol :: nat

section \<open>Statistics\<close>

definition cache_meta_reset :: cache_meta_stats where
  "cache_meta_reset = \<lparr>num_get_success = 0, num_put_success = 0, num_upd_success = 0,
     num_inv_success = 0, num_ack_success = 0, num_get_stall = 0, num_put_stall = 0,
     num_upd_fail = 0, num_inv_fail = 0, num_ack_fail = 0, num_get_miss = 0, num_put_miss = 0,
     num_unserved_get_miss = 0, num_unserved_put_miss = 0\<rparr>"

definition extended_cache_meta_reset :: extended_cache_meta_stats where
  "extended_cache_meta_reset = \<lparr>num_hit = 0, num_miss = 0, num_stall = 0,
     num_coherence_fail = 0, num_coherence_success = 0, metadata = cache_meta_reset\<rparr>"

definition cache_reset_total_ops_issued :: "cache \<Rightarrow> cache" where
  "cache_reset_total_ops_issued c = c\<lparr>total_ops_issued := 0\<rparr>"

definition cache_add_2_total_ops_issued :: "int \<Rightarrow> cache \<Rightarrow> cache" where
  "cache_add_2_total_ops_issued n c = c\<lparr>total_ops_issued := total_ops_issued c + n\<rparr>"

definition count_resp :: "cache_op \<times> mica_resp \<Rightarrow> cache_meta_stats \<Rightarrow> cache_meta_stats result" where
  "count_resp = (\<lambda>(op, r) s.
     if rtype r = CACHE_GET_SUCCESS then Inr (s\<lparr>num_get_success := num_get_success s + 1\<rparr>)
     else if rtype r = CACHE_PUT_SUCCESS then Inr (s\<lparr>num_put_success := num_put_success s + 1\<rparr>)
     else if rtype r = CACHE_UPD_SUCCESS then Inr (s\<lparr>num_upd_success := num_upd_success s + 1\<rparr>)
     else if rtype r = CACHE_INV_SUCCESS then Inr (s\<lparr>num_inv_success := num_inv_success s + 1\<rparr>)
     else if rtype r = CACHE_ACK_SUCCESS \<or> rtype r = CACHE_LAST_ACK_SUCCESS
       then Inr (s\<lparr>num_ack_success := num_ack_success s + 1\<rparr>)
     else if rtype r = CACHE_MISS then
       (if opcode op = CACHE_OP_GET then Inr (s\<lparr>num_get_miss := num_get_miss s + 1\<rparr>)
        else if opcode op = CACHE_OP_PUT then Inr (s\<lparr>num_put_miss := num_put_miss s + 1\<rparr>)
        else Inl Assert_Failed)
     else if rtype r = CACHE_GET_STALL then Inr (s\<lparr>num_get_stall := num_get_stall s + 1\<rparr>)
     else if rtype r = CACHE_PUT_STALL then Inr (s\<lparr>num_put_stall := num_put_stall s + 1\<rparr>)
     else if rtype r = CACHE_UPD_FAIL then Inr (s\<lparr>num_upd_fail := num_upd_fail s + 1\<rparr>)
     else if rtype r = CACHE_INV_FAIL then Inr (s\<lparr>num_inv_fail := num_inv_fail s + 1\<rparr>)
     else if rtype r = CACHE_ACK_FAIL then Inr (s\<lparr>num_ack_fail := num_ack_fail s + 1\<rparr>)
     else if rtype r = UNSERVED_CACHE_MISS then
       (if opcode op = CACHE_OP_GET then Inr (s\<lparr>num_unserved_get_miss := num_unserved_get_miss s + 1\<rparr>)
        else if opcode op = CACHE_OP_PUT then Inr (s\<lparr>num_unserved_put_miss := num_unserved_put_miss s + 1\<rparr>)
        else Inl Assert_Failed)
     else Inl Assert_Failed)"

definition update_cache_stats :: "nat \<Rightarrow> (cache_op \<times> mica_resp) list \<Rightarrow> nat \<Rightarrow> cache \<Rightarrow> cache result" where
  "update_cache_stats thread_id ops stalled_brcs c =
    (if thread_id < length (thread_meta c)
     then bind_res (fold_res count_resp ops (thread_meta c ! thread_id)) (\<lambda>s.
       Inr (c\<lparr>thread_meta := (thread_meta c)[thread_id :=
         s\<lparr>num_put_success := num_put_success s - int stalled_brcs\<rparr>]\<rparr>))
     else Inl Out_Of_Bounds)"

definition add_meta :: "cache_meta_stats \<Rightarrow> cache_meta_stats \<Rightarrow> cache_meta_stats" where
  "add_meta t s = \<lparr>
     num_get_success = num_get_success s + num_get_success t,
     num_put_success = num_put_success s + num_put_success t,
     num_upd_success = num_upd_success s + num_upd_success t,
     num_inv_success = num_inv_success s + num_inv_success t,
     num_ack_success = num_ack_success s + num_ack_success t,
     num_get_stall = num_get_stall s + num_get_stall t,
     num_put_stall = num_put_stall s + num_put_stall t,
     num_upd_fail = num_upd_fail s + num_upd_fail t,
     num_inv_fail = num_inv_fail s + num_inv_fail t,
     num_ack_fail = num_ack_fail s + num_ack_fail t,
     num_get_miss = num_get_miss s + num_get_miss t,
     num_put_miss = num_put_miss s + num_put_miss t,
     num_unserved_get_miss = num_unserved_get_miss s + num_unserved_get_miss t,
     num_unserved_put_miss = num_unserved_put_miss s + num_unserved_put_miss t\<rparr>"

definition cache_meta_aggregate :: "cache \<Rightarrow> cache result" where
  "cache_meta_aggregate c =
    (if num_threads c \<le> length (thread_meta c) then
       (let m = fold add_meta (take (num_threads c) (thread_meta c)) (metadata (aggregated_meta c))
        in Inr (c\<lparr>aggregated_meta := \<lparr>
          num_hit = num_get_success m + num_put_success m,
          num_miss = num_get_miss m + num_put_miss m,
          num_stall = num_get_stall m + num_put_stall m,
          num_coherence_fail = num_upd_fail m + num_inv_fail m + num_ack_fail m,
          num_coherence_success = num_upd_success m + num_inv_success m + num_ack_success m,
          metadata = m\<rparr>\<rparr>))
     else Inl Out_Of_Bounds)"

text \<open>The counter of a batch that the handlers advance on a hit of an operation that
  still waits for its broadcast.\<close>

definition stalled_brces :: "(mica_resp \<Rightarrow> bool) \<Rightarrow> mica_kv \<Rightarrow> (cache_op \<times> mica_resp) list \<Rightarrow> nat" where
  "stalled_brces skip kv ops =
     length (filter (\<lambda>(op, r). \<not> skip r \<and> opcode op = CACHE_OP_BRC \<and>
       (case mica_lookup kv (key op) of Inr (Some _) \<Rightarrow> True | _ \<Rightarrow> False)) ops)"

section \<open>Population and initialisation\<close>

definition str_to_binary :: "u8 list \<Rightarrow> u8 list \<Rightarrow> nat \<Rightarrow> u8 list result" where
  "str_to_binary val s n =
    (if n \<le> length s \<and> n < length val
     then Inr (take n s @ [0] @ drop (Suc n) val)
     else Inl Out_Of_Bounds)"

definition cache_populate_op :: "nat \<Rightarrow> cache_op \<Rightarrow> uint128 \<Rightarrow> cache_op" where
  "cache_populate_op len op k =
     op\<lparr>key := set_key_word (second k)
          ((key op)\<lparr>meta := (optik_init (op_meta op))\<lparr>pending_acks := 0, state := VALID_STATE\<rparr>\<rparr>),
        opcode := CACHE_OP_PUT,
        val_len := of_nat (len div 2 ^ SHIFT_BITS),
        value := replicate (len mod 256) 97 @ drop (len mod 256) (value op)\<rparr>"

definition cache_populate_fixed_len :: "mica_kv \<Rightarrow> int \<Rightarrow> int \<Rightarrow> cache_op \<Rightarrow> mica_kv result" where
  "cache_populate_fixed_len kv n len op0 =
    assert_res (n > 0)
    (assert_res (len > 0 \<and> len \<le> int MICA_MAX_VALUE)
    (assert_res (num_insert_op kv = 0 \<and> num_index_evictions kv = 0)
    (bind_res (mica_gen_keys n) (\<lambda>ks.
     bind_res (fold_res (\<lambda>k (kv, op).
         let op = cache_populate_op (nat len) op k
         in bind_res (mica_insert_one kv op) (\<lambda>kv. Inr (kv, op))) (rev ks) (kv, op0))
       (\<lambda>(kv, op). assert_res (num_insert_op kv = n) (Inr kv))))))"

text \<open>The memory that \<open>hrd_malloc_socket\<close> returns for the index and the log, and the
  bytes of the stack object behind a value, are arguments.\<close>

definition cache_init :: "int \<Rightarrow> nat \<Rightarrow> mica_bkt list \<Rightarrow> u8 list \<Rightarrow> cache_op \<Rightarrow> cache \<Rightarrow> cache result" where
  "cache_init cache_id nthreads index log op0 c =
    (let c = c\<lparr>num_threads := nthreads\<rparr>;
         c = cache_reset_total_ops_issued c;
         c = c\<lparr>aggregated_meta := extended_cache_meta_reset\<rparr>;
         c = c\<lparr>thread_meta := replicate nthreads cache_meta_reset\<rparr>
     in bind_res (mica_init cache_id (int CACHE_SOCKET) (int CACHE_NUM_BKTS) (of_nat HERD_LOG_CAP) index log) (\<lambda>kv.
        bind_res (cache_populate_fixed_len kv (int CACHE_NUM_KEYS) (int HERD_VALUE_SIZE) op0) (\<lambda>kv.
        Inr (c\<lparr>hash_table := kv\<rparr>))))"

section \<open>Lemmas\<close>

lemma cache_populate_op_ok:
  assumes "length (value op) = MICA_MAX_VALUE" "len \<le> HERD_VALUE_SIZE"
  shows "op_ok (cache_populate_op len op k)"
  using assms
  by (simp add: op_ok_def cache_populate_op_def MICA_MAX_VALUE_eq HERD_VALUE_SIZE_eq SHIFT_BITS_def
      USE_BIG_OBJECTS_def unat_of_nat)

text \<open>An object as the population leaves it: unlocked, valid, at the first timestamp,
  every byte of the value the letter \<open>a\<close>.\<close>

definition fresh :: "nat \<Rightarrow> cache_op \<Rightarrow> bool" where
  "fresh len e \<longleftrightarrow> meta_ok (op_meta e) \<and> state (op_meta e) = VALID_STATE \<and>
     pending_acks (op_meta e) = 0 \<and> stamp_of (op_meta e) = (0, 0) \<and>
     val_len e = of_nat len \<and> value e = replicate len 97"

lemma cache_populate_op_fresh:
  assumes "length (value op) = MICA_MAX_VALUE" "len \<le> HERD_VALUE_SIZE"
  shows "fresh len (stored (cache_populate_op len op k))"
  using assms
  by (simp add: fresh_def stored_def cache_populate_op_def set_key_word_def meta_ok_def optik_init_def
      stamp_of_def SHIFT_BITS_def USE_BIG_OBJECTS_def HERD_VALUE_SIZE_eq MICA_MAX_VALUE_eq unat_of_nat)

lemma cache_populate_ops:
  assumes "length (value op) = MICA_MAX_VALUE" "len \<le> HERD_VALUE_SIZE"
  shows "list_all2 (\<lambda>x h. op_ok x \<and> fresh len (stored x) \<and> key_word (key x) = second h)
    (populate_ops (cache_populate_op len) ks op) ks"
  using assms cache_populate_op_ok[of _ len] cache_populate_op_fresh[of _ len]
  by (intro populate_ops_all2[where I = "\<lambda>op. length (value op) = MICA_MAX_VALUE"])
     (auto simp: op_ok_def cache_populate_op_def)

lemma cache_populate_eq:
  assumes "0 < n" "0 < len" "len \<le> int MICA_MAX_VALUE" "num_insert_op kv = 0"
    "num_index_evictions kv = 0" "mica_gen_keys n = Inr ks" "length ks = nat n"
  shows "cache_populate_fixed_len kv n len op0 =
    fold_res (\<lambda>op kv. mica_insert_one kv op) (populate_ops (cache_populate_op (nat len)) (rev ks) op0) kv"
proof (cases "fold_res (\<lambda>op kv. mica_insert_one kv op)
    (populate_ops (cache_populate_op (nat len)) (rev ks) op0) kv")
  case (Inr kv')
  with insert_all_counts[OF Inr] assms show ?thesis
    by (simp add: cache_populate_fixed_len_def populate_loop)
qed (use assms in \<open>simp add: cache_populate_fixed_len_def populate_loop\<close>)

lemma cache_populate_fresh:
  assumes "kv_wf kv" "room_for kv (nat n)" "num_insert_op kv = 0" "num_index_evictions kv = 0"
    "\<forall>k. kv_abs kv k = None" "0 < n" "n \<le> 67108864" "0 < len" "len \<le> int HERD_VALUE_SIZE"
    "length (value op0) = MICA_MAX_VALUE"
  obtains kv' where "cache_populate_fixed_len kv n len op0 = Inr kv'" "kv_wf kv'" "in_first_lap kv'"
    "\<forall>k e. kv_abs kv' k = Some e \<longrightarrow> fresh (nat len) e"
proof -
  from gen_keys_ok[of n] assms(6,7) obtain ks where ks: "mica_gen_keys n = Inr ks" "length ks = nat n"
    by auto
  let ?ops = "populate_ops (cache_populate_op (nat len)) (rev ks) op0"
  have "nat len \<le> HERD_VALUE_SIZE" using assms(9) by simp
  from cache_populate_ops[OF assms(10) this, of "rev ks"]
  have ok: "\<forall>x\<in>set ?ops. op_ok x \<and> fresh (nat len) (stored x)"
    by (auto simp: list_all2_conv_all_nth in_set_conv_nth)
  have room: "room_for kv (length ?ops + 0)" using assms(2) ks(2) by simp
  from mica.fill_total[OF assms(1) room] ok obtain kv' where
    kv': "fold_res (\<lambda>op kv. mica_insert_one kv op) ?ops kv = Inr kv'" "kv_wf kv'" "room_for kv' 0" by auto
  have "len \<le> int MICA_MAX_VALUE" using assms(9) by (simp add: config)
  with cache_populate_eq[OF assms(6,8) _ assms(3,4) ks, of op0] kv'(1)
  have "cache_populate_fixed_len kv n len op0 = Inr kv'" by simp
  moreover have "in_first_lap kv'" using kv'(3) by (simp add: room_for_def in_first_lap_def)
  moreover have "fresh (nat len) e" if "kv_abs kv' k = Some e" for k e
    using mica.fill_all[OF assms(1) room ok kv'(1) _ that] assms(5) by simp
  ultimately show ?thesis using that kv'(2) by blast
qed

section \<open>Properties\<close>

text \<open>Property C37: the cache starts consistent.  On the memory the allocator returns (64K buckets,
  a log of one gigabyte) the initialisation of the cache succeeds, and every object it
  installs is unlocked, valid, at timestamp (0, 0), with no pending acknowledgement and the same
  value, so that the caches of all machines start equal.\<close>

theorem cache_init_consistent:
  assumes "segments_ok 16 30 index log" "length (value op0) = MICA_MAX_VALUE"
  shows "\<exists>c'. cache_init cache_id n index log op0 c = Inr c' \<and>
    kv_wf (hash_table c') \<and> in_first_lap (hash_table c') \<and>
    thread_meta c' = replicate n cache_meta_reset \<and>
    (\<forall>k e. kv_abs (hash_table c') k = Some e \<longrightarrow> fresh HERD_VALUE_SIZE e)"
proof -
  obtain kv where kv: "mica_init cache_id 0 (2 ^ 16) (2 ^ 30) index log = Inr kv"
    "kv_wf kv" "log_head kv = 0" "log_cap kv = 2 ^ 30" "num_insert_op kv = 0"
    "num_index_evictions kv = 0" "\<And>i. bkt_load kv i = 0" "\<And>k. kv_abs kv k = None"
    by (rule mica_init_ok[OF assms(1), of 0 cache_id]) simp_all
  have room: "room_for kv (nat (int CACHE_NUM_KEYS))"
    by (simp add: room_for_def kv(3,4) CACHE_NUM_KEYS_def)
  obtain kv' where kv': "cache_populate_fixed_len kv (int CACHE_NUM_KEYS) (int HERD_VALUE_SIZE) op0 = Inr kv'"
    "kv_wf kv'" "in_first_lap kv'" "\<forall>k e. kv_abs kv' k = Some e \<longrightarrow> fresh (nat (int HERD_VALUE_SIZE)) e"
    by (rule cache_populate_fresh[OF kv(2) room kv(5,6) _ _ _ _ _ assms(2), where len = "int HERD_VALUE_SIZE"])
       (simp_all add: kv(8) CACHE_NUM_KEYS_def HERD_VALUE_SIZE_eq)
  have "mica_init cache_id (int CACHE_SOCKET) (int CACHE_NUM_BKTS) (of_nat HERD_LOG_CAP) index log = Inr kv"
    using kv(1) by (simp add: CACHE_SOCKET_def CACHE_NUM_BKTS_def HERD_LOG_CAP_def)
  with kv' show ?thesis by (simp add: cache_init_def Let_def)
qed

definition boot_index :: "mica_bkt list" where
  "boot_index = replicate (2 ^ 16) (replicate 8 \<lparr>in_use = 1, slot_tag = 3, offset = 9\<rparr>)"

definition boot_log :: "u8 list" where
  "boot_log = replicate (2 ^ 30) 0"

definition boot_op :: cache_op where
  "boot_op = \<lparr>key = \<lparr>meta = \<lparr>state = 9, pending_acks = 9, cid = 9, lock = 1, version = 9\<rparr>,
     bkt = 0, server = 0, tag = 0\<rparr>, opcode = 0, val_len = 0, value = replicate MICA_MAX_VALUE 5\<rparr>"

theorem cache_init_consistent_witness:
  "\<forall>c. \<exists>c'. cache_init 0 20 boot_index boot_log boot_op c = Inr c' \<and>
     (\<forall>k e. kv_abs (hash_table c') k = Some e \<longrightarrow> fresh HERD_VALUE_SIZE e)"
proof
  fix c
  have "segments_ok 16 30 boot_index boot_log"
    unfolding segments_ok_def boot_index_def boot_log_def length_replicate by auto
  from cache_init_consistent[OF this, of boot_op 0 20 c]
  show "\<exists>c'. cache_init 0 20 boot_index boot_log boot_op c = Inr c' \<and>
     (\<forall>k e. kv_abs (hash_table c') k = Some e \<longrightarrow> fresh HERD_VALUE_SIZE e)"
    by (auto simp: boot_op_def)
qed

text \<open>The number of responses a block of statistics accounts for.\<close>

definition counted :: "cache_meta_stats \<Rightarrow> int" where
  "counted s = num_get_success s + num_put_success s + num_upd_success s + num_inv_success s +
     num_ack_success s + num_get_stall s + num_put_stall s + num_upd_fail s + num_inv_fail s +
     num_ack_fail s + num_get_miss s + num_put_miss s + num_unserved_get_miss s + num_unserved_put_miss s"

lemma count_resp_counted: "count_resp x s = Inr s' \<Longrightarrow> counted s' = counted s + 1"
  by (cases x) (auto simp: count_resp_def counted_def split: if_splits)

lemma count_resps_counted:
  "fold_res count_resp xs s = Inr s' \<Longrightarrow> counted s' = counted s + int (length xs)"
  by (induction xs arbitrary: s) (auto simp: bind_res_Inr_iff dest: count_resp_counted)

lemma counted_add_meta: "counted (add_meta t s) = counted s + counted t"
  by (simp add: counted_def add_meta_def)

lemma counted_fold_add: "counted (fold add_meta ts s) = counted s + sum_list (map counted ts)"
  by (induction ts arbitrary: s) (simp_all add: counted_add_meta)

lemma sum_list_update_int:
  "t < length xs \<Longrightarrow> sum_list (xs[t := x]) = sum_list xs - xs ! t + (x :: int)"
  by (induction xs arbitrary: t) (auto split: nat.splits)



text \<open>The statistics do not know a failed write.  The linearizable cache answers
  a write of an older session with \<open>CACHE_PUT_FAIL\<close>, for which the switch of
  \<open>update_cache_stats\<close> has no case: with statistics enabled, a batch holding such a
  response aborts, whatever precedes and follows it.\<close>

theorem stats_abort_on_put_fail:
  assumes "(op, r) \<in> set ops" "rtype r = CACHE_PUT_FAIL"
  shows "\<not> returns (update_cache_stats t ops brcs c)"
proof -
  from assms(1) obtain xs ys where ops: "ops = xs @ (op, r) # ys" by (auto simp: in_set_conv_decomp)
  have "count_resp (op, r) s = Inl Assert_Failed" for s using assms(2) by (simp add: count_resp_def)
  then have "\<not> returns (fold_res count_resp ops s)" for s
    by (cases "fold_res count_resp xs s") (simp_all add: ops fold_res_append)
  then show ?thesis
    by (auto simp: update_cache_stats_def returns_def bind_res_Inr_iff split: if_splits)
qed

theorem stats_abort_on_put_fail_witness:
  "\<forall>c. \<not> returns (update_cache_stats 0
     [(boot_op, \<lparr>rtype = CACHE_PUT_FAIL, rval_len = 0, val_ptr = None\<rparr>)] 0 c)"
  using stats_abort_on_put_fail[of boot_op "\<lparr>rtype = CACHE_PUT_FAIL, rval_len = 0, val_ptr = None\<rparr>"
    "[(boot_op, \<lparr>rtype = CACHE_PUT_FAIL, rval_len = 0, val_ptr = None\<rparr>)]" 0 0] by simp

end
