(* ===== verification/SC.thy ===== *)
theory SC
  imports Cache_State
begin

text \<open>
  The sequentially consistent cache (\<open>cache_batch_op_sc\<close> and
  \<open>cache_batch_op_sc_with_cache_op\<close> of \<open>cache.c\<close>).  A write is performed locally, under a
  timestamp made of the next even version and the identity of the machine, and
  turned into a broadcast; an update received from another machine is applied
  when its timestamp is later than that of the object.
\<close>

section \<open>Handlers\<close>

text \<open>A lock-free read ends when version and writer are the same before and after and the
  version is even.  It hands out the address of the value in the log.\<close>

definition sc_get :: handler where
  "sc_get vp e op r =
    (let prev_meta = op_meta e;
         r = r\<lparr>val_ptr := Some vp, rval_len := val_len e\<rparr>
     in if optik_is_same_version_and_valid prev_meta (op_meta e)
        then Inr (e, op, r\<lparr>rtype := CACHE_GET_SUCCESS\<rparr>)
        else Inl Spins)"

definition sc_put :: "nat \<Rightarrow> handler" where
  "sc_put machine_id vp e op r =
    assert_res (val_len op = val_len e)
    (bind_res (optik_lock (op_meta e)) (\<lambda>m.
     bind_res (copy_value (unat (val_len e)) (value op) (value e)) (\<lambda>v.
     let (m, ver) = optik_unlock_write m (of_nat machine_id);
         op = set_meta ((op_meta op)\<lparr>version := ver\<rparr>) op;
         op = set_meta ((op_meta op)\<lparr>cid := of_nat machine_id\<rparr>) op;
         op = op\<lparr>opcode := CACHE_OP_BRC\<rparr>
     in Inr (set_meta m (e\<lparr>value := v\<rparr>), op,
             r\<lparr>rval_len := 0, val_ptr := None, rtype := CACHE_PUT_SUCCESS\<rparr>))))"

definition sc_upd :: handler where
  "sc_upd vp e op r =
    assert_res (val_len op = val_len e)
    (bind_res (optik_lock (op_meta e)) (\<lambda>m.
     if optik_is_greater_version m (op_meta op) then
       bind_res (copy_value (unat (val_len e)) (value op) (value e)) (\<lambda>v.
       bind_res (optik_unlock m (cid (op_meta op)) (version (op_meta op))) (\<lambda>m.
       Inr (set_meta m (e\<lparr>value := v\<rparr>), op, r\<lparr>rtype := CACHE_UPD_SUCCESS\<rparr>)))
     else
       bind_res (optik_unlock_decrement_version m) (\<lambda>m.
       Inr (set_meta m e, op, r\<lparr>rtype := CACHE_UPD_FAIL\<rparr>))))"

definition sc_handler :: "nat \<Rightarrow> handler" where
  "sc_handler machine_id vp e op r =
    (if opcode op = CACHE_OP_GET then sc_get vp e op r
     else if opcode op = CACHE_OP_PUT then sc_put machine_id vp e op r
     else if opcode op = CACHE_OP_UPD then sc_upd vp e op r
     else if opcode op = CACHE_OP_BRC then Inr (e, op, r)
     else Inl Assert_Failed)"

definition sc_upd_handler :: handler where
  "sc_upd_handler vp e op r =
    (if opcode op = CACHE_OP_UPD then sc_upd vp e op r
     else if opcode op = CACHE_OP_BRC then Inr (e, op, r)
     else Inl Assert_Failed)"

section \<open>Batches\<close>

definition cache_batch_op_sc :: "nat \<Rightarrow> nat \<Rightarrow> (cache_op \<times> mica_resp) list \<Rightarrow> cache \<Rightarrow>
    (cache \<times> (cache_op \<times> mica_resp) list) result" where
  "cache_batch_op_sc machine_id thread_id ops c =
    (let c = c\<lparr>protocol := SEQUENTIAL_CONSISTENCY\<rparr>;
         brcs = stalled_brces skipped (hash_table c) ops
     in bind_res (cache_batch (sc_handler machine_id) skipped (hash_table c) ops) (\<lambda>(kv, out).
        let c = c\<lparr>hash_table := kv\<rparr>
        in if ENABLE_CACHE_STATS = 1
           then bind_res (update_cache_stats thread_id out brcs c) (\<lambda>c. Inr (c, out))
           else Inr (c, out)))"

definition cache_batch_op_sc_with_cache_op :: "(cache_op \<times> mica_resp) list \<Rightarrow> cache \<Rightarrow>
    (cache \<times> (cache_op \<times> mica_resp) list) result" where
  "cache_batch_op_sc_with_cache_op ops c =
    (let c = c\<lparr>protocol := SEQUENTIAL_CONSISTENCY\<rparr>
     in bind_res (cache_batch sc_upd_handler skipped (hash_table c) ops) (\<lambda>(kv, out).
        Inr (c\<lparr>hash_table := kv\<rparr>, out)))"

section \<open>What the handlers do\<close>

text \<open>The object after a write, and after an update.\<close>

definition sc_written :: "nat \<Rightarrow> cache_op \<Rightarrow> cache_op \<Rightarrow> cache_op" where
  "sc_written machine_id op e =
     set_meta ((op_meta e)\<lparr>cid := of_nat machine_id, version := version (op_meta e) + 2\<rparr>)
       (e\<lparr>value := take (unat (val_len e)) (value op)\<rparr>)"

definition sc_applied :: "cache_op \<Rightarrow> cache_op \<Rightarrow> cache_op" where
  "sc_applied m e =
    (if stamp_of (op_meta e) < stamp_of (op_meta m)
     then set_meta ((op_meta e)\<lparr>cid := cid (op_meta m), version := version (op_meta m)\<rparr>)
            (e\<lparr>value := take (unat (val_len e)) (value m)\<rparr>)
     else e)"

text \<open>An operation fits an object when it announces the length of the object and carries
  that many bytes; an update must also carry an even version.\<close>

definition fits :: "cache_op \<Rightarrow> cache_op \<Rightarrow> bool" where
  "fits e op \<longleftrightarrow> val_len op = val_len e \<and> unat (val_len e) \<le> length (value op)"

definition obj_ok :: "cache_op \<Rightarrow> bool" where
  "obj_ok e \<longleftrightarrow> entry_wf e \<and> meta_ok (op_meta e)"

lemma meta_free: "lock m = 0 \<Longrightarrow> m\<lparr>lock := 0\<rparr> = m"
  by simp

lemma copy_value_fits:
  "entry_wf e \<Longrightarrow> fits e op \<Longrightarrow>
   copy_value (unat (val_len e)) (value op) (value e) = Inr (take (unat (val_len e)) (value op))"
  by (simp add: copy_value_def fits_def entry_wf_def)

lemma sc_get_ok:
  "obj_ok e \<Longrightarrow> sc_get vp e op r =
   Inr (e, op, r\<lparr>rval_len := val_len e, val_ptr := Some vp, rtype := CACHE_GET_SUCCESS\<rparr>)"
  by (simp add: sc_get_def obj_ok_def Let_def)

lemma sc_put_ok:
  assumes "obj_ok e" "fits e op"
  shows "sc_put i vp e op r = Inr (sc_written i op e,
     set_meta ((op_meta op)\<lparr>version := version (op_meta e) + 2, cid := of_nat i\<rparr>) (op\<lparr>opcode := CACHE_OP_BRC\<rparr>),
     r\<lparr>rval_len := 0, val_ptr := None, rtype := CACHE_PUT_SUCCESS\<rparr>)"
proof -
  have "val_len op = val_len e" "meta_ok (op_meta e)" "lock (op_meta e) = 0"
    using assms by (auto simp: fits_def obj_ok_def meta_ok_def)
  with assms show ?thesis
    by (simp add: sc_put_def copy_value_fits obj_ok_def sc_written_def optik_unlock_write_eq set_meta_def
        add.assoc Let_def)
qed

lemma sc_upd_ok:
  assumes "obj_ok e" "fits e m" "even (version (op_meta m))"
  shows "sc_upd vp e m r = Inr (sc_applied m e, m,
    r\<lparr>rtype := (if stamp_of (op_meta e) < stamp_of (op_meta m) then CACHE_UPD_SUCCESS else CACHE_UPD_FAIL)\<rparr>)"
proof -
  have *: "val_len m = val_len e" "meta_ok (op_meta e)" "lock (op_meta e) = 0" "even (version (op_meta e))"
    using assms by (auto simp: fits_def obj_ok_def meta_ok_def)
  with assms show ?thesis
    by (auto simp: sc_upd_def copy_value_fits obj_ok_def sc_applied_def optik_release set_meta_def
        optik_is_greater_version_locked)
qed

lemma stamp_sc_written:
  assumes "i < 256" "unat (version (op_meta e)) + 2 < 2 ^ 32"
  shows "stamp_of (op_meta (sc_written i op e)) = (unat (version (op_meta e)) + 2, i)"
proof -
  have "unat (version (op_meta e) + 2) = unat (version (op_meta e)) + 2"
    using assms(2) by (subst unat_add_small) simp_all
  with assms(1) show ?thesis by (simp add: sc_written_def stamp_of_def unat_of_nat)
qed

lemma sc_written_ok:
  "obj_ok e \<Longrightarrow> fits e op \<Longrightarrow> obj_ok (sc_written i op e)"
  by (simp add: sc_written_def obj_ok_def meta_ok_def entry_wf_def fits_def)

lemma sc_applied_ok:
  "obj_ok e \<Longrightarrow> fits e m \<Longrightarrow> even (version (op_meta m)) \<Longrightarrow> obj_ok (sc_applied m e)"
  by (simp add: sc_applied_def obj_ok_def meta_ok_def entry_wf_def fits_def)

lemma sc_applied_stamp:
  "stamp_of (op_meta (sc_applied m e)) = max (stamp_of (op_meta e)) (stamp_of (op_meta m))"
  by (auto simp: sc_applied_def stamp_of_def max_def)

lemma sc_applied_value:
  "value (sc_applied m e) =
   (if stamp_of (op_meta e) < stamp_of (op_meta m) then take (unat (val_len e)) (value m) else value e)"
  by (simp add: sc_applied_def)

section \<open>The handlers as entry handlers\<close>

lemma copied_wf:
  "entry_wf e \<Longrightarrow> copy_value n s (value e) = Inr v \<Longrightarrow> entry_wf (e\<lparr>value := v\<rparr>)"
  by (simp add: entry_wf_def copy_value_length)

lemma sc_get_keeps: "sc_get vp e op r = Inr (e', op', r') \<Longrightarrow> e' = e"
  by (auto simp: sc_get_def Let_def split: if_splits)

lemma sc_put_keeps:
  "entry_wf e \<Longrightarrow> sc_put i vp e op r = Inr (e', op', r') \<Longrightarrow>
   key_word (key e') = key_word (key e) \<and> val_len e' = val_len e \<and> entry_wf e'"
  by (auto simp: sc_put_def res_simps Let_def optik_unlock_write_eq intro: copied_wf)

lemma sc_upd_keeps:
  "entry_wf e \<Longrightarrow> sc_upd vp e op r = Inr (e', op', r') \<Longrightarrow>
   key_word (key e') = key_word (key e) \<and> val_len e' = val_len e \<and> entry_wf e'"
  by (auto simp: sc_upd_def res_simps intro: copied_wf split: if_splits)

interpretation sc: entry_handler "sc_handler i" for i
  by unfold_locales (auto simp: sc_handler_def dest: sc_get_keeps sc_put_keeps sc_upd_keeps split: if_splits)

interpretation sc_in: entry_handler sc_upd_handler
  by unfold_locales (auto simp: sc_upd_handler_def dest: sc_upd_keeps split: if_splits)

section \<open>Updates as messages to a register\<close>

text \<open>The objects of a given length, as registers whose messages are the updates.\<close>

interpretation sc_reg: lww_register
  "\<lambda>e. obj_ok e \<and> val_len e = n"
  "\<lambda>m. val_len m = n \<and> unat n \<le> length (value m) \<and> even (version (op_meta m))"
  sc_applied "\<lambda>e. stamp_of (op_meta e)" "\<lambda>m. stamp_of (op_meta m)"
  "value" "\<lambda>m. take (unat n) (value m)" for n
proof unfold_locales
  fix e m
  assume e: "obj_ok e \<and> val_len e = n"
    and m: "val_len m = n \<and> unat n \<le> length (value m) \<and> even (version (op_meta m))"
  from e m show "obj_ok (sc_applied m e) \<and> val_len (sc_applied m e) = n"
    using sc_applied_ok[of e m] by (auto simp: fits_def sc_applied_def)
  from e m show "value (sc_applied m e) =
      (if stamp_of (op_meta e) < stamp_of (op_meta m) then take (unat n) (value m) else value e)"
    by (simp add: sc_applied_value)
qed (rule sc_applied_stamp)

text \<open>A sequence of updates handled one after the other.\<close>

definition sc_upds :: "cache_op list \<Rightarrow> cache_op \<Rightarrow> cache_op result" where
  "sc_upds ms e = fold_res (\<lambda>m e.
     bind_res (sc_upd 0 e m \<lparr>rtype = EMPTY, rval_len = 0, val_ptr = None\<rparr>) (\<lambda>(e, _, _). Inr e)) ms e"

lemma sc_upds_fold:
  assumes "obj_ok e" "\<forall>m\<in>set ms. fits e m \<and> even (version (op_meta m))"
  shows "sc_upds ms e = Inr (fold sc_applied ms e)"
  using assms
proof (induction ms arbitrary: e)
  case (Cons m ms)
  have "obj_ok (sc_applied m e)" "val_len (sc_applied m e) = val_len e"
    using Cons.prems sc_applied_ok[of e m] by (auto simp: sc_applied_def)
  with Cons.IH[of "sc_applied m e"] Cons.prems show ?case
    by (simp add: sc_upds_def sc_upd_ok fits_def)
qed (simp add: sc_upds_def)

end
