(* ===== verification/History.thy ===== *)
theory History
  imports Optik "HOL-Library.Multiset"
begin

text \<open>
  Histories of a replicated object.  An event records which machine read or wrote
  which value under which timestamp; a sequential history is legal when every
  read returns the value of the last write before it.  The main result of this theory
  is the criterion by which the sequentially consistent protocol is proved correct:
  sorting by timestamp makes a history legal without changing the order of any
  machine's own events.
\<close>

datatype event = Wr nat stamp "u8 list" | Rd nat stamp "u8 list"

fun ev_proc :: "event \<Rightarrow> nat" where
  "ev_proc (Wr i t v) = i"
| "ev_proc (Rd i t v) = i"

fun ev_stamp :: "event \<Rightarrow> stamp" where
  "ev_stamp (Wr i t v) = t"
| "ev_stamp (Rd i t v) = t"

fun is_write :: "event \<Rightarrow> bool" where
  "is_write (Wr i t v) = True"
| "is_write (Rd i t v) = False"

fun legal :: "u8 list \<Rightarrow> event list \<Rightarrow> bool" where
  "legal v [] = True"
| "legal v (Wr i t w # es) = legal w es"
| "legal v (Rd i t w # es) = (w = v \<and> legal v es)"

fun last_value :: "u8 list \<Rightarrow> event list \<Rightarrow> u8 list" where
  "last_value v [] = v"
| "last_value v (Wr i t w # es) = last_value w es"
| "last_value v (Rd i t w # es) = last_value v es"

text \<open>A history is sequentially consistent when its events can be ordered into a legal
  history that keeps the order of the events of each machine.\<close>

definition sequentially_consistent :: "u8 list \<Rightarrow> event list \<Rightarrow> bool" where
  "sequentially_consistent v h \<longleftrightarrow>
     (\<exists>h'. (\<forall>e. count_list h' e = count_list h e) \<and> legal v h' \<and>
       (\<forall>i. filter (\<lambda>e. ev_proc e = i) h' = filter (\<lambda>e. ev_proc e = i) h))"

text \<open>The values known under each timestamp, the initial one included.\<close>

definition vals :: "u8 list \<Rightarrow> event list \<Rightarrow> (stamp \<times> u8 list) set" where
  "vals v0 h = insert ((0, 0), v0) {(t, v). \<exists>i. Wr i t v \<in> set h}"

definition justified :: "u8 list \<Rightarrow> event list \<Rightarrow> bool" where
  "justified v0 h \<longleftrightarrow> (\<forall>pre i t v post. h = pre @ Rd i t v # post \<longrightarrow> (t, v) \<in> vals v0 pre)"

definition unique_writes :: "event list \<Rightarrow> bool" where
  "unique_writes h \<longleftrightarrow> distinct (map ev_stamp (filter is_write h)) \<and>
     (\<forall>e\<in>set h. is_write e \<longrightarrow> (0, 0) < ev_stamp e)"

definition program_ordered :: "event list \<Rightarrow> bool" where
  "program_ordered h \<longleftrightarrow> (\<forall>i. sorted (map ev_stamp (filter (\<lambda>e. ev_proc e = i) h)))"

lemma vals_append: "vals v0 (h @ [Wr i t v]) = insert (t, v) (vals v0 h)"
  "vals v0 (h @ [Rd i t v]) = vals v0 h"
  by (auto simp: vals_def)

lemma vals_snoc_mono: "vals v0 h \<subseteq> vals v0 (h @ xs)"
  by (auto simp: vals_def)

text \<open>A timestamp has one value.\<close>

lemma vals_functional:
  assumes "unique_writes h" "(t, a) \<in> vals v0 h" "(t, b) \<in> vals v0 h"
  shows "a = b"
proof -
  have zero: "t \<noteq> (0, 0)" if "Wr i t v \<in> set h" for i v using assms(1) that by (force simp: unique_writes_def)
  have "v = w" if "Wr i t v \<in> set h" "Wr j t w \<in> set h" for i j v w
  proof -
    let ?ws = "filter is_write h"
    have "Wr i t v \<in> set ?ws" "Wr j t w \<in> set ?ws" "distinct (map ev_stamp ?ws)"
      using assms(1) that by (simp_all add: unique_writes_def)
    then have "inj_on ev_stamp (set ?ws)" by (simp add: distinct_map)
    from inj_onD[OF this, of "Wr i t v" "Wr j t w"] that show ?thesis by simp
  qed
  with assms(2,3) zero show ?thesis by (auto simp: vals_def)
qed

lemma justified_Nil [simp]: "justified v0 []"
  by (simp add: justified_def)

lemma justified_snoc:
  "justified v0 (h @ [e]) \<longleftrightarrow>
   justified v0 h \<and> (\<forall>i t v. e = Rd i t v \<longrightarrow> (t, v) \<in> vals v0 h)"
proof
  assume J: "justified v0 (h @ [e])"
  have "(t, v) \<in> vals v0 pre" if "h = pre @ Rd i t v # post" for pre i t v post
    using J that unfolding justified_def by (metis append_Cons append_assoc)
  moreover have "(t, v) \<in> vals v0 h" if "e = Rd i t v" for i t v
    using J that unfolding justified_def by blast
  ultimately show "justified v0 h \<and> (\<forall>i t v. e = Rd i t v \<longrightarrow> (t, v) \<in> vals v0 h)"
    unfolding justified_def by blast
next
  assume J: "justified v0 h \<and> (\<forall>i t v. e = Rd i t v \<longrightarrow> (t, v) \<in> vals v0 h)"
  show "justified v0 (h @ [e])"
    unfolding justified_def
  proof (intro allI impI)
    fix pre i t v post
    assume eq: "h @ [e] = pre @ Rd i t v # post"
    show "(t, v) \<in> vals v0 pre"
    proof (cases post rule: rev_cases)
      case Nil
      with eq have "h = pre" "e = Rd i t v" by simp_all
      with J show ?thesis by blast
    next
      case (snoc ps x)
      with eq have "h = pre @ Rd i t v # ps" by simp
      with J show ?thesis unfolding justified_def by blast
    qed
  qed
qed

lemma unique_writes_snoc:
  "unique_writes (h @ [e]) \<longleftrightarrow> unique_writes h \<and>
   (is_write e \<longrightarrow> (0, 0) < ev_stamp e \<and> (\<forall>e'\<in>set h. is_write e' \<longrightarrow> ev_stamp e' \<noteq> ev_stamp e))"
  by (auto simp: unique_writes_def image_iff)

lemma program_ordered_snoc:
  "program_ordered (h @ [e]) \<longleftrightarrow>
   program_ordered h \<and> (\<forall>e'\<in>set h. ev_proc e' = ev_proc e \<longrightarrow> ev_stamp e' \<le> ev_stamp e)"
  by (auto simp: program_ordered_def sorted_append)

section \<open>Legality\<close>

lemma last_value_append: "last_value v (xs @ ys) = last_value (last_value v xs) ys"
  by (induction v xs rule: last_value.induct) simp_all

lemma legalI:
  assumes "\<And>pre i t w post. es = pre @ Rd i t w # post \<Longrightarrow> w = last_value v pre"
  shows "legal v es"
  using assms
proof (induction v es rule: legal.induct)
  case (2 v i t w es)
  show ?case
  proof (simp, rule "2.IH")
    fix pre j u x post assume "es = pre @ Rd j u x # post"
    with "2.prems"[of "Wr i t w # pre" j u x post] show "x = last_value w pre" by simp
  qed
next
  case (3 v i t w es)
  have "w = v" using "3.prems"[of "[]"] by simp
  moreover have "legal v es"
  proof (rule "3.IH")
    fix pre j u x post assume "es = pre @ Rd j u x # post"
    with "3.prems"[of "Rd i t w # pre" j u x post] show "x = last_value v pre" by simp
  qed
  ultimately show ?case by simp
qed simp

text \<open>The last value of a sorted list of events with unique writes is that of any write
  whose timestamp no later write exceeds.\<close>

lemma last_value_no_write: "\<forall>e\<in>set es. \<not> is_write e \<Longrightarrow> last_value v es = v"
  by (induction v es rule: last_value.induct) auto

lemma last_value_latest:
  assumes "sorted (map ev_stamp es)" "unique_writes es" "Wr i t w \<in> set es"
    "\<forall>e\<in>set es. ev_stamp e \<le> t"
  shows "last_value v es = w"
proof -
  from assms(3) obtain xs ys where es: "es = xs @ Wr i t w # ys" by (auto simp: in_set_conv_decomp)
  have "\<not> is_write e" if "e \<in> set ys" for e
  proof
    assume "is_write e"
    from assms(1) that have "t \<le> ev_stamp e" by (simp add: es sorted_append)
    with assms(4) that have "ev_stamp e = t" by (intro antisym) (auto simp: es)
    with assms(2) that \<open>is_write e\<close> show False by (force simp: es unique_writes_def image_iff)
  qed
  then show ?thesis by (simp add: es last_value_append last_value_no_write)
qed

section \<open>Sorting by timestamp\<close>

lemma filter_split:
  "filter P xs = ys @ zs \<Longrightarrow> \<exists>us vs. xs = us @ vs \<and> filter P us = ys \<and> filter P vs = zs"
proof (induction ys arbitrary: xs)
  case (Cons y ys)
  from Cons.prems obtain us vs where xs: "xs = us @ y # vs" "\<forall>u\<in>set us. \<not> P u" "P y" "filter P vs = ys @ zs"
    by (auto simp: filter_eq_Cons_iff)
  from Cons.IH[OF xs(4)] obtain us' vs' where "vs = us' @ vs'" "filter P us' = ys" "filter P vs' = zs" by blast
  with xs show ?case by (intro exI[of _ "us @ y # us'"] exI[of _ vs']) simp
qed (auto intro: exI[of _ "[]"])

lemma justified_filter:
  assumes "justified v0 h" "filter (\<lambda>e. ev_stamp e = t) h = pre @ Rd i t w # post"
  shows "t = (0, 0) \<and> w = v0 \<or> (\<exists>j. Wr j t w \<in> set pre)"
proof -
  from assms(2) obtain us vs where h: "h = us @ vs" "filter (\<lambda>e. ev_stamp e = t) us = pre"
    "filter (\<lambda>e. ev_stamp e = t) vs = Rd i t w # post" by (blast dest: filter_split)
  from h(3) obtain xs ys where vs: "vs = xs @ Rd i t w # ys" "\<forall>x\<in>set xs. ev_stamp x \<noteq> t"
    by (auto simp: filter_eq_Cons_iff)
  have "h = (us @ xs) @ Rd i t w # ys" using h(1) vs(1) by simp
  with assms(1) have "(t, w) \<in> vals v0 (us @ xs)" unfolding justified_def by blast
  moreover have "Wr j t w \<in> set pre" if "Wr j t w \<in> set (us @ xs)" for j
    using that vs(2) h(2) by auto
  ultimately show ?thesis by (auto simp: vals_def)
qed

lemma sorted_legal:
  assumes "justified v0 h" "unique_writes h"
  shows "legal v0 (sort_key ev_stamp h)"
proof (rule legalI)
  fix pre i t w post
  assume es: "sort_key ev_stamp h = pre @ Rd i t w # post"
  have srt: "sorted (map ev_stamp (pre @ Rd i t w # post))" unfolding es[symmetric] by simp
  then have le: "\<forall>e\<in>set pre. ev_stamp e \<le> t" by (auto simp: sorted_append)
  have "set pre \<subseteq> set h" using es by (metis set_sort set_append Un_upper1)
  have uw: "unique_writes pre"
  proof -
    have "mset (map ev_stamp (filter is_write (sort_key ev_stamp h))) = mset (map ev_stamp (filter is_write h))"
      by simp
    then have "distinct (map ev_stamp (filter is_write (sort_key ev_stamp h)))"
      using assms(2) unfolding unique_writes_def by (metis mset_eq_imp_distinct_iff)
    with \<open>set pre \<subseteq> set h\<close> assms(2) show ?thesis by (auto simp: es unique_writes_def)
  qed
  have "filter (\<lambda>e. ev_stamp e = t) h = filter (\<lambda>e. ev_stamp e = t) (sort_key ev_stamp h)"
    using sort_key_stable[of ev_stamp t h] by simp
  also have "\<dots> = filter (\<lambda>e. ev_stamp e = t) pre @ Rd i t w # filter (\<lambda>e. ev_stamp e = t) post"
    by (simp add: es)
  finally consider "t = (0, 0)" "w = v0" | j where "Wr j t w \<in> set pre"
    using justified_filter[OF assms(1)] by fastforce
  then show "w = last_value v0 pre"
  proof cases
    case 1
    with le uw have "\<forall>e\<in>set pre. \<not> is_write e" by (fastforce simp: unique_writes_def)
    with 1 show ?thesis by (simp add: last_value_no_write)
  next
    case 2
    with last_value_latest[OF _ uw 2 le] srt show ?thesis by (simp add: sorted_append)
  qed
qed

text \<open>The criterion: reads return values written before, under unique timestamps, and the
  timestamps a machine sees never decrease.\<close>

lemma sequentially_consistentI:
  assumes "justified v0 h" "unique_writes h" "program_ordered h"
  shows "sequentially_consistent v0 h"
  unfolding sequentially_consistent_def
proof (intro exI[of _ "sort_key ev_stamp h"] conjI allI)
  show "legal v0 (sort_key ev_stamp h)" by (rule sorted_legal[OF assms(1,2)])
  show "count_list (sort_key ev_stamp h) e = count_list h e" for e
    by (simp flip: count_mset)
  show "filter (\<lambda>e. ev_proc e = i) (sort_key ev_stamp h) = filter (\<lambda>e. ev_proc e = i) h" for i
    using assms(3) by (simp add: filter_sort program_ordered_def sort_key_id_if_sorted)
qed

end
