(* ===== verification/SC_System.thy ===== *)
theory SC_System
  imports SC History
begin

text \<open>
  The sequentially consistent protocol on a cluster: the replicas of one object on \<open>N\<close>
  machines, and the updates in flight between them.  A machine reads and writes its
  replica with the handlers of its cache; a write is broadcast to every other
  machine (\<open>perform_broadcasts_SC\<close>, \<open>broadcast_cache_ops\<close>), and each copy of the update
  is delivered some time later, in any order, to the handler of incoming updates
  (\<open>req_cache\<close>).  The history of reads and writes is recorded beside the state.
\<close>

section \<open>Transitions\<close>

record sc_sys =
  reps :: "nat \<Rightarrow> cache_op"
  net :: "(nat \<times> cache_op) multiset"
  hist :: "event list"

text \<open>The update sent for a write: \<open>HERD_PUT_REQ_SIZE\<close> bytes of the operation, that is
  the key, opcode and length and \<open>HERD_VALUE_SIZE\<close> bytes of the value, with the opcode
  of an update.\<close>

definition upd_msg :: "cache_op \<Rightarrow> cache_op" where
  "upd_msg op = op\<lparr>opcode := CACHE_OP_UPD, value := take HERD_VALUE_SIZE (value op)\<rparr>"

definition broadcast :: "nat \<Rightarrow> nat \<Rightarrow> cache_op \<Rightarrow> (nat \<times> cache_op) multiset" where
  "broadcast N i m = image_mset (\<lambda>j. (j, m)) (mset (filter (\<lambda>j. j \<noteq> i) [0..<N]))"

inductive sc_step :: "nat \<Rightarrow> sc_sys \<Rightarrow> sc_sys \<Rightarrow> bool" for N where
  sc_read: "i < N \<Longrightarrow> opcode op = CACHE_OP_GET \<Longrightarrow>
    sc_handler i vp (reps s i) op r = Inr (e', op', r') \<Longrightarrow>
    sc_step N s (s\<lparr>reps := (reps s)(i := e'),
      hist := hist s @ [Rd i (stamp_of (op_meta e')) (value e')]\<rparr>)"
| sc_write: "i < N \<Longrightarrow> opcode op = CACHE_OP_PUT \<Longrightarrow>
    unat (version (op_meta (reps s i))) + 2 < 2 ^ 32 \<Longrightarrow>
    sc_handler i vp (reps s i) op r = Inr (e', op', r') \<Longrightarrow>
    sc_step N s \<lparr>reps = (reps s)(i := e'), net = net s + broadcast N i (upd_msg op'),
      hist = hist s @ [Wr i (stamp_of (op_meta op')) (take (unat (val_len op)) (value op))]\<rparr>"
| sc_deliver: "(j, m) \<in># net s \<Longrightarrow> sc_upd_handler vp (reps s j) m r = Inr (e', m', r') \<Longrightarrow>
    sc_step N s (s\<lparr>reps := (reps s)(j := e'), net := net s - {#(j, m)#}\<rparr>)"

definition sc_start :: "cache_op \<Rightarrow> sc_sys" where
  "sc_start e = \<lparr>reps = (\<lambda>_. e), net = {#}, hist = []\<rparr>"

section \<open>The invariant\<close>

abbreviation rstamp :: "sc_sys \<Rightarrow> nat \<Rightarrow> stamp" where
  "rstamp s i \<equiv> stamp_of (op_meta (reps s i))"

definition reps_ok :: "nat \<Rightarrow> u8 \<Rightarrow> u8 list \<Rightarrow> sc_sys \<Rightarrow> bool" where
  "reps_ok N n v0 s \<longleftrightarrow> (\<forall>i<N. obj_ok (reps s i) \<and> val_len (reps s i) = n \<and>
     (rstamp s i, value (reps s i)) \<in> vals v0 (hist s))"

definition msg_ok :: "nat \<Rightarrow> u8 \<Rightarrow> u8 list \<Rightarrow> event list \<Rightarrow> nat \<times> cache_op \<Rightarrow> bool" where
  "msg_ok N n v0 h = (\<lambda>(j, m). j < N \<and> opcode m = CACHE_OP_UPD \<and> val_len m = n \<and>
     unat n \<le> length (value m) \<and> even (version (op_meta m)) \<and>
     (stamp_of (op_meta m), take (unat n) (value m)) \<in> vals v0 h)"

definition msgs_ok :: "nat \<Rightarrow> u8 \<Rightarrow> u8 list \<Rightarrow> sc_sys \<Rightarrow> bool" where
  "msgs_ok N n v0 s \<longleftrightarrow> (\<forall>x\<in>#net s. msg_ok N n v0 (hist s) x)"

text \<open>Every write has reached every replica or is on its way to it.\<close>

definition covered :: "nat \<Rightarrow> u8 list \<Rightarrow> sc_sys \<Rightarrow> bool" where
  "covered N v0 s \<longleftrightarrow> (\<forall>(t, v)\<in>vals v0 (hist s). \<forall>j<N.
     t \<le> rstamp s j \<or> (\<exists>m. (j, m) \<in># net s \<and> stamp_of (op_meta m) = t))"

text \<open>No machine is behind its own events, and a write carries the identity of its machine.\<close>

definition events_ok :: "nat \<Rightarrow> sc_sys \<Rightarrow> bool" where
  "events_ok N s \<longleftrightarrow> (\<forall>e\<in>set (hist s). ev_proc e < N \<and> ev_stamp e \<le> rstamp s (ev_proc e) \<and>
     (is_write e \<longrightarrow> snd (ev_stamp e) = ev_proc e))"

definition sc_inv :: "nat \<Rightarrow> u8 \<Rightarrow> u8 list \<Rightarrow> sc_sys \<Rightarrow> bool" where
  "sc_inv N n v0 s \<longleftrightarrow> reps_ok N n v0 s \<and> msgs_ok N n v0 s \<and> covered N v0 s \<and> events_ok N s \<and>
     justified v0 (hist s) \<and> unique_writes (hist s) \<and> program_ordered (hist s)"

lemma broadcast_iff [simp]: "(j, m') \<in># broadcast N i m \<longleftrightarrow> j < N \<and> j \<noteq> i \<and> m' = m"
  by (auto simp: broadcast_def)

lemma mset_remove_other: "x \<in># M \<Longrightarrow> x \<noteq> y \<Longrightarrow> x \<in># M - {#y#}"
  by (simp add: in_diff_count)

lemma stamp_zero_le: "(0, 0) \<le> (t :: stamp)"
  by (cases t) (simp add: less_eq_prod_def)

lemma sc_start_inv:
  assumes "obj_ok e" "stamp_of (op_meta e) = (0, 0)" "val_len e = n" "value e = v0"
  shows "sc_inv N n v0 (sc_start e)"
  using assms by (auto simp: sc_inv_def sc_start_def reps_ok_def msgs_ok_def covered_def events_ok_def
      vals_def unique_writes_def program_ordered_def)

text \<open>The transitions, in terms of what the handlers compute.\<close>

lemma sc_step_cases:
  assumes "sc_step N s s'" "reps_ok N n v0 s" "msgs_ok N n v0 s" "unat n \<le> HERD_VALUE_SIZE" "N \<le> 256"
  obtains (reads) i where "i < N" "s' = s\<lparr>hist := hist s @ [Rd i (rstamp s i) (value (reps s i))]\<rparr>"
  | (writes) i op m where "i < N" "fits (reps s i) op" "val_len (reps s i) = n"
      "unat (version (op_meta (reps s i))) + 2 < 2 ^ 32"
      "val_len m = n" "opcode m = CACHE_OP_UPD" "unat n \<le> length (value m)"
      "take (unat n) (value m) = take (unat n) (value op)" "even (version (op_meta m))"
      "stamp_of (op_meta m) = (fst (rstamp s i) + 2, i)"
      "s' = \<lparr>reps = (reps s)(i := sc_written i op (reps s i)), net = net s + broadcast N i m,
             hist = hist s @ [Wr i (fst (rstamp s i) + 2, i) (take (unat n) (value op))]\<rparr>"
  | (delivers) j m where "(j, m) \<in># net s"
      "s' = s\<lparr>reps := (reps s)(j := sc_applied m (reps s j)), net := net s - {#(j, m)#}\<rparr>"
  using assms(1)
proof (cases rule: sc_step.cases)
  case (sc_read i op vp r e' op' r')
  from sc_read(2) assms(2) have "obj_ok (reps s i)" by (simp add: reps_ok_def)
  with sc_read(3,4) have "e' = reps s i" by (simp add: sc_handler_def sc_get_ok)
  with sc_read(1,2) reads[of i] show ?thesis by simp
next
  case (sc_write i op vp r e' op' r')
  let ?e = "reps s i"
  from sc_write(2) assms(2) have e: "obj_ok ?e" "val_len ?e = n" by (simp_all add: reps_ok_def)
  have put: "sc_put i vp ?e op r = Inr (e', op', r')" using sc_write(3,5) by (simp add: sc_handler_def)
  then have fit: "fits ?e op" by (auto simp: sc_put_def res_simps mem_simps fits_def)
  with put e(1) have e': "e' = sc_written i op ?e"
    "op' = set_meta ((op_meta op)\<lparr>version := version (op_meta ?e) + 2, cid := of_nat i\<rparr>) (op\<lparr>opcode := CACHE_OP_BRC\<rparr>)"
    by (simp_all add: sc_put_ok)
  have st: "stamp_of (op_meta op') = (fst (rstamp s i) + 2, i)"
    using stamp_sc_written[of i ?e op] sc_write(2,4) assms(5)
    by (simp add: e'(2) stamp_of_def sc_written_def)
  have len: "val_len op = n" "unat n \<le> length (value op)" using fit e(2) by (simp_all add: fits_def)
  have "even (version (op_meta ?e))" using e(1) by (simp add: obj_ok_def meta_ok_def)
  with fit e sc_write(1,2,4) st e' len assms(4) show ?thesis
    by (intro writes[of i op "upd_msg op'"]) (simp_all add: upd_msg_def set_meta_def min_def)
next
  case (sc_deliver j m vp r e' m' r')
  from sc_deliver(2) assms(3) have m: "msg_ok N n v0 (hist s) (j, m)" by (auto simp: msgs_ok_def)
  with assms(2) have "obj_ok (reps s j)" "fits (reps s j) m" "even (version (op_meta m))"
    "opcode m = CACHE_OP_UPD" by (auto simp: msg_ok_def reps_ok_def fits_def)
  with sc_deliver(3) have "e' = sc_applied m (reps s j)" by (auto simp: sc_upd_handler_def sc_upd_ok)
  with sc_deliver(1,2) delivers[of j m] show ?thesis by simp
qed

section \<open>Preservation\<close>

text \<open>What every state satisfying the invariant provides for one transition.\<close>

lemma stamp_less_next: "t < (fst t + 2, i)" for t :: stamp
  by (cases t) (simp add: less_prod_def)

lemma rstamp_written:
  assumes "i < N" "N \<le> 256" "unat (version (op_meta (reps s i))) + 2 < 2 ^ 32"
  shows "stamp_of (op_meta (sc_written i op (reps s i))) = (fst (rstamp s i) + 2, i)"
  using stamp_sc_written[of i "reps s i" op] assms by (simp add: stamp_of_def)

lemma sc_step_mono:
  assumes "sc_step N s s'" "reps_ok N n v0 s" "msgs_ok N n v0 s" "unat n \<le> HERD_VALUE_SIZE" "N \<le> 256"
  shows "rstamp s k \<le> rstamp s' k"
  using assms
proof (cases rule: sc_step_cases)
  case (writes i op m)
  then show ?thesis
    using rstamp_written[of i N s op] assms(5) stamp_less_next[of "rstamp s i" i] by (simp add: order_less_imp_le)
qed (simp_all add: sc_applied_stamp)

lemma reps_ok_step:
  assumes "sc_step N s s'" "reps_ok N n v0 s" "msgs_ok N n v0 s" "unat n \<le> HERD_VALUE_SIZE" "N \<le> 256"
  shows "reps_ok N n v0 s'"
  using assms
proof (cases rule: sc_step_cases)
  case (reads i)
  with assms(2) show ?thesis by (simp add: reps_ok_def vals_append)
next
  case (writes i op m)
  let ?e = "reps s i"
  have e: "obj_ok ?e" "val_len ?e = n" using writes(1) assms(2) by (simp_all add: reps_ok_def)
  have "val_len (sc_written i op ?e) = n" "value (sc_written i op ?e) = take (unat n) (value op)"
    using e(2) by (simp_all add: sc_written_def)
  with sc_written_ok[OF e(1) writes(2)] rstamp_written[OF writes(1) assms(5) writes(4)] assms(2) writes(11)
  show ?thesis by (auto simp: reps_ok_def vals_append)
next
  case (delivers j m)
  from delivers(1) assms(3) have m: "msg_ok N n v0 (hist s) (j, m)" by (auto simp: msgs_ok_def)
  with assms(2) have e: "obj_ok (reps s j)" "val_len (reps s j) = n"
    "(rstamp s j, value (reps s j)) \<in> vals v0 (hist s)" by (auto simp: msg_ok_def reps_ok_def)
  have "obj_ok (sc_applied m (reps s j))"
    using e m by (intro sc_applied_ok) (auto simp: fits_def msg_ok_def)
  moreover have "val_len (sc_applied m (reps s j)) = n" using e(2) by (simp add: sc_applied_def)
  moreover have "(stamp_of (op_meta (sc_applied m (reps s j))), value (sc_applied m (reps s j))) \<in> vals v0 (hist s)"
    using e m by (auto simp: sc_applied_stamp sc_applied_value msg_ok_def max_def)
  ultimately show ?thesis using assms(2) delivers(2) by (simp add: reps_ok_def)
qed

lemma msg_ok_mono: "msg_ok N n v0 h x \<Longrightarrow> vals v0 h \<subseteq> vals v0 h' \<Longrightarrow> msg_ok N n v0 h' x"
  by (auto simp: msg_ok_def)

lemma msgs_ok_step:
  assumes "sc_step N s s'" "reps_ok N n v0 s" "msgs_ok N n v0 s" "unat n \<le> HERD_VALUE_SIZE" "N \<le> 256"
  shows "msgs_ok N n v0 s'"
  using assms
proof (cases rule: sc_step_cases)
  case (reads i)
  have "vals v0 (hist s') = vals v0 (hist s)" "net s' = net s" using reads(2) by (simp_all add: vals_append)
  with assms(3) show ?thesis by (simp add: msgs_ok_def msg_ok_def)
next
  case (writes i op m)
  have old: "msg_ok N n v0 (hist s') x" if "x \<in># net s" for x
    using msg_ok_mono[of N n v0 "hist s" x "hist s'"] assms(3) that writes(11) vals_snoc_mono[of v0 "hist s"]
    by (simp add: msgs_ok_def)
  have "msg_ok N n v0 (hist s') (j, m)" if "j < N" for j
    using that writes by (simp add: msg_ok_def vals_append)
  with old writes(11) show ?thesis by (auto simp: msgs_ok_def)
next
  case (delivers j m)
  with assms(3) show ?thesis by (auto simp: msgs_ok_def dest: in_diffD)
qed

lemma covered_step:
  assumes "sc_step N s s'" "reps_ok N n v0 s" "msgs_ok N n v0 s" "unat n \<le> HERD_VALUE_SIZE" "N \<le> 256"
    "covered N v0 s"
  shows "covered N v0 s'"
  unfolding covered_def
proof (clarify)
  fix tv tc v j
  assume in': "((tv, tc), v) \<in> vals v0 (hist s')" and j: "j < N"
    and no: "\<nexists>m. (j, m) \<in># net s' \<and> stamp_of (op_meta m) = (tv, tc)"
  let ?t = "(tv, tc)"
  have old: "?t \<le> rstamp s j \<or> (\<exists>m. (j, m) \<in># net s \<and> stamp_of (op_meta m) = ?t)"
    if "(?t, v) \<in> vals v0 (hist s)" using assms(6) that j by (auto simp: covered_def)
  note mono = sc_step_mono[OF assms(1-5), of j]
  from assms(1-5) show "?t \<le> rstamp s' j"
  proof (cases rule: sc_step_cases)
    case (reads i)
    with in' old no show ?thesis by (auto simp: vals_append)
  next
    case (writes i op m)
    show ?thesis
    proof (cases "(?t, v) \<in> vals v0 (hist s)")
      case True
      from old[OF True] no writes(11) have "?t \<le> rstamp s j" by auto
      from this mono show ?thesis by (rule order_trans)
    next
      case False
      with in' writes(11) have t: "?t = (fst (rstamp s i) + 2, i)" by (simp add: vals_append)
      show ?thesis
      proof (cases "j = i")
        case True
        with t rstamp_written[OF writes(1) assms(5) writes(4), of op] writes(11) show ?thesis by simp
      next
        case False
        with no j t writes(10,11) show ?thesis by auto
      qed
    qed
  next
    case (delivers i m)
    with in' have "(?t, v) \<in> vals v0 (hist s)" by simp
    from old[OF this] show ?thesis
    proof
      assume "?t \<le> rstamp s j" from this mono show ?thesis by (rule order_trans)
    next
      assume "\<exists>m. (j, m) \<in># net s \<and> stamp_of (op_meta m) = ?t"
      then obtain m' where m': "(j, m') \<in># net s" "stamp_of (op_meta m') = ?t" by blast
      have "(j, m') = (i, m)"
      proof (rule ccontr)
        assume "(j, m') \<noteq> (i, m)"
        with m'(1) have "(j, m') \<in># net s'" using delivers(2) by (simp add: mset_remove_other)
        with no m'(2) show False by blast
      qed
      with m'(2) delivers(2) show ?thesis by (simp add: sc_applied_stamp)
    qed
  qed
qed

lemma events_ok_step:
  assumes "sc_step N s s'" "reps_ok N n v0 s" "msgs_ok N n v0 s" "unat n \<le> HERD_VALUE_SIZE" "N \<le> 256"
    "events_ok N s"
  shows "events_ok N s'"
proof -
  note mono = sc_step_mono[OF assms(1-5)]
  have old: "ev_proc e < N \<and> ev_stamp e \<le> rstamp s' (ev_proc e) \<and> (is_write e \<longrightarrow> snd (ev_stamp e) = ev_proc e)"
    if "e \<in> set (hist s)" for e
    using assms(6) that order_trans[OF _ mono[of "ev_proc e"]] by (simp add: events_ok_def)
  from assms(1-5) show ?thesis
  proof (cases rule: sc_step_cases)
    case (writes i op m)
    with old rstamp_written[OF writes(1) assms(5) writes(4), of op] show ?thesis
      by (simp add: events_ok_def)
  qed (use old in \<open>simp_all add: events_ok_def\<close>)
qed

lemma hist_step:
  assumes "sc_step N s s'" "sc_inv N n v0 s" "unat n \<le> HERD_VALUE_SIZE" "N \<le> 256"
  shows "justified v0 (hist s') \<and> unique_writes (hist s') \<and> program_ordered (hist s')"
proof -
  from assms(2) have inv: "reps_ok N n v0 s" "msgs_ok N n v0 s" "events_ok N s"
    "justified v0 (hist s)" "unique_writes (hist s)" "program_ordered (hist s)" by (simp_all add: sc_inv_def)
  have ev: "ev_stamp e \<le> rstamp s (ev_proc e)" "is_write e \<Longrightarrow> snd (ev_stamp e) = ev_proc e"
    if "e \<in> set (hist s)" for e using inv(3) that by (simp_all add: events_ok_def)
  from assms(1) inv(1,2) assms(3,4) show ?thesis
  proof (cases rule: sc_step_cases)
    case (reads i)
    with inv ev(1) show ?thesis
      by (auto simp: justified_snoc unique_writes_snoc program_ordered_snoc reps_ok_def)
  next
    case (writes i op m)
    let ?t = "(fst (rstamp s i) + 2, i)"
    have lt: "ev_stamp e < ?t" if "e \<in> set (hist s)" "ev_proc e = i" for e
      using ev(1)[OF that(1)] stamp_less_next[of "rstamp s i" i] that(2) by (simp add: order_le_less_trans)
    have "ev_stamp e \<noteq> ?t" if "e \<in> set (hist s)" "is_write e" for e
    proof
      assume "ev_stamp e = ?t"
      with ev(2)[OF that] have "ev_proc e = i" by simp
      with lt[OF that(1)] \<open>ev_stamp e = ?t\<close> show False by simp
    qed
    moreover have "(0, 0) < ?t" by (simp add: less_prod_def)
    moreover have "ev_stamp e \<le> ?t" if "e \<in> set (hist s)" "ev_proc e = i" for e
      using lt[OF that] by (rule order_less_imp_le)
    ultimately show ?thesis
      using inv(4-6) writes(11) by (simp add: justified_snoc unique_writes_snoc program_ordered_snoc)
  next
    case (delivers j m)
    with inv show ?thesis by simp
  qed
qed

lemma sc_inv_step:
  assumes "sc_inv N n v0 s" "unat n \<le> HERD_VALUE_SIZE" "N \<le> 256" "sc_step N s s'"
  shows "sc_inv N n v0 s'"
proof -
  from assms(1) have inv: "reps_ok N n v0 s" "msgs_ok N n v0 s" "covered N v0 s" "events_ok N s"
    by (auto simp: sc_inv_def)
  note pre = assms(4) inv(1,2) assms(2,3)
  show ?thesis
    using reps_ok_step[OF pre] msgs_ok_step[OF pre] covered_step[OF pre inv(3)] events_ok_step[OF pre inv(4)]
      hist_step[OF assms(4,1,2,3)]
    by (simp add: sc_inv_def)
qed

interpretation sc_mono: monotone_replicas "sc_step N"
  "\<lambda>s. sc_inv N n v0 s \<and> unat n \<le> HERD_VALUE_SIZE \<and> N \<le> 256" rstamp for N n v0
proof unfold_locales
  fix s s' i
  assume good: "sc_inv N n v0 s \<and> unat n \<le> HERD_VALUE_SIZE \<and> N \<le> 256" and st: "sc_step N s s'"
  from good st show "sc_inv N n v0 s' \<and> unat n \<le> HERD_VALUE_SIZE \<and> N \<le> 256"
    using sc_inv_step by blast
  from good show "rstamp s i \<le> rstamp s' i"
    using sc_step_mono[OF st, of n v0] by (simp add: sc_inv_def)
qed

section \<open>Delivery\<close>

text \<open>A pending update can always be delivered; delivering all of them ends.\<close>

lemma deliver_enabled:
  assumes "sc_inv N n v0 s" "(j, m) \<in># net s"
  shows "sc_step N s (s\<lparr>reps := (reps s)(j := sc_applied m (reps s j)), net := net s - {#(j, m)#}\<rparr>)"
proof -
  from assms have m: "msg_ok N n v0 (hist s) (j, m)" by (auto simp: sc_inv_def msgs_ok_def)
  with assms(1) have "obj_ok (reps s j)" "fits (reps s j) m" "even (version (op_meta m))"
    "opcode m = CACHE_OP_UPD" by (auto simp: msg_ok_def sc_inv_def reps_ok_def fits_def)
  with assms(2) show ?thesis
    by (intro sc_deliver[where vp = 0 and r = "\<lparr>rtype = EMPTY, rval_len = 0, val_ptr = None\<rparr>" and m' = m])
       (simp_all add: sc_upd_handler_def sc_upd_ok)
qed

lemma can_quiesce:
  assumes "sc_inv N n v0 s" "unat n \<le> HERD_VALUE_SIZE" "N \<le> 256"
  shows "\<exists>s'. (sc_step N)\<^sup>*\<^sup>* s s' \<and> net s' = {#} \<and> hist s' = hist s"
  using assms(1)
proof (induction "size (net s)" arbitrary: s)
  case (Suc k)
  from Suc.hyps(2) obtain j m where m: "(j, m) \<in># net s" by (metis size_eq_Suc_imp_elem surj_pair)
  let ?s = "s\<lparr>reps := (reps s)(j := sc_applied m (reps s j)), net := net s - {#(j, m)#}\<rparr>"
  have st: "sc_step N s ?s" by (rule deliver_enabled[OF Suc.prems m])
  have "k = size (net ?s)" using Suc.hyps(2) m by (simp add: size_Diff_singleton)
  from Suc.hyps(1)[OF this sc_inv_step[OF Suc.prems assms(2,3) st]] st show ?case
    by (auto intro: converse_rtranclp_into_rtranclp)
qed auto

lemma quiescent_equal:
  assumes "sc_inv N n v0 s" "net s = {#}" "i < N" "j < N"
  shows "rstamp s i = rstamp s j \<and> value (reps s i) = value (reps s j)"
proof -
  from assms(1) have inv: "reps_ok N n v0 s" "covered N v0 s" "unique_writes (hist s)" by (simp_all add: sc_inv_def)
  have v: "(rstamp s k, value (reps s k)) \<in> vals v0 (hist s)" if "k < N" for k
    using inv(1) that by (simp add: reps_ok_def)
  have "rstamp s k \<le> rstamp s l" if "k < N" "l < N" for k l
    using inv(2) v[OF that(1)] that(2) assms(2) by (fastforce simp: covered_def)
  with assms(3,4) have eq: "rstamp s i = rstamp s j" by (meson antisym)
  moreover have "a = b" if "(t, a) \<in> vals v0 (hist s)" "(t, b) \<in> vals v0 (hist s)" for t a b
    by (rule vals_functional[OF inv(3) that])
  ultimately show ?thesis using v assms(3,4) by metis
qed

section \<open>Reachable states\<close>

text \<open>An object as the initialisation of the caches leaves it.\<close>

definition sc_object :: "cache_op \<Rightarrow> bool" where
  "sc_object e \<longleftrightarrow> obj_ok e \<and> stamp_of (op_meta e) = (0, 0) \<and> unat (val_len e) \<le> HERD_VALUE_SIZE"

definition sc_reachable :: "nat \<Rightarrow> cache_op \<Rightarrow> sc_sys \<Rightarrow> bool" where
  "sc_reachable N e s \<longleftrightarrow> sc_object e \<and> N \<le> 256 \<and> (sc_step N)\<^sup>*\<^sup>* (sc_start e) s"

lemma sc_reachable_inv:
  assumes "sc_reachable N e s"
  shows "sc_inv N (val_len e) (value e) s" "unat (val_len e) \<le> HERD_VALUE_SIZE" "N \<le> 256"
proof -
  have e: "sc_object e" "N \<le> 256" "(sc_step N)\<^sup>*\<^sup>* (sc_start e) s" using assms by (auto simp: sc_reachable_def)
  have "sc_inv N (val_len e) (value e) (sc_start e)"
    using e(1) by (intro sc_start_inv) (auto simp: sc_object_def)
  with sc_mono.good_steps[OF e(3), of "val_len e" "value e"] e(1,2)
  show "sc_inv N (val_len e) (value e) s" by (simp add: sc_object_def)
qed (use assms in \<open>auto simp: sc_reachable_def sc_object_def\<close>)

end
