(* ===== verification/Mica_Correct.thy ===== *)
theory Mica_Correct
  imports Mica_Ops
begin

text \<open>
  The correctness properties of CityHash and of the MICA store, with concrete
  instances.  The instances run on a store with one bucket and a log of 256 bytes.
\<close>

section \<open>A small store\<close>

definition demo_index :: "mica_bkt list" where
  "demo_index = [replicate 8 \<lparr>in_use = 0, slot_tag = 0, offset = 0\<rparr>]"

definition demo_log :: "u8 list" where
  "demo_log = replicate 256 0"

definition demo_meta :: cache_meta where
  "demo_meta = \<lparr>state = VALID_STATE, pending_acks = 0, cid = 0, lock = 0, version = 0\<rparr>"

definition demo_op :: "u8 \<Rightarrow> u16 \<Rightarrow> mica_op" where
  "demo_op oc t = \<lparr>key = \<lparr>meta = demo_meta, bkt = 5, server = 1, tag = t\<rparr>,
     opcode = oc, val_len = 32, value = replicate 46 7\<rparr>"

lemma demo_op_ok [simp]: "op_ok (demo_op oc t)"
  by (simp add: op_ok_def demo_op_def MICA_MAX_VALUE_eq HERD_VALUE_SIZE_eq)

lemma demo_store:
  obtains kv where "mica_init 0 0 1 256 demo_index demo_log = Inr kv" "kv_wf kv"
    "room_for kv 2" "num_insert_op kv = 0" "num_index_evictions kv = 0"
    "\<forall>i. bkt_load kv i = 0" "\<forall>k. kv_abs kv k = None" "bkt_mask kv = 0" "log_head kv = 0"
    "log_cap kv = 256"
proof -
  have "segments_ok 0 8 demo_index demo_log"
    by (simp add: segments_ok_def demo_index_def demo_log_def)
  from mica_init_ok[OF this, of 0 0] obtain kv where
    "mica_init 0 0 1 256 demo_index demo_log = Inr kv"
    "kv_wf kv" "log_head kv = 0" "log_cap kv = 256" "num_insert_op kv = 0"
    "num_index_evictions kv = 0" "\<And>i. bkt_load kv i = 0" "\<And>k. kv_abs kv k = None" "bkt_mask kv = 0"
    by auto
  then show ?thesis by (intro that[of kv]) (simp_all add: room_for_def)
qed

section \<open>CityHash\<close>

text \<open>Property C38: CityHash128 never reads outside its input.  For every buffer, position
  and length inside it, the function returns a hash; in particular every loop of
  the long-string path ends.\<close>

theorem CityHash128_in_bounds:
  assumes "s + len \<le> length buf"
  shows "returns (CityHash128 buf s len)"
  unfolding CityHash128_def using assms by (intro returns_intro; simp; linarith?)

theorem CityHash128_in_bounds_witness:
  "(0::nat) + 300 \<le> length (replicate 300 (1::u8)) \<and> returns (CityHash128 (replicate 300 1) 0 300)"
  using CityHash128_in_bounds[of 0 300 "replicate 300 1"] by simp

text \<open>\<open>Rotate\<close> is the rotation of the word to the right, for every shift the hash
  uses.\<close>

theorem Rotate_rotr:
  assumes "shift < 64"
  shows "Rotate val shift = word_rotr shift val"
proof (rule bit_word_eqI)
  fix n :: nat assume n: "n < LENGTH(64)"
  show "bit (Rotate val shift) n = bit (word_rotr shift val) n"
  proof (cases "n + shift < 64")
    case True
    with n assms show ?thesis
      by (auto simp: Rotate_def bit_simps bit_word_rotr_iff add.commute dest: bit_imp_le_length)
  next
    case False
    with n assms have "(n + shift) mod 64 = n + shift - 64" by (simp add: mod_if)
    with False n assms show ?thesis
      by (auto simp: Rotate_def bit_simps bit_word_rotr_iff add.commute dest: bit_imp_le_length)
  qed
qed

theorem Rotate_rotr_witness: "(37::nat) < 64 \<and> Rotate 3 37 = word_rotr 37 3"
  using Rotate_rotr[of 37 3] by simp

section \<open>Inserting and looking up\<close>

text \<open>Property C18: an insertion refines the update of a map.  In a well-formed store with room
  in its log, \<open>mica_insert_one\<close> returns a well-formed store in which the key is bound
  to the inserted object, the displaced keys (same bucket and tag, or the victim of
  an eviction) are unbound, and every other key is as before.\<close>

theorem mica_insert_refines_map:
  assumes "kv_wf kv" "room_for kv 1" "op_ok op"
  shows "\<exists>kv'. mica_insert_one kv op = Inr kv' \<and> kv_wf kv' \<and>
    (\<forall>k. kv_abs kv' k =
       (if key_word k = key_word (key op) then Some (stored op)
        else if displaced kv (key op) k then None else kv_abs kv k))"
  using mica.ins_ok[of kv 0 op] mica.look_ins[of kv 0 op] assms by (metis One_nat_def)

theorem mica_insert_refines_map_witness:
  "\<exists>kv kv'. mica_init 0 0 1 256 demo_index demo_log = Inr kv \<and> kv_wf kv \<and> room_for kv 1 \<and>
     op_ok (demo_op MICA_OP_PUT 9) \<and> mica_insert_one kv (demo_op MICA_OP_PUT 9) = Inr kv' \<and>
     kv_abs kv' (key (demo_op MICA_OP_PUT 9)) = Some (stored (demo_op MICA_OP_PUT 9))"
proof -
  obtain kv where kv: "mica_init 0 0 1 256 demo_index demo_log = Inr kv" "kv_wf kv" "room_for kv 2"
    by (rule demo_store)
  from kv(3) have r: "room_for kv 1" by (simp add: room_for_def)
  from mica_insert_refines_map[OF kv(2) r demo_op_ok[of MICA_OP_PUT 9]] kv(1,2) r show ?thesis
    by (metis demo_op_ok)
qed

text \<open>A bucket fills from its last slot.  The slot loop of the insertion runs on
  after a match, so the first insertion into an empty bucket takes slot 7, and not,
  as the comment above the loop says, a slot at the beginning of the array.\<close>

theorem bucket_fills_from_the_end:
  assumes "\<forall>i<8. in_use (b ! i) = 0"
  shows "slot_to_use b t = Some 7"
  using assms by (simp add: slot_to_use_Some slot_usable_def)

theorem bucket_fills_from_the_end_witness:
  "in_use ((demo_index ! 0) ! 7) = 0 \<and> slot_to_use (demo_index ! 0) 9 = Some 7"
  using bucket_fills_from_the_end[of "demo_index ! 0" 9] by (simp add: demo_index_def)

section \<open>Batches\<close>



section \<open>Population\<close>

text \<open>Population succeeds.  With room for \<open>n\<close> objects before the log wraps, and
  values no longer than the configured size, \<open>mica_populate_fixed_len\<close> passes all its
  assertions and leaves a well-formed store that counts \<open>n\<close> insertions.\<close>

theorem mica_populate_returns:
  assumes "kv_wf kv" "room_for kv (nat n)" "num_insert_op kv = 0" "num_index_evictions kv = 0"
    "0 < n" "n \<le> 67108864" "0 < len" "len \<le> int HERD_VALUE_SIZE" "length (value op0) = MICA_MAX_VALUE"
  shows "\<exists>kv'. mica_populate_fixed_len kv n len op0 = Inr kv' \<and> kv_wf kv' \<and> num_insert_op kv' = n"
proof -
  from gen_keys_ok[of n] assms(5,6) obtain ks where ks: "mica_gen_keys n = Inr ks" "length ks = nat n"
    by auto
  let ?ops = "populate_ops (populate_op (nat len)) ks op0"
  have "\<forall>x\<in>set ?ops. op_ok x" using assms(8,9) by (intro populate_ops_ok) auto
  with mica.fill_total[OF assms(1), of ?ops 0] assms(2) ks(2) obtain kv' where
    kv': "fold_res (\<lambda>op kv. mica_insert_one kv op) ?ops kv = Inr kv'" "kv_wf kv'" by auto
  moreover have "len \<le> int MICA_MAX_VALUE" using assms(8) by (simp add: config)
  ultimately show ?thesis
    using mica_populate_eq[OF assms(5,7) _ assms(3,4) ks, of op0] insert_all_counts[OF kv'(1)] ks(2) assms(3,5)
    by auto
qed

theorem mica_populate_returns_witness:
  "\<exists>kv kv'. mica_init 0 0 1 256 demo_index demo_log = Inr kv \<and>
     mica_populate_fixed_len kv 2 32 (demo_op 0 0) = Inr kv' \<and> num_insert_op kv' = 2"
proof -
  obtain kv where kv: "mica_init 0 0 1 256 demo_index demo_log = Inr kv" "kv_wf kv" "room_for kv 2"
    "num_insert_op kv = 0" "num_index_evictions kv = 0" by (rule demo_store)
  with mica_populate_returns[of kv 2 32 "demo_op 0 0"] show ?thesis
    by (auto simp: HERD_VALUE_SIZE_eq MICA_MAX_VALUE_eq demo_op_def)
qed



section \<open>The second lap of the log\<close>

text \<open>Property C40: the log overruns on its second lap.  The wrap test subtracts unsigned
  numbers, so it fires only during the first lap: a well-formed store whose head has
  just wrapped to the capacity runs, after enough further insertions, into a write
  beyond the physical end of the log.\<close>

theorem log_overruns_on_second_lap:
  assumes "kv_wf kv" "log_head kv = log_cap kv" "log_cap kv \<le> 2 ^ 38"
    "length (value op) = MICA_MAX_VALUE"
  shows "\<exists>n. fold_res (\<lambda>op kv. mica_insert_one kv op) (replicate n op) kv = Inl Out_Of_Bounds"
proof -
  from assms(1) obtain c where c: "8 \<le> c" "c \<le> 39" "log_cap kv = 2 ^ c" "log_mask kv = mask c"
    "length (ht_log kv) = 2 ^ c" "unat (log_cap kv) = 2 ^ c"
    by (auto simp: kv_wf_def elim: log_wf_cases)
  have "(2 :: nat) ^ c \<le> 2 ^ 38"
    using assms(3) c(6) by (simp add: word_le_nat_alt unat_pow2)
  then have "c \<le> 38" by (rule power_le_imp_le_exp[rotated]) simp
  with assms(1,2) c have start: "second_lap c 0 kv" by (simp add: second_lap_def kv_wf_def)
  have "\<exists>n. fold_res (\<lambda>op kv. mica_insert_one kv op) (replicate n op) kv = Inl Out_Of_Bounds"
    if "second_lap c p kv" for p kv
    using that
  proof (induction "2 ^ c - p" arbitrary: p kv rule: less_induct)
    case less
    show ?case
    proof (cases "2 ^ c < p + 50")
      case True
      with insert_second_lap(1)[OF less.prems assms(4)] show ?thesis by (intro exI[of _ 1]) simp
    next
      case False
      with insert_second_lap(2)[OF less.prems assms(4)] obtain kv1 where
        kv1: "mica_insert_one kv op = Inr kv1" "second_lap c (p + 56) kv1" by auto
      from less.prems have "p < 2 ^ c" by (simp add: second_lap_def)
      then have "2 ^ c - (p + 56) < 2 ^ c - p" by linarith
      from less.hyps[OF this kv1(2)] obtain n where
        "fold_res (\<lambda>op kv. mica_insert_one kv op) (replicate n op) kv1 = Inl Out_Of_Bounds" by blast
      with kv1(1) show ?thesis by (intro exI[of _ "Suc n"]) simp
    qed
  qed
  from this[OF start] show ?thesis .
qed

theorem log_overruns_on_second_lap_witness:
  "\<exists>kv n. mica_init 0 0 1 256 demo_index demo_log = Inr kv \<and>
     kv_wf (kv\<lparr>log_head := 256\<rparr>) \<and>
     fold_res (\<lambda>op kv. mica_insert_one kv op) (replicate n (demo_op MICA_OP_PUT 9))
       (kv\<lparr>log_head := 256\<rparr>) = Inl Out_Of_Bounds"
proof -
  obtain kv where kv: "mica_init 0 0 1 256 demo_index demo_log = Inr kv" "kv_wf kv"
    "\<forall>i. bkt_load kv i = 0" "log_cap kv = 256" by (rule demo_store)
  have "\<not> used kv i j" for i j using spec[OF kv(3), of i] by (auto simp: bkt_load_def)
  then have "\<not> used (kv\<lparr>log_head := 256\<rparr>) i j" for i j by (simp add: used_def)
  then have "kv_wf (kv\<lparr>log_head := 256\<rparr>)"
    using kv(2,4) by (simp add: kv_wf_def index_wf_def log_wf_def entries_wf_def)
  with log_overruns_on_second_lap[of "kv\<lparr>log_head := 256\<rparr>" "demo_op MICA_OP_PUT 9"] kv(1,4)
  show ?thesis by (auto simp: demo_op_def MICA_MAX_VALUE_eq)
qed

end
