(* ===== verification/SC_Correct.thy ===== *)
theory SC_Correct
  imports SC Mica_Correct
begin

text \<open>
  The correctness properties of the sequentially consistent cache as one machine
  runs it: a batch over the bytes of the store is a batch over the map of objects,
  it never aborts on well-formed operations and keeps every object unlocked, a
  read returns the bytes last written, and updates commute.
\<close>

section \<open>A small cache\<close>

text \<open>A cache whose objects are all unlocked and at an even version.\<close>

definition cache_ok :: "cache \<Rightarrow> bool" where
  "cache_ok c \<longleftrightarrow> kv_wf (hash_table c) \<and> in_first_lap (hash_table c) \<and>
     (\<forall>k e. kv_abs (hash_table c) k = Some e \<longrightarrow> obj_ok e)"

definition demo_resp :: mica_resp where
  "demo_resp = \<lparr>rtype = EMPTY, rval_len = 0, val_ptr = None\<rparr>"

text \<open>A cache with one object.\<close>

lemma demo_cache:
  obtains c where "cache_ok c"
    "kv_abs (hash_table c) (key (demo_op CACHE_OP_PUT 9)) = Some (stored (demo_op CACHE_OP_PUT 9))"
    "\<forall>k e. kv_abs (hash_table c) k = Some e \<longrightarrow> e = stored (demo_op CACHE_OP_PUT 9)"
proof -
  let ?x = "demo_op CACHE_OP_PUT 9"
  obtain kv where kv: "mica_init 0 0 1 256 demo_index demo_log = Inr kv" "kv_wf kv" "room_for kv 2"
    "\<forall>k. kv_abs kv k = None" by (rule demo_store)
  from kv(3) have r: "room_for kv (Suc 0)" by (simp add: room_for_def)
  from mica.ins_ok[OF kv(2) r demo_op_ok] obtain kv' where
    kv': "mica_insert_one kv ?x = Inr kv'" "kv_wf kv'" "room_for kv' 0" by blast
  have st: "obj_ok (stored ?x)"
    by (simp add: obj_ok_def stored_def demo_op_def entry_wf_def meta_ok_def demo_meta_def)
  have abs: "kv_abs kv' k = (if key_word k = key_word (key ?x) then Some (stored ?x) else None)" for k
    using mica.look_ins[OF kv(2) r demo_op_ok kv'(1), of k] kv(4) by simp
  from kv'(2,3) st abs show ?thesis
    by (intro that[of "\<lparr>num_threads = 1, hash_table = kv', total_ops_issued = 0,
          aggregated_meta = extended_cache_meta_reset, thread_meta = [cache_meta_reset], protocol = 0\<rparr>"])
       (auto simp: cache_ok_def room_for_def in_first_lap_def split: if_splits)
qed

lemma demo_word: "key_word (key (demo_op oc t)) = key_word (key (demo_op oc' t))"
  by (simp add: demo_op_def)

section \<open>Batches\<close>

definition sc_op_ok :: "u8 \<Rightarrow> cache_op \<Rightarrow> bool" where
  "sc_op_ok n op \<longleftrightarrow>
     opcode op = CACHE_OP_GET \<or> opcode op = CACHE_OP_BRC \<or>
     (opcode op = CACHE_OP_PUT \<or> opcode op = CACHE_OP_UPD \<and> even (version (op_meta op))) \<and>
     val_len op = n \<and> unat n \<le> length (value op)"

lemma sc_handler_ok:
  assumes "obj_ok e" "sc_op_ok (val_len e) op"
  shows "\<exists>e' op' r'. sc_handler i vp e op r = Inr (e', op', r') \<and> obj_ok e' \<and> val_len e' = val_len e"
proof -
  have f: "opcode op = CACHE_OP_PUT \<or> opcode op = CACHE_OP_UPD \<Longrightarrow> fits e op"
    and v: "opcode op = CACHE_OP_UPD \<Longrightarrow> even (version (op_meta op))"
    using assms(2) by (auto simp: sc_op_ok_def fits_def)
  have "val_len (sc_written i op e) = val_len e" "val_len (sc_applied op e) = val_len e"
    by (simp_all add: sc_written_def sc_applied_def)
  note facts = this assms(1) f v sc_written_ok[of e op i] sc_applied_ok[of e op]
  consider "opcode op = CACHE_OP_GET" | "opcode op = CACHE_OP_BRC" | "opcode op = CACHE_OP_PUT"
    | "opcode op = CACHE_OP_UPD" using assms(2) by (auto simp: sc_op_ok_def)
  then show ?thesis
    by cases (use facts in \<open>simp_all add: sc_handler_def sc_get_ok sc_put_ok sc_upd_ok\<close>)
qed

lemma cache_batch_op_sc_eq:
  "cache_batch_op_sc i t ops c =
   bind_res (cache_batch (sc_handler i) skipped (hash_table c) ops) (\<lambda>(kv, out).
     Inr (c\<lparr>protocol := SEQUENTIAL_CONSISTENCY, hash_table := kv\<rparr>, out))"
  by (simp add: cache_batch_op_sc_def Let_def ENABLE_CACHE_STATS_def)

text \<open>Property C19: a batch of the sequentially consistent cache is a batch on a map.  The
  lookups in the index, the reads and the writes of the log compute, operation by
  operation, what the handlers compute on the map from keys to objects: the same
  map, the same operations and responses, and the same fault if there is one.\<close>

theorem sc_batch_refines_map:
  assumes "kv_wf (hash_table c)" "in_first_lap (hash_table c)" "length ops \<le> CACHE_BATCH_SIZE"
  shows "map_sum id (\<lambda>(c', out). (kv_abs (hash_table c'), out)) (cache_batch_op_sc i t ops c) =
    fold_res (abs_batch_step (sc_handler i) skipped (kv_ptr (hash_table c))) ops (kv_abs (hash_table c), [])"
  unfolding sc.cache_batch_refines[OF assms, symmetric] cache_batch_op_sc_eq
  by (cases "cache_batch (sc_handler i) skipped (hash_table c) ops") auto

lemma sc_batch_total:
  assumes "cache_ok c" "length ops \<le> CACHE_BATCH_SIZE"
    "\<forall>(op, r)\<in>set ops. skipped r \<or>
       (\<forall>e. kv_abs (hash_table c) (key op) = Some e \<longrightarrow> sc_op_ok (val_len e) op)"
  shows "\<exists>c' out. cache_batch_op_sc i t ops c = Inr (c', out) \<and> cache_ok c' \<and> length out = length ops \<and>
    (\<forall>k. map_option val_len (kv_abs (hash_table c') k) = map_option val_len (kv_abs (hash_table c) k))"
proof -
  let ?kv = "hash_table c"
  from assms(1) have wf: "kv_wf ?kv" "in_first_lap ?kv" and
    ob: "\<forall>k e. kv_abs ?kv k = Some e \<longrightarrow> obj_ok e" by (auto simp: cache_ok_def)
  from sc.cache_batch_returns[where P = obj_ok and Q = sc_op_ok and skip = skipped and i = i,
      OF sc_handler_ok wf assms(2) ob assms(3)]
  show ?thesis by (auto simp: cache_batch_op_sc_eq cache_ok_def)
qed

lemma sc_in_batch_total:
  assumes "cache_ok c" "length ops \<le> CACHE_BATCH_SIZE"
    "\<forall>(op, r)\<in>set ops. skipped r \<or> (\<forall>e. kv_abs (hash_table c) (key op) = Some e \<longrightarrow>
       opcode op = CACHE_OP_UPD \<and> sc_op_ok (val_len e) op)"
  shows "\<exists>c' out. cache_batch_op_sc_with_cache_op ops c = Inr (c', out) \<and> cache_ok c' \<and> length out = length ops \<and>
    (\<forall>k. map_option val_len (kv_abs (hash_table c') k) = map_option val_len (kv_abs (hash_table c) k))"
proof -
  let ?kv = "hash_table c"
  from assms(1) have wf: "kv_wf ?kv" "in_first_lap ?kv" and
    ob: "\<forall>k e. kv_abs ?kv k = Some e \<longrightarrow> obj_ok e" by (auto simp: cache_ok_def)
  have h: "\<exists>e' op' r'. sc_upd_handler vp e op r = Inr (e', op', r') \<and> obj_ok e' \<and> val_len e' = val_len e"
    if "obj_ok e" "opcode op = CACHE_OP_UPD \<and> sc_op_ok (val_len e) op" for vp e op r
    using sc_handler_ok[of e op 0 vp r] that by (simp add: sc_handler_def sc_upd_handler_def)
  from sc_in.cache_batch_returns[where P = obj_ok and Q = "\<lambda>n op. opcode op = CACHE_OP_UPD \<and> sc_op_ok n op" and skip = skipped,
      OF h wf assms(2) ob assms(3)]
  show ?thesis by (auto simp: cache_batch_op_sc_with_cache_op_def cache_ok_def Let_def)
qed

text \<open>Property C20: a batch of the sequentially consistent cache returns.  If every object is
  unlocked at an even version and every read, write, update or pending broadcast of
  the batch has the length of the object it names, no assertion fails and no loop
  spins; afterwards every object is again unlocked at an even version, no key has
  appeared, disappeared or changed its length.\<close>

theorem sc_batch_returns:
  assumes "cache_ok c" "length ops \<le> CACHE_BATCH_SIZE"
    "\<forall>(op, r)\<in>set ops. skipped r \<or>
       (\<forall>e. kv_abs (hash_table c) (key op) = Some e \<longrightarrow> sc_op_ok (val_len e) op)"
  shows "\<exists>c' out. cache_batch_op_sc i t ops c = Inr (c', out) \<and> cache_ok c' \<and> length out = length ops \<and>
    (\<forall>k. map_option val_len (kv_abs (hash_table c') k) = map_option val_len (kv_abs (hash_table c) k))"
  by (rule sc_batch_total[OF assms])

lemma demo_sc_op_ok:
  assumes "kv_abs (hash_table c) (key (demo_op CACHE_OP_PUT 9)) = Some (stored (demo_op CACHE_OP_PUT 9))"
    "oc = CACHE_OP_PUT \<or> oc = CACHE_OP_GET" "kv_abs (hash_table c) (key (demo_op oc 9)) = Some e"
  shows "sc_op_ok (val_len e) (demo_op oc 9)"
proof -
  have "kv_abs (hash_table c) (key (demo_op oc 9)) = Some (stored (demo_op CACHE_OP_PUT 9))"
    using assms(1) kv_abs_key_word[OF demo_word] by metis
  with assms(2,3) show ?thesis by (auto simp: sc_op_ok_def stored_def demo_op_def)
qed

theorem sc_batch_refines_map_witness:
  "\<exists>c. kv_wf (hash_table c) \<and> in_first_lap (hash_table c) \<and>
    map_sum id (\<lambda>(c', out). (kv_abs (hash_table c'), out))
      (cache_batch_op_sc 1 0 [(demo_op CACHE_OP_PUT 9, demo_resp)] c) =
    fold_res (abs_batch_step (sc_handler 1) skipped (kv_ptr (hash_table c)))
      [(demo_op CACHE_OP_PUT 9, demo_resp)] (kv_abs (hash_table c), [])"
proof -
  obtain c where c: "cache_ok c" by (rule demo_cache)
  with sc_batch_refines_map[of c "[(demo_op CACHE_OP_PUT 9, demo_resp)]" 1 0] show ?thesis
    by (auto simp: cache_ok_def CACHE_BATCH_SIZE_def)
qed

theorem sc_batch_returns_witness:
  "\<exists>c c' out. cache_ok c \<and> kv_abs (hash_table c) (key (demo_op CACHE_OP_PUT 9)) \<noteq> None \<and>
    cache_batch_op_sc 1 0 [(demo_op CACHE_OP_PUT 9, demo_resp), (demo_op CACHE_OP_GET 9, demo_resp)] c = Inr (c', out) \<and>
    cache_ok c'"
proof -
  obtain c where c: "cache_ok c"
    "kv_abs (hash_table c) (key (demo_op CACHE_OP_PUT 9)) = Some (stored (demo_op CACHE_OP_PUT 9))"
    by (rule demo_cache)
  let ?ops = "[(demo_op CACHE_OP_PUT 9, demo_resp), (demo_op CACHE_OP_GET 9, demo_resp)]"
  have "\<forall>(op, r)\<in>set ?ops. skipped r \<or>
       (\<forall>e. kv_abs (hash_table c) (key op) = Some e \<longrightarrow> sc_op_ok (val_len e) op)"
    using demo_sc_op_ok[OF c(2)] by simp
  from sc_batch_returns[OF c(1) _ this, of 1 0] c show ?thesis by (auto simp: CACHE_BATCH_SIZE_def)
qed

section \<open>Reading what was written\<close>

text \<open>Property C24: a write followed by a read of the same key, in one batch, answers the write
  with success and the read with an address in the log that holds, when the batch
  ends, exactly the bytes of the write; the write is given the next even version of
  the object, under the identity of the machine, and is marked for broadcast.\<close>

theorem sc_read_your_write:
  assumes "cache_ok c" "kv_abs (hash_table c) (key op) = Some e" "opcode op = CACHE_OP_PUT" "fits e op"
    "opcode g = CACHE_OP_GET" "key_word (key g) = key_word (key op)" "\<not> skipped r1" "\<not> skipped r2"
  shows "\<exists>c' op' r1' r2' a. cache_batch_op_sc i t [(op, r1), (g, r2)] c = Inr (c', [(op', r1'), (g, r2')]) \<and>
    rtype r1' = CACHE_PUT_SUCCESS \<and> rtype r2' = CACHE_GET_SUCCESS \<and>
    opcode op' = CACHE_OP_BRC \<and> version (op_meta op') = version (op_meta e) + 2 \<and> cid (op_meta op') = of_nat i \<and>
    val_ptr r2' = Some a \<and> rval_len r2' = val_len op \<and>
    mem_read (ht_log (hash_table c')) a (unat (val_len op)) = Inr (take (unat (val_len op)) (value op))"
proof -
  let ?kv = "hash_table c" and ?w = "sc_written i op e"
  from assms(1) have wf: "kv_wf ?kv" "in_first_lap ?kv" and e: "obj_ok e"
    using assms(2) by (auto simp: cache_ok_def)
  have len: "val_len op = val_len e" using assms(4) by (simp add: fits_def)
  have w: "val_len ?w = val_len e" "value ?w = take (unat (val_len e)) (value op)"
    by (simp_all add: sc_written_def)
  let ?loc = "value_addr (the (kv_ptr ?kv (key g)))"
  let ?op = "set_meta ((op_meta op)\<lparr>version := version (op_meta e) + 2, cid := of_nat i\<rparr>) (op\<lparr>opcode := CACHE_OP_BRC\<rparr>)"
  have put: "sc_handler i vp e op r =
    Inr (?w, ?op, r\<lparr>rval_len := 0, val_ptr := None, rtype := CACHE_PUT_SUCCESS\<rparr>)" for vp r
    using e assms(3,4) by (simp add: sc_handler_def sc_put_ok)
  have get: "sc_handler i vp ?w g r =
    Inr (?w, g, r\<lparr>rval_len := val_len e, val_ptr := Some vp, rtype := CACHE_GET_SUCCESS\<rparr>)" for vp r
    using assms(5) sc_get_ok[OF sc_written_ok[OF e assms(4)]] w(1) by (simp add: sc_handler_def)
  let ?out = "[(?op, r1\<lparr>rval_len := 0, val_ptr := None, rtype := CACHE_PUT_SUCCESS\<rparr>),
       (g, r2\<lparr>rval_len := val_len e, val_ptr := Some ?loc, rtype := CACHE_GET_SUCCESS\<rparr>)]"
  have "fold_res (abs_batch_step (sc_handler i) skipped (kv_ptr ?kv)) [(op, r1), (g, r2)] (kv_abs ?kv, []) =
    Inr (map_upd (key g) ?w (map_upd (key op) ?w (kv_abs ?kv)), ?out)"
    using assms(2,6,7,8) put get by (simp add: abs_batch_step_def map_upd_def)
  with sc.cache_batch_refines[OF wf, of "[(op, r1), (g, r2)]" i skipped] obtain kv' where
    kv': "cache_batch (sc_handler i) skipped ?kv [(op, r1), (g, r2)] = Inr (kv', ?out)"
      "kv_abs kv' = map_upd (key g) ?w (map_upd (key op) ?w (kv_abs ?kv))"
    by (cases "cache_batch (sc_handler i) skipped ?kv [(op, r1), (g, r2)]") (auto simp: CACHE_BATCH_SIZE_def)
  from sc.cache_batch_wf[OF wf kv'(1)] have wf': "kv_wf kv'" "in_first_lap kv'" "kv_ptr kv' = kv_ptr ?kv" by auto
  have "kv_abs kv' (key g) = Some ?w" by (simp add: kv'(2) map_upd_def)
  then obtain off where "kv_ptr kv' (key g) = Some off"
    "mem_read (ht_log kv') (value_addr off) (unat (val_len ?w)) = Inr (value ?w)"
    by (rule kv_abs_memory[OF wf'(1,2)])
  with kv'(1) w len wf'(3) show ?thesis by (simp add: cache_batch_op_sc_eq)
qed

theorem sc_read_your_write_witness:
  "\<exists>c c' op' r1' r2' a. cache_batch_op_sc 1 0
      [(demo_op CACHE_OP_PUT 9, demo_resp), (demo_op CACHE_OP_GET 9, demo_resp)] c = Inr (c', [(op', r1'), (demo_op CACHE_OP_GET 9, r2')]) \<and>
     val_ptr r2' = Some a \<and> mem_read (ht_log (hash_table c')) a 32 = Inr (replicate 32 7)"
proof -
  obtain c where c: "cache_ok c"
    "kv_abs (hash_table c) (key (demo_op CACHE_OP_PUT 9)) = Some (stored (demo_op CACHE_OP_PUT 9))"
    by (rule demo_cache)
  have "fits (stored (demo_op CACHE_OP_PUT 9)) (demo_op CACHE_OP_PUT 9)"
    by (simp add: fits_def stored_def demo_op_def)
  from sc_read_your_write[OF c _ this, of "demo_op CACHE_OP_GET 9" demo_resp demo_resp 1 0] demo_word
  show ?thesis by (simp add: demo_op_def demo_resp_def skipped_def) blast
qed

section \<open>Updates commute\<close>

text \<open>Property C25: the order and the multiplicity of updates do not matter.  Two sequences that
  hold the same updates, in any order and repeated or not, take an object to the same
  timestamp and the same value, the latest of all, provided that updates with one
  timestamp carry one value.\<close>

theorem sc_updates_commute:
  assumes "obj_ok e" "\<forall>m\<in>set ms. fits e m \<and> even (version (op_meta m))" "set ms' = set ms"
    "\<forall>m\<in>set ms. take (unat (val_len e)) (value m) = written (stamp_of (op_meta m))"
    "value e = written (stamp_of (op_meta e))"
  shows "\<exists>e1 e2. sc_upds ms e = Inr e1 \<and> sc_upds ms' e = Inr e2 \<and>
    stamp_of (op_meta e1) = stamp_of (op_meta e2) \<and> value e1 = value e2 \<and>
    stamp_of (op_meta e1) = Max (set (stamp_of (op_meta e) # map (\<lambda>m. stamp_of (op_meta m)) ms)) \<and>
    value e1 = written (stamp_of (op_meta e1))"
proof -
  let ?n = "val_len e"
  have fit: "\<forall>m\<in>set ms. val_len m = ?n \<and> unat ?n \<le> length (value m) \<and> even (version (op_meta m))"
    using assms(2) by (auto simp: fits_def)
  have ok: "obj_ok e \<and> val_len e = ?n" using assms(1) by simp
  have "sc_upds ms e = Inr (fold sc_applied ms e)" "sc_upds ms' e = Inr (fold sc_applied ms' e)"
    using sc_upds_fold[OF assms(1)] assms(2,3) by auto
  with sc_reg.order_irrelevant[OF ok fit assms(3,4,5)] sc_reg.apply_all[OF ok fit]
    sc_reg.content_of_latest[OF ok fit assms(4,5)]
  show ?thesis by simp
qed

text \<open>Two updates, of machines 2 and 3, that overtake each other.\<close>

definition demo_upd :: "u8 \<Rightarrow> u32 \<Rightarrow> cache_op" where
  "demo_upd c v = set_meta (demo_meta\<lparr>cid := c, version := v\<rparr>) ((demo_op CACHE_OP_UPD 9)\<lparr>value := replicate 46 c\<rparr>)"

theorem sc_updates_commute_witness:
  "\<exists>e1 e2. sc_upds [demo_upd 2 4, demo_upd 3 2] (stored (demo_op CACHE_OP_PUT 9)) = Inr e1 \<and>
     sc_upds [demo_upd 3 2, demo_upd 2 4, demo_upd 3 2] (stored (demo_op CACHE_OP_PUT 9)) = Inr e2 \<and>
     value e1 = value e2 \<and> value e1 = replicate 32 2"
proof -
  let ?e = "stored (demo_op CACHE_OP_PUT 9)" and ?ms = "[demo_upd 2 4, demo_upd 3 2]"
  let ?f = "\<lambda>t :: stamp. replicate 32 (if t = (0, 0) then 7 else if t = (4, 2) then 2 else 3 :: u8)"
  have "obj_ok ?e" by (simp add: obj_ok_def stored_def demo_op_def entry_wf_def meta_ok_def demo_meta_def)
  moreover have "\<forall>m\<in>set ?ms. fits ?e m \<and> even (version (op_meta m))"
    by (simp add: fits_def demo_upd_def stored_def demo_op_def set_meta_def)
  moreover have "\<forall>m\<in>set ?ms. take (unat (val_len ?e)) (value m) = ?f (stamp_of (op_meta m))"
    by (simp add: demo_upd_def stored_def demo_op_def stamp_of_def)
  moreover have "value ?e = ?f (stamp_of (op_meta ?e))"
    by (simp add: stored_def demo_op_def stamp_of_def demo_meta_def)
  moreover have "set [demo_upd 3 2, demo_upd 2 4, demo_upd 3 2] = set ?ms" by auto
  ultimately obtain e1 e2 where "sc_upds ?ms ?e = Inr e1" "sc_upds [demo_upd 3 2, demo_upd 2 4, demo_upd 3 2] ?e = Inr e2"
    "value e1 = value e2" "value e1 = ?f (stamp_of (op_meta e1))"
    "stamp_of (op_meta e1) = Max (set (stamp_of (op_meta ?e) # map (\<lambda>m. stamp_of (op_meta m)) ?ms))"
    using sc_updates_commute[of ?e ?ms _ ?f] by blast
  moreover have "Max (set (stamp_of (op_meta ?e) # map (\<lambda>m. stamp_of (op_meta m)) ?ms)) = (4, 2)"
    by (simp add: demo_upd_def stored_def demo_op_def stamp_of_def demo_meta_def max_def)
  ultimately show ?thesis by auto
qed

end
