(* ===== verification/SC_System_Correct.thy ===== *)
theory SC_System_Correct
  imports SC_System SC_Correct
begin

text \<open>
  The correctness of the sequentially consistent protocol: every history is
  sequentially consistent, replicas converge, timestamps never go back, and the
  updates in flight can always be delivered.
\<close>

section \<open>A run of two machines\<close>

text \<open>Machine 0 writes, the update reaches machine 1, machine 1 reads.\<close>

abbreviation demo_obj :: cache_op where
  "demo_obj \<equiv> stored (demo_op CACHE_OP_PUT 9)"

definition demo_write :: cache_op where
  "demo_write = (demo_op CACHE_OP_PUT 9)\<lparr>value := replicate 46 8\<rparr>"

lemma demo_obj_ok: "sc_object demo_obj"
  by (simp add: sc_object_def obj_ok_def stored_def demo_op_def entry_wf_def meta_ok_def demo_meta_def
      stamp_of_def HERD_VALUE_SIZE_eq)

lemma demo_run:
  obtains s1 s2 where "sc_reachable 2 demo_obj s1" "net s1 \<noteq> {#}" "sc_reachable 2 demo_obj s2" "net s2 = {#}"
    "hist s2 = [Wr 0 (2, 0) (replicate 32 8), Rd 1 (2, 0) (replicate 32 8)]" "(sc_step 2)\<^sup>*\<^sup>* s1 s2"
proof -
  let ?e = demo_obj and ?w = "sc_written 0 demo_write demo_obj" and ?r = demo_resp
  let ?op = "set_meta ((op_meta demo_write)\<lparr>version := version (op_meta ?e) + 2, cid := of_nat 0\<rparr>)
      (demo_write\<lparr>opcode := CACHE_OP_BRC\<rparr>)"
  let ?m = "upd_msg ?op"
  have e: "obj_ok ?e" "fits ?e demo_write" "opcode demo_write = CACHE_OP_PUT"
    using demo_obj_ok by (auto simp: sc_object_def fits_def demo_write_def demo_op_def stored_def)
  have st: "stamp_of (op_meta ?op) = (2, 0)" "stamp_of (op_meta ?e) = (0, 0)"
    by (simp_all add: stamp_of_def stored_def demo_op_def demo_meta_def)
  define s1 where "s1 = \<lparr>reps = (\<lambda>_. ?e)(0 := ?w), net = {#} + broadcast 2 0 ?m,
    hist = [] @ [Wr 0 (stamp_of (op_meta ?op)) (take (unat (val_len demo_write)) (value demo_write))]\<rparr>"
  have s1: "sc_step 2 (sc_start ?e) s1"
    unfolding s1_def
    using sc_write[of 0 2 demo_write "sc_start ?e" 0 ?r ?w ?op] e
    by (simp add: sc_start_def sc_handler_def sc_put_ok stored_def demo_op_def demo_meta_def)
  have net1: "net s1 = {#(1, ?m)#}" by (simp add: s1_def broadcast_def upt_rec)
  have r1: "sc_reachable 2 ?e s1" using s1 demo_obj_ok by (auto simp: sc_reachable_def)
  define s2 where "s2 = s1\<lparr>reps := (reps s1)(1 := sc_applied ?m (reps s1 1)), net := net s1 - {#(1, ?m)#}\<rparr>"
  have s2: "sc_step 2 s1 s2"
    unfolding s2_def by (rule deliver_enabled[OF sc_reachable_inv(1)[OF r1]]) (simp add: net1)
  have "sc_reachable 2 ?e s2"
    using r1 s2 by (auto simp: sc_reachable_def intro: rtranclp.rtrancl_into_rtrancl)
  from sc_reachable_inv(1)[OF this] have e2: "obj_ok (reps s2 1)" by (simp add: sc_inv_def reps_ok_def)
  define s3 where "s3 = s2\<lparr>reps := (reps s2)(1 := reps s2 1),
      hist := hist s2 @ [Rd 1 (stamp_of (op_meta (reps s2 1))) (value (reps s2 1))]\<rparr>"
  have s3: "sc_step 2 s2 s3"
    unfolding s3_def using sc_read[of 1 2 "demo_op CACHE_OP_GET 9" 0 s2 ?r "reps s2 1"] e2
    by (simp add: sc_handler_def sc_get_ok demo_op_def)
  have "reps s2 1 = sc_applied ?m ?e" by (simp add: s2_def s1_def)
  moreover have "stamp_of (op_meta ?m) = (2, 0)" using st by (simp add: upd_msg_def)
  moreover have "take (unat (val_len ?e)) (value ?m) = replicate 32 8"
    by (simp add: upd_msg_def demo_write_def stored_def demo_op_def HERD_VALUE_SIZE_eq)
  ultimately have "stamp_of (op_meta (reps s2 1)) = (2, 0)" "value (reps s2 1) = replicate 32 8"
    using st(2) by (simp_all add: sc_applied_stamp sc_applied_value max_def)
  then have "hist s3 = [Wr 0 (2, 0) (replicate 32 8), Rd 1 (2, 0) (replicate 32 8)]" "net s3 = {#}"
    using st(1) net1 by (simp_all add: s3_def s2_def s1_def demo_write_def demo_op_def)
  moreover have steps: "(sc_step 2)\<^sup>*\<^sup>* s1 s3" using s2 s3 by auto
  moreover have "sc_reachable 2 ?e s3" using r1 steps by (auto simp: sc_reachable_def)
  ultimately show ?thesis using r1 net1 by (intro that[of s1 s3]) auto
qed

section \<open>Properties\<close>

text \<open>Property C1: the protocol is sequentially consistent.  In every reachable state of a cluster of
  at most 256 machines, under any interleaving of reads, writes and deliveries and any
  reordering of the updates in flight, the reads and writes so far can be ordered into
  one sequence in which every read returns the last value written before it and the
  operations of each machine appear in the order in which it made them.\<close>

theorem sc_sequentially_consistent:
  assumes "sc_reachable N e s"
  shows "sequentially_consistent (value e) (hist s)"
  using sc_reachable_inv(1)[OF assms] by (intro sequentially_consistentI) (simp_all add: sc_inv_def)

theorem sc_sequentially_consistent_witness:
  "\<exists>s. sc_reachable 2 demo_obj s \<and> hist s = [Wr 0 (2, 0) (replicate 32 8), Rd 1 (2, 0) (replicate 32 8)] \<and>
     sequentially_consistent (value demo_obj) (hist s)"
proof -
  obtain s1 s2 where "sc_reachable 2 demo_obj s2"
    "hist s2 = [Wr 0 (2, 0) (replicate 32 8), Rd 1 (2, 0) (replicate 32 8)]" by (rule demo_run)
  with sc_sequentially_consistent[of 2 demo_obj s2] show ?thesis by blast
qed



text \<open>Property C34: the protocol can always come to rest.  From every reachable state, delivering the
  updates in flight leads, without any further read or write, to a state with none,
  and no delivery on the way aborts or spins.\<close>

theorem sc_can_quiesce:
  assumes "sc_reachable N e s"
  shows "\<exists>s'. (sc_step N)\<^sup>*\<^sup>* s s' \<and> net s' = {#} \<and> hist s' = hist s"
  using sc_reachable_inv[OF assms] by (intro can_quiesce)

theorem sc_can_quiesce_witness:
  "\<exists>s s'. sc_reachable 2 demo_obj s \<and> net s \<noteq> {#} \<and> (sc_step 2)\<^sup>*\<^sup>* s s' \<and> net s' = {#}"
proof -
  obtain s1 s2 where "sc_reachable 2 demo_obj s1" "net s1 \<noteq> {#}" by (rule demo_run)
  with sc_can_quiesce[of 2 demo_obj s1] show ?thesis by blast
qed

text \<open>Timestamps never go back.  Along every run the timestamp of every replica only
  grows, so that a machine that has read a write never again reads an earlier one.\<close>

theorem sc_replicas_monotone:
  assumes "sc_reachable N e s" "(sc_step N)\<^sup>*\<^sup>* s s'"
  shows "rstamp s i \<le> rstamp s' i"
  using sc_mono.ts_steps[OF assms(2)] sc_reachable_inv[OF assms(1)] by blast

theorem sc_replicas_monotone_witness:
  "\<exists>s s'. sc_reachable 2 demo_obj s \<and> (sc_step 2)\<^sup>*\<^sup>* s s' \<and> s \<noteq> s' \<and> rstamp s 1 \<le> rstamp s' 1"
proof -
  obtain s1 s2 where "sc_reachable 2 demo_obj s1" "net s1 \<noteq> {#}" "net s2 = {#}" "(sc_step 2)\<^sup>*\<^sup>* s1 s2"
    by (rule demo_run)
  with sc_replicas_monotone[of 2 demo_obj s1 s2 1] show ?thesis by auto
qed

end
