(* ===== verification/LIN.thy ===== *)
theory LIN
  imports SC
begin

text \<open>
  The linearizable cache (\<open>cache_batch_op_lin_non_stalling_sessions\<close> and its variants
  for incoming messages, \<open>cache.c\<close>).  An object is in one of five states.  A write puts it
  into \<open>WRITE_STATE\<close> and broadcasts an invalidation; a machine that receives an
  invalidation with a later timestamp invalidates its replica and acknowledges; the
  last acknowledgement makes the writer valid again and broadcasts the update, which
  revalidates the other replicas.  Reads of an object that is not valid stall, and leave a
  mark (the two \<open>REPLAY\<close> states).
\<close>

section \<open>Handlers\<close>

subsection \<open>Reads\<close>

text \<open>The switch of a read under the lock, and the round of the loop around it.\<close>

definition lin_get_locked :: "nat \<Rightarrow> cache_op \<Rightarrow> cache_meta \<Rightarrow> mica_resp \<Rightarrow> (cache_meta \<times> mica_resp) result" where
  "lin_get_locked vp e m r =
    (if state m = VALID_STATE then
       Inr (m, r\<lparr>val_ptr := Some vp, rval_len := val_len e, rtype := CACHE_GET_SUCCESS\<rparr>)
     else if state m = INVALID_REPLAY_STATE \<or> state m = WRITE_REPLAY_STATE then
       Inr (m, r\<lparr>rtype := CACHE_GET_STALL\<rparr>)
     else if state m = INVALID_STATE then
       Inr (m\<lparr>state := INVALID_REPLAY_STATE\<rparr>, r\<lparr>rtype := CACHE_GET_STALL\<rparr>)
     else if state m = WRITE_STATE then
       Inr (m\<lparr>state := WRITE_REPLAY_STATE\<rparr>, r\<lparr>rtype := CACHE_GET_STALL\<rparr>)
     else Inl Assert_Failed)"

definition lin_get :: handler where
  "lin_get vp e op r =
    bind_res
      (let prev_meta = op_meta e in
       if state (op_meta e) = VALID_STATE then
         (if optik_is_same_version_and_valid prev_meta (op_meta e)
          then Inr (e, r\<lparr>val_ptr := Some vp, rval_len := val_len e, rtype := CACHE_GET_SUCCESS\<rparr>)
          else Inl Spins)
       else if state (op_meta e) = INVALID_REPLAY_STATE \<or> state (op_meta e) = WRITE_REPLAY_STATE then
         (if optik_is_same_version_and_valid prev_meta (op_meta e)
          then Inr (e, r\<lparr>rtype := CACHE_GET_STALL\<rparr>)
          else Inl Spins)
       else
         bind_res (optik_lock (op_meta e)) (\<lambda>m.
         bind_res (lin_get_locked vp e m r) (\<lambda>(m, r).
         bind_res (optik_unlock_decrement_version m) (\<lambda>m.
         Inr (set_meta m e, r)))))
      (\<lambda>(e, r). Inr (e, set_meta ((op_meta op)\<lparr>state := state (op_meta e)\<rparr>) op, r))"

subsection \<open>Writes\<close>

definition lin_store :: "cache_meta \<Rightarrow> cache_op \<Rightarrow> cache_op \<Rightarrow> mica_resp \<Rightarrow>
    (cache_op \<times> cache_op \<times> mica_resp) result" where
  "lin_store m e op r =
    bind_res (copy_value (unat (val_len e)) (value op) (value e)) (\<lambda>v.
    let (m, ver) = optik_unlock_write (m\<lparr>pending_acks := of_nat (MACHINE_NUM - 1)\<rparr>) (cid (op_meta op))
    in Inr (set_meta m (e\<lparr>value := v\<rparr>), set_meta ((op_meta op)\<lparr>version := ver\<rparr>) op,
            r\<lparr>rtype := CACHE_PUT_SUCCESS\<rparr>))"

definition lin_refuse :: "u8 \<Rightarrow> cache_meta \<Rightarrow> cache_op \<Rightarrow> cache_op \<Rightarrow> mica_resp \<Rightarrow>
    (cache_op \<times> cache_op \<times> mica_resp) result" where
  "lin_refuse t m e op r =
    bind_res (optik_unlock_decrement_version m) (\<lambda>m. Inr (set_meta m e, op, r\<lparr>rtype := t\<rparr>))"

definition lin_put :: "nat \<Rightarrow> handler" where
  "lin_put machine_id vp e op r =
    assert_res (val_len op = val_len e)
    (bind_res (optik_lock (op_meta e)) (\<lambda>m.
     bind_res
      (if state m = VALID_STATE \<or> state m = INVALID_STATE then
         lin_store (m\<lparr>state := WRITE_STATE\<rparr>) e op r
       else if state m = WRITE_STATE then
         (if cid (op_meta op) \<ge> cid m then lin_store m e op r
          else lin_refuse CACHE_PUT_FAIL m e op r)
       else if state m = INVALID_REPLAY_STATE then lin_refuse CACHE_PUT_STALL m e op r
       else if state m = WRITE_REPLAY_STATE then
         (if cid (op_meta op) > cid m then lin_store m e op r
          else if cid (op_meta op) = cid m then lin_refuse CACHE_PUT_STALL m e op r
          else lin_refuse CACHE_PUT_FAIL m e op r)
       else Inl Assert_Failed)
      (\<lambda>(e, op, r).
         if rtype r = CACHE_PUT_SUCCESS then
           Inr (e, set_meta ((op_meta op)\<lparr>cid := of_nat machine_id\<rparr>) (op\<lparr>opcode := CACHE_OP_BRC\<rparr>),
                r\<lparr>rval_len := 0, val_ptr := None\<rparr>)
         else Inr (e, op, r))))"

subsection \<open>Incoming messages\<close>

definition lin_upd :: handler where
  "lin_upd vp e op r =
    assert_res (val_len op = val_len e)
    (bind_res (optik_lock (op_meta e)) (\<lambda>m.
     if optik_is_same_version_plus_one m (op_meta op) \<and>
        (state m = INVALID_STATE \<or> state m = INVALID_REPLAY_STATE) then
       bind_res (copy_value (unat (val_len e)) (value op) (value e)) (\<lambda>v.
       bind_res (optik_unlock (m\<lparr>state := VALID_STATE\<rparr>) (cid (op_meta op)) (version (op_meta op))) (\<lambda>m.
       Inr (set_meta m (e\<lparr>value := v\<rparr>), op, r\<lparr>rtype := CACHE_UPD_SUCCESS\<rparr>)))
     else lin_refuse CACHE_UPD_FAIL m e op r))"

text \<open>An invalidation that is later than the object takes the object to the state \<open>st\<close>.\<close>

definition lin_invalidate :: "bool \<Rightarrow> u8 \<Rightarrow> cache_meta \<Rightarrow> cache_op \<Rightarrow> cache_op \<Rightarrow> mica_resp \<Rightarrow>
    (cache_op \<times> cache_op \<times> mica_resp) result" where
  "lin_invalidate later st m e op r =
    (if later then
       bind_res (optik_unlock (m\<lparr>state := st\<rparr>) (cid (op_meta op)) (version (op_meta op))) (\<lambda>m.
       Inr (set_meta m e, op, r\<lparr>rtype := CACHE_INV_SUCCESS\<rparr>))
     else lin_refuse CACHE_INV_FAIL m e op r)"

definition lin_inv :: "nat \<Rightarrow> handler" where
  "lin_inv machine_id vp e op r =
    bind_res (optik_lock (op_meta e)) (\<lambda>m.
    bind_res
     (if state m = VALID_STATE \<or> state m = INVALID_STATE then
        lin_invalidate (optik_is_greater_version m (op_meta op)) INVALID_STATE m e op r
      else if state m = WRITE_STATE then
        lin_invalidate (optik_is_greater_version_session m (op_meta op) machine_id) INVALID_STATE m e op r
      else if state m = INVALID_REPLAY_STATE then
        lin_invalidate (optik_is_greater_version m (op_meta op)) INVALID_REPLAY_STATE m e op r
      else if state m = WRITE_REPLAY_STATE then
        lin_invalidate (optik_is_greater_version_session m (op_meta op) machine_id) INVALID_REPLAY_STATE m e op r
      else Inl Assert_Failed)
     (\<lambda>(e, op, r). Inr (e, op\<lparr>opcode := CACHE_OP_ACK\<rparr>, r)))"

definition lin_ack :: "nat \<Rightarrow> handler" where
  "lin_ack machine_id vp e op r =
    (let m_id = cid (op_meta op);
         op = set_meta ((op_meta op)\<lparr>cid := of_nat machine_id\<rparr>) op
     in bind_res (optik_lock (op_meta e)) (\<lambda>m.
        bind_res
         (if (state m = WRITE_STATE \<or> state m = WRITE_REPLAY_STATE) \<and>
             version m = version (op_meta op) + 1 then
            (let (m, r) =
               (if pending_acks m = 1
                then (m\<lparr>state := VALID_STATE, cid := of_nat machine_id, pending_acks := 0\<rparr>,
                      r\<lparr>rtype := CACHE_LAST_ACK_SUCCESS\<rparr>)
                else (m\<lparr>pending_acks := pending_acks m - 1\<rparr>, r\<lparr>rtype := CACHE_ACK_SUCCESS\<rparr>))
             in bind_res (optik_unlock_decrement_version m) (\<lambda>m. Inr (set_meta m e, op, r)))
          else lin_refuse CACHE_ACK_FAIL m e op r)
         (\<lambda>(e, op, r). Inr (e, set_meta ((op_meta op)\<lparr>cid := m_id\<rparr>) op, r))))"

subsection \<open>Dispatch\<close>

definition lin_handler :: "nat \<Rightarrow> handler" where
  "lin_handler machine_id vp e op r =
    (if opcode op = CACHE_OP_GET then lin_get vp e op r
     else if opcode op = CACHE_OP_PUT then lin_put machine_id vp e op r
     else if opcode op = CACHE_OP_UPD then lin_upd vp e op r
     else if opcode op = CACHE_OP_INV then lin_inv machine_id vp e op r
     else if opcode op = CACHE_OP_ACK then lin_ack machine_id vp e op r
     else if opcode op = CACHE_OP_BRC then Inr (e, op, r)
     else Inl Assert_Failed)"

definition lin_upd_ack_handler :: "nat \<Rightarrow> handler" where
  "lin_upd_ack_handler machine_id vp e op r =
    (if opcode op = CACHE_OP_UPD then lin_upd vp e op r
     else if opcode op = CACHE_OP_ACK then lin_ack machine_id vp e op r
     else if opcode op = CACHE_OP_BRC then Inr (e, op, r)
     else Inl Assert_Failed)"

definition lin_inv_handler :: "nat \<Rightarrow> handler" where
  "lin_inv_handler machine_id vp e op r =
    (if opcode op = CACHE_OP_INV then lin_inv machine_id vp e op r else Inl Assert_Failed)"

section \<open>Batches\<close>

definition cache_batch_op_lin_non_stalling_sessions :: "nat \<Rightarrow> nat \<Rightarrow> (cache_op \<times> mica_resp) list \<Rightarrow> cache \<Rightarrow>
    (cache \<times> (cache_op \<times> mica_resp) list) result" where
  "cache_batch_op_lin_non_stalling_sessions machine_id thread_id ops c =
    (let c = c\<lparr>protocol := LINEARIZABILITY\<rparr>;
         brcs = stalled_brces lin_skipped (hash_table c) ops
     in bind_res (cache_batch (lin_handler machine_id) lin_skipped (hash_table c) ops) (\<lambda>(kv, out).
        let c = c\<lparr>hash_table := kv\<rparr>
        in if ENABLE_CACHE_STATS = 1
           then bind_res (update_cache_stats thread_id out brcs c) (\<lambda>c. Inr (c, out))
           else Inr (c, out)))"

definition cache_batch_op_lin_with_cache_op :: "nat \<Rightarrow> (cache_op \<times> mica_resp) list \<Rightarrow> cache \<Rightarrow>
    (cache \<times> (cache_op \<times> mica_resp) list) result" where
  "cache_batch_op_lin_with_cache_op machine_id ops c =
    (let c = c\<lparr>protocol := LINEARIZABILITY\<rparr>
     in bind_res (cache_batch (lin_upd_ack_handler machine_id) lin_skipped (hash_table c) ops) (\<lambda>(kv, out).
        Inr (c\<lparr>hash_table := kv\<rparr>, out)))"

definition cache_batch_op_lin_with_small_cache_op :: "nat \<Rightarrow> (cache_op \<times> mica_resp) list \<Rightarrow> cache \<Rightarrow>
    (cache \<times> (cache_op \<times> mica_resp) list) result" where
  "cache_batch_op_lin_with_small_cache_op machine_id ops c =
    (let c = c\<lparr>protocol := LINEARIZABILITY\<rparr>
     in bind_res (cache_batch (lin_inv_handler machine_id) lin_skipped (hash_table c) ops) (\<lambda>(kv, out).
        Inr (c\<lparr>hash_table := kv\<rparr>, out)))"

end
