(* ===== verification/LIN_Spec.thy ===== *)
theory LIN_Spec
  imports LIN
begin

text \<open>
  What the handlers of the linearizable cache compute on an unlocked object in one of
  the five states: closed forms without the lock, from which the properties of batches
  and of the protocol are proved.
\<close>

section \<open>Objects\<close>

definition writing :: "cache_meta \<Rightarrow> bool" where
  "writing m \<longleftrightarrow> state m = WRITE_STATE \<or> state m = WRITE_REPLAY_STATE"

definition replaying :: "cache_meta \<Rightarrow> bool" where
  "replaying m \<longleftrightarrow> state m = INVALID_REPLAY_STATE \<or> state m = WRITE_REPLAY_STATE"

definition invalid :: "cache_meta \<Rightarrow> bool" where
  "invalid m \<longleftrightarrow> state m = INVALID_STATE \<or> state m = INVALID_REPLAY_STATE"

definition lin_obj :: "cache_op \<Rightarrow> bool" where
  "lin_obj e \<longleftrightarrow> obj_ok e \<and> (state (op_meta e) = VALID_STATE \<or> invalid (op_meta e) \<or> writing (op_meta e))"

text \<open>The timestamp of a replica.  While a machine writes, the \<open>cid\<close> field holds the
  session of the write and the writer is the machine itself.\<close>

definition eff :: "nat \<Rightarrow> cache_meta \<Rightarrow> stamp" where
  "eff machine_id m = (unat (version m), if writing m then machine_id else unat (cid m))"

lemma lin_states:
  assumes "lin_obj e"
  obtains (valid) "state (op_meta e) = VALID_STATE" | (inv) "state (op_meta e) = INVALID_STATE"
  | (inv_replay) "state (op_meta e) = INVALID_REPLAY_STATE" | (wr) "state (op_meta e) = WRITE_STATE"
  | (wr_replay) "state (op_meta e) = WRITE_REPLAY_STATE"
  using assms by (auto simp: lin_obj_def invalid_def writing_def)

lemma unlock_after_lock:
  assumes "meta_ok m"
  shows "optik_unlock_decrement_version (m\<lparr>lock := OPTIK_LOCKED, version := version m + 1\<rparr>) = Inr m"
  using assms by (simp add: optik_release meta_ok_def)

lemma unlock_after_lock_state:
  assumes "meta_ok m"
  shows "optik_unlock_decrement_version (m\<lparr>lock := OPTIK_LOCKED, version := version m + 1, state := x\<rparr>) =
    Inr (m\<lparr>state := x\<rparr>)"
  using assms by (simp add: optik_release meta_ok_def)

lemma lin_refuse_ok:
  assumes "meta_ok (op_meta e)"
  shows "lin_refuse t ((op_meta e)\<lparr>lock := OPTIK_LOCKED, version := version (op_meta e) + 1\<rparr>) e op r =
    Inr (e, op, r\<lparr>rtype := t\<rparr>)"
  using assms by (simp add: lin_refuse_def unlock_after_lock)

section \<open>Reads\<close>

definition marked :: "cache_op \<Rightarrow> cache_op" where
  "marked e = set_meta ((op_meta e)\<lparr>state :=
     (if state (op_meta e) = INVALID_STATE then INVALID_REPLAY_STATE
      else if state (op_meta e) = WRITE_STATE then WRITE_REPLAY_STATE else state (op_meta e))\<rparr>) e"

lemma set_state_same: "state (op_meta e) = x \<Longrightarrow> set_meta ((op_meta e)\<lparr>state := x\<rparr>) e = e"
  by (auto simp: set_meta_def)

lemma lin_get_ok:
  assumes "lin_obj e"
  shows "lin_get vp e op r = Inr (marked e, set_meta ((op_meta op)\<lparr>state := state (op_meta (marked e))\<rparr>) op,
    (if state (op_meta e) = VALID_STATE
     then r\<lparr>val_ptr := Some vp, rval_len := val_len e, rtype := CACHE_GET_SUCCESS\<rparr>
     else r\<lparr>rtype := CACHE_GET_STALL\<rparr>))"
proof -
  have m: "meta_ok (op_meta e)" using assms by (simp add: lin_obj_def obj_ok_def)
  from assms show ?thesis
    by (cases rule: lin_states)
       (simp_all add: lin_get_def lin_get_locked_def m unlock_after_lock_state marked_def set_state_same Let_def)
qed

section \<open>Writes\<close>

definition put_accepts :: "cache_op \<Rightarrow> cache_op \<Rightarrow> bool" where
  "put_accepts op e \<longleftrightarrow> state (op_meta e) = VALID_STATE \<or> state (op_meta e) = INVALID_STATE \<or>
     state (op_meta e) = WRITE_STATE \<and> cid (op_meta e) \<le> cid (op_meta op) \<or>
     state (op_meta e) = WRITE_REPLAY_STATE \<and> cid (op_meta e) < cid (op_meta op)"

definition lin_written :: "cache_op \<Rightarrow> cache_op \<Rightarrow> cache_op" where
  "lin_written op e = set_meta ((op_meta e)\<lparr>
       state := (if writing (op_meta e) then state (op_meta e) else WRITE_STATE),
       pending_acks := of_nat (MACHINE_NUM - 1), cid := cid (op_meta op), version := version (op_meta e) + 2\<rparr>)
     (e\<lparr>value := take (unat (val_len e)) (value op)\<rparr>)"

definition put_refusal :: "cache_op \<Rightarrow> cache_op \<Rightarrow> u8" where
  "put_refusal op e =
    (if state (op_meta e) = INVALID_REPLAY_STATE \<or>
        state (op_meta e) = WRITE_REPLAY_STATE \<and> cid (op_meta op) = cid (op_meta e)
     then CACHE_PUT_STALL else CACHE_PUT_FAIL)"

lemma lin_store_ok:
  assumes "obj_ok e" "fits e op" "version m = version (op_meta e) + 1"
  shows "lin_store m e op r = Inr (set_meta (m\<lparr>pending_acks := of_nat (MACHINE_NUM - 1), cid := cid (op_meta op),
        version := version (op_meta e) + 2, lock := OPTIK_FREE\<rparr>) (e\<lparr>value := take (unat (val_len e)) (value op)\<rparr>),
     set_meta ((op_meta op)\<lparr>version := version (op_meta e) + 2\<rparr>) op, r\<lparr>rtype := CACHE_PUT_SUCCESS\<rparr>)"
  using assms by (simp add: lin_store_def copy_value_fits obj_ok_def optik_unlock_write_eq add.commute)

lemma lin_put_ok:
  assumes "lin_obj e" "fits e op"
  shows "lin_put i vp e op r =
    (if put_accepts op e
     then Inr (lin_written op e,
       set_meta ((op_meta op)\<lparr>version := version (op_meta e) + 2, cid := of_nat i\<rparr>) (op\<lparr>opcode := CACHE_OP_BRC\<rparr>),
       r\<lparr>rval_len := 0, val_ptr := None, rtype := CACHE_PUT_SUCCESS\<rparr>)
     else Inr (e, op, r\<lparr>rtype := put_refusal op e\<rparr>))"
proof -
  have ok: "obj_ok e" "meta_ok (op_meta e)" "lock (op_meta e) = 0" "val_len op = val_len e"
    using assms by (auto simp: lin_obj_def obj_ok_def meta_ok_def fits_def)
  note defs = lin_put_def put_accepts_def lin_written_def put_refusal_def writing_def
    lin_store_ok[OF ok(1) assms(2)] lin_refuse_ok set_meta_def
  from assms(1) show ?thesis
  proof (cases rule: lin_states)
    case wr
    with ok show ?thesis by (auto simp: defs)
  next
    case wr_replay
    with ok show ?thesis by (auto simp: defs)
  qed (use ok in \<open>simp_all add: defs\<close>)
qed

section \<open>Messages\<close>

definition upd_matches :: "cache_op \<Rightarrow> cache_op \<Rightarrow> bool" where
  "upd_matches m e \<longleftrightarrow> stamp_of (op_meta m) = stamp_of (op_meta e) \<and> invalid (op_meta e)"

definition lin_updated :: "cache_op \<Rightarrow> cache_op \<Rightarrow> cache_op" where
  "lin_updated m e = (if upd_matches m e
     then set_meta ((op_meta e)\<lparr>state := VALID_STATE\<rparr>) (e\<lparr>value := take (unat (val_len e)) (value m)\<rparr>) else e)"

lemma stamp_of_eqD: "stamp_of m = stamp_of m' \<Longrightarrow> version m = version m' \<and> cid m = cid m'"
  by (simp add: stamp_of_def word_unat_eq_iff)

lemma lin_upd_ok:
  assumes "lin_obj e" "fits e m"
  shows "lin_upd vp e m r = Inr (lin_updated m e, m,
    r\<lparr>rtype := (if upd_matches m e then CACHE_UPD_SUCCESS else CACHE_UPD_FAIL)\<rparr>)"
proof -
  have ok: "obj_ok e" "meta_ok (op_meta e)" "lock (op_meta e) = 0" "val_len m = val_len e" "even (version (op_meta e))"
    "entry_wf e"
    using assms by (auto simp: lin_obj_def obj_ok_def meta_ok_def fits_def)
  show ?thesis
  proof (cases "upd_matches m e")
    case True
    then have st: "version (op_meta m) = version (op_meta e)" "cid (op_meta m) = cid (op_meta e)" "invalid (op_meta e)"
      by (auto simp: upd_matches_def dest: stamp_of_eqD)
    from True have "stamp_of (op_meta e) = stamp_of (op_meta m)" by (simp add: upd_matches_def)
    with True st ok assms(2) show ?thesis
      by (auto simp: lin_upd_def optik_is_same_version_plus_one_locked invalid_def copy_value_fits
          optik_release lin_updated_def set_meta_def)
  next
    case False
    then have "\<not> (stamp_of (op_meta e) = stamp_of (op_meta m) \<and> (state (op_meta e) = INVALID_STATE \<or>
        state (op_meta e) = INVALID_REPLAY_STATE))"
      by (auto simp: upd_matches_def invalid_def)
    with False ok show ?thesis
      by (auto simp: lin_upd_def optik_is_same_version_plus_one_locked lin_refuse_ok lin_updated_def)
  qed
qed

definition lin_invalidated :: "nat \<Rightarrow> cache_op \<Rightarrow> cache_op \<Rightarrow> cache_op" where
  "lin_invalidated i m e =
    (if eff i (op_meta e) < stamp_of (op_meta m)
     then set_meta ((op_meta e)\<lparr>state := (if replaying (op_meta e) then INVALID_REPLAY_STATE else INVALID_STATE),
            cid := cid (op_meta m), version := version (op_meta m)\<rparr>) e
     else e)"

lemma lin_invalidate_ok:
  assumes "obj_ok e" "even (version (op_meta m))"
  shows "lin_invalidate b st ((op_meta e)\<lparr>lock := OPTIK_LOCKED, version := version (op_meta e) + 1\<rparr>) e m r =
    Inr (if b then set_meta ((op_meta e)\<lparr>state := st, cid := cid (op_meta m), version := version (op_meta m)\<rparr>) e else e,
      m, r\<lparr>rtype := (if b then CACHE_INV_SUCCESS else CACHE_INV_FAIL)\<rparr>)"
  using assms by (simp add: lin_invalidate_def optik_release lin_refuse_ok obj_ok_def meta_ok_def set_meta_def)

lemma lin_inv_ok:
  assumes "lin_obj e" "even (version (op_meta m))"
  shows "lin_inv i vp e m r = Inr (lin_invalidated i m e, m\<lparr>opcode := CACHE_OP_ACK\<rparr>,
    r\<lparr>rtype := (if eff i (op_meta e) < stamp_of (op_meta m) then CACHE_INV_SUCCESS else CACHE_INV_FAIL)\<rparr>)"
proof -
  have ok: "obj_ok e" "meta_ok (op_meta e)" using assms by (auto simp: lin_obj_def obj_ok_def)
  note defs = lin_inv_def lin_invalidate_ok[OF ok(1) assms(2)] lin_invalidated_def eff_def writing_def replaying_def
    optik_is_greater_version_locked[OF ok(2) assms(2)] optik_is_greater_version_session_locked[OF ok(2) assms(2)]
  have st: "stamp_of (op_meta e) = (unat (version (op_meta e)), unat (cid (op_meta e)))" by (simp add: stamp_of_def)
  from assms(1) show ?thesis by (cases rule: lin_states) (simp_all add: defs st ok)
qed

definition ack_counts :: "cache_op \<Rightarrow> cache_op \<Rightarrow> bool" where
  "ack_counts m e \<longleftrightarrow> writing (op_meta e) \<and> version (op_meta m) = version (op_meta e)"

definition last_ack :: "cache_op \<Rightarrow> bool" where
  "last_ack e \<longleftrightarrow> pending_acks (op_meta e) = 1"

definition lin_acked :: "nat \<Rightarrow> cache_op \<Rightarrow> cache_op \<Rightarrow> cache_op" where
  "lin_acked i m e =
    (if ack_counts m e
     then set_meta (if last_ack e then (op_meta e)\<lparr>state := VALID_STATE, cid := of_nat i, pending_acks := 0\<rparr>
            else (op_meta e)\<lparr>pending_acks := pending_acks (op_meta e) - 1\<rparr>) e
     else e)"

lemma lin_ack_ok:
  assumes "lin_obj e"
  shows "lin_ack i vp e m r = Inr (lin_acked i m e, m,
    r\<lparr>rtype := (if ack_counts m e then if last_ack e then CACHE_LAST_ACK_SUCCESS else CACHE_ACK_SUCCESS
               else CACHE_ACK_FAIL)\<rparr>)"
proof -
  have ok: "meta_ok (op_meta e)" "lock (op_meta e) = 0" "even (version (op_meta e))"
    using assms by (auto simp: lin_obj_def obj_ok_def meta_ok_def)
  show ?thesis
  proof (cases "ack_counts m e")
    case True
    then have "version (op_meta m) = version (op_meta e)" "state (op_meta e) = WRITE_STATE \<or> state (op_meta e) = WRITE_REPLAY_STATE"
      by (auto simp: ack_counts_def writing_def)
    with True ok show ?thesis
      by (auto simp: lin_ack_def Let_def optik_release lin_acked_def last_ack_def set_meta_def)
  next
    case False
    then have "\<not> ((state (op_meta e) = WRITE_STATE \<or> state (op_meta e) = WRITE_REPLAY_STATE) \<and>
        version (op_meta e) = version (op_meta m))" by (auto simp: ack_counts_def writing_def)
    with False ok show ?thesis
      by (auto simp: lin_ack_def Let_def lin_refuse_ok lin_acked_def set_meta_def)
  qed
qed

section \<open>Timestamps\<close>

lemma eff_marked [simp]: "eff i (op_meta (marked e)) = eff i (op_meta e)"
  by (auto simp: marked_def eff_def writing_def)

lemma eff_written:
  assumes "unat (version (op_meta e)) + 2 < 2 ^ 32"
  shows "eff i (op_meta (lin_written op e)) = (unat (version (op_meta e)) + 2, i)"
proof -
  have "unat (version (op_meta e) + 2) = unat (version (op_meta e)) + 2"
    using assms by (subst unat_add_small) simp_all
  then show ?thesis by (simp add: lin_written_def eff_def writing_def)
qed

lemma eff_updated [simp]: "eff i (op_meta (lin_updated m e)) = eff i (op_meta e)"
  by (auto simp: lin_updated_def eff_def upd_matches_def invalid_def writing_def)

lemma eff_invalidated: "eff i (op_meta (lin_invalidated i m e)) = max (eff i (op_meta e)) (stamp_of (op_meta m))"
  by (auto simp: lin_invalidated_def eff_def writing_def stamp_of_def max_def)

lemma eff_acked: "i < 256 \<Longrightarrow> eff i (op_meta (lin_acked i m e)) = eff i (op_meta e)"
  by (auto simp: lin_acked_def eff_def ack_counts_def writing_def unat_of_nat)

end
