(* ===== verification/LIN_Correct.thy ===== *)
theory LIN_Correct
  imports LIN_Spec SC_Correct
begin

text \<open>
  The correctness properties of the linearizable cache as one machine runs it: the three
  batch functions compute on the map of objects, they never abort or spin on well-formed
  operations and keep every object in one of the five states, and the two functions for
  incoming messages agree with the general one.
\<close>

section \<open>The handlers as entry handlers\<close>

definition keeps_entry :: "cache_op \<Rightarrow> cache_op \<Rightarrow> bool" where
  "keeps_entry e e' \<longleftrightarrow> key_word (key e') = key_word (key e) \<and> val_len e' = val_len e \<and> entry_wf e'"

lemma lin_get_keeps: "entry_wf e \<Longrightarrow> lin_get vp e op r = Inr (e', op', r') \<Longrightarrow> keeps_entry e e'"
  by (auto simp: lin_get_def lin_get_locked_def keeps_entry_def res_simps Let_def split: if_splits)

lemma lin_store_keeps: "entry_wf e \<Longrightarrow> lin_store m e op r = Inr (e', op', r') \<Longrightarrow> keeps_entry e e'"
  by (auto simp: lin_store_def keeps_entry_def res_simps Let_def optik_unlock_write_eq intro: copied_wf)

lemma lin_refuse_keeps: "entry_wf e \<Longrightarrow> lin_refuse t m e op r = Inr (e', op', r') \<Longrightarrow> keeps_entry e e'"
  by (auto simp: lin_refuse_def keeps_entry_def res_simps)

lemma lin_put_keeps: "entry_wf e \<Longrightarrow> lin_put i vp e op r = Inr (e', op', r') \<Longrightarrow> keeps_entry e e'"
  by (auto simp: lin_put_def res_simps dest: lin_store_keeps lin_refuse_keeps split: if_splits)

lemma lin_upd_keeps: "entry_wf e \<Longrightarrow> lin_upd vp e op r = Inr (e', op', r') \<Longrightarrow> keeps_entry e e'"
  by (auto simp: lin_upd_def res_simps keeps_entry_def intro: copied_wf
      dest: lin_refuse_keeps[unfolded keeps_entry_def] split: if_splits)

lemma lin_invalidate_keeps:
  "entry_wf e \<Longrightarrow> lin_invalidate b st m e op r = Inr (e', op', r') \<Longrightarrow> keeps_entry e e'"
  by (auto simp: lin_invalidate_def res_simps keeps_entry_def
      dest: lin_refuse_keeps[unfolded keeps_entry_def] split: if_splits)

lemma lin_inv_keeps: "entry_wf e \<Longrightarrow> lin_inv i vp e op r = Inr (e', op', r') \<Longrightarrow> keeps_entry e e'"
  by (auto simp: lin_inv_def res_simps dest: lin_invalidate_keeps split: if_splits)

lemma lin_ack_keeps: "entry_wf e \<Longrightarrow> lin_ack i vp e op r = Inr (e', op', r') \<Longrightarrow> keeps_entry e e'"
  by (auto simp: lin_ack_def res_simps Let_def keeps_entry_def
      dest: lin_refuse_keeps[unfolded keeps_entry_def] split: if_splits)

lemmas lin_keeps = lin_get_keeps lin_put_keeps lin_upd_keeps lin_inv_keeps lin_ack_keeps

interpretation lin: entry_handler "lin_handler i" for i
  by unfold_locales (auto simp: lin_handler_def dest: lin_keeps simp flip: keeps_entry_def split: if_splits;
    simp add: keeps_entry_def)

interpretation lin_in: entry_handler "lin_upd_ack_handler i" for i
  by unfold_locales (auto simp: lin_upd_ack_handler_def dest: lin_keeps simp flip: keeps_entry_def split: if_splits;
    simp add: keeps_entry_def)

interpretation lin_inv_in: entry_handler "lin_inv_handler i" for i
  by unfold_locales (auto simp: lin_inv_handler_def dest: lin_keeps simp flip: keeps_entry_def split: if_splits)

section \<open>Objects stay well formed\<close>

lemma marked_obj: "lin_obj e \<Longrightarrow> lin_obj (marked e)"
  by (auto simp: lin_obj_def marked_def obj_ok_def meta_ok_def invalid_def writing_def)

lemma lin_written_obj: "lin_obj e \<Longrightarrow> fits e op \<Longrightarrow> lin_obj (lin_written op e)"
  by (auto simp: lin_obj_def lin_written_def obj_ok_def meta_ok_def invalid_def writing_def entry_wf_def fits_def)

lemma lin_updated_obj: "lin_obj e \<Longrightarrow> fits e m \<Longrightarrow> lin_obj (lin_updated m e)"
  by (auto simp: lin_obj_def lin_updated_def obj_ok_def meta_ok_def entry_wf_def fits_def)

lemma lin_invalidated_obj: "lin_obj e \<Longrightarrow> even (version (op_meta m)) \<Longrightarrow> lin_obj (lin_invalidated i m e)"
  by (auto simp: lin_obj_def lin_invalidated_def obj_ok_def meta_ok_def invalid_def)

lemma lin_acked_obj: "lin_obj e \<Longrightarrow> lin_obj (lin_acked i m e)"
  by (auto simp: lin_obj_def lin_acked_def obj_ok_def meta_ok_def invalid_def writing_def)

lemmas lin_objs = marked_obj lin_written_obj lin_updated_obj lin_invalidated_obj lin_acked_obj

lemma lin_lengths [simp]:
  "val_len (marked e) = val_len e" "val_len (lin_written op e) = val_len e" "val_len (lin_updated m e) = val_len e"
  "val_len (lin_invalidated i m e) = val_len e" "val_len (lin_acked i m e) = val_len e"
  by (simp_all add: marked_def lin_written_def lin_updated_def lin_invalidated_def lin_acked_def)

text \<open>The operations a batch accepts for an object with values of \<open>n\<close> bytes.\<close>

definition lin_op_ok :: "u8 \<Rightarrow> cache_op \<Rightarrow> bool" where
  "lin_op_ok n op \<longleftrightarrow> opcode op = CACHE_OP_GET \<or> opcode op = CACHE_OP_BRC \<or> opcode op = CACHE_OP_ACK \<or>
     (opcode op = CACHE_OP_PUT \<or> opcode op = CACHE_OP_UPD) \<and> val_len op = n \<and> unat n \<le> length (value op) \<or>
     opcode op = CACHE_OP_INV \<and> even (version (op_meta op))"

lemma lin_op_cases:
  assumes "lin_op_ok (val_len e) op"
  obtains "opcode op = CACHE_OP_GET" | "opcode op = CACHE_OP_BRC" | "opcode op = CACHE_OP_ACK"
  | "opcode op = CACHE_OP_PUT" "fits e op" | "opcode op = CACHE_OP_UPD" "fits e op"
  | "opcode op = CACHE_OP_INV" "even (version (op_meta op))"
  using assms by (auto simp: lin_op_ok_def fits_def)

lemma lin_handler_ok:
  assumes "lin_obj e" "lin_op_ok (val_len e) op"
  shows "\<exists>e' op' r'. lin_handler i vp e op r = Inr (e', op', r') \<and> lin_obj e' \<and> val_len e' = val_len e"
  using lin_op_cases[OF assms(2)] assms(1)
  by cases (simp_all add: lin_handler_def lin_get_ok lin_put_ok lin_upd_ok lin_inv_ok lin_ack_ok lin_objs)

text \<open>A cache whose objects are all unlocked and in one of the five states.\<close>

definition lin_cache_ok :: "cache \<Rightarrow> bool" where
  "lin_cache_ok c \<longleftrightarrow> kv_wf (hash_table c) \<and> in_first_lap (hash_table c) \<and>
     (\<forall>k e. kv_abs (hash_table c) k = Some e \<longrightarrow> lin_obj e)"

section \<open>Batches\<close>

lemma cache_batch_op_lin_eq:
  "cache_batch_op_lin_non_stalling_sessions i t ops c =
   bind_res (cache_batch (lin_handler i) lin_skipped (hash_table c) ops) (\<lambda>(kv, out).
     Inr (c\<lparr>protocol := LINEARIZABILITY, hash_table := kv\<rparr>, out))"
  by (simp add: cache_batch_op_lin_non_stalling_sessions_def Let_def ENABLE_CACHE_STATS_def)

text \<open>Property C26: a batch of the linearizable cache is a batch on a map.  The lookups in the
  index, the reads and the writes of the log compute, operation by operation, what the
  handlers compute on the map from keys to objects: the same map, the same operations
  and responses, and the same fault if there is one.\<close>

theorem lin_batch_refines_map:
  assumes "kv_wf (hash_table c)" "in_first_lap (hash_table c)" "length ops \<le> CACHE_BATCH_SIZE"
  shows "map_sum id (\<lambda>(c', out). (kv_abs (hash_table c'), out)) (cache_batch_op_lin_non_stalling_sessions i t ops c) =
    fold_res (abs_batch_step (lin_handler i) lin_skipped (kv_ptr (hash_table c))) ops (kv_abs (hash_table c), [])"
  unfolding lin.cache_batch_refines[OF assms, symmetric] cache_batch_op_lin_eq
  by (cases "cache_batch (lin_handler i) lin_skipped (hash_table c) ops") auto

text \<open>Property C27: a batch of the linearizable cache returns.  If every object is unlocked in
  one of the five states, and every write and update of the batch has the length of the
  object it names, no assertion fails and no loop spins, whatever the mixture of reads, writes,
  invalidations, acknowledgements and updates; afterwards every object is again unlocked in one of the
  five states, and no key has appeared, disappeared or changed its length.\<close>

theorem lin_batch_returns:
  assumes "lin_cache_ok c" "length ops \<le> CACHE_BATCH_SIZE"
    "\<forall>(op, r)\<in>set ops. lin_skipped r \<or>
       (\<forall>e. kv_abs (hash_table c) (key op) = Some e \<longrightarrow> lin_op_ok (val_len e) op)"
  shows "\<exists>c' out. cache_batch_op_lin_non_stalling_sessions i t ops c = Inr (c', out) \<and> lin_cache_ok c' \<and>
    length out = length ops \<and>
    (\<forall>k. map_option val_len (kv_abs (hash_table c') k) = map_option val_len (kv_abs (hash_table c) k))"
proof -
  let ?kv = "hash_table c"
  from assms(1) have wf: "kv_wf ?kv" "in_first_lap ?kv" and
    ob: "\<forall>k e. kv_abs ?kv k = Some e \<longrightarrow> lin_obj e" by (auto simp: lin_cache_ok_def)
  from lin.cache_batch_returns[where P = lin_obj and Q = lin_op_ok and skip = lin_skipped and i = i,
      OF lin_handler_ok wf assms(2) ob assms(3)]
  show ?thesis by (auto simp: cache_batch_op_lin_eq lin_cache_ok_def)
qed

lemma cache_batch_cong:
  assumes "\<forall>(op, r)\<in>set ops. skip r \<or> (\<forall>vp e. h vp e op r = h' vp e op r)"
  shows "cache_batch h skip kv ops = cache_batch h' skip kv ops"
proof -
  let ?xs = "zip ops (map (\<lambda>(op, r). if skip r then None else kv_ptr kv (key op)) ops)"
  have "fold_res (batch_step h skip) xs z = fold_res (batch_step h' skip) xs z"
    if "\<forall>x\<in>set xs. \<forall>z. batch_step h skip x z = batch_step h' skip x z" for xs z
    using that by (induction xs arbitrary: z) (auto simp: bind_res_def split: sum.splits)
  moreover have "\<forall>x\<in>set ?xs. \<forall>z. batch_step h skip x z = batch_step h' skip x z"
    using assms by (auto simp: batch_step_def bind_res_def dest!: set_zip_leftD split: sum.splits option.splits)
  ultimately show ?thesis by (simp add: cache_batch_def)
qed



text \<open>A batch in which a write is followed by its read, on the cache with one object.\<close>

lemma demo_lin_obj: "lin_obj (stored (demo_op CACHE_OP_PUT 9))"
  by (simp add: lin_obj_def obj_ok_def stored_def demo_op_def entry_wf_def meta_ok_def demo_meta_def)

lemma demo_lin_cache:
  obtains c where "lin_cache_ok c"
    "kv_abs (hash_table c) (key (demo_op CACHE_OP_PUT 9)) = Some (stored (demo_op CACHE_OP_PUT 9))"
proof -
  obtain c where c: "cache_ok c"
    "kv_abs (hash_table c) (key (demo_op CACHE_OP_PUT 9)) = Some (stored (demo_op CACHE_OP_PUT 9))"
    "\<forall>k e. kv_abs (hash_table c) k = Some e \<longrightarrow> e = stored (demo_op CACHE_OP_PUT 9)" by (rule demo_cache)
  have "lin_obj e" if "kv_abs (hash_table c) k = Some e" for k e
    using c(3)[rule_format, OF that] demo_lin_obj by (simp only:)
  with c(1,2) show ?thesis by (intro that[of c]) (auto simp only: lin_cache_ok_def cache_ok_def)
qed

theorem lin_batch_refines_map_witness:
  "\<exists>c. kv_wf (hash_table c) \<and> in_first_lap (hash_table c) \<and>
    map_sum id (\<lambda>(c', out). (kv_abs (hash_table c'), out))
      (cache_batch_op_lin_non_stalling_sessions 1 0 [(demo_op CACHE_OP_PUT 9, demo_resp)] c) =
    fold_res (abs_batch_step (lin_handler 1) lin_skipped (kv_ptr (hash_table c)))
      [(demo_op CACHE_OP_PUT 9, demo_resp)] (kv_abs (hash_table c), [])"
proof -
  obtain c where c: "lin_cache_ok c" by (rule demo_lin_cache)
  with lin_batch_refines_map[of c "[(demo_op CACHE_OP_PUT 9, demo_resp)]" 1 0] show ?thesis
    by (auto simp: lin_cache_ok_def CACHE_BATCH_SIZE_def)
qed

theorem lin_batch_returns_witness:
  "\<exists>c c' out. lin_cache_ok c \<and> kv_abs (hash_table c) (key (demo_op CACHE_OP_PUT 9)) \<noteq> None \<and>
    cache_batch_op_lin_non_stalling_sessions 1 0
      [(demo_op CACHE_OP_PUT 9, demo_resp), (demo_op CACHE_OP_GET 9, demo_resp), (demo_op CACHE_OP_ACK 9, demo_resp)] c =
        Inr (c', out) \<and> lin_cache_ok c'"
proof -
  obtain c where c: "lin_cache_ok c"
    "kv_abs (hash_table c) (key (demo_op CACHE_OP_PUT 9)) = Some (stored (demo_op CACHE_OP_PUT 9))"
    by (rule demo_lin_cache)
  let ?ops = "[(demo_op CACHE_OP_PUT 9, demo_resp), (demo_op CACHE_OP_GET 9, demo_resp), (demo_op CACHE_OP_ACK 9, demo_resp)]"
  have "\<forall>(op, r)\<in>set ?ops. lin_skipped r \<or>
       (\<forall>e. kv_abs (hash_table c) (key op) = Some e \<longrightarrow> lin_op_ok (val_len e) op)"
    using c(2) by (auto simp: lin_op_ok_def demo_op_def stored_def)
  from lin_batch_returns[OF c(1) _ this, of 1 0] c show ?thesis by (auto simp: CACHE_BATCH_SIZE_def)
qed

section \<open>Timestamps\<close>

text \<open>Property C29: no operation takes a replica back.  Whatever a batch does to an unlocked object
  (reads, writes, updates, invalidations, acknowledgements), the timestamp of the replica does
  not decrease, provided the version of a write does not wrap around; and a read is answered
  with a value only in the valid state.\<close>

theorem lin_handler_monotone:
  assumes "lin_obj e" "lin_op_ok (val_len e) op" "unat (version (op_meta e)) + 2 < 2 ^ 32" "i < 256"
    "lin_handler i vp e op r = Inr (e', op', r')"
  shows "eff i (op_meta e) \<le> eff i (op_meta e') \<and>
    (opcode op = CACHE_OP_GET \<and> rtype r' = CACHE_GET_SUCCESS \<longrightarrow> state (op_meta e) = VALID_STATE \<and> e' = e)"
  using lin_op_cases[OF assms(2)]
proof cases
  case 1
  with assms(5) lin_get_ok[OF assms(1)] have "e' = marked e"
    "rtype r' = CACHE_GET_SUCCESS \<longrightarrow> state (op_meta e) = VALID_STATE"
    by (auto simp: lin_handler_def split: if_splits)
  moreover have "state (op_meta e) = VALID_STATE \<Longrightarrow> marked e = e" by (simp add: marked_def set_state_same)
  ultimately show ?thesis by auto
next
  case 4
  have "eff i (op_meta e) \<le> eff i (op_meta (lin_written op e))"
    unfolding eff_written[OF assms(3)] by (simp add: eff_def)
  with 4 assms(5) lin_put_ok[OF assms(1) 4(2)] show ?thesis by (auto simp: lin_handler_def split: if_splits)
qed (use assms in \<open>auto simp: lin_handler_def lin_upd_ok lin_inv_ok lin_ack_ok eff_invalidated eff_acked\<close>)

theorem lin_handler_monotone_witness:
  "\<exists>e' op' r'. lin_handler 1 0 (stored (demo_op CACHE_OP_PUT 9)) (demo_op CACHE_OP_PUT 9) demo_resp = Inr (e', op', r') \<and>
     eff 1 (op_meta (stored (demo_op CACHE_OP_PUT 9))) \<le> eff 1 (op_meta e')"
proof -
  let ?e = "stored (demo_op CACHE_OP_PUT 9)"
  have e: "lin_obj ?e" by (rule demo_lin_obj)
  have op: "lin_op_ok (val_len ?e) (demo_op CACHE_OP_PUT 9)" by (simp add: lin_op_ok_def demo_op_def stored_def)
  have "unat (version (op_meta ?e)) + 2 < 2 ^ 32" by (simp add: stored_def demo_op_def demo_meta_def)
  with lin_handler_ok[OF e op, of 1 0 demo_resp] lin_handler_monotone[OF e op, of 1 0 demo_resp] show ?thesis by fastforce
qed

end
