(* ===== verification/Linearizability.thy ===== *)
theory Linearizability
  imports History
begin

text \<open>
  Linearizability of a replicated register whose writes take time and whose reads are
  instantaneous.  A trace records when a write starts, when it has been acknowledged
  by every machine, and what each read returns; values are identified with the timestamps
  of the writes that made them.  \<open>good_trace\<close> is the criterion that the invalidation
  protocol meets event by event, and \<open>good_trace_linearizable\<close> derives linearizability.
\<close>

datatype levent = Start nat stamp | Fin nat stamp | Get nat stamp

fun le_stamp :: "levent \<Rightarrow> stamp" where
  "le_stamp (Start i t) = t"
| "le_stamp (Fin i t) = t"
| "le_stamp (Get i t) = t"

fun is_op :: "levent \<Rightarrow> bool" where
  "is_op (Start i t) = True"
| "is_op (Fin i t) = False"
| "is_op (Get i t) = True"

fun last_start :: "stamp \<Rightarrow> levent list \<Rightarrow> stamp" where
  "last_start t [] = t"
| "last_start t (Start i u # es) = last_start u es"
| "last_start t (Fin i u # es) = last_start t es"
| "last_start t (Get i u # es) = last_start t es"

text \<open>Operations are named by the position of their first event.  A read ends where it
  starts, a write where all machines have acknowledged it, if ever.\<close>

definition ends :: "levent list \<Rightarrow> nat \<Rightarrow> nat \<Rightarrow> bool" where
  "ends h p k \<longleftrightarrow> k < length h \<and>
     ((\<exists>i t. h ! p = Get i t) \<and> k = p \<or> (\<exists>i t. h ! p = Start i t \<and> h ! k = Fin i t) \<and> p < k)"

definition before :: "nat list \<Rightarrow> nat \<Rightarrow> nat \<Rightarrow> bool" where
  "before L p q \<longleftrightarrow> (\<exists>xs ys zs. L = xs @ p # ys @ q # zs)"

definition linearizable :: "levent list \<Rightarrow> bool" where
  "linearizable h \<longleftrightarrow> (\<exists>L. distinct L \<and> set L = {p. p < length h \<and> is_op (h ! p)} \<and>
     (\<forall>xs p ys i t. L = xs @ p # ys \<longrightarrow> h ! p = Get i t \<longrightarrow> t = last_start (0, 0) (map ((!) h) xs)) \<and>
     (\<forall>p k q. p \<in> set L \<longrightarrow> q \<in> set L \<longrightarrow> ends h p k \<longrightarrow> k < q \<longrightarrow> before L p q))"

definition started :: "levent list \<Rightarrow> stamp set" where
  "started h = {t. \<exists>i. Start i t \<in> set h}"

definition completed :: "levent list \<Rightarrow> stamp set" where
  "completed h = {t. \<exists>i. Fin i t \<in> set h \<or> Get i t \<in> set h}"

definition good_event :: "levent list \<Rightarrow> levent \<Rightarrow> bool" where
  "good_event h e = (case e of
     Start i t \<Rightarrow> (0, 0) < t \<and> t \<notin> started h \<and> (\<forall>c\<in>completed h. c < t)
   | Fin i t \<Rightarrow> t \<in> started h \<and> (\<forall>c\<in>completed h. c \<le> t)
   | Get i t \<Rightarrow> (t = (0, 0) \<or> t \<in> started h) \<and> (\<forall>c\<in>completed h. c \<le> t))"

inductive good_trace :: "levent list \<Rightarrow> bool" where
  good_Nil: "good_trace []"
| good_snoc: "good_trace h \<Longrightarrow> good_event h e \<Longrightarrow> good_trace (h @ [e])"

lemma started_append [simp]:
  "started (h @ [Start i t]) = insert t (started h)" "started (h @ [Fin i t]) = started h"
  "started (h @ [Get i t]) = started h"
  by (auto simp: started_def)

lemma completed_append [simp]:
  "completed (h @ [Start i t]) = completed h" "completed (h @ [Fin i t]) = insert t (completed h)"
  "completed (h @ [Get i t]) = insert t (completed h)"
  by (auto simp: completed_def)

lemma started_Nil [simp]: "started [] = {}" and completed_Nil [simp]: "completed [] = {}"
  by (simp_all add: started_def completed_def)

lemma good_event_nth: "good_trace h \<Longrightarrow> p < length h \<Longrightarrow> good_event (take p h) (h ! p)"
proof (induction rule: good_trace.induct)
  case (good_snoc h e)
  then show ?case by (cases "p < length h") (simp_all add: nth_append less_Suc_eq)
qed simp

section \<open>The order of timestamps\<close>

definition op_key :: "levent list \<Rightarrow> nat \<Rightarrow> stamp \<times> nat" where
  "op_key h p = (le_stamp (h ! p), p)"

definition stamp_order :: "levent list \<Rightarrow> nat list" where
  "stamp_order h = sort_key (op_key h) (filter (\<lambda>p. is_op (h ! p)) [0..<length h])"

lemma stamp_order_set: "set (stamp_order h) = {p. p < length h \<and> is_op (h ! p)}" "distinct (stamp_order h)"
  by (auto simp: stamp_order_def)

lemma stamp_order_sorted: "sorted (map (op_key h) (stamp_order h))"
  by (simp add: stamp_order_def)

lemma op_key_less:
  "op_key h p < op_key h q \<longleftrightarrow> le_stamp (h ! p) < le_stamp (h ! q) \<or> le_stamp (h ! p) = le_stamp (h ! q) \<and> p < q"
  unfolding op_key_def less_prod_simp by (metis le_less)

lemma op_key_inj: "op_key h p = op_key h q \<longleftrightarrow> p = q"
  by (auto simp: op_key_def)

lemma stamp_order_split:
  assumes "stamp_order h = xs @ p # ys"
  shows "x \<in> set xs \<Longrightarrow> op_key h x < op_key h p" "y \<in> set ys \<Longrightarrow> op_key h p < op_key h y"
proof -
  have s: "sorted (map (op_key h) (xs @ p # ys))" and d: "distinct (xs @ p # ys)"
    using stamp_order_sorted[of h] stamp_order_set(2)[of h] assms by simp_all
  show "op_key h x < op_key h p" if "x \<in> set xs"
  proof -
    have "op_key h x \<le> op_key h p" using s that by (simp add: sorted_append)
    moreover have "x \<noteq> p" using d that by auto
    ultimately show ?thesis by (simp add: order_less_le op_key_inj)
  qed
  show "op_key h p < op_key h y" if "y \<in> set ys"
  proof -
    have "op_key h p \<le> op_key h y" using s that by (simp add: sorted_append)
    moreover have "y \<noteq> p" using d that by auto
    ultimately show ?thesis by (auto simp: order_less_le op_key_inj)
  qed
qed

lemma stamp_order_before:
  assumes "p \<in> set (stamp_order h)" "q \<in> set (stamp_order h)" "op_key h p < op_key h q"
  shows "before (stamp_order h) p q"
proof -
  from assms(1) obtain xs ys where L: "stamp_order h = xs @ p # ys" by (auto simp: in_set_conv_decomp)
  have "q \<notin> set xs" "q \<noteq> p" using stamp_order_split(1)[OF L, of q] assms(3) by auto
  with assms(2) L have "q \<in> set ys" by auto
  then obtain us vs where "ys = us @ q # vs" by (auto simp: in_set_conv_decomp)
  with L show ?thesis unfolding before_def by auto
qed

lemma last_start_none: "(\<And>i t. Start i t \<notin> set es) \<Longrightarrow> last_start u es = u"
  by (induction u es rule: last_start.induct) auto

lemma last_start_append: "last_start u (xs @ ys) = last_start (last_start u xs) ys"
  by (induction u xs rule: last_start.induct) simp_all

text \<open>Two starts never carry one timestamp.\<close>

lemma start_unique:
  assumes "good_trace h" "p < length h" "q < length h" "h ! p = Start i t" "h ! q = Start j t"
  shows "p = q"
proof -
  have aux: "\<not> p < q" if "p < length h" "q < length h" "h ! p = Start i t" "h ! q = Start j t" for p q i j
  proof
    assume "p < q"
    with that have "Start i t \<in> set (take q h)" by (auto simp: in_set_conv_nth)
    with good_event_nth[OF assms(1) that(2)] that(4) show False by (auto simp: good_event_def started_def)
  qed
  from aux[OF assms(2,3,4,5)] aux[OF assms(3,2,5,4)] show ?thesis by simp
qed

lemma stamp_order_legal:
  assumes g: "good_trace h" and L: "stamp_order h = xs @ p # ys" and p: "h ! p = Get i t"
  shows "t = last_start (0, 0) (map ((!) h) xs)"
proof -
  have pl: "p < length h" using L stamp_order_set(1)[of h] by (metis (no_types, lifting) in_set_conv_decomp mem_Collect_eq)
  have sub: "\<forall>x\<in>set xs. x < length h \<and> is_op (h ! x)" using L stamp_order_set(1)[of h] by (metis (no_types, lifting) UnCI mem_Collect_eq set_append)
  have small: "le_stamp (h ! x) < t \<or> le_stamp (h ! x) = t \<and> x < p" if "x \<in> set xs" for x
    using stamp_order_split(1)[OF L that] p unfolding op_key_less by simp
  show ?thesis
  proof (cases "t = (0, 0)")
    case True
    have "Start j u \<notin> set (map ((!) h) xs)" for j u
    proof
      assume "Start j u \<in> set (map ((!) h) xs)"
      then obtain x where x: "x \<in> set xs" "h ! x = Start j u" by auto
      with sub good_event_nth[OF g, of x] have "(0, 0) < u" by (auto simp: good_event_def)
      moreover have "u \<le> t" using small[OF x(1)] x(2) by auto
      ultimately show False using True by simp
    qed
    then show ?thesis using True by (simp add: last_start_none)
  next
    case False
    with good_event_nth[OF g pl] p obtain j s where s: "s < p" "h ! s = Start j t"
      by (auto simp: good_event_def started_def in_set_conv_nth)
    have "s \<in> set (stamp_order h)" using s pl by (simp add: stamp_order_set)
    moreover have "op_key h s < op_key h p" using s p unfolding op_key_less by simp
    ultimately have "s \<in> set xs" using L stamp_order_split(2)[OF L, of s] by auto
    then obtain us vs where xs: "xs = us @ s # vs" by (auto simp: in_set_conv_decomp)
    have "Start k u \<notin> set (map ((!) h) vs)" for k u
    proof
      assume "Start k u \<in> set (map ((!) h) vs)"
      then obtain x where x: "x \<in> set vs" "h ! x = Start k u" by auto
      have "op_key h s < op_key h x" using stamp_order_split(2)[of h us s "vs @ p # ys" x] L xs x(1) by simp
      with s(2) x(2) have "t \<le> u" "s \<noteq> x" unfolding op_key_less by auto
      moreover have "u \<le> t" using small[of x] x xs by auto
      ultimately have "h ! x = Start k t" "s \<noteq> x" using x(2) by auto
      with start_unique[OF g _ _ s(2), of x k] s(1) pl sub x(1) xs show False by auto
    qed
    then show ?thesis using s(2) by (simp add: xs last_start_append last_start_none)
  qed
qed

lemma good_trace_linearizable:
  assumes "good_trace h"
  shows "linearizable h"
  unfolding linearizable_def
proof (intro exI[of _ "stamp_order h"] conjI allI impI)
  show "t = last_start (0, 0) (map ((!) h) xs)" if "stamp_order h = xs @ p # ys" "h ! p = Get i t" for xs p ys i t
    by (rule stamp_order_legal[OF assms that])
  show "before (stamp_order h) p q"
    if p: "p \<in> set (stamp_order h)" and q: "q \<in> set (stamp_order h)" and e: "ends h p k" and k: "k < q" for p k q
  proof (rule stamp_order_before[OF p q])
    have ql: "q < length h" "is_op (h ! q)" using q by (simp_all add: stamp_order_set)
    have pk: "p \<le> k" using e by (auto simp: ends_def)
    have "le_stamp (h ! p) \<in> completed (take q h)"
      using e k ql by (force simp: ends_def completed_def in_set_conv_nth)
    with good_event_nth[OF assms ql(1)] ql(2)
    have "le_stamp (h ! p) \<le> le_stamp (h ! q)"
      by (auto simp: good_event_def order_less_imp_le split: levent.splits)
    with pk k show "op_key h p < op_key h q" unfolding op_key_less by auto
  qed
qed (simp_all add: stamp_order_set)

end
