(* ===== verification/Invalidation.thy ===== *)
theory Invalidation
  imports Linearizability Interfaces "HOL-Library.Multiset"
begin

text \<open>
  The invalidation protocol without its machine words: \<open>N\<close> replicas of one object, each
  with a timestamp and one of three phases, and the invalidations, acknowledgements and updates in
  flight.  A write takes the next timestamp and invalidates the others; an
  invalidation is acknowledged only when it is later than the replica; the last
  acknowledgement completes the write and sends the updates.  The set of machines whose
  acknowledgement has been counted, and the trace, are recorded beside the state.
\<close>

datatype phase = Valid | Invalid | Writing

datatype imsg = Inv nat stamp | Ack nat nat nat | Upd nat stamp

record isys =
  ts :: "nat \<Rightarrow> stamp"
  ph :: "nat \<Rightarrow> phase"
  pend :: "nat \<Rightarrow> nat"
  acked :: "nat \<Rightarrow> nat set"
  msgs :: "imsg multiset"
  trace :: "levent list"

definition to_others :: "nat \<Rightarrow> nat \<Rightarrow> (nat \<Rightarrow> 'm) \<Rightarrow> 'm multiset" where
  "to_others N i f = image_mset f (mset (filter (\<lambda>j. j \<noteq> i) [0..<N]))"

definition next_stamp :: "stamp \<Rightarrow> nat \<Rightarrow> stamp" where
  "next_stamp t i = (fst t + 2, i)"

definition counts :: "isys \<Rightarrow> nat \<Rightarrow> nat \<Rightarrow> bool" where
  "counts s d v \<longleftrightarrow> ph s d = Writing \<and> fst (ts s d) = v"

inductive istep :: "nat \<Rightarrow> isys \<Rightarrow> isys \<Rightarrow> bool" for N where
  i_read: "i < N \<Longrightarrow> ph s i = Valid \<Longrightarrow> istep N s (s\<lparr>trace := trace s @ [Get i (ts s i)]\<rparr>)"
| i_write: "i < N \<Longrightarrow> t = next_stamp (ts s i) i \<Longrightarrow>
    istep N s (s\<lparr>ts := (ts s)(i := t), ph := (ph s)(i := Writing), pend := (pend s)(i := N - 1),
      acked := (acked s)(i := {}), msgs := msgs s + to_others N i (\<lambda>j. Inv j t),
      trace := trace s @ [Start i t]\<rparr>)"
| i_inv: "msgs s = add_mset (Inv d t) M \<Longrightarrow> ts s d < t \<Longrightarrow>
    istep N s (s\<lparr>ts := (ts s)(d := t), ph := (ph s)(d := Invalid),
      msgs := add_mset (Ack (snd t) d (fst t)) M\<rparr>)"
| i_inv_late: "msgs s = add_mset (Inv d t) M \<Longrightarrow> \<not> ts s d < t \<Longrightarrow> istep N s (s\<lparr>msgs := M\<rparr>)"
| i_ack: "msgs s = add_mset (Ack d j v) M \<Longrightarrow> counts s d v \<Longrightarrow> pend s d \<noteq> 1 \<Longrightarrow>
    istep N s (s\<lparr>pend := (pend s)(d := pend s d - 1), acked := (acked s)(d := insert j (acked s d)),
      msgs := M\<rparr>)"
| i_last_ack: "msgs s = add_mset (Ack d j v) M \<Longrightarrow> counts s d v \<Longrightarrow> pend s d = 1 \<Longrightarrow>
    istep N s (s\<lparr>ph := (ph s)(d := Valid), pend := (pend s)(d := 0), acked := (acked s)(d := insert j (acked s d)),
      msgs := M + to_others N d (\<lambda>k. Upd k (ts s d)),
      trace := trace s @ [Fin d (ts s d)]\<rparr>)"
| i_ack_late: "msgs s = add_mset (Ack d j v) M \<Longrightarrow> \<not> counts s d v \<Longrightarrow> istep N s (s\<lparr>msgs := M\<rparr>)"
| i_upd: "msgs s = add_mset (Upd d t) M \<Longrightarrow> ts s d = t \<Longrightarrow> ph s d = Invalid \<Longrightarrow>
    istep N s (s\<lparr>ph := (ph s)(d := Valid), msgs := M\<rparr>)"
| i_upd_late: "msgs s = add_mset (Upd d t) M \<Longrightarrow> \<not> (ts s d = t \<and> ph s d = Invalid) \<Longrightarrow>
    istep N s (s\<lparr>msgs := M\<rparr>)"

inductive_cases istepE: "istep N s s'"

definition istart :: isys where
  "istart = \<lparr>ts = (\<lambda>_. (0, 0)), ph = (\<lambda>_. Valid), pend = (\<lambda>_. 0), acked = (\<lambda>_. {}), msgs = {#}, trace = []\<rparr>"

section \<open>The invariant\<close>

text \<open>The timestamps that have been issued.\<close>

definition issued :: "isys \<Rightarrow> stamp set" where
  "issued s = insert (0, 0) (started (trace s))"

definition J_ts :: "nat \<Rightarrow> isys \<Rightarrow> bool" where
  "J_ts N s \<longleftrightarrow> (\<forall>t\<in>issued s. snd t < N) \<and> (\<forall>i<N. ts s i \<in> issued s \<and>
     (ph s i = Writing \<longrightarrow> snd (ts s i) = i \<and> ts s i \<in> started (trace s)) \<and> (ph s i = Invalid \<longrightarrow> snd (ts s i) \<noteq> i))"

definition J_inv :: "nat \<Rightarrow> isys \<Rightarrow> bool" where
  "J_inv N s \<longleftrightarrow> (\<forall>d t. Inv d t \<in># msgs s \<longrightarrow> d < N \<and> snd t \<noteq> d \<and> t \<in> issued s \<and> ts s d \<noteq> t)"

definition J_ack :: "nat \<Rightarrow> isys \<Rightarrow> bool" where
  "J_ack N s \<longleftrightarrow> (\<forall>d j v. Ack d j v \<in># msgs s \<longrightarrow> d < N \<and> j < N \<and> j \<noteq> d \<and> (v, d) \<in> issued s \<and> (v, d) \<le> ts s j)"

definition J_upd :: "nat \<Rightarrow> isys \<Rightarrow> bool" where
  "J_upd N s \<longleftrightarrow> (\<forall>d t. Upd d t \<in># msgs s \<longrightarrow> d < N \<and> (\<forall>k<N. t \<le> ts s k))"

definition J_cov :: "nat \<Rightarrow> isys \<Rightarrow> bool" where
  "J_cov N s \<longleftrightarrow> (\<forall>t\<in>issued s. \<forall>j<N. t \<le> ts s j \<or> Inv j t \<in># msgs s)"

definition J_once :: "isys \<Rightarrow> bool" where
  "J_once s \<longleftrightarrow> (\<forall>i j v. count (msgs s) (Inv j (v, i)) + count (msgs s) (Ack i j v) \<le> 1)"

definition acked_ok :: "nat \<Rightarrow> isys \<Rightarrow> nat \<Rightarrow> bool" where
  "acked_ok N s i \<longleftrightarrow> acked s i \<subseteq> {..<N} - {i} \<and> pend s i + card (acked s i) = N - 1 \<and> 0 < pend s i \<and>
     (\<forall>j\<in>acked s i. ts s i \<le> ts s j \<and> Inv j (ts s i) \<notin># msgs s \<and> Ack i j (fst (ts s i)) \<notin># msgs s)"

definition J_acked :: "nat \<Rightarrow> isys \<Rightarrow> bool" where
  "J_acked N s \<longleftrightarrow> (\<forall>i<N. ph s i = Writing \<longrightarrow> acked_ok N s i)"

definition J_valid :: "nat \<Rightarrow> isys \<Rightarrow> bool" where
  "J_valid N s \<longleftrightarrow> (\<forall>i<N. ph s i = Valid \<longrightarrow> (\<forall>j<N. ts s i \<le> ts s j))"

definition J_invalid :: "nat \<Rightarrow> isys \<Rightarrow> bool" where
  "J_invalid N s \<longleftrightarrow> (\<forall>i<N. ph s i = Invalid \<longrightarrow> ts s i < ts s (snd (ts s i)) \<or>
     ts s (snd (ts s i)) = ts s i \<and> ph s (snd (ts s i)) = Writing \<or> Upd i (ts s i) \<in># msgs s)"

definition J_wait :: "nat \<Rightarrow> isys \<Rightarrow> bool" where
  "J_wait N s \<longleftrightarrow> (\<forall>i<N. ph s i = Writing \<longrightarrow> (\<forall>j<N. j \<noteq> i \<longrightarrow> j \<notin> acked s i \<longrightarrow>
     Inv j (ts s i) \<in># msgs s \<or> Ack i j (fst (ts s i)) \<in># msgs s \<or> ts s i < ts s j))"

definition J_trace :: "nat \<Rightarrow> isys \<Rightarrow> bool" where
  "J_trace N s \<longleftrightarrow> good_trace (trace s) \<and> (\<forall>c\<in>completed (trace s). \<forall>k<N. c \<le> ts s k)"

definition J :: "nat \<Rightarrow> isys \<Rightarrow> bool" where
  "J N s \<longleftrightarrow> 2 \<le> N \<and> J_ts N s \<and> J_inv N s \<and> J_ack N s \<and> J_upd N s \<and> J_cov N s \<and> J_once s \<and> J_acked N s \<and>
     J_valid N s \<and> J_invalid N s \<and> J_wait N s \<and> J_trace N s"

lemmas J_defs = J_ts_def J_inv_def J_ack_def J_upd_def J_cov_def J_once_def J_acked_def J_valid_def
  J_invalid_def J_wait_def J_trace_def

declare split_paired_All [simp del] split_paired_Ex [simp del]

lemma istart_J: "2 \<le> N \<Longrightarrow> J N istart"
  by (simp add: J_def J_defs istart_def issued_def good_Nil)

section \<open>Messages\<close>

lemma to_others_iff [simp]: "x \<in># to_others N i f \<longleftrightarrow> (\<exists>j<N. j \<noteq> i \<and> x = f j)"
  by (auto simp: to_others_def)

lemma count_to_others:
  assumes "inj f"
  shows "count (to_others N i f) x = (if \<exists>j<N. j \<noteq> i \<and> x = f j then 1 else 0)"
proof -
  have d: "distinct (map f (filter (\<lambda>j. j \<noteq> i) [0..<N]))"
    using assms by (simp add: distinct_map inj_on_def inj_def)
  have "to_others N i f = mset (map f (filter (\<lambda>j. j \<noteq> i) [0..<N]))" by (simp add: to_others_def)
  with d show ?thesis by (auto simp: distinct_count_atmost_1)
qed

lemma inj_msgs [simp]: "inj (\<lambda>j. Inv j t)" "inj (\<lambda>j. Upd j t)"
  by (simp_all add: inj_def)

lemma next_stamp_less: "t < next_stamp t i"
  by (cases t) (simp add: next_stamp_def)

lemma snd_next [simp]: "snd (next_stamp t i) = i"
  by (simp add: next_stamp_def)

text \<open>A writer is never behind its own timestamps.\<close>

lemma writer_ahead:
  assumes "J_ts N s" "J_cov N s" "J_inv N s" "t \<in> issued s"
  shows "t \<le> ts s (snd t)"
proof -
  have c: "snd t < N" using assms(1,4) by (auto simp: J_ts_def)
  with assms(2,4) have "t \<le> ts s (snd t) \<or> Inv (snd t) t \<in># msgs s" by (auto simp: J_cov_def)
  with assms(3) show ?thesis unfolding J_inv_def by blast
qed

lemma next_stamp_fresh:
  assumes "J_ts N s" "J_cov N s" "J_inv N s" "i < N"
  shows "next_stamp (ts s i) i \<notin> issued s"
proof
  assume "next_stamp (ts s i) i \<in> issued s"
  from writer_ahead[OF assms(1-3) this] show False
    using next_stamp_less[of "ts s i" i] by simp
qed

section \<open>Monotonicity\<close>

lemma istep_mono: "istep N s s' \<Longrightarrow> ts s k \<le> ts s' k"
  by (erule istepE) (auto simp: next_stamp_less order_less_imp_le)

lemma istep_issued: "istep N s s' \<Longrightarrow> issued s \<subseteq> issued s'"
  by (erule istepE) (auto simp: issued_def)

lemma le_step: "istep N s s' \<Longrightarrow> t \<le> ts s k \<Longrightarrow> t \<le> ts s' k"
  using istep_mono order_trans by blast

lemma less_step: "istep N s s' \<Longrightarrow> t < ts s k \<Longrightarrow> t < ts s' k"
  using istep_mono less_le_trans by blast

section \<open>Every step keeps the invariant\<close>

lemma J_ts_step: "istep N s s' \<Longrightarrow> J N s \<Longrightarrow> J_ts N s'"
  by (erule istepE) (auto simp: J_def J_ts_def J_inv_def issued_def)

lemma J_D:
  assumes "J N s"
  shows "J_ts N s" "J_inv N s" "J_ack N s" "J_upd N s" "J_cov N s" "J_once s" "J_acked N s"
    "J_valid N s" "J_invalid N s" "J_wait N s" "J_trace N s" "2 \<le> N"
  using assms by (simp_all add: J_def)

lemma once_rem:
  assumes "J_once s"
  shows "msgs s = add_mset (Inv d t) M \<Longrightarrow> Inv d t \<notin># M \<and> Ack (snd t) d (fst t) \<notin># M"
    "msgs s = add_mset (Ack i d v) M \<Longrightarrow> Ack i d v \<notin># M \<and> Inv d (v, i) \<notin># M"
proof -
  have c: "count (msgs s) (Inv d (v, i)) + count (msgs s) (Ack i d v) \<le> 1" for i d v
    using assms unfolding J_once_def by blast
  show "Inv d t \<notin># M \<and> Ack (snd t) d (fst t) \<notin># M" if "msgs s = add_mset (Inv d t) M"
    using c[of d "fst t" "snd t"] that by (simp add: not_in_iff)
  show "Ack i d v \<notin># M \<and> Inv d (v, i) \<notin># M" if "msgs s = add_mset (Ack i d v) M"
    using c[of d v i] that by (simp add: not_in_iff)
qed

lemma fresh_msgs:
  assumes "J N s" "i < N" "next_stamp (ts s i) i = (v, c)"
  shows "Inv d (v, c) \<notin># msgs s" "Ack c d v \<notin># msgs s" "k < N \<Longrightarrow> ts s k \<noteq> (v, c)"
proof -
  have f: "(v, c) \<notin> issued s"
    using next_stamp_fresh[OF J_D(1,5,2)[OF assms(1)] assms(2)] assms(3) by simp
  show "Inv d (v, c) \<notin># msgs s" using J_D(2)[OF assms(1)] f unfolding J_inv_def by blast
  show "Ack c d v \<notin># msgs s" using J_D(3)[OF assms(1)] f unfolding J_ack_def by blast
  show "ts s k \<noteq> (v, c)" if "k < N"
  proof -
    have "ts s k \<in> issued s" using J_D(1)[OF assms(1)] that unfolding J_ts_def by blast
    with f show ?thesis by auto
  qed
qed

lemma fresh_ts: "J N s \<Longrightarrow> i < N \<Longrightarrow> k < N \<Longrightarrow> ts s k \<noteq> next_stamp (ts s i) i"
  using fresh_msgs(3)[of N s i "fst (next_stamp (ts s i) i)" "snd (next_stamp (ts s i) i)" k] unfolding prod.collapse by blast

lemma J_inv_step:
  assumes "istep N s s'" "J N s"
  shows "J_inv N s'"
  unfolding J_inv_def
proof (intro allI impI)
  fix d t
  assume m: "Inv d t \<in># msgs s'"
  have old: "Inv d t \<in># msgs s \<Longrightarrow> d < N \<and> snd t \<noteq> d \<and> t \<in> issued s' \<and> ts s d \<noteq> t"
    using J_D(2)[OF assms(2)] istep_issued[OF assms(1)] unfolding J_inv_def by blast
  show "d < N \<and> snd t \<noteq> d \<and> t \<in> issued s' \<and> ts s' d \<noteq> t"
    using assms(1)
  proof cases
    case (i_write i u)
    have f: "Inv d u \<notin># msgs s"
      using fresh_msgs(1)[OF assms(2) i_write(2), of "fst u" "snd u" d] unfolding i_write(3) prod.collapse by blast
    show ?thesis
    proof (cases "Inv d t \<in># msgs s")
      case True
      with f have "t \<noteq> u" by blast
      with i_write old[OF True] show ?thesis by auto
    next
      case False
      with m i_write have "t = u" "d < N" "d \<noteq> i" by auto
      with i_write fresh_ts[OF assms(2) i_write(2), of d] show ?thesis by (simp add: issued_def)
    qed
  next
    case (i_inv c u M)
    with once_rem(1)[OF J_D(6)[OF assms(2)] i_inv(2)] old m show ?thesis by auto
  qed (use old m in auto)
qed

lemma ack_D:
  assumes "J N s" "Ack d j v \<in># msgs s"
  shows "d < N" "j < N" "j \<noteq> d" "(v, d) \<in> issued s" "(v, d) \<le> ts s j"
  using J_D(3)[OF assms(1)] assms(2) unfolding J_ack_def by blast+

lemma J_ack_step:
  assumes "istep N s s'" "J N s"
  shows "J_ack N s'"
  unfolding J_ack_def
proof (intro allI impI)
  fix d j v
  assume m: "Ack d j v \<in># msgs s'"
  have old: "Ack d j v \<in># msgs s \<Longrightarrow> d < N \<and> j < N \<and> j \<noteq> d \<and> (v, d) \<in> issued s' \<and> (v, d) \<le> ts s' j"
    using ack_D[OF assms(2), of d j v] le_step[OF assms(1), of "(v, d)" j] istep_issued[OF assms(1)] by auto
  show "d < N \<and> j < N \<and> j \<noteq> d \<and> (v, d) \<in> issued s' \<and> (v, d) \<le> ts s' j"
    using assms(1)
  proof cases
    case (i_inv c t M)
    have "Inv c t \<in># msgs s" using i_inv(2) by simp
    then have "c < N" "snd t \<noteq> c" "t \<in> issued s" "snd t < N"
      using J_D(1,2)[OF assms(2)] unfolding J_inv_def J_ts_def by blast+
    moreover have "issued s' = issued s" using i_inv by (simp add: issued_def)
    ultimately show ?thesis using i_inv(1,2) old m by (cases "Ack d j v \<in># msgs s") auto
  qed (use old m in auto)
qed

lemma acked_D:
  assumes "J N s" "i < N" "ph s i = Writing"
  shows "acked s i \<subseteq> {..<N} - {i}" "pend s i + card (acked s i) = N - 1" "0 < pend s i" "snd (ts s i) = i"
    "j \<in> acked s i \<Longrightarrow> ts s i \<le> ts s j" "j \<in> acked s i \<Longrightarrow> Inv j (ts s i) \<notin># msgs s"
    "j \<in> acked s i \<Longrightarrow> Ack i j (fst (ts s i)) \<notin># msgs s"
  using J_D(7)[OF assms(1)] J_D(1)[OF assms(1)] assms(2,3) unfolding J_acked_def J_ts_def acked_ok_def by simp_all

text \<open>When the last acknowledgement is counted, every machine has the timestamp.\<close>

lemma last_ack_all:
  assumes "J N s" "Ack d j v \<in># msgs s" "counts s d v" "pend s d = 1" "k < N"
  shows "ts s d \<le> ts s k"
proof -
  note d = ack_D[OF assms(1,2)]
  have w: "ph s d = Writing" and v: "fst (ts s d) = v" using assms(3) by (auto simp: counts_def)
  note a = acked_D[OF assms(1) d(1) w]
  have t: "ts s d = (v, d)" using a(4) v by (simp add: prod_eq_iff)
  have fin: "finite (acked s d)" using a(1) by (rule finite_subset) simp
  have "j \<notin> acked s d" using a(7)[of j] assms(2) v by blast
  then have "card (insert j (acked s d)) = card ({..<N} - {d})" using a(2) assms(4) d(1) fin by simp
  then have "insert j (acked s d) = {..<N} - {d}" using a(1) d by (intro card_subset_eq) auto
  then have "k = d \<or> k = j \<or> k \<in> acked s d" using assms(5) by blast
  then show ?thesis using a(5)[of k] d(5) t by auto
qed

lemma J_upd_step:
  assumes "istep N s s'" "J N s"
  shows "J_upd N s'"
proof -
  have old: "\<And>d t. Upd d t \<in># msgs s \<Longrightarrow> d < N \<and> (\<forall>k<N. t \<le> ts s' k)"
    using J_D(4)[OF assms(2)] le_step[OF assms(1)] unfolding J_upd_def by blast
  show ?thesis
    using assms(1)
  proof cases
    case (i_last_ack d j v M)
    then have "Ack d j v \<in># msgs s" by simp
    then have "\<forall>k<N. ts s d \<le> ts s' k" using last_ack_all[OF assms(2) _ i_last_ack(3,4)] i_last_ack(1) by simp
    then show ?thesis using i_last_ack old by (auto simp: J_upd_def)
  qed (use old in \<open>auto simp: J_upd_def\<close>)
qed

lemma J_cov_step:
  assumes "istep N s s'" "J N s"
  shows "J_cov N s'"
  unfolding J_cov_def
proof (intro ballI allI impI)
  fix u j
  assume u: "u \<in> issued s'" and j: "j < N"
  have old: "u \<in> issued s \<Longrightarrow> u \<le> ts s' j \<or> Inv j u \<in># msgs s"
    using J_D(5)[OF assms(2)] le_step[OF assms(1)] j unfolding J_cov_def by blast
  show "u \<le> ts s' j \<or> Inv j u \<in># msgs s'"
    using assms(1)
  proof cases
    case (i_write i t)
    then have "issued s' = insert t (issued s)" by (simp add: issued_def insert_commute)
    with i_write u j old show ?thesis by (cases "u = t") auto
  next
    case (i_inv d t M)
    then have "issued s' = issued s" by (simp add: issued_def)
    with i_inv u old show ?thesis by (cases "j = d \<and> u = t") auto
  next
    case (i_inv_late d t M)
    then have "issued s' = issued s" by (simp add: issued_def)
    with i_inv_late u old show ?thesis by (cases "j = d \<and> u = t") auto
  qed (use old u in \<open>simp_all add: issued_def\<close>)
qed

lemma J_once_step:
  assumes "istep N s s'" "J N s"
  shows "J_once s'"
  unfolding J_once_def
proof (intro allI)
  fix i j v
  have old: "count (msgs s) (Inv j (v, i)) + count (msgs s) (Ack i j v) \<le> 1"
    using J_D(6)[OF assms(2)] unfolding J_once_def by blast
  show "count (msgs s') (Inv j (v, i)) + count (msgs s') (Ack i j v) \<le> 1"
    using assms(1)
  proof cases
    case (i_write k t)
    have "count (msgs s) (Inv j (v, i)) = 0" "count (msgs s) (Ack i j v) = 0" if "t = (v, i)"
      using fresh_msgs[OF assms(2) i_write(2), of v i] i_write(3) that by (simp_all add: not_in_iff)
    with i_write old show ?thesis by (auto simp: count_to_others)
  next
    case (i_inv d t M)
    with old show ?thesis by (cases t) (auto split: if_splits)
  qed (use old in \<open>auto simp: count_to_others split: if_splits\<close>)
qed


text \<open>The acknowledgements of a write that has just been counted.\<close>

lemma acked_insert:
  assumes "J N s" "msgs s = add_mset (Ack d j v) M" "counts s d v" "pend s d \<noteq> 1"
  shows "insert j (acked s d) \<subseteq> {..<N} - {d}" "pend s d - 1 + card (insert j (acked s d)) = N - 1"
    "0 < pend s d - 1" "ts s d \<le> ts s j" "Inv j (ts s d) \<notin># M" "Ack d j (fst (ts s d)) \<notin># M"
proof -
  have "Ack d j v \<in># msgs s" using assms(2) by simp
  note d = ack_D[OF assms(1) this]
  have w: "ph s d = Writing" and v: "fst (ts s d) = v" using assms(3) by (auto simp: counts_def)
  note a = acked_D[OF assms(1) d(1) w]
  have t: "ts s d = (v, d)" using a(4) v by (simp add: prod_eq_iff)
  show "insert j (acked s d) \<subseteq> {..<N} - {d}" using a(1) d by auto
  have "j \<notin> acked s d" using a(7)[of j] assms(2) v by auto
  moreover have "finite (acked s d)" using a(1) by (rule finite_subset) simp
  ultimately show "pend s d - 1 + card (insert j (acked s d)) = N - 1" using a(2,3) by simp
  show "0 < pend s d - 1" using a(3) assms(4) by simp
  show "ts s d \<le> ts s j" using d(5) t by simp
  show "Inv j (ts s d) \<notin># M" "Ack d j (fst (ts s d)) \<notin># M"
    using once_rem(2)[OF J_D(6)[OF assms(1)] assms(2)] t by simp_all
qed

text \<open>A step that leaves the writer alone and sends it no message keeps what it knows.\<close>

lemma acked_ok_frame:
  assumes "istep N s s'" "J N s" "i < N" "ph s i = Writing" "ts s' i = ts s i" "acked s' i = acked s i" "pend s' i = pend s i"
    "\<And>j. Inv j (ts s i) \<in># msgs s' \<Longrightarrow> Inv j (ts s i) \<in># msgs s"
    "\<And>j. j \<in> acked s i \<Longrightarrow> Ack i j (fst (ts s i)) \<in># msgs s' \<Longrightarrow> Ack i j (fst (ts s i)) \<in># msgs s"
  shows "acked_ok N s' i"
proof -
  note a = acked_D[OF assms(2-4)]
  have "ts s i \<le> ts s' j \<and> Inv j (ts s i) \<notin># msgs s' \<and> Ack i j (fst (ts s i)) \<notin># msgs s'" if "j \<in> acked s i" for j
    using le_step[OF assms(1) a(5)[OF that]] a(6)[OF that] a(7)[OF that] assms(8)[of j] assms(9)[OF that] by auto
  then show ?thesis using a(1-3) by (simp add: acked_ok_def assms(5-7))
qed

lemma J_acked_step:
  assumes "istep N s s'" "J N s"
  shows "J_acked N s'"
proof -
  have "acked_ok N s' i" if i: "i < N" and w: "ph s' i = Writing" for i
    using assms(1)
  proof cases
    case (i_write k t)
    show ?thesis
    proof (cases "i = k")
      case True
      with i_write i J_D(12)[OF assms(2)] show ?thesis by (simp add: acked_ok_def)
    next
      case False
      have "ts s i \<noteq> t" using fresh_ts[OF assms(2) i_write(2) i] i_write(3) by simp
      with False i_write w show ?thesis by (intro acked_ok_frame[OF assms i]) auto
    qed
  next
    case (i_inv d t M)
    then have n: "i \<noteq> d" "ph s i = Writing" using w by (auto split: if_splits)
    have "j = d \<Longrightarrow> j \<in> acked s i \<Longrightarrow> \<not> (snd t = i \<and> fst t = fst (ts s i))" for j
      using acked_D(4)[OF assms(2) i n(2)] acked_D(6)[OF assms(2) i n(2), of j] i_inv(2) by (auto simp: prod_eq_iff)
    with n i_inv show ?thesis by (intro acked_ok_frame[OF assms i]) auto
  next
    case (i_ack d j v M)
    show ?thesis
    proof (cases "i = d")
      case True
      note a = acked_insert[OF assms(2) i_ack(2-4)]
      have "ph s d = Writing" using i_ack(3) by (simp add: counts_def)
      note od = acked_D[OF assms(2) i[unfolded True] this]
      have "k = j \<or> k \<in> acked s d \<Longrightarrow> ts s d \<le> ts s k \<and> Inv k (ts s d) \<notin># M \<and> Ack d k (fst (ts s d)) \<notin># M" for k
        using a(4-6) od(5-7)[of k] i_ack(2) by auto
      then show ?thesis using True i_ack(1) a(1-3) by (simp add: acked_ok_def)
    next
      case False
      with i_ack w show ?thesis by (intro acked_ok_frame[OF assms i]) auto
    qed
  next
    case (i_last_ack d j v M)
    then have "i \<noteq> d" "ph s i = Writing" using w by (auto split: if_splits)
    with i_last_ack show ?thesis by (intro acked_ok_frame[OF assms i]) auto
  next
    case (i_upd d t M)
    then have "ph s i = Writing" using w by (auto split: if_splits)
    with i_upd show ?thesis by (intro acked_ok_frame[OF assms i]) auto
  next
    case i_read
    with w show ?thesis by (intro acked_ok_frame[OF assms i]) auto
  next
    case i_inv_late
    with w show ?thesis by (intro acked_ok_frame[OF assms i]) auto
  next
    case i_ack_late
    with w show ?thesis by (intro acked_ok_frame[OF assms i]) auto
  next
    case i_upd_late
    with w show ?thesis by (intro acked_ok_frame[OF assms i]) auto
  qed
  then show ?thesis by (simp add: J_acked_def)
qed

lemma inv_D:
  assumes "J N s" "Inv d t \<in># msgs s"
  shows "d < N" "snd t \<noteq> d" "t \<in> issued s" "ts s d \<noteq> t"
  using J_D(2)[OF assms(1)] assms(2) unfolding J_inv_def by blast+

lemma upd_dest:
  assumes "J N s" "Upd d t \<in># msgs s"
  shows "d < N"
  using J_D(4)[OF assms(1)] assms(2) unfolding J_upd_def by blast

lemma upd_D:
  assumes "J N s" "Upd d t \<in># msgs s" "k < N"
  shows "t \<le> ts s k"
  using J_D(4)[OF assms(1)] assms(2,3) unfolding J_upd_def by blast

lemma valid_D:
  assumes "J N s" "i < N" "ph s i = Valid" "k < N"
  shows "ts s i \<le> ts s k"
  using J_D(8)[OF assms(1)] assms(2-4) unfolding J_valid_def by blast

lemma J_valid_step:
  assumes "istep N s s'" "J N s"
  shows "J_valid N s'"
  unfolding J_valid_def
proof (intro allI impI)
  fix i j
  assume i: "i < N" and v: "ph s' i = Valid" and j: "j < N"
  have old: "ts s i \<le> ts s' j" if "ph s i = Valid"
    using le_step[OF assms(1) valid_D[OF assms(2) i that j]] .
  show "ts s' i \<le> ts s' j"
    using assms(1)
  proof cases
    case (i_last_ack d k u M)
    then have "Ack d k u \<in># msgs s" by simp
    with last_ack_all[OF assms(2) this i_last_ack(3,4) j] i_last_ack(1) old v show ?thesis by (cases "i = d") auto
  next
    case (i_upd d t M)
    then have "Upd d t \<in># msgs s" by simp
    with upd_D[OF assms(2) this j] i_upd old v show ?thesis by (cases "i = d") auto
  qed (use old v in \<open>auto split: if_splits\<close>)
qed

lemma invalid_D:
  assumes "J N s" "i < N" "ph s i = Invalid"
  shows "ts s i < ts s (snd (ts s i)) \<or> ts s (snd (ts s i)) = ts s i \<and> ph s (snd (ts s i)) = Writing \<or>
    Upd i (ts s i) \<in># msgs s"
  using J_D(9)[OF assms(1)] assms(2,3) unfolding J_invalid_def by blast

text \<open>The writer of an invalidation that is accepted is past it or still writing it.\<close>

lemma inv_writer:
  assumes "J N s" "Inv d t \<in># msgs s" "ts s d < t"
  shows "t < ts s (snd t) \<or> ts s (snd t) = t \<and> ph s (snd t) = Writing" "snd t \<noteq> d"
proof -
  have m: "d < N" "snd t \<noteq> d" "t \<in> issued s" using J_D(2)[OF assms(1)] assms(2) unfolding J_inv_def by blast+
  then have c: "snd t < N" using J_D(1)[OF assms(1)] unfolding J_ts_def by blast
  show "snd t \<noteq> d" by (rule m(2))
  have "ph s (snd t) = Writing" if "ts s (snd t) = t"
  proof (cases "ph s (snd t)")
    case Valid
    from valid_D[OF assms(1) c Valid m(1)] that assms(3) show ?thesis by simp
  next
    case Invalid
    then have "snd (ts s (snd t)) \<noteq> snd t" using J_D(1)[OF assms(1)] c unfolding J_ts_def by blast
    with that show ?thesis by simp
  qed
  with writer_ahead[OF J_D(1,5,2)[OF assms(1)] m(3)]
  show "t < ts s (snd t) \<or> ts s (snd t) = t \<and> ph s (snd t) = Writing" by (auto simp: le_less)
qed

lemma J_invalid_step:
  assumes "istep N s s'" "J N s"
  shows "J_invalid N s'"
  unfolding J_invalid_def
proof (intro allI impI)
  fix i
  assume i: "i < N" and v: "ph s' i = Invalid"
  let ?c = "snd (ts s i)"
  have c: "?c < N" using J_D(1)[OF assms(2)] i unfolding J_ts_def by blast
  have old: "ts s i < ts s' ?c \<or> ts s ?c = ts s i \<and> ph s ?c = Writing \<or> Upd i (ts s i) \<in># msgs s" if "ph s i = Invalid"
    using invalid_D[OF assms(2) i that] less_step[OF assms(1)] by blast
  show "ts s' i < ts s' (snd (ts s' i)) \<or> ts s' (snd (ts s' i)) = ts s' i \<and> ph s' (snd (ts s' i)) = Writing \<or>
     Upd i (ts s' i) \<in># msgs s'"
    using assms(1)
  proof cases
    case (i_write k t)
    with v have "i \<noteq> k" "ph s i = Invalid" by (auto split: if_splits)
    with old i_write next_stamp_less[of "ts s k" k] show ?thesis by auto
  next
    case (i_inv d t M)
    then have "Inv d t \<in># msgs s" by simp
    note w = inv_writer[OF assms(2) this i_inv(3)]
    show ?thesis
    proof (cases "i = d")
      case True
      with w i_inv show ?thesis by auto
    next
      case False
      with old i_inv v show ?thesis by auto
    qed
  next
    case (i_last_ack d k u M)
    with v have "i \<noteq> d" "ph s i = Invalid" by (auto split: if_splits)
    with old i_last_ack i show ?thesis by auto
  next
    case (i_upd d t M)
    with v have "i \<noteq> d" "ph s i = Invalid" by (auto split: if_splits)
    with old i_upd show ?thesis by auto
  qed (use old v in auto)
qed

lemma wait_D:
  assumes "J N s" "i < N" "ph s i = Writing" "j < N" "j \<noteq> i" "j \<notin> acked s i"
  shows "Inv j (ts s i) \<in># msgs s \<or> Ack i j (fst (ts s i)) \<in># msgs s \<or> ts s i < ts s j"
  using J_D(10)[OF assms(1)] assms(2-6) unfolding J_wait_def by blast

lemma J_wait_step:
  assumes "istep N s s'" "J N s"
  shows "J_wait N s'"
  unfolding J_wait_def
proof (intro allI impI)
  fix i j
  assume i: "i < N" and w: "ph s' i = Writing" and j: "j < N" "j \<noteq> i" "j \<notin> acked s' i"
  have old: "Inv j (ts s i) \<in># msgs s \<or> Ack i j (fst (ts s i)) \<in># msgs s \<or> ts s i < ts s' j"
    if "ph s i = Writing" "j \<notin> acked s i"
    using wait_D[OF assms(2) i that(1) j(1,2) that(2)] less_step[OF assms(1)] by blast
  show "Inv j (ts s' i) \<in># msgs s' \<or> Ack i j (fst (ts s' i)) \<in># msgs s' \<or> ts s' i < ts s' j"
    using assms(1)
  proof cases
    case (i_write k t)
    with old w j show ?thesis by (cases "i = k") auto
  next
    case (i_inv d t M)
    then have n: "i \<noteq> d" "ph s i = Writing" using w by (auto split: if_splits)
    with old i_inv j acked_D(4)[OF assms(2) i n(2)] show ?thesis by auto
  next
    case (i_inv_late d t M)
    then have "Inv d t \<in># msgs s" by simp
    then have "ts s d \<noteq> t" using J_D(2)[OF assms(2)] unfolding J_inv_def by blast
    with old i_inv_late w j show ?thesis by (cases "d = j \<and> t = ts s i") (auto simp: not_less le_less)
  next
    case (i_last_ack d k u M)
    then have "i \<noteq> d" "ph s i = Writing" using w by (auto split: if_splits)
    with old i_last_ack j show ?thesis by auto
  next
    case (i_upd d t M)
    then have "ph s i = Writing" using w by (auto split: if_splits)
    with old i_upd j show ?thesis by auto
  qed (use old w j in \<open>auto simp: counts_def split: if_splits\<close>)
qed

lemma J_trace_step:
  assumes "istep N s s'" "J N s"
  shows "J_trace N s'"
proof -
  have g: "good_trace (trace s)" and c: "\<And>c k. c \<in> completed (trace s) \<Longrightarrow> k < N \<Longrightarrow> c \<le> ts s k"
    using J_D(11)[OF assms(2)] by (auto simp: J_trace_def)
  have c': "\<And>c k. c \<in> completed (trace s) \<Longrightarrow> k < N \<Longrightarrow> c \<le> ts s' k"
    using c le_step[OF assms(1)] by blast
  show ?thesis
    using assms(1)
  proof cases
    case (i_read i)
    have "ts s i \<in> issued s" using J_D(1)[OF assms(2)] i_read(2) unfolding J_ts_def by blast
    with c i_read(2) have "good_event (trace s) (Get i (ts s i))" by (auto simp: good_event_def issued_def)
    with g c' i_read valid_D[OF assms(2) i_read(2,3)] show ?thesis by (auto simp: J_trace_def intro: good_snoc)
  next
    case (i_write i t)
    have "t \<notin> issued s" using next_stamp_fresh[OF J_D(1,5,2)[OF assms(2)] i_write(2)] i_write(3) by simp
    moreover have "\<forall>c\<in>completed (trace s). c < t"
      using c[OF _ i_write(2)] next_stamp_less[of "ts s i" i] i_write(3) by (auto intro: le_less_trans)
    ultimately have "good_event (trace s) (Start i t)" using i_write(3)
      by (simp add: good_event_def issued_def next_stamp_def)
    with g c' i_write show ?thesis by (auto simp: J_trace_def intro: good_snoc)
  next
    case (i_last_ack d j v M)
    then have m: "Ack d j v \<in># msgs s" by simp
    note d = ack_D(1)[OF assms(2) m] and all = last_ack_all[OF assms(2) m i_last_ack(3,4)]
    have "ts s d \<in> started (trace s)" using J_D(1)[OF assms(2)] i_last_ack(3) d by (auto simp: J_ts_def counts_def)
    with c[OF _ d] have "good_event (trace s) (Fin d (ts s d))" by (auto simp: good_event_def)
    with g c' i_last_ack all show ?thesis by (auto simp: J_trace_def intro: good_snoc)
  qed (use g c' in \<open>auto simp: J_trace_def\<close>)
qed

lemma J_step: "istep N s s' \<Longrightarrow> J N s \<Longrightarrow> J N s'"
  unfolding J_def[of N s']
  by (simp add: J_ts_step J_inv_step J_ack_step J_upd_step J_cov_step J_once_step J_acked_step
      J_valid_step J_invalid_step J_wait_step J_trace_step J_D(12))

interpretation inval: monotone_replicas "istep N" "J N" ts for N
  by unfold_locales (blast intro: J_step istep_mono)+

section \<open>What the invariant gives\<close>

lemma J_linearizable: "J N s \<Longrightarrow> linearizable (trace s)"
  using J_D(11) good_trace_linearizable by (auto simp: J_trace_def)

lemma valid_agree: "J N s \<Longrightarrow> i < N \<Longrightarrow> j < N \<Longrightarrow> ph s i = Valid \<Longrightarrow> ph s j = Valid \<Longrightarrow> ts s i = ts s j"
  by (meson antisym valid_D)

text \<open>No replica is left invalid or writing when no message is in flight.\<close>

lemma at_rest:
  assumes "J N s" "msgs s = {#}" "i < N"
  shows "ph s i = Valid" "j < N \<Longrightarrow> ts s i = ts s j"
proof -
  have le: "ts s k \<le> ts s l" if "k < N" "l < N" for k l
    using J_D(1,5)[OF assms(1)] assms(2) that by (auto simp: J_cov_def J_ts_def)
  show eq: "ts s i = ts s j" if "j < N" using le assms(3) that by (meson antisym)
  have nw: "ph s k \<noteq> Writing" if "k < N" for k
  proof
    assume w: "ph s k = Writing"
    note a = acked_D[OF assms(1) that w]
    have "acked s k \<noteq> {..<N} - {k}"
    proof
      assume "acked s k = {..<N} - {k}"
      then have "card (acked s k) = N - 1" using that by simp
      with a(2,3) show False by simp
    qed
    with a(1) obtain l where l: "l < N" "l \<noteq> k" "l \<notin> acked s k" by blast
    from wait_D[OF assms(1) that w l] assms(2) le[OF l(1) that] show False by simp
  qed
  show "ph s i = Valid"
  proof (cases "ph s i")
    case Invalid
    have c: "snd (ts s i) < N" using J_D(1)[OF assms(1)] assms(3) unfolding J_ts_def by blast
    from invalid_D[OF assms(1,3) Invalid] assms(2) nw[OF c] le[OF c assms(3)] show ?thesis by auto
  qed (use nw[OF assms(3)] in simp_all)
qed

text \<open>Deliveries come to an end: an invalidation is worth more than the acknowledgement
  it may cause, and an acknowledgement more than the updates of a completed write.\<close>

fun weight :: "nat \<Rightarrow> imsg \<Rightarrow> nat" where
  "weight N (Inv d t) = N + 2"
| "weight N (Ack d j v) = N + 1"
| "weight N (Upd d t) = 1"

definition load :: "nat \<Rightarrow> isys \<Rightarrow> nat" where
  "load N s = sum_mset (image_mset (weight N) (msgs s))"

lemma load_updates: "sum_mset (image_mset (weight N) (to_others N d (\<lambda>k. Upd k t))) \<le> N"
proof -
  have "sum_mset (image_mset (weight N) (to_others N d (\<lambda>k. Upd k t))) = card {x. x < N \<and> x \<noteq> d}"
    by (simp add: to_others_def image_mset.compositionality comp_def)
  also have "\<dots> \<le> card {..<N}" by (intro card_mono) auto
  finally show ?thesis by simp
qed

lemma load_decreases:
  assumes "istep N s s'" "\<forall>i t. trace s' \<noteq> trace s @ [Get i t] \<and> trace s' \<noteq> trace s @ [Start i t]"
  shows "load N s' < load N s"
  using assms(1)
proof cases
  case (i_last_ack d j v M)
  with load_updates[of N d "ts s d"] show ?thesis by (simp add: load_def)
qed (use assms(2) in \<open>auto simp: load_def\<close>)

end
