(* ===== verification/LIN_System.thy ===== *)
theory LIN_System
  imports LIN_Correct SC_System Invalidation
begin

text \<open>
  The linearizable protocol on the cluster: the replicas of one object on the
  \<open>MACHINE_NUM\<close> machines and the coherence messages in flight.  A machine reads and
  writes its replica with the handlers of its cache.  An accepted write is broadcast as an
  invalidation (\<open>perform_broadcasts_LIN\<close>); an invalidation that succeeds is answered with an
  acknowledgement (\<open>invs_bookkeeping\<close>, \<open>send_acks\<close>); the last acknowledgement
  is turned into an update and broadcast (\<open>updates_and_acks_bookkeeping\<close>).  Messages arrive
  in any order.  The machine with its words refines the protocol of \<open>Invalidation\<close>.
\<close>

section \<open>Messages\<close>

text \<open>Invalidations and acknowledgements are sent without their length and value
  (\<open>HERD_GET_REQ_SIZE\<close> bytes), updates with \<open>HERD_VALUE_SIZE\<close> bytes of value.\<close>

definition inv_msg :: "nat \<Rightarrow> cache_op \<Rightarrow> cache_op" where
  "inv_msg machine_id op = set_meta ((op_meta op)\<lparr>cid := of_nat machine_id\<rparr>)
     (op\<lparr>opcode := CACHE_OP_INV, val_len := 0, value := []\<rparr>)"

definition ack_msg :: "nat \<Rightarrow> cache_op \<Rightarrow> cache_op" where
  "ack_msg machine_id op = set_meta ((op_meta op)\<lparr>cid := of_nat machine_id\<rparr>) (op\<lparr>opcode := CACHE_OP_ACK\<rparr>)"

abbreviation lin_len :: u8 where
  "lin_len \<equiv> of_nat (HERD_VALUE_SIZE div 2 ^ SHIFT_BITS)"

definition lin_upd_msg :: "nat \<Rightarrow> cache_op \<Rightarrow> cache_op" where
  "lin_upd_msg machine_id op = set_meta ((op_meta op)\<lparr>cid := of_nat machine_id\<rparr>)
     (op\<lparr>opcode := CACHE_OP_UPD, val_len := lin_len, value := take HERD_VALUE_SIZE (value op)\<rparr>)"

text \<open>A message is copied into a slot of the buffer of updates and acknowledgements.  The copy
  of an acknowledgement leaves the length and the value of the slot as they are.\<close>

definition polled :: "cache_op \<Rightarrow> cache_op \<Rightarrow> cache_op" where
  "polled m slot = copy_op (if opcode m = CACHE_OP_UPD then HERD_PUT_REQ_SIZE else HERD_GET_REQ_SIZE) m slot"

section \<open>Transitions\<close>

record lin_sys =
  lreps :: "nat \<Rightarrow> cache_op"
  lnet :: "(nat \<times> cache_op) multiset"
  ltrace :: "levent list"

inductive lin_step :: "lin_sys \<Rightarrow> lin_sys \<Rightarrow> bool" where
  lin_read: "i < MACHINE_NUM \<Longrightarrow> opcode op = CACHE_OP_GET \<Longrightarrow>
    lin_handler i vp (lreps s i) op r = Inr (e', op', r') \<Longrightarrow>
    lin_step s (s\<lparr>lreps := (lreps s)(i := e'),
      ltrace := ltrace s @ (if rtype r' = CACHE_GET_SUCCESS then [Get i (stamp_of (op_meta e'))] else [])\<rparr>)"
| lin_write: "i < MACHINE_NUM \<Longrightarrow> opcode op = CACHE_OP_PUT \<Longrightarrow> length (value op) = MICA_MAX_VALUE \<Longrightarrow>
    unat (version (op_meta (lreps s i))) + 2 < 2 ^ 32 \<Longrightarrow>
    lin_handler i vp (lreps s i) op r = Inr (e', op', r') \<Longrightarrow>
    lin_step s (s\<lparr>lreps := (lreps s)(i := e'),
      lnet := lnet s + (if rtype r' = CACHE_PUT_SUCCESS then broadcast MACHINE_NUM i (inv_msg i op') else {#}),
      ltrace := ltrace s @ (if rtype r' = CACHE_PUT_SUCCESS then [Start i (stamp_of (op_meta (inv_msg i op')))] else [])\<rparr>)"
| lin_inval: "lnet s = add_mset (d, m) M \<Longrightarrow> opcode m = CACHE_OP_INV \<Longrightarrow>
    lin_inv_handler d vp (lreps s d) m r = Inr (e', m', r') \<Longrightarrow>
    lin_step s (s\<lparr>lreps := (lreps s)(d := e'),
      lnet := M + (if rtype r' = CACHE_INV_SUCCESS then {#(unat (cid (op_meta m')), ack_msg d m')#} else {#})\<rparr>)"
| lin_acks: "lnet s = add_mset (d, m) M \<Longrightarrow> opcode m = CACHE_OP_ACK \<Longrightarrow> length (value slot) = MICA_MAX_VALUE \<Longrightarrow>
    lin_upd_ack_handler d vp (lreps s d) (polled m slot) r = Inr (e', m', r') \<Longrightarrow>
    lin_step s (s\<lparr>lreps := (lreps s)(d := e'),
      lnet := M + (if rtype r' = CACHE_LAST_ACK_SUCCESS then broadcast MACHINE_NUM d (lin_upd_msg d m') else {#}),
      ltrace := ltrace s @ (if rtype r' = CACHE_LAST_ACK_SUCCESS then [Fin d (stamp_of (op_meta (lin_upd_msg d m')))] else [])\<rparr>)"
| lin_upds: "lnet s = add_mset (d, m) M \<Longrightarrow> opcode m = CACHE_OP_UPD \<Longrightarrow> length (value slot) = MICA_MAX_VALUE \<Longrightarrow>
    lin_upd_ack_handler d vp (lreps s d) (polled m slot) r = Inr (e', m', r') \<Longrightarrow>
    lin_step s (s\<lparr>lreps := (lreps s)(d := e'), lnet := M\<rparr>)"

inductive_cases lin_stepE: "lin_step s s'"

definition lin_start :: "cache_op \<Rightarrow> lin_sys" where
  "lin_start e = \<lparr>lreps = (\<lambda>_. e), lnet = {#}, ltrace = []\<rparr>"

section \<open>The simulation\<close>

definition phase_of :: "cache_op \<Rightarrow> phase" where
  "phase_of e = (if state (op_meta e) = VALID_STATE then Valid else if writing (op_meta e) then Writing else Invalid)"

definition wire :: "nat \<times> cache_op \<Rightarrow> imsg" where
  "wire = (\<lambda>(d, m). if opcode m = CACHE_OP_INV then Inv d (stamp_of (op_meta m))
     else if opcode m = CACHE_OP_ACK then Ack d (unat (cid (op_meta m))) (unat (version (op_meta m)))
     else Upd d (stamp_of (op_meta m)))"

definition lin_rep_ok :: "cache_op \<Rightarrow> bool" where
  "lin_rep_ok e \<longleftrightarrow> lin_obj e \<and> val_len e = lin_len"

definition lin_msg_ok :: "cache_op \<Rightarrow> bool" where
  "lin_msg_ok m \<longleftrightarrow> opcode m = CACHE_OP_INV \<and> even (version (op_meta m)) \<or> opcode m = CACHE_OP_ACK \<or>
     opcode m = CACHE_OP_UPD \<and> val_len m = lin_len \<and> length (value m) = HERD_VALUE_SIZE"

definition sim_rep :: "nat \<Rightarrow> cache_op \<Rightarrow> isys \<Rightarrow> bool" where
  "sim_rep i e a \<longleftrightarrow> lin_rep_ok e \<and> ts a i = eff i (op_meta e) \<and> ph a i = phase_of e \<and>
     pend a i = unat (pending_acks (op_meta e))"

definition lin_sim :: "lin_sys \<Rightarrow> isys \<Rightarrow> bool" where
  "lin_sim s a \<longleftrightarrow> (\<forall>i<MACHINE_NUM. sim_rep i (lreps s i) a) \<and> (\<forall>x\<in>#lnet s. lin_msg_ok (snd x)) \<and>
     msgs a = image_mset wire (lnet s) \<and> trace a = ltrace s"

lemma phase_of_marked [simp]: "lin_obj e \<Longrightarrow> phase_of (marked e) = phase_of e"
  by (auto simp: phase_of_def marked_def writing_def)

lemma phase_of_iff:
  "phase_of e = Writing \<longleftrightarrow> writing (op_meta e)" "lin_obj e \<Longrightarrow> phase_of e = Invalid \<longleftrightarrow> invalid (op_meta e)"
  "phase_of e = Valid \<longleftrightarrow> state (op_meta e) = VALID_STATE"
  by (auto simp: phase_of_def writing_def lin_obj_def invalid_def)

lemma eff_not_writing: "\<not> writing m \<Longrightarrow> eff i m = stamp_of m"
  by (simp add: eff_def stamp_of_def)

lemma machine_num: "MACHINE_NUM = 4"
  by (simp add: config)

lemma machine_byte: "i < MACHINE_NUM \<Longrightarrow> unat (of_nat i :: u8) = i"
  by (simp add: config unat_of_nat)

lemma lin_fits:
  assumes "lin_rep_ok e" "val_len op = val_len e" "HERD_VALUE_SIZE \<le> length (value op)"
  shows "fits e op"
  using assms by (auto simp: fits_def lin_rep_ok_def HERD_VALUE_SIZE_eq unat_of_nat config)

lemma marked_pending [simp]: "pending_acks (op_meta (marked e)) = pending_acks (op_meta e)"
  by (simp add: marked_def)

lemma sim_frame:
  assumes "lin_sim s a" "i < MACHINE_NUM" "sim_rep i e' a'" "lreps s' = (lreps s)(i := e')"
    "\<And>k. k \<noteq> i \<Longrightarrow> ts a' k = ts a k \<and> ph a' k = ph a k \<and> pend a' k = pend a k"
    "\<And>x. x \<in># lnet s' \<Longrightarrow> lin_msg_ok (snd x)" "msgs a' = image_mset wire (lnet s')" "trace a' = ltrace s'"
  shows "lin_sim s' a'"
  using assms by (auto simp: lin_sim_def sim_rep_def)

lemma wire_broadcast: "image_mset wire (broadcast N i m) = to_others N i (\<lambda>j. wire (j, m))"
  by (simp add: broadcast_def to_others_def image_mset.compositionality comp_def)

lemma sim_read:
  assumes "lin_sim s a" "i < MACHINE_NUM" "opcode op = CACHE_OP_GET"
    "lin_handler i vp (lreps s i) op r = Inr (e', op', r')"
  shows "\<exists>a'. lin_sim (s\<lparr>lreps := (lreps s)(i := e'),
      ltrace := ltrace s @ (if rtype r' = CACHE_GET_SUCCESS then [Get i (stamp_of (op_meta e'))] else [])\<rparr>) a' \<and>
    (a' = a \<or> istep MACHINE_NUM a a')"
proof -
  let ?e = "lreps s i"
  have sr: "sim_rep i ?e a" using assms(1,2) by (simp add: lin_sim_def)
  then have obj: "lin_obj ?e" by (simp add: sim_rep_def lin_rep_ok_def)
  have e': "e' = marked ?e" and rt: "rtype r' = CACHE_GET_SUCCESS \<longleftrightarrow> state (op_meta ?e) = VALID_STATE"
    using assms(3,4) lin_get_ok[OF obj] by (auto simp: lin_handler_def split: if_splits)
  have sr': "sim_rep i e' a" using sr obj by (simp add: e' sim_rep_def lin_rep_ok_def marked_obj)
  show ?thesis
  proof (cases "state (op_meta ?e) = VALID_STATE")
    case True
    let ?a = "a\<lparr>trace := trace a @ [Get i (ts a i)]\<rparr>"
    have v: "ph a i = Valid" "ts a i = stamp_of (op_meta ?e)"
      using sr True by (auto simp: sim_rep_def phase_of_def eff_def stamp_of_def writing_def)
    have "e' = ?e" using True by (simp add: e' marked_def set_state_same)
    with assms(1) rt True v have "lin_sim (s\<lparr>lreps := (lreps s)(i := e'),
      ltrace := ltrace s @ (if rtype r' = CACHE_GET_SUCCESS then [Get i (stamp_of (op_meta e'))] else [])\<rparr>) ?a"
      by (auto simp: lin_sim_def sim_rep_def)
    with i_read[OF assms(2) v(1)] show ?thesis by blast
  next
    case False
    with assms(1) rt sr' show ?thesis by (intro exI[of _ a]) (auto simp: lin_sim_def)
  qed
qed

lemma phase_of_written:
  "phase_of (lin_written op e) = Writing" "pending_acks (op_meta (lin_written op e)) = of_nat (MACHINE_NUM - 1)"
  by (simp_all add: phase_of_def lin_written_def writing_def)

lemma sim_write:
  assumes "lin_sim s a" "i < MACHINE_NUM" "opcode op = CACHE_OP_PUT" "length (value op) = MICA_MAX_VALUE"
    "unat (version (op_meta (lreps s i))) + 2 < 2 ^ 32" "lin_handler i vp (lreps s i) op r = Inr (e', op', r')"
    "lreps s' = (lreps s)(i := e')"
    "lnet s' = lnet s + (if rtype r' = CACHE_PUT_SUCCESS then broadcast MACHINE_NUM i (inv_msg i op') else {#})"
    "ltrace s' = ltrace s @ (if rtype r' = CACHE_PUT_SUCCESS then [Start i (stamp_of (op_meta (inv_msg i op')))] else [])"
  shows "\<exists>a'. lin_sim s' a' \<and> (a' = a \<or> istep MACHINE_NUM a a')"
proof -
  let ?e = "lreps s i"
  have sr: "sim_rep i ?e a" using assms(1,2) by (simp add: lin_sim_def)
  then have ok: "lin_rep_ok ?e" "lin_obj ?e" by (simp_all add: sim_rep_def lin_rep_ok_def)
  have "val_len op = val_len ?e" using assms(3,6) by (auto simp: lin_handler_def lin_put_def res_simps)
  then have fit: "fits ?e op" using ok(1) assms(4) by (intro lin_fits) (simp_all add: HERD_VALUE_SIZE_eq MICA_MAX_VALUE_eq)
  note put = lin_put_ok[OF ok(2) fit, of i vp r]
  show ?thesis
  proof (cases "put_accepts op ?e")
    case False
    with put assms(3,6) have "e' = ?e" "rtype r' \<noteq> CACHE_PUT_SUCCESS"
      by (auto simp: lin_handler_def put_refusal_def split: if_splits)
    with assms(1,7-9) show ?thesis by (intro exI[of _ a]) (auto simp: lin_sim_def)
  next
    case True
    let ?t = "next_stamp (ts a i) i"
    let ?a = "a\<lparr>ts := (ts a)(i := ?t), ph := (ph a)(i := Writing), pend := (pend a)(i := MACHINE_NUM - 1),
      acked := (acked a)(i := {}), msgs := msgs a + to_others MACHINE_NUM i (\<lambda>j. Inv j ?t), trace := trace a @ [Start i ?t]\<rparr>"
    from put True assms(3,6) have e': "e' = lin_written op ?e" "rtype r' = CACHE_PUT_SUCCESS"
      and op': "op' = set_meta ((op_meta op)\<lparr>version := version (op_meta ?e) + 2, cid := of_nat i\<rparr>) (op\<lparr>opcode := CACHE_OP_BRC\<rparr>)"
      by (auto simp: lin_handler_def)
    have v: "unat (version (op_meta ?e) + 2) = unat (version (op_meta ?e)) + 2"
      using assms(5) by (subst unat_add_small) simp_all
    have t: "?t = (unat (version (op_meta ?e)) + 2, i)" using sr by (simp add: next_stamp_def sim_rep_def eff_def)
    have st: "stamp_of (op_meta (inv_msg i op')) = ?t"
      using machine_byte[OF assms(2)] v t by (simp add: op' inv_msg_def stamp_of_def)
    have w: "wire (j, inv_msg i op') = Inv j ?t" for j using st by (simp add: wire_def) (simp add: inv_msg_def)
    have "sim_rep i e' ?a"
      using ok lin_written_obj[OF ok(2) fit] t eff_written[OF assms(5), of i op] phase_of_written[of op ?e]
      by (simp add: sim_rep_def lin_rep_ok_def e'(1) machine_num)
    moreover have "lin_msg_ok (inv_msg i op')"
      using ok(2) by (simp add: lin_msg_ok_def inv_msg_def op' lin_obj_def obj_ok_def meta_ok_def)
    ultimately have "lin_sim s' ?a"
      using assms(1,7-9) e'(2) st w
      by (intro sim_frame[OF assms(1,2), of e']) (auto simp: lin_sim_def wire_broadcast)
    with i_write[OF assms(2) refl, of a] show ?thesis by blast
  qed
qed

lemma sim_inv:
  assumes "lin_sim s a" "J MACHINE_NUM a" "lnet s = add_mset (d, m) M" "opcode m = CACHE_OP_INV"
    "lin_inv_handler d vp (lreps s d) m r = Inr (e', m', r')" "lreps s' = (lreps s)(d := e')"
    "lnet s' = M + (if rtype r' = CACHE_INV_SUCCESS then {#(unat (cid (op_meta m')), ack_msg d m')#} else {#})"
    "ltrace s' = ltrace s"
  shows "\<exists>a'. lin_sim s' a' \<and> istep MACHINE_NUM a a'"
proof -
  let ?e = "lreps s d" and ?t = "stamp_of (op_meta m)"
  have msgs: "msgs a = add_mset (Inv d ?t) (image_mset wire M)"
    using assms(1,3,4) by (simp add: lin_sim_def wire_def)
  then have d: "d < MACHINE_NUM" by (intro inv_D(1)[OF assms(2), of d ?t]) simp
  have sr: "sim_rep d ?e a" using assms(1) d by (simp add: lin_sim_def)
  then have ok: "lin_rep_ok ?e" "lin_obj ?e" by (simp_all add: sim_rep_def lin_rep_ok_def)
  have ev: "even (version (op_meta m))" and M: "\<And>x. x \<in># M \<Longrightarrow> lin_msg_ok (snd x)"
    using assms(1,3,4) by (auto simp: lin_sim_def lin_msg_ok_def)
  have h: "e' = lin_invalidated d m ?e" "m' = m\<lparr>opcode := CACHE_OP_ACK\<rparr>"
    "rtype r' = CACHE_INV_SUCCESS \<longleftrightarrow> ts a d < ?t"
    using assms(4,5) lin_inv_ok[OF ok(2) ev, of d vp r] sr by (auto simp: lin_inv_handler_def sim_rep_def split: if_splits)
  show ?thesis
  proof (cases "ts a d < ?t")
    case True
    let ?a = "a\<lparr>ts := (ts a)(d := ?t), ph := (ph a)(d := Invalid), msgs := add_mset (Ack (snd ?t) d (fst ?t)) (image_mset wire M)\<rparr>"
    have "eff d (op_meta ?e) < ?t" using True sr by (simp add: sim_rep_def)
    then have "sim_rep d e' ?a"
      using sr ok lin_invalidated_obj[OF ok(2) ev, of d]
      by (auto simp: sim_rep_def lin_rep_ok_def h(1) lin_invalidated_def phase_of_def writing_def eff_def stamp_of_def)
    moreover have "wire (unat (cid (op_meta m')), ack_msg d m') = Ack (snd ?t) d (fst ?t)"
      using machine_byte[OF d] by (simp add: wire_def ack_msg_def h(2) stamp_of_def)
    moreover have "lin_msg_ok (ack_msg d m')" by (simp add: lin_msg_ok_def ack_msg_def)
    ultimately have "lin_sim s' ?a"
      using assms(1,6-8) h(3) True M
      by (intro sim_frame[OF assms(1) d, of e']) (auto simp: lin_sim_def)
    with i_inv[OF msgs True, of MACHINE_NUM] show ?thesis by blast
  next
    case False
    let ?a = "a\<lparr>msgs := image_mset wire M\<rparr>"
    have "e' = ?e" using False sr by (simp add: h(1) lin_invalidated_def sim_rep_def)
    then have "lin_sim s' ?a"
      using assms(1,6-8) h(3) False M sr
      by (intro sim_frame[OF assms(1) d, of e']) (auto simp: lin_sim_def sim_rep_def)
    with i_inv_late[OF msgs False, of MACHINE_NUM] show ?thesis by blast
  qed
qed

lemma polled_eq:
  "polled m slot =
    (if opcode m = CACHE_OP_UPD
     then slot\<lparr>key := key m, opcode := opcode m, val_len := val_len m,
       value := take HERD_VALUE_SIZE (value m) @ drop HERD_VALUE_SIZE (value slot)\<rparr>
     else slot\<lparr>key := key m, opcode := opcode m\<rparr>)"
  by (simp add: polled_def copy_op_put copy_op_get)

lemma polled_meta [simp]: "op_meta (polled m slot) = op_meta m" "opcode (polled m slot) = opcode m"
  by (simp_all add: polled_eq)

lemma sim_ack:
  assumes "lin_sim s a" "J MACHINE_NUM a" "lnet s = add_mset (d, m) M" "opcode m = CACHE_OP_ACK"
    "length (value slot) = MICA_MAX_VALUE"
    "lin_upd_ack_handler d vp (lreps s d) (polled m slot) r = Inr (e', m', r')" "lreps s' = (lreps s)(d := e')"
    "lnet s' = M + (if rtype r' = CACHE_LAST_ACK_SUCCESS then broadcast MACHINE_NUM d (lin_upd_msg d m') else {#})"
    "ltrace s' = ltrace s @ (if rtype r' = CACHE_LAST_ACK_SUCCESS then [Fin d (stamp_of (op_meta (lin_upd_msg d m')))] else [])"
  shows "\<exists>a'. lin_sim s' a' \<and> istep MACHINE_NUM a a'"
proof -
  let ?e = "lreps s d" and ?j = "unat (cid (op_meta m))" and ?v = "unat (version (op_meta m))" and ?M = "image_mset wire M"
  let ?pm = "polled m slot"
  have msgs: "msgs a = add_mset (Ack d ?j ?v) ?M" using assms(1,3,4) by (simp add: lin_sim_def wire_def)
  then have d: "d < MACHINE_NUM" by (intro ack_D(1)[OF assms(2), of d ?j ?v]) simp
  have sr: "sim_rep d ?e a" using assms(1) d by (simp add: lin_sim_def)
  then have ok: "lin_rep_ok ?e" "lin_obj ?e" by (simp_all add: sim_rep_def lin_rep_ok_def)
  have M: "\<And>x. x \<in># M \<Longrightarrow> lin_msg_ok (snd x)" using assms(1,3) by (auto simp: lin_sim_def)
  have cnt: "ack_counts ?pm ?e \<longleftrightarrow> counts a d ?v"
    using sr by (auto simp: ack_counts_def counts_def sim_rep_def phase_of_iff eff_def word_unat_eq_iff)
  have pa: "last_ack ?e \<longleftrightarrow> pend a d = 1" using sr by (simp add: last_ack_def sim_rep_def word_unat_eq_iff)
  have h: "e' = lin_acked d ?pm ?e" "m' = ?pm"
    "rtype r' = CACHE_LAST_ACK_SUCCESS \<longleftrightarrow> counts a d ?v \<and> pend a d = 1"
    using assms(4,6) lin_ack_ok[OF ok(2), of d vp ?pm r] cnt pa
    by (auto simp: lin_upd_ack_handler_def split: if_splits)
  consider (late) "\<not> counts a d ?v" | (more) "counts a d ?v" "pend a d \<noteq> 1" | (last) "counts a d ?v" "pend a d = 1" by blast
  then show ?thesis
  proof cases
    case late
    then have "e' = ?e" using cnt by (simp add: h(1) lin_acked_def)
    then have "lin_sim s' (a\<lparr>msgs := ?M\<rparr>)"
      using assms(1,7-9) h(3) late M sr
      by (intro sim_frame[OF assms(1) d, of e']) (auto simp: lin_sim_def sim_rep_def)
    with i_ack_late[OF msgs late, of MACHINE_NUM] show ?thesis by blast
  next
    case more
    let ?a = "a\<lparr>pend := (pend a)(d := pend a d - 1), acked := (acked a)(d := insert ?j (acked a d)), msgs := ?M\<rparr>"
    have w: "ph a d = Writing" using more(1) by (simp add: counts_def)
    have p: "pending_acks (op_meta ?e) \<noteq> 0"
      using acked_D(3)[OF assms(2) d w] sr by (auto simp: sim_rep_def)
    have "sim_rep d e' ?a"
      using more cnt pa sr ok lin_acked_obj[OF ok(2), of d ?pm] unat_minus_one[OF p]
      by (auto simp: sim_rep_def lin_rep_ok_def h(1) lin_acked_def phase_of_def writing_def eff_def)
    then have "lin_sim s' ?a"
      using assms(1,7-9) h(3) more M
      by (intro sim_frame[OF assms(1) d, of e']) (auto simp: lin_sim_def)
    with i_ack[OF msgs more, of MACHINE_NUM] show ?thesis by blast
  next
    case last
    let ?a = "a\<lparr>ph := (ph a)(d := Valid), pend := (pend a)(d := 0), acked := (acked a)(d := insert ?j (acked a d)),
      msgs := ?M + to_others MACHINE_NUM d (\<lambda>k. Upd k (ts a d)), trace := trace a @ [Fin d (ts a d)]\<rparr>"
    have wr: "writing (op_meta ?e)" "version (op_meta ?e) = version (op_meta m)"
      using last(1) cnt by (auto simp: ack_counts_def)
    have st: "stamp_of (op_meta (lin_upd_msg d m')) = ts a d"
      using machine_byte[OF d] wr sr by (simp add: lin_upd_msg_def h(2) stamp_of_def sim_rep_def eff_def)
    have w: "wire (k, lin_upd_msg d m') = Upd k (ts a d)" for k
      using st by (simp add: wire_def) (simp add: lin_upd_msg_def)
    have "sim_rep d e' ?a"
      using last cnt pa sr ok wr lin_acked_obj[OF ok(2), of d ?pm] machine_byte[OF d]
      by (auto simp: sim_rep_def lin_rep_ok_def h(1) lin_acked_def phase_of_def writing_def eff_def)
    moreover have "lin_msg_ok (lin_upd_msg d m')"
      using assms(4,5) by (simp add: lin_msg_ok_def lin_upd_msg_def h(2) polled_eq HERD_VALUE_SIZE_eq MICA_MAX_VALUE_eq)
    ultimately have "lin_sim s' ?a"
      using assms(1,7-9) h(3) last M st w
      by (intro sim_frame[OF assms(1) d, of e']) (auto simp: lin_sim_def wire_broadcast)
    with i_last_ack[OF msgs last, of MACHINE_NUM] show ?thesis by blast
  qed
qed

lemma sim_upd:
  assumes "lin_sim s a" "J MACHINE_NUM a" "lnet s = add_mset (d, m) M" "opcode m = CACHE_OP_UPD"
    "length (value slot) = MICA_MAX_VALUE"
    "lin_upd_ack_handler d vp (lreps s d) (polled m slot) r = Inr (e', m', r')" "lreps s' = (lreps s)(d := e')"
    "lnet s' = M" "ltrace s' = ltrace s"
  shows "\<exists>a'. lin_sim s' a' \<and> istep MACHINE_NUM a a'"
proof -
  let ?e = "lreps s d" and ?t = "stamp_of (op_meta m)" and ?M = "image_mset wire M" and ?pm = "polled m slot"
  have msgs: "msgs a = add_mset (Upd d ?t) ?M" using assms(1,3,4) by (simp add: lin_sim_def wire_def)
  then have d: "d < MACHINE_NUM" by (intro upd_dest[OF assms(2), of d ?t]) simp
  have sr: "sim_rep d ?e a" using assms(1) d by (simp add: lin_sim_def)
  then have ok: "lin_rep_ok ?e" "lin_obj ?e" by (simp_all add: sim_rep_def lin_rep_ok_def)
  have M: "\<And>x. x \<in># M \<Longrightarrow> lin_msg_ok (snd x)" and m: "lin_msg_ok m" using assms(1,3) by (auto simp: lin_sim_def)
  have fit: "fits ?e ?pm"
    using m ok(1) assms(4,5) by (intro lin_fits) (auto simp: lin_msg_ok_def polled_eq lin_rep_ok_def MICA_MAX_VALUE_eq HERD_VALUE_SIZE_eq)
  have match: "upd_matches ?pm ?e \<longleftrightarrow> ts a d = ?t \<and> ph a d = Invalid"
    using sr ok(2) by (auto simp: upd_matches_def sim_rep_def phase_of_iff eff_not_writing invalid_def writing_def)
  have e': "e' = lin_updated ?pm ?e"
    using assms(4,6) lin_upd_ok[OF ok(2) fit, of vp r] by (auto simp: lin_upd_ack_handler_def)
  show ?thesis
  proof (cases "ts a d = ?t \<and> ph a d = Invalid")
    case True
    let ?a = "a\<lparr>ph := (ph a)(d := Valid), msgs := ?M\<rparr>"
    have "sim_rep d e' ?a"
      using sr ok lin_updated_obj[OF ok(2) fit] True match eff_updated[of d ?pm ?e]
      by (auto simp: sim_rep_def lin_rep_ok_def e' lin_updated_def phase_of_def)
    then have "lin_sim s' ?a"
      using assms(1,7-9) M by (intro sim_frame[OF assms(1) d, of e']) (auto simp: lin_sim_def)
    with i_upd[OF msgs, of MACHINE_NUM] True show ?thesis by blast
  next
    case False
    then have "e' = ?e" using match by (auto simp: e' lin_updated_def)
    then have "lin_sim s' (a\<lparr>msgs := ?M\<rparr>)"
      using assms(1,7-9) M sr by (intro sim_frame[OF assms(1) d, of e']) (auto simp: lin_sim_def sim_rep_def)
    with i_upd_late[OF msgs False, of MACHINE_NUM] show ?thesis by blast
  qed
qed

lemma lin_simulates:
  assumes "lin_sim s a" "J MACHINE_NUM a" "lin_step s s'"
  shows "\<exists>a'. lin_sim s' a' \<and> (a' = a \<or> istep MACHINE_NUM a a')"
  using assms(3)
proof cases
  case (lin_read i op vp r e' op' r')
  from sim_read[OF assms(1) lin_read(2-4)] show ?thesis unfolding lin_read(1) by simp
next
  case (lin_write i op vp r e' op' r')
  from sim_write[OF assms(1) lin_write(2-6), of s'] show ?thesis using lin_write(1) by simp
next
  case (lin_inval d m M vp r e' m' r')
  from sim_inv[OF assms(1,2) lin_inval(2-4), of s'] show ?thesis using lin_inval(1) by auto
next
  case (lin_acks d m M slot vp r e' m' r')
  from sim_ack[OF assms(1,2) lin_acks(2-5), of s'] show ?thesis using lin_acks(1) by auto
next
  case (lin_upds d m M slot vp r e' m' r')
  from sim_upd[OF assms(1,2) lin_upds(2-5), of s'] show ?thesis using lin_upds(1) by auto
qed

section \<open>Reachable states\<close>

text \<open>An object as the initialisation of the caches leaves it.\<close>

definition lin_object :: "cache_op \<Rightarrow> bool" where
  "lin_object e \<longleftrightarrow> lin_rep_ok e \<and> stamp_of (op_meta e) = (0, 0) \<and> state (op_meta e) = VALID_STATE \<and>
     pending_acks (op_meta e) = 0"

definition lin_reachable :: "cache_op \<Rightarrow> lin_sys \<Rightarrow> bool" where
  "lin_reachable e s \<longleftrightarrow> lin_object e \<and> lin_step\<^sup>*\<^sup>* (lin_start e) s"

definition lin_good :: "lin_sys \<Rightarrow> isys \<Rightarrow> bool" where
  "lin_good s a \<longleftrightarrow> lin_sim s a \<and> J MACHINE_NUM a"

lemma lin_start_good:
  assumes "lin_object e"
  shows "lin_good (lin_start e) istart"
proof -
  have "eff i (op_meta e) = (0, 0)" for i
    using assms by (simp add: lin_object_def eff_def stamp_of_def writing_def)
  moreover have "phase_of e = Valid" using assms by (simp add: lin_object_def phase_of_def)
  moreover have "J MACHINE_NUM istart" by (rule istart_J) (simp add: machine_num)
  ultimately show ?thesis
    using assms by (auto simp: lin_good_def lin_sim_def sim_rep_def lin_start_def istart_def lin_object_def)
qed

lemma lin_good_step: "lin_good s a \<Longrightarrow> lin_step s s' \<Longrightarrow> \<exists>a'. lin_good s' a' \<and> (istep MACHINE_NUM)\<^sup>*\<^sup>* a a'"
  unfolding lin_good_def using lin_simulates[of s a s'] J_step by blast

lemma lin_good_steps:
  assumes "lin_step\<^sup>*\<^sup>* s s'" "lin_good s a"
  shows "\<exists>a'. lin_good s' a' \<and> (istep MACHINE_NUM)\<^sup>*\<^sup>* a a'"
  using assms
proof (induction rule: rtranclp_induct)
  case (step y z)
  then obtain b where b: "lin_good y b" "(istep MACHINE_NUM)\<^sup>*\<^sup>* a b" by blast
  from lin_good_step[OF b(1) step.hyps(2)] b(2) show ?case by (meson rtranclp_trans)
qed blast

lemma lin_reachable_good:
  assumes "lin_reachable e s"
  obtains a where "lin_good s a" "(istep MACHINE_NUM)\<^sup>*\<^sup>* istart a"
proof -
  from assms have e: "lin_object e" "lin_step\<^sup>*\<^sup>* (lin_start e) s" by (simp_all add: lin_reachable_def)
  from lin_good_steps[OF e(2) lin_start_good[OF e(1)]] show ?thesis using that by blast
qed

lemma good_rep:
  assumes "lin_good s a" "i < MACHINE_NUM"
  shows "lin_rep_ok (lreps s i)" "lin_obj (lreps s i)" "ts a i = eff i (op_meta (lreps s i))"
    "ph a i = phase_of (lreps s i)"
  using assms by (simp_all add: lin_good_def lin_sim_def sim_rep_def lin_rep_ok_def)

section \<open>Delivery\<close>

text \<open>Every message in flight can be delivered: its handler neither aborts nor spins.\<close>

definition blank :: cache_op where
  "blank = \<lparr>key = \<lparr>meta = \<lparr>state = 0, pending_acks = 0, cid = 0, lock = 0, version = 0\<rparr>, bkt = 0, server = 0, tag = 0\<rparr>,
     opcode = 0, val_len = 0, value = replicate MICA_MAX_VALUE 0\<rparr>"

definition reply0 :: mica_resp where
  "reply0 = \<lparr>rtype = EMPTY, rval_len = 0, val_ptr = None\<rparr>"

lemma wire_dest:
  assumes "J MACHINE_NUM a" "wire (d, m) \<in># msgs a"
  shows "d < MACHINE_NUM"
  using assms(2) inv_D(1)[OF assms(1), of d] ack_D(1)[OF assms(1), of d] upd_dest[OF assms(1), of d]
  by (auto simp: wire_def split: if_splits)

lemma delivered:
  assumes "lin_good s a" "lin_step s s'" "\<exists>a'. lin_sim s' a' \<and> istep MACHINE_NUM a a'"
    "ltrace s' = ltrace s \<or> (\<exists>i t. ltrace s' = ltrace s @ [Fin i t])"
  shows "\<exists>s'. lin_step s s' \<and> (\<exists>a'. lin_good s' a' \<and> load MACHINE_NUM a' < load MACHINE_NUM a)"
proof -
  from assms(3) obtain a' where a': "lin_sim s' a'" "istep MACHINE_NUM a a'" by blast
  have "trace a' = ltrace s'" "trace a = ltrace s" using a'(1) assms(1) by (simp_all add: lin_sim_def lin_good_def)
  with assms(4) have "load MACHINE_NUM a' < load MACHINE_NUM a" by (intro load_decreases[OF a'(2)]) auto
  with assms(1,2) a' J_step[OF a'(2)] show ?thesis by (auto simp: lin_good_def)
qed

lemma deliver_any:
  assumes "lin_good s a" "lnet s = add_mset (d, m) M"
  shows "\<exists>s'. lin_step s s' \<and> (\<exists>a'. lin_good s' a' \<and> load MACHINE_NUM a' < load MACHINE_NUM a)"
proof -
  have sim: "lin_sim s a" and inv: "J MACHINE_NUM a" using assms(1) by (simp_all add: lin_good_def)
  have ok: "lin_msg_ok m" and w: "wire (d, m) \<in># msgs a" using sim assms(2) by (auto simp: lin_sim_def)
  have d: "d < MACHINE_NUM" by (rule wire_dest[OF inv w])
  note rep = good_rep[OF assms(1) d]
  have bl: "length (value blank) = MICA_MAX_VALUE" by (simp add: blank_def)
  note fin = delivered[OF assms(1)]
  consider "opcode m = CACHE_OP_INV" "even (version (op_meta m))" | "opcode m = CACHE_OP_ACK"
    | "opcode m = CACHE_OP_UPD" "val_len m = lin_len" "length (value m) = HERD_VALUE_SIZE"
    using ok by (auto simp: lin_msg_ok_def)
  then show ?thesis
  proof cases
    case 1
    have h: "lin_inv_handler d 0 (lreps s d) m reply0 = lin_inv d 0 (lreps s d) m reply0" using 1 by (simp add: lin_inv_handler_def)
    note st = h[unfolded lin_inv_ok[OF rep(2) 1(2)]]
    show ?thesis
      by (rule fin[OF lin_inval[OF assms(2) 1(1) st] sim_inv[OF sim inv assms(2) 1(1) st]]) simp_all
  next
    case 2
    have "lin_upd_ack_handler d 0 (lreps s d) (polled m blank) reply0 = lin_ack d 0 (lreps s d) (polled m blank) reply0"
      using 2 by (simp add: lin_upd_ack_handler_def)
    note st = this[unfolded lin_ack_ok[OF rep(2)]]
    show ?thesis
      by (rule fin[OF lin_acks[OF assms(2) 2 bl st] sim_ack[OF sim inv assms(2) 2 bl st]]) auto
  next
    case 3
    have "fits (lreps s d) (polled m blank)"
      using 3 rep(1) by (intro lin_fits) (auto simp: polled_eq lin_rep_ok_def)
    then have st: "lin_upd_ack_handler d 0 (lreps s d) (polled m blank) reply0 = Inr (lin_updated (polled m blank) (lreps s d),
      polled m blank, reply0\<lparr>rtype := (if upd_matches (polled m blank) (lreps s d) then CACHE_UPD_SUCCESS else CACHE_UPD_FAIL)\<rparr>)"
      using 3(1) by (simp add: lin_upd_ack_handler_def lin_upd_ok[OF rep(2)])
    show ?thesis
      by (rule fin[OF lin_upds[OF assms(2) 3(1) bl st] sim_upd[OF sim inv assms(2) 3(1) bl st]]) simp_all
  qed
qed

lemma lin_drain:
  assumes "lin_good s a"
  shows "\<exists>s' a'. lin_step\<^sup>*\<^sup>* s s' \<and> lin_good s' a' \<and> lnet s' = {#}"
  using assms
proof (induction "load MACHINE_NUM a" arbitrary: s a rule: less_induct)
  case less
  show ?case
  proof (cases "lnet s = {#}")
    case False
    then obtain x M where "lnet s = add_mset x M" by (meson multiset_cases)
    then obtain d m where "lnet s = add_mset (d, m) M" by (cases x) auto
    from deliver_any[OF less.prems this] obtain s1 a1 where s1: "lin_step s s1" "lin_good s1 a1"
      "load MACHINE_NUM a1 < load MACHINE_NUM a" by blast
    from less.hyps[OF s1(3,2)] s1(1) show ?thesis by (meson converse_rtranclp_into_rtranclp)
  qed (use less.prems in blast)
qed

end
