(* ===== verification/LIN_System_Correct.thy ===== *)
theory LIN_System_Correct
  imports LIN_System SC_System_Correct
begin

text \<open>
  The correctness of the linearizable protocol: its timestamps are linearizable, it
  refines the abstract invalidation protocol, valid replicas agree, it
  comes to rest with every write complete; and what its updates carry as values.
\<close>

section \<open>A run\<close>

text \<open>Machine 0 writes; the others are invalidated and acknowledge; the update reaches
  machine 1.\<close>

definition run_op :: cache_op where
  "run_op = set_meta ((op_meta demo_write)\<lparr>version := version (op_meta demo_obj) + 2, cid := of_nat 0\<rparr>)
     (demo_write\<lparr>opcode := CACHE_OP_BRC\<rparr>)"

definition run_inv :: cache_op where
  "run_inv = inv_msg 0 run_op"

definition run_ack :: "nat \<Rightarrow> cache_op" where
  "run_ack d = ack_msg d (run_inv\<lparr>opcode := CACHE_OP_ACK\<rparr>)"

definition run_upd :: cache_op where
  "run_upd = lin_upd_msg 0 (polled (run_ack 3) blank)"

definition run_w :: "nat \<Rightarrow> cache_op" where
  "run_w p = (let w = lin_written demo_write demo_obj in set_meta ((op_meta w)\<lparr>pending_acks := of_nat p\<rparr>) w)"

definition run_done :: cache_op where
  "run_done = (let w = lin_written demo_write demo_obj in
     set_meta ((op_meta w)\<lparr>state := VALID_STATE, cid := 0, pending_acks := 0\<rparr>) w)"

definition run_x :: cache_op where
  "run_x = set_meta ((op_meta demo_obj)\<lparr>state := INVALID_STATE, cid := 0, version := 2\<rparr>) demo_obj"

definition run_y :: cache_op where
  "run_y = set_meta ((op_meta demo_obj)\<lparr>state := VALID_STATE, cid := 0, version := 2\<rparr>)
     (demo_obj\<lparr>value := replicate 32 0\<rparr>)"

lemmas run_defs = run_op_def run_inv_def run_ack_def run_upd_def run_w_def run_done_def run_x_def run_y_def
  demo_write_def stored_def demo_op_def demo_meta_def inv_msg_def ack_msg_def lin_upd_msg_def lin_written_def
  polled_eq blank_def set_meta_def

lemma demo_lin_object: "lin_object demo_obj"
  using demo_lin_obj by (simp add: lin_object_def lin_rep_ok_def stored_def demo_op_def demo_meta_def stamp_of_def config)

lemma run_write: "lin_step (lin_start demo_obj) \<lparr>lreps = (\<lambda>_. demo_obj)(0 := run_w 3),
   lnet = {#(1, run_inv), (2, run_inv), (3, run_inv)#}, ltrace = [Start 0 (2, 0)]\<rparr>"
proof -
  have fit: "fits demo_obj demo_write" by (simp add: fits_def demo_write_def stored_def demo_op_def)
  have acc: "put_accepts demo_write demo_obj" by (simp add: put_accepts_def stored_def demo_op_def demo_meta_def)
  have h: "lin_handler 0 0 demo_obj demo_write reply0 =
    Inr (lin_written demo_write demo_obj, run_op, reply0\<lparr>rval_len := 0, val_ptr := None, rtype := CACHE_PUT_SUCCESS\<rparr>)"
    using lin_put_ok[OF demo_lin_obj fit, of 0 0 reply0] acc
    by (simp add: lin_handler_def run_op_def) (simp add: demo_write_def demo_op_def)
  have b: "broadcast MACHINE_NUM 0 (inv_msg 0 run_op) = {#(1, run_inv), (2, run_inv), (3, run_inv)#}"
    by (simp add: broadcast_def machine_num run_inv_def upt_rec numeral_2_eq_2 numeral_3_eq_3)
  have w: "lin_written demo_write demo_obj = run_w 3" by (simp add: run_defs machine_num)
  have t: "stamp_of (op_meta (inv_msg 0 run_op)) = (2, 0)" by (simp add: run_defs stamp_of_def)
  show ?thesis
    using lin_write[of 0 demo_write "lin_start demo_obj" 0 reply0 _ run_op] h b w t
    by (simp add: lin_start_def machine_num demo_write_def demo_op_def MICA_MAX_VALUE_eq stored_def demo_meta_def)
qed

lemma run_inval:
  assumes "f d = demo_obj"
  shows "lin_step \<lparr>lreps = f, lnet = add_mset (d, run_inv) M, ltrace = tr\<rparr>
    \<lparr>lreps = f(d := run_x), lnet = add_mset (0, run_ack d) M, ltrace = tr\<rparr>"
proof -
  let ?s = "\<lparr>lreps = f, lnet = add_mset (d, run_inv) M, ltrace = tr\<rparr>"
  have oc: "opcode run_inv = CACHE_OP_INV" "even (version (op_meta run_inv))" by (simp_all add: run_defs)
  have late: "eff d (op_meta demo_obj) < stamp_of (op_meta run_inv)"
    by (simp add: run_defs eff_def writing_def stamp_of_def)
  have x: "lin_invalidated d run_inv demo_obj = run_x"
    using late by (simp add: lin_invalidated_def replaying_def) (simp add: run_defs)
  have h: "lin_inv_handler d 0 (lreps ?s d) run_inv reply0 =
    Inr (run_x, run_inv\<lparr>opcode := CACHE_OP_ACK\<rparr>, reply0\<lparr>rtype := CACHE_INV_SUCCESS\<rparr>)"
    using lin_inv_ok[OF demo_lin_obj oc(2), of d 0 reply0] late assms oc(1) x by (simp add: lin_inv_handler_def)
  have c: "unat (cid (op_meta (run_inv\<lparr>opcode := CACHE_OP_ACK\<rparr>))) = 0" by (simp add: run_defs)
  show ?thesis using lin_inval[OF _ oc(1) h, of M] c by (simp add: run_ack_def)
qed

lemma run_ack_step:
  assumes "f 0 = run_w p" "p = 2 \<and> q = 1 \<or> p = 3 \<and> q = 2"
  shows "lin_step \<lparr>lreps = f, lnet = add_mset (0, run_ack d) M, ltrace = tr\<rparr>
    \<lparr>lreps = f(0 := run_w q), lnet = M, ltrace = tr\<rparr>"
proof -
  let ?s = "\<lparr>lreps = f, lnet = add_mset (0, run_ack d) M, ltrace = tr\<rparr>" and ?m = "polled (run_ack d) blank"
  have oc: "opcode (run_ack d) = CACHE_OP_ACK" by (simp add: run_defs)
  have obj: "lin_obj (run_w p)"
    by (simp add: run_defs lin_obj_def obj_ok_def entry_wf_def meta_ok_def writing_def)
  have cnt: "ack_counts ?m (run_w p)" "\<not> last_ack (run_w p)" "lin_acked 0 ?m (run_w p) = run_w q"
    using assms(2) by (auto simp: run_defs ack_counts_def writing_def last_ack_def lin_acked_def)
  have h: "lin_upd_ack_handler 0 0 (lreps ?s 0) ?m reply0 = Inr (run_w q, ?m, reply0\<lparr>rtype := CACHE_ACK_SUCCESS\<rparr>)"
    using lin_ack_ok[OF obj, of 0 0 ?m reply0] cnt assms(1) oc by (simp add: lin_upd_ack_handler_def)
  show ?thesis using lin_acks[OF _ oc _ h, of M] by (simp add: blank_def)
qed

lemma run_last_ack:
  assumes "f 0 = run_w 1"
  shows "lin_step \<lparr>lreps = f, lnet = add_mset (0, run_ack 3) M, ltrace = tr\<rparr>
    \<lparr>lreps = f(0 := run_done), lnet = M + {#(1, run_upd), (2, run_upd), (3, run_upd)#}, ltrace = tr @ [Fin 0 (2, 0)]\<rparr>"
proof -
  let ?s = "\<lparr>lreps = f, lnet = add_mset (0, run_ack 3) M, ltrace = tr\<rparr>" and ?m = "polled (run_ack 3) blank"
  have oc: "opcode (run_ack 3) = CACHE_OP_ACK" by (simp add: run_defs)
  have obj: "lin_obj (run_w 1)"
    by (simp add: run_defs lin_obj_def obj_ok_def entry_wf_def meta_ok_def writing_def)
  have cnt: "ack_counts ?m (run_w 1)" "last_ack (run_w 1)" "lin_acked 0 ?m (run_w 1) = run_done"
    by (auto simp: run_defs ack_counts_def writing_def last_ack_def lin_acked_def)
  have h: "lin_upd_ack_handler 0 0 (lreps ?s 0) ?m reply0 = Inr (run_done, ?m, reply0\<lparr>rtype := CACHE_LAST_ACK_SUCCESS\<rparr>)"
    using lin_ack_ok[OF obj, of 0 0 ?m reply0] cnt assms(1) oc by (simp add: lin_upd_ack_handler_def)
  have b: "broadcast MACHINE_NUM 0 (lin_upd_msg 0 ?m) = {#(1, run_upd), (2, run_upd), (3, run_upd)#}"
    by (simp add: broadcast_def machine_num run_upd_def upt_rec numeral_2_eq_2 numeral_3_eq_3)
  have t: "stamp_of (op_meta (lin_upd_msg 0 ?m)) = (2, 0)" by (simp add: run_defs stamp_of_def)
  show ?thesis using lin_acks[OF _ oc _ h, of M] b t by (simp add: blank_def)
qed

lemma run_upds:
  assumes "f d = run_x"
  shows "lin_step \<lparr>lreps = f, lnet = add_mset (d, run_upd) M, ltrace = tr\<rparr>
    \<lparr>lreps = f(d := run_y), lnet = M, ltrace = tr\<rparr>"
proof -
  let ?s = "\<lparr>lreps = f, lnet = add_mset (d, run_upd) M, ltrace = tr\<rparr>" and ?m = "polled run_upd blank"
  have oc: "opcode run_upd = CACHE_OP_UPD" by (simp add: run_defs)
  have obj: "lin_obj run_x"
    by (simp add: run_defs lin_obj_def obj_ok_def entry_wf_def meta_ok_def invalid_def)
  have fit: "fits run_x ?m" by (simp add: fits_def run_defs config)
  have mt: "upd_matches ?m run_x" by (simp add: upd_matches_def run_defs stamp_of_def invalid_def)
  have y: "lin_updated ?m run_x = run_y"
    using mt by (simp add: lin_updated_def) (simp add: run_defs config)
  have h: "lin_upd_ack_handler d 0 (lreps ?s d) ?m reply0 = Inr (run_y, ?m, reply0\<lparr>rtype := CACHE_UPD_SUCCESS\<rparr>)"
    using lin_upd_ok[OF obj fit, of 0 reply0] mt y assms oc by (simp add: lin_upd_ack_handler_def)
  show ?thesis using lin_upds[OF _ oc _ h, of M] by (simp add: blank_def)
qed

lemmas lin_one = r_into_rtranclp[of lin_step] and lin_more = rtranclp.rtrancl_into_rtrancl[of lin_step]

lemma lin_run:
  obtains s1 s2 where "lin_reachable demo_obj s1" "lnet s1 \<noteq> {#}" "lin_step\<^sup>*\<^sup>* s1 s2" "lin_reachable demo_obj s2"
    "lnet s2 = {#}" "ltrace s2 = [Start 0 (2, 0), Fin 0 (2, 0)]" "lreps s2 0 = run_done" "lreps s2 1 = run_y"
proof -
  let ?f = "(\<lambda>_. demo_obj)(0 := run_w 3)"
  let ?s1 = "\<lparr>lreps = ?f, lnet = {#(1, run_inv), (2, run_inv), (3, run_inv)#}, ltrace = [Start 0 (2, 0)]\<rparr>"
  let ?tr = "[Start 0 (2, 0)]" and ?i2 = "{#(2, run_inv), (3, run_inv)#}" and ?i3 = "{#(3, run_inv)#}"
  let ?u2 = "{#(2, run_upd), (3, run_upd)#}" and ?u3 = "{#(3, run_upd)#}"
  let ?f1 = "?f(1 := run_x)" and ?f2 = "?f(1 := run_x, 0 := run_w 2, 2 := run_x)"
  let ?f3 = "?f2(0 := run_w 1, 3 := run_x)" and ?h = "?f2(0 := run_w 1, 3 := run_x, 0 := run_done)"
  let ?S = "\<lambda>f M. \<lparr>lreps = f, lnet = M, ltrace = ?tr\<rparr>" and ?E = "\<lambda>f M. \<lparr>lreps = f, lnet = M, ltrace = ?tr @ [Fin 0 (2, 0)]\<rparr>"
  have a1: "lin_step ?s1 (?S ?f1 (add_mset (0, run_ack 1) ?i2))" by (rule run_inval) simp
  have a2: "lin_step (?S ?f1 (add_mset (0, run_ack 1) ?i2)) (?S (?f1(0 := run_w 2)) ?i2)" by (rule run_ack_step[of _ 3]) simp_all
  have a3: "lin_step (?S (?f1(0 := run_w 2)) ?i2) (?S ?f2 (add_mset (0, run_ack 2) ?i3))" by (rule run_inval) simp
  have a4: "lin_step (?S ?f2 (add_mset (0, run_ack 2) ?i3)) (?S (?f2(0 := run_w 1)) ?i3)" by (rule run_ack_step[of _ 2]) simp_all
  have a5: "lin_step (?S (?f2(0 := run_w 1)) ?i3) (?S ?f3 {#(0, run_ack 3)#})" by (rule run_inval) simp
  have a6: "lin_step (?S ?f3 {#(0, run_ack 3)#}) (?E ?h (add_mset (1, run_upd) ?u2))" using run_last_ack[of ?f3 "{#}" ?tr] by simp
  have a7: "lin_step (?E ?h (add_mset (1, run_upd) ?u2)) (?E (?h(1 := run_y)) ?u2)" by (rule run_upds) simp
  have a8: "lin_step (?E (?h(1 := run_y)) ?u2) (?E (?h(1 := run_y, 2 := run_y)) ?u3)" by (rule run_upds) simp
  have a9: "lin_step (?E (?h(1 := run_y, 2 := run_y)) ?u3) (?E (?h(1 := run_y, 2 := run_y, 3 := run_y)) {#})" by (rule run_upds) simp
  note r = lin_one[OF a1]
  note r = lin_more[OF r a2]
  note r = lin_more[OF r a3]
  note r = lin_more[OF r a4]
  note r = lin_more[OF r a5]
  note r = lin_more[OF r a6]
  note r = lin_more[OF r a7]
  note r = lin_more[OF r a8]
  note r = lin_more[OF r a9]
  let ?s2 = "?E (?h(1 := run_y, 2 := run_y, 3 := run_y)) {#}"
  have r1: "lin_reachable demo_obj ?s1" using run_write demo_lin_object lin_one[of "lin_start demo_obj" ?s1]
    unfolding lin_reachable_def by blast
  with r have r2: "lin_reachable demo_obj ?s2" unfolding lin_reachable_def by (meson rtranclp_trans)
  have v: "lreps ?s2 0 = run_done" "lreps ?s2 1 = run_y"
    by (simp_all only: lin_sys.select_convs fun_upd_def) simp_all
  show ?thesis by (rule that[OF r1 _ r r2 _ _ v]) simp_all
qed

section \<open>Properties\<close>

text \<open>Property C3: the protocol is linearizable in its timestamps.  In every reachable state, under any
  interleaving of reads, writes and deliveries and any reordering of the messages in
  flight, the reads and writes so far can be put into one order in which every read
  returns the timestamp of the last write before it, and in which an operation
  that had ended (a write when all acknowledgements have arrived) before another began comes
  before it.\<close>

theorem lin_linearizable:
  assumes "lin_reachable e s"
  shows "linearizable (ltrace s)"
proof -
  obtain a where "lin_good s a" by (rule lin_reachable_good[OF assms])
  then show ?thesis using J_linearizable[of MACHINE_NUM a] by (simp add: lin_good_def lin_sim_def)
qed

theorem lin_linearizable_witness:
  "\<exists>s. lin_reachable demo_obj s \<and> ltrace s = [Start 0 (2, 0), Fin 0 (2, 0)] \<and> linearizable (ltrace s)"
proof -
  obtain s1 s2 where "lin_reachable demo_obj s2" "ltrace s2 = [Start 0 (2, 0), Fin 0 (2, 0)]" by (rule lin_run)
  with lin_linearizable[of demo_obj s2] show ?thesis by blast
qed

text \<open>Property C4: the caches implement the abstract invalidation protocol.  Every step of the
  cluster, with its packed metadata, its five object states and its wire messages, is
  a step of the abstract protocol with three phases and unbounded timestamps, or
  leaves the abstract state unchanged.\<close>

theorem lin_refines_invalidation:
  assumes "lin_reachable e s" "lin_step s s'"
  shows "\<exists>a a'. (istep MACHINE_NUM)\<^sup>*\<^sup>* istart a \<and> lin_sim s a \<and> lin_sim s' a' \<and> (a' = a \<or> istep MACHINE_NUM a a')"
proof -
  obtain a where "lin_good s a" "(istep MACHINE_NUM)\<^sup>*\<^sup>* istart a" by (rule lin_reachable_good[OF assms(1)])
  with lin_simulates[of s a s'] assms(2) show ?thesis unfolding lin_good_def by blast
qed

theorem lin_refines_invalidation_witness:
  "\<exists>s' a a'. lin_step (lin_start demo_obj) s' \<and> lin_sim (lin_start demo_obj) a \<and> lin_sim s' a' \<and>
     (a' = a \<or> istep MACHINE_NUM a a')"
proof -
  have "lin_reachable demo_obj (lin_start demo_obj)" using demo_lin_object by (simp add: lin_reachable_def)
  from lin_refines_invalidation[OF this run_write] run_write show ?thesis by blast
qed

text \<open>Property C6: replicas that can be read agree.  In every reachable state any two valid
  replicas have the same timestamp, and no replica anywhere is older than a valid one.\<close>

theorem lin_valid_replicas_agree:
  assumes "lin_reachable e s" "i < MACHINE_NUM" "j < MACHINE_NUM" "state (op_meta (lreps s i)) = VALID_STATE"
  shows "eff i (op_meta (lreps s i)) \<le> eff j (op_meta (lreps s j)) \<and>
    (state (op_meta (lreps s j)) = VALID_STATE \<longrightarrow> eff i (op_meta (lreps s i)) = eff j (op_meta (lreps s j)))"
proof -
  obtain a where a: "lin_good s a" by (rule lin_reachable_good[OF assms(1)])
  then have inv: "J MACHINE_NUM a" by (simp add: lin_good_def)
  have v: "ph a i = Valid" using good_rep(4)[OF a assms(2)] assms(4) by (simp add: phase_of_def)
  have "ph a j = Valid" if "state (op_meta (lreps s j)) = VALID_STATE"
    using good_rep(4)[OF a assms(3)] that by (simp add: phase_of_def)
  with valid_D[OF inv assms(2) v assms(3)] valid_agree[OF inv assms(2,3) v] good_rep(3)[OF a assms(2)] good_rep(3)[OF a assms(3)]
  show ?thesis by simp
qed

theorem lin_valid_replicas_agree_witness:
  "\<exists>s. lin_reachable demo_obj s \<and> ltrace s \<noteq> [] \<and> eff 0 (op_meta (lreps s 0)) = eff 1 (op_meta (lreps s 1))"
proof -
  obtain s1 s2 where s: "lin_reachable demo_obj s2" "ltrace s2 = [Start 0 (2, 0), Fin 0 (2, 0)]"
    "lreps s2 0 = run_done" "lreps s2 1 = run_y" by (rule lin_run)
  then have "state (op_meta (lreps s2 0)) = VALID_STATE" "state (op_meta (lreps s2 1)) = VALID_STATE"
    by (simp_all add: run_done_def run_y_def Let_def)
  with lin_valid_replicas_agree[OF s(1), of 0 1] s show ?thesis by (auto simp: machine_num)
qed

text \<open>Property C7: nothing is lost.  When no message is in flight, every replica is valid and all
  have the same timestamp: no write is left waiting for an acknowledgement and no replica is left
  invalid without an update on its way.\<close>

theorem lin_at_rest:
  assumes "lin_reachable e s" "lnet s = {#}" "i < MACHINE_NUM" "j < MACHINE_NUM"
  shows "state (op_meta (lreps s i)) = VALID_STATE \<and> stamp_of (op_meta (lreps s i)) = stamp_of (op_meta (lreps s j))"
proof -
  obtain a where a: "lin_good s a" by (rule lin_reachable_good[OF assms(1)])
  then have inv: "J MACHINE_NUM a" and m: "msgs a = {#}" using assms(2) by (auto simp: lin_good_def lin_sim_def)
  have v: "ph a k = Valid" if "k < MACHINE_NUM" for k by (rule at_rest(1)[OF inv m that])
  have st: "state (op_meta (lreps s k)) = VALID_STATE" if "k < MACHINE_NUM" for k
    using v[OF that] good_rep(4)[OF a that] by (simp add: phase_of_iff)
  have "ts a k = stamp_of (op_meta (lreps s k))" if "k < MACHINE_NUM" for k
    using good_rep(3)[OF a that] st[OF that] by (simp add: eff_def stamp_of_def writing_def)
  with at_rest(2)[OF inv m assms(3,4)] st assms(3,4) show ?thesis by simp
qed

theorem lin_at_rest_witness:
  "\<exists>s. lin_reachable demo_obj s \<and> ltrace s \<noteq> [] \<and> state (op_meta (lreps s 3)) = VALID_STATE \<and>
     stamp_of (op_meta (lreps s 3)) = stamp_of (op_meta (lreps s 0))"
proof -
  obtain s1 s2 where "lin_reachable demo_obj s2" "lnet s2 = {#}" "ltrace s2 = [Start 0 (2, 0), Fin 0 (2, 0)]" by (rule lin_run)
  with lin_at_rest[of demo_obj s2 3 0] show ?thesis by (auto simp: machine_num)
qed

text \<open>Property C5: every write can complete.  From every reachable state, delivering the messages
  in flight and those they cause comes to an end, no delivery on the way aborts or spins, and in the
  end every replica is valid.\<close>

theorem lin_can_complete:
  assumes "lin_reachable e s"
  shows "\<exists>s'. lin_step\<^sup>*\<^sup>* s s' \<and> lnet s' = {#} \<and> (\<forall>i. i < MACHINE_NUM \<longrightarrow> state (op_meta (lreps s' i)) = VALID_STATE)"
proof -
  obtain a where a: "lin_good s a" by (rule lin_reachable_good[OF assms])
  from lin_drain[OF this] obtain s' a' where s': "lin_step\<^sup>*\<^sup>* s s'" "lin_good s' a'" "lnet s' = {#}" by blast
  then have inv: "J MACHINE_NUM a'" "msgs a' = {#}" by (auto simp: lin_good_def lin_sim_def)
  have "state (op_meta (lreps s' i)) = VALID_STATE" if "i < MACHINE_NUM" for i
    using at_rest(1)[OF inv that] good_rep(4)[OF s'(2) that] by (simp add: phase_of_iff)
  with s'(1,3) show ?thesis by blast
qed

theorem lin_can_complete_witness:
  "\<exists>s s'. lin_reachable demo_obj s \<and> lnet s \<noteq> {#} \<and> lin_step\<^sup>*\<^sup>* s s' \<and> lnet s' = {#} \<and>
     state (op_meta (lreps s' 2)) = VALID_STATE"
proof -
  obtain s1 s2 where s: "lin_reachable demo_obj s1" "lnet s1 \<noteq> {#}" by (rule lin_run)
  from lin_can_complete[OF s(1)] obtain s' where "lin_step\<^sup>*\<^sup>* s1 s'" "lnet s' = {#}"
    "state (op_meta (lreps s' 2)) = VALID_STATE" by (auto simp: machine_num)
  with s show ?thesis by blast
qed

text \<open>Property C30: an update does not carry the value of its write.  Acknowledgements are copied into
  the buffer without a value and the buffer's slot is broadcast as the update, so the value that
  the other replicas install is what the slot held before.  There is a run after which
  no message is in flight, machines 0 and 1 are valid with the same timestamp, and their
  values differ.\<close>

theorem lin_values_diverge:
  "\<exists>s. lin_reachable demo_obj s \<and> lnet s = {#} \<and>
    state (op_meta (lreps s 0)) = VALID_STATE \<and> state (op_meta (lreps s 1)) = VALID_STATE \<and>
    stamp_of (op_meta (lreps s 0)) = stamp_of (op_meta (lreps s 1)) \<and>
    value (lreps s 0) = replicate 32 8 \<and> value (lreps s 1) = replicate 32 0"
proof -
  obtain s1 s2 where s: "lin_reachable demo_obj s2" "lnet s2 = {#}" "lreps s2 0 = run_done" "lreps s2 1 = run_y"
    by (rule lin_run)
  show ?thesis
    by (rule exI[of _ s2]) (use s in \<open>simp_all add: run_defs stamp_of_def\<close>)
qed

end
