(* ===== verification/Latency.thy ===== *)
theory Latency
  imports Cache
begin

text \<open>
  The measurement of request latencies (\<open>cache.h\<close>, \<open>main.h\<close>): one request at a time
  is tagged, its key or its position in the batch is remembered, and when it
  completes the elapsed time is counted in the histogram of its kind.  The clock is
  an argument: the operations that read it take the elapsed microseconds.
\<close>

section \<open>State\<close>

datatype req_type =
  NO_REQ | HOT_WRITE_REQ_BEFORE_SAVING_KEY | HOT_WRITE_REQ | HOT_READ_REQ | LOCAL_REQ | REMOTE_REQ

record latency_flags =
  measured_req_flag :: req_type
  last_measured_op_i :: nat
  key_to_measure :: cache_key

record latency_counters =
  remote_reqs :: "u32 list"
  local_reqs :: "u32 list"
  hot_reads :: "u32 list"
  hot_writes :: "u32 list"
  total_measurements :: int

definition IS_LOCAL :: "u8 \<Rightarrow> bool" where
  "IS_LOCAL x \<longleftrightarrow> x = LOCAL_WRITE \<or> x = LOCAL_READ"

definition IS_REMOTE :: "u8 \<Rightarrow> bool" where
  "IS_REMOTE x \<longleftrightarrow> x = REMOTE_WRITE \<or> x = REMOTE_READ"

section \<open>Histograms\<close>

text \<open>The bucket a measurement is counted in.  The division is that of C: a
  negative time would index before the array.\<close>

definition latency_bucket :: "int \<Rightarrow> int" where
  "latency_bucket useconds =
    (if useconds > int MAX_LATENCY then int LATENCY_BUCKETS
     else sgn useconds * (\<bar>useconds\<bar> div int (MAX_LATENCY div LATENCY_BUCKETS)))"

definition count_bucket :: "int \<Rightarrow> u32 list \<Rightarrow> u32 list result" where
  "count_bucket i h =
    (if 0 \<le> i \<and> nat i < length h then Inr (h[nat i := h ! nat i + 1]) else Inl Out_Of_Bounds)"

definition bookkeep_latency :: "int \<Rightarrow> req_type \<Rightarrow> latency_counters \<Rightarrow> latency_counters result" where
  "bookkeep_latency useconds rt lc =
    (let b = latency_bucket useconds; lc' = lc\<lparr>total_measurements := total_measurements lc + 1\<rparr> in
     case rt of
       REMOTE_REQ \<Rightarrow> bind_res (count_bucket b (remote_reqs lc)) (\<lambda>h. Inr (lc'\<lparr>remote_reqs := h\<rparr>))
     | LOCAL_REQ \<Rightarrow> bind_res (count_bucket b (local_reqs lc)) (\<lambda>h. Inr (lc'\<lparr>local_reqs := h\<rparr>))
     | HOT_READ_REQ \<Rightarrow> bind_res (count_bucket b (hot_reads lc)) (\<lambda>h. Inr (lc'\<lparr>hot_reads := h\<rparr>))
     | HOT_WRITE_REQ \<Rightarrow> bind_res (count_bucket b (hot_writes lc)) (\<lambda>h. Inr (lc'\<lparr>hot_writes := h\<rparr>))
     | _ \<Rightarrow> Inl Assert_Failed)"

section \<open>Tagging a request\<close>

text \<open>The request at position \<open>op_i\<close> of the batch, made from a command of the trace
  whose home is machine \<open>rm_id\<close>, is tagged when none is being measured and the
  client is the first of the first machine and has warmed up.\<close>

definition measured_kind :: "nat \<Rightarrow> nat \<Rightarrow> u8 \<Rightarrow> bool \<Rightarrow> req_type \<Rightarrow> req_type" where
  "measured_kind machine_id rm_id cmd isSC f =
    (let f1 = (if IS_LOCAL cmd then LOCAL_REQ else if IS_REMOTE cmd then REMOTE_REQ else f) in
     if DISABLE_CACHE = 0 then
       (if cmd = HOT_WRITE then (if isSC then HOT_WRITE_REQ_BEFORE_SAVING_KEY else HOT_WRITE_REQ)
        else if cmd = HOT_READ then HOT_READ_REQ else f1)
     else if cmd = HOT_WRITE \<or> cmd = HOT_READ
       then (if rm_id = machine_id then LOCAL_REQ else REMOTE_REQ) else f1)"

definition start_measurement ::
  "nat \<Rightarrow> int \<Rightarrow> nat \<Rightarrow> nat \<Rightarrow> u8 \<Rightarrow> bool \<Rightarrow> nat \<Rightarrow> latency_flags \<times> cache_op \<Rightarrow> (latency_flags \<times> cache_op) result" where
  "start_measurement machine_id batches clt rm_id cmd isSC op_i = (\<lambda>(li, op).
     assert_res (ENABLE_ASSERTIONS = 0 \<or> state (op_meta op) = 0)
      (if measured_req_flag li = NO_REQ \<and> batches > int K_32 \<and> clt = 0 \<and> machine_id = 0 then
         (let f = measured_kind machine_id rm_id cmd isSC NO_REQ;
              li' = li\<lparr>measured_req_flag := f, last_measured_op_i := op_i\<rparr> in
          assert_res (ENABLE_ASSERTIONS = 0 \<or> f \<noteq> NO_REQ)
           (Inr (li', if f = REMOTE_REQ then set_meta ((op_meta op)\<lparr>state := 1\<rparr>) op else op)))
       else Inr (li, op)))"

section \<open>Completing a hot request\<close>

text \<open>After the batch went to the cache: a tagged read (and, under the linearizable
  protocol, a tagged write) that succeeded is counted; a tagged write of the
  sequentially consistent protocol now has its version and its key is saved, or it
  failed and the measurement is dropped.\<close>

definition hot_request_bookkeeping_for_latency_measurements ::
  "int \<Rightarrow> bool \<Rightarrow> (cache_op \<times> mica_resp) list \<Rightarrow> latency_flags \<times> latency_counters \<Rightarrow>
   (latency_flags \<times> latency_counters) result" where
  "hot_request_bookkeeping_for_latency_measurements useconds isSC ops = (\<lambda>(li, lc).
    let f = measured_req_flag li; i = last_measured_op_i li; (op, r) = ops ! i in
    if f = HOT_READ_REQ \<or> (\<not> isSC \<and> f = HOT_WRITE_REQ) then
      if i \<ge> length ops then Inl Out_Of_Bounds
      else if rtype r = CACHE_GET_SUCCESS \<or> rtype r = CACHE_PUT_SUCCESS then
        assert_res (ENABLE_ASSERTIONS = 0 \<or> useconds \<ge> 0)
         (bind_res (bookkeep_latency useconds f lc) (\<lambda>lc'. Inr (li\<lparr>measured_req_flag := NO_REQ\<rparr>, lc')))
      else Inr (li, lc)
    else if isSC \<and> f = HOT_WRITE_REQ_BEFORE_SAVING_KEY then
      if i \<ge> length ops then Inl Out_Of_Bounds
      else if rtype r = CACHE_PUT_SUCCESS
        then Inr (li\<lparr>key_to_measure := key op, measured_req_flag := HOT_WRITE_REQ\<rparr>, lc)
      else if rtype r = CACHE_PUT_FAIL then Inr (li\<lparr>measured_req_flag := NO_REQ\<rparr>, lc)
      else Inr (li, lc)
    else Inr (li, lc))"

section \<open>Properties\<close>

definition latency_ok :: "latency_counters \<Rightarrow> bool" where
  "latency_ok lc \<longleftrightarrow> length (remote_reqs lc) = LATENCY_BUCKETS + 1 \<and> length (local_reqs lc) = LATENCY_BUCKETS + 1 \<and>
     length (hot_reads lc) = LATENCY_BUCKETS + 1 \<and> length (hot_writes lc) = LATENCY_BUCKETS + 1"

lemma latency_bucket_bounds:
  assumes "0 \<le> useconds"
  shows "0 \<le> latency_bucket useconds" "latency_bucket useconds \<le> int LATENCY_BUCKETS"
  using assms by (auto simp: latency_bucket_def MAX_LATENCY_def LATENCY_BUCKETS_def sgn_if)

lemma latency_bucket_mono:
  assumes "0 \<le> u" "u \<le> v"
  shows "latency_bucket u \<le> latency_bucket v"
  using assms by (auto simp: latency_bucket_def MAX_LATENCY_def LATENCY_BUCKETS_def sgn_if zdiv_mono1)

lemma count_bucket_ok:
  assumes "0 \<le> i" "i \<le> int LATENCY_BUCKETS" "length h = LATENCY_BUCKETS + 1"
  shows "count_bucket i h = Inr (h[nat i := h ! nat i + 1])"
  using assms by (simp add: count_bucket_def nat_le_iff)

lemma bookkeep_latency_ok:
  assumes "latency_ok lc" "0 \<le> useconds" "rt = REMOTE_REQ \<or> rt = LOCAL_REQ \<or> rt = HOT_READ_REQ \<or> rt = HOT_WRITE_REQ"
  shows "\<exists>lc'. bookkeep_latency useconds rt lc = Inr lc' \<and> latency_ok lc'"
  using assms(3,1) count_bucket_ok[OF latency_bucket_bounds[OF assms(2)]]
  by (elim disjE) (auto simp: bookkeep_latency_def latency_ok_def Let_def)

lemma hot_request_bookkeeping_ok:
  assumes "latency_ok lc" "0 \<le> useconds" "last_measured_op_i li < length ops"
  shows "\<exists>li' lc'. hot_request_bookkeeping_for_latency_measurements useconds isSC ops (li, lc) = Inr (li', lc') \<and>
    latency_ok lc' \<and> last_measured_op_i li' = last_measured_op_i li"
  using assms bookkeep_latency_ok[OF assms(1,2), of "measured_req_flag li"]
  by (auto simp: hot_request_bookkeeping_for_latency_measurements_def Let_def split: prod.splits)

text \<open>The histogram a kind of request is counted in.\<close>

definition histogram :: "req_type \<Rightarrow> latency_counters \<Rightarrow> u32 list" where
  "histogram rt lc = (case rt of REMOTE_REQ \<Rightarrow> remote_reqs lc | LOCAL_REQ \<Rightarrow> local_reqs lc
     | HOT_READ_REQ \<Rightarrow> hot_reads lc | HOT_WRITE_REQ \<Rightarrow> hot_writes lc | _ \<Rightarrow> [])"

text \<open>Counting a latency of a measurable kind never indexes outside
  the histogram allocated with one bucket more than \<open>LATENCY_BUCKETS\<close>: for every
  non-negative time it returns, adds one to the number of measurements, adds one (as
  a 32-bit counter) to exactly the bucket of that time in the histogram of that kind,
  and leaves the histograms of the other kinds as they were.\<close>

theorem bookkeep_latency_counts:
  assumes "latency_ok lc" and "0 \<le> useconds"
    and "rt = REMOTE_REQ \<or> rt = LOCAL_REQ \<or> rt = HOT_READ_REQ \<or> rt = HOT_WRITE_REQ"
  shows "\<exists>lc'. bookkeep_latency useconds rt lc = Inr lc' \<and> latency_ok lc' \<and>
    total_measurements lc' = total_measurements lc + 1 \<and>
    histogram rt lc' = (histogram rt lc)[nat (latency_bucket useconds) :=
       histogram rt lc ! nat (latency_bucket useconds) + 1] \<and>
    nat (latency_bucket useconds) < length (histogram rt lc) \<and>
    (\<forall>rt'. rt' \<noteq> rt \<longrightarrow> histogram rt' lc' = histogram rt' lc)"
proof -
  note b = latency_bucket_bounds[OF assms(2)]
  have n: "nat (latency_bucket useconds) < LATENCY_BUCKETS + 1"
    using b by (simp add: nat_le_iff less_Suc_eq_le)
  note c = count_bucket_ok[OF b]
  from assms(3) show ?thesis
    using assms(1) c n
    by (elim disjE) (auto simp: bookkeep_latency_def latency_ok_def histogram_def Let_def split: req_type.split)
qed

definition zero_counters :: latency_counters where
  "zero_counters = \<lparr>remote_reqs = replicate (LATENCY_BUCKETS + 1) 0, local_reqs = replicate (LATENCY_BUCKETS + 1) 0,
     hot_reads = replicate (LATENCY_BUCKETS + 1) 0, hot_writes = replicate (LATENCY_BUCKETS + 1) 0,
     total_measurements = 0\<rparr>"

theorem bookkeep_latency_counts_witness:
  "latency_ok zero_counters \<and>
   (\<exists>lc'. bookkeep_latency 7 HOT_READ_REQ zero_counters = Inr lc' \<and> hot_reads lc' ! 3 = 1 \<and>
      total_measurements lc' = 1)"
proof -
  have ok: "latency_ok zero_counters" by (simp add: latency_ok_def zero_counters_def)
  have b: "nat (latency_bucket 7) = 3" by (simp add: latency_bucket_def MAX_LATENCY_def LATENCY_BUCKETS_def)
  from bookkeep_latency_counts[OF ok, of 7 HOT_READ_REQ] obtain lc' where
    "bookkeep_latency 7 HOT_READ_REQ zero_counters = Inr lc'" "total_measurements lc' = 1"
    "hot_reads lc' = (hot_reads zero_counters)[3 := hot_reads zero_counters ! 3 + 1]"
    by (auto simp: b histogram_def zero_counters_def)
  then show ?thesis using ok by (auto simp: zero_counters_def LATENCY_BUCKETS_def)
qed

end
