(* ===== verification/Requests.thy ===== *)
theory Requests
  imports Latency
begin

text \<open>
  The batch of a client (\<open>inline_util.h\<close>): after the cache has answered, the client
  walks over its batch, finishes the requests that hit, collects the misses into
  one batch per remote machine, hands the local ones to the workers of its own
  machine, and copies what it cannot serve in this cycle to the buffer of the next
  one.  The three parallel arrays of operations, responses and homes are one list of
  entries; a pointer into the array is an index.
\<close>

section \<open>State\<close>

record key_home =
  home_machine :: u8
  home_worker :: u8

record entry =
  e_op :: cache_op
  e_resp :: mica_resp
  e_home :: key_home

record local_latency =
  measured_local_region :: int
  local_latency_start_polling :: bool
  flag_to_poll :: "(nat \<times> nat \<times> nat) option"

text \<open>The state a client's thread works on.  The arrays \<open>batch\<close> and \<open>req_length\<close> of the
  context, with the number of requests \<open>idx\<close> for each machine, are one list of pairs
  for each machine.\<close>

record client =
  bufs :: "entry list"
  next_bufs :: "entry list"
  next_op_i :: nat
  cache_hits :: int
  latency_info :: latency_flags
  latency_count :: latency_counters
  hottest_keys_pointers :: "nat list"
  stalled_ops_i :: nat
  rem_req_i :: nat
  per_worker_outstanding :: "u8 list"
  remote_for_each_worker :: "int list"
  batch :: "(nat \<times> nat) list list"
  ws :: "nat list"
  local_recv_flag :: "nat \<Rightarrow> nat \<Rightarrow> nat \<Rightarrow> bool"
  local_req_region :: "cache_op list"
  locals_per_client :: int
  local_measure :: local_latency

datatype control_flow_directive = no_cf_change | break_loop | continue_loop

definition update_at :: "nat \<Rightarrow> ('a \<Rightarrow> 'a) \<Rightarrow> 'a list \<Rightarrow> 'a list result" where
  "update_at i f xs = (if i < length xs then Inr (xs[i := f (xs ! i)]) else Inl Out_Of_Bounds)"

definition set_rtype :: "nat \<Rightarrow> u8 \<Rightarrow> client \<Rightarrow> client" where
  "set_rtype op_i t c = c\<lparr>bufs := (bufs c)[op_i :=
     (bufs c ! op_i)\<lparr>e_resp := (e_resp (bufs c ! op_i))\<lparr>rtype := t\<rparr>\<rparr>]\<rparr>"

section \<open>Buffers\<close>

definition swap_pointers :: "'a \<times> 'a \<Rightarrow> 'a \<times> 'a" where
  "swap_pointers = (\<lambda>(p1, p2). (p2, p1))"

definition circulate_pointers :: "'a \<times> 'a \<times> 'a \<Rightarrow> 'a \<times> 'a \<times> 'a" where
  "circulate_pointers = (\<lambda>(p1, p2, p3). (p2, p3, p1))"

definition swap_ops :: "'a \<times> 'a \<times> 'a \<Rightarrow> 'a \<times> 'a \<times> 'a" where
  "swap_ops = (\<lambda>(ops, next_ops, third_ops).
    if CLIENT_ENABLE_INLINING = 1
    then (let (ops', next_ops') = swap_pointers (ops, next_ops) in (ops', next_ops', third_ops))
    else circulate_pointers (ops, next_ops, third_ops))"

definition keys_are_equal :: "cache_key \<Rightarrow> cache_key \<Rightarrow> bool" where
  "keys_are_equal ka kb \<longleftrightarrow> bkt ka = bkt kb \<and> server ka = server kb \<and> tag ka = tag kb"

definition keys_and_meta_are_equal :: "cache_key \<Rightarrow> cache_key \<Rightarrow> bool" where
  "keys_and_meta_are_equal ka kb \<longleftrightarrow> bkt ka = bkt kb \<and> server ka = server kb \<and> tag ka = tag kb \<and>
     version (meta ka) = version (meta kb)"

text \<open>A request that cannot be served moves to the next buffer.  A tracked read that
  stalled takes the pointer of its key with it, and so does the request whose latency
  is measured.  The bytes copied are those that the opcode uses.\<close>

definition size_of_copy :: "u8 \<Rightarrow> nat result" where
  "size_of_copy opc =
    (if opc = CACHE_OP_BRC \<or> opc = CACHE_OP_PUT \<or> opc = CACHE_OP_INV \<or> opc = CACHE_OP_UPD
     then Inr HERD_PUT_REQ_SIZE
     else if opc = CACHE_OP_GET
     then Inr (if ENABLE_HOT_KEY_TRACKING = 1 then HERD_GET_REQ_SIZE + 2 else HERD_GET_REQ_SIZE)
     else Inl Assert_Failed)"

definition move_hot_pointer :: "bool \<Rightarrow> nat \<Rightarrow> client \<Rightarrow> client result" where
  "move_hot_pointer tracked op_i c =
    (let e = bufs c ! op_i; k = unat (value (e_op e) ! 0) in
     if ENABLE_HOT_KEY_TRACKING = 1 \<and> rtype (e_resp e) = CACHE_GET_STALL \<and> k < HOTTEST_KEYS_TO_TRACK
     then if \<not> tracked \<or> k \<ge> length (hottest_keys_pointers c) then Inl Out_Of_Bounds
       else if hottest_keys_pointers c ! k = op_i + 1
       then Inr (c\<lparr>hottest_keys_pointers := (hottest_keys_pointers c)[k := next_op_i c + 1]\<rparr>) else Inr c
     else Inr c)"

definition move_measurement :: "nat \<Rightarrow> client \<Rightarrow> client" where
  "move_measurement op_i c =
    (let li = latency_info c in
     if MEASURE_LATENCY = 1 \<and> op_i = last_measured_op_i li \<and>
        (measured_req_flag li = LOCAL_REQ \<or> measured_req_flag li = HOT_READ_REQ \<or>
         measured_req_flag li = HOT_WRITE_REQ_BEFORE_SAVING_KEY)
     then c\<lparr>latency_info := li\<lparr>last_measured_op_i := next_op_i c\<rparr>\<rparr> else c)"

definition copy_entry :: "nat \<Rightarrow> entry \<Rightarrow> entry \<Rightarrow> entry" where
  "copy_entry n e dst = \<lparr>e_op = copy_op n (e_op e) (e_op dst), e_resp = e_resp e, e_home = e_home e\<rparr>"

definition copy_op_to_next_op :: "bool \<Rightarrow> nat \<Rightarrow> client \<Rightarrow> client result" where
  "copy_op_to_next_op tracked op_i c =
    (let e = bufs c ! op_i in
     bind_res (size_of_copy (opcode (e_op e))) (\<lambda>n.
     bind_res (move_hot_pointer tracked op_i c) (\<lambda>c1.
     bind_res (update_at (next_op_i c1) (copy_entry n e) (next_bufs c1)) (\<lambda>nb.
     let c2 = move_measurement op_i (c1\<lparr>next_bufs := nb\<rparr>) in
     Inr (c2\<lparr>next_op_i := next_op_i c2 + 1\<rparr>)))))"

section \<open>Requests that hit in the cache\<close>

definition count_hit :: "entry \<Rightarrow> client \<Rightarrow> client" where
  "count_hit e c = c\<lparr>cache_hits := cache_hits c +
     (if ENABLE_HOT_KEY_TRACKING = 1 \<and> rtype (e_resp e) = CACHE_GET_SUCCESS
      then uint (val_len (e_op e)) + 1 else 1)\<rparr>"

definition forget_hot_pointer :: "nat \<Rightarrow> entry \<Rightarrow> client \<Rightarrow> client" where
  "forget_hot_pointer op_i e c =
    (let k = unat (value (e_op e) ! 0) in
     if ENABLE_HOT_KEY_TRACKING = 1 \<and> rtype (e_resp e) = CACHE_GET_SUCCESS \<and> k < HOTTEST_KEYS_TO_TRACK \<and>
        hottest_keys_pointers c ! k = op_i + 1
     then c\<lparr>hottest_keys_pointers := (hottest_keys_pointers c)[k := 0]\<rparr> else c)"

definition count_stall :: "entry \<Rightarrow> client \<Rightarrow> client" where
  "count_stall e c =
    (if STALLING_DEBUG_LIN \<noteq> 0 \<and> (rtype (e_resp e) = CACHE_GET_STALL \<or> rtype (e_resp e) = CACHE_PUT_STALL)
     then c\<lparr>stalled_ops_i := stalled_ops_i c + 1\<rparr> else c)"

definition mark_unserved :: "nat \<Rightarrow> client \<Rightarrow> client" where
  "mark_unserved op_i c =
    (if rtype (e_resp (bufs c ! op_i)) = CACHE_MISS then set_rtype op_i UNSERVED_CACHE_MISS c else c)"

subsection \<open>Sequential consistency\<close>

definition serve_SC :: "nat \<Rightarrow> client \<Rightarrow> client result" where
  "serve_SC op_i c =
    (let e = bufs c ! op_i in
     if rtype (e_resp e) = CACHE_GET_SUCCESS \<or> opcode (e_op e) = CACHE_OP_UPD
     then Inr (set_rtype op_i EMPTY (count_hit e c))
     else copy_op_to_next_op False op_i c)"

definition hit_SC :: "nat \<Rightarrow> nat \<Rightarrow> client \<Rightarrow> client result" where
  "hit_SC local_client_id op_i c =
    (let e = bufs c ! op_i in
     assert_res (ENABLE_ASSERTIONS = 0 \<or> rtype (e_resp e) = CACHE_GET_SUCCESS \<or>
        rtype (e_resp e) = CACHE_PUT_SUCCESS \<or> opcode (e_op e) = CACHE_OP_UPD \<or>
        opcode (e_op e) = CACHE_OP_BRC \<or> local_client_id \<noteq> 0)
      (serve_SC op_i c))"

definition rest_SC :: "nat \<Rightarrow> client \<Rightarrow> client result" where
  "rest_SC op_i c =
    (let c1 = mark_unserved op_i c; e = bufs c1 ! op_i in
     if rtype (e_resp e) = CACHE_GET_SUCCESS \<or> opcode (e_op e) = CACHE_OP_UPD then serve_SC op_i c1
     else assert_res (ENABLE_ASSERTIONS = 0 \<or>
         (rtype (e_resp e) \<noteq> CACHE_GET_SUCCESS \<and> rtype (e_resp e) \<noteq> EMPTY)) (serve_SC op_i c1))"

subsection \<open>Linearizability\<close>

definition serve_LIN :: "nat \<Rightarrow> client \<Rightarrow> client result" where
  "serve_LIN op_i c =
    (let e = bufs c ! op_i; c1 = count_stall e c in
     if rtype (e_resp e) = CACHE_GET_SUCCESS \<or> opcode (e_op e) = CACHE_OP_INV \<or>
        rtype (e_resp e) = CACHE_PUT_FAIL
     then Inr (set_rtype op_i EMPTY (forget_hot_pointer op_i e (count_hit e c1)))
     else copy_op_to_next_op True op_i c1)"

definition hit_LIN :: "nat \<Rightarrow> client \<Rightarrow> client result" where
  "hit_LIN op_i c =
    (let e = bufs c ! op_i in
     assert_res (ENABLE_ASSERTIONS = 0 \<or> rtype (e_resp e) = CACHE_GET_SUCCESS \<or>
        rtype (e_resp e) = CACHE_PUT_SUCCESS \<or> rtype (e_resp e) = CACHE_GET_STALL \<or>
        rtype (e_resp e) = CACHE_PUT_STALL \<or> rtype (e_resp e) = CACHE_PUT_FAIL \<or>
        opcode (e_op e) = CACHE_OP_INV \<or> opcode (e_op e) = CACHE_OP_BRC)
      (serve_LIN op_i c))"

definition rest_LIN :: "nat \<Rightarrow> client \<Rightarrow> client result" where
  "rest_LIN op_i c = serve_LIN op_i (mark_unserved op_i c)"

subsection \<open>The two loops\<close>

text \<open>\<open>hit_loop\<close> runs until the first miss or the end of the batch, \<open>rest_loop\<close> until the
  end.  The source tests the response before the bound, and so reads one response past
  the array when the last request is a hit; the value read is not used.\<close>

function hit_loop :: "(nat \<Rightarrow> client \<Rightarrow> client result) \<Rightarrow> nat \<Rightarrow> client \<Rightarrow> (nat \<times> client) result" where
  "hit_loop body op_i c =
    (if op_i < CACHE_BATCH_SIZE \<and> rtype (e_resp (bufs c ! op_i)) \<noteq> CACHE_MISS \<and>
        rtype (e_resp (bufs c ! op_i)) \<noteq> UNSERVED_CACHE_MISS
     then bind_res (body op_i c) (\<lambda>c'. hit_loop body (op_i + 1) c')
     else Inr (op_i, c))"
  by pat_completeness auto
termination
  by (relation "measure (\<lambda>(_, op_i, _). CACHE_BATCH_SIZE - op_i)") auto

declare hit_loop.simps [simp del]

definition rest_loop :: "(nat \<Rightarrow> client \<Rightarrow> client result) \<Rightarrow> nat \<Rightarrow> client \<Rightarrow> client result" where
  "rest_loop body op_i c = fold_res body [op_i ..< CACHE_BATCH_SIZE] c"

definition cache_hit_bookkeeping_SC :: "nat \<Rightarrow> nat \<Rightarrow> client \<Rightarrow> (nat \<times> client) result" where
  "cache_hit_bookkeeping_SC local_client_id = hit_loop (hit_SC local_client_id)"

definition run_through_rest_of_ops_SC :: "nat \<Rightarrow> client \<Rightarrow> client result" where
  "run_through_rest_of_ops_SC = rest_loop rest_SC"

definition cache_hit_bookkeeping_LIN :: "nat \<Rightarrow> client \<Rightarrow> (nat \<times> client) result" where
  "cache_hit_bookkeeping_LIN = hit_loop hit_LIN"

definition run_through_rest_of_ops_LIN :: "nat \<Rightarrow> client \<Rightarrow> client result" where
  "run_through_rest_of_ops_LIN = rest_loop rest_LIN"

section \<open>Local requests\<close>

definition OFFSET :: "nat \<Rightarrow> nat \<Rightarrow> nat \<Rightarrow> nat" where
  "OFFSET wn cn w = wn * CLIENTS_PER_MACHINE * LOCAL_WINDOW + cn * LOCAL_WINDOW + w"

definition measuring_local :: "client \<Rightarrow> bool" where
  "measuring_local c \<longleftrightarrow> MEASURE_LATENCY = 1 \<and> measured_req_flag (latency_info c) = LOCAL_REQ"

text \<open>The last request of a region hands the region to the worker.\<close>

definition close_region :: "nat \<Rightarrow> nat \<Rightarrow> nat \<Rightarrow> client \<Rightarrow> client" where
  "close_region wn clt region c =
    (if ws c ! wn mod LOCAL_REGION_SIZE = LOCAL_REGION_SIZE - 1 then
       (let c1 = c\<lparr>local_recv_flag := (local_recv_flag c)(wn := (local_recv_flag c wn)(clt :=
              (local_recv_flag c wn clt)(region := True)))\<rparr> in
        if measuring_local c \<and> measured_local_region (local_measure c) = int region
        then c1\<lparr>local_measure := (local_measure c)\<lparr>local_latency_start_polling := True,
             flag_to_poll := Some (wn, clt, region)\<rparr>\<rparr> else c1)
     else c)"

definition issue_local :: "nat \<Rightarrow> nat \<Rightarrow> nat \<Rightarrow> nat \<Rightarrow> nat \<Rightarrow> nat \<Rightarrow> nat \<Rightarrow> client \<Rightarrow> client result" where
  "issue_local clt wn worker_id off region size_of_op op_i c =
    (let c1 = (if measuring_local c \<and> op_i = last_measured_op_i (latency_info c)
               then c\<lparr>local_measure := (local_measure c)\<lparr>measured_local_region := int region\<rparr>\<rparr> else c);
         e = bufs c ! op_i in
     bind_res (update_at off (copy_op size_of_op (e_op e)) (local_req_region c1)) (\<lambda>reg.
     let opc = opcode (reg ! off) in
     assert_res (ENABLE_ASSERTIONS = 0 \<or> opc = MICA_OP_GET \<or> opc = MICA_OP_PUT)
     (let c2 = close_region wn clt region (c1\<lparr>local_req_region := reg\<rparr>) in
      bind_res (update_at worker_id (\<lambda>n. if ws c ! wn = 0 then 1 else n + 1) (per_worker_outstanding c2)) (\<lambda>p.
      bind_res (update_at worker_id (\<lambda>n. n + 1) (remote_for_each_worker c2)) (\<lambda>r.
      Inr (set_rtype op_i EMPTY (c2\<lparr>per_worker_outstanding := p, remote_for_each_worker := r,
        locals_per_client := locals_per_client c2 + 1,
        ws := (ws c)[wn := HRD_MOD_ADD (ws c ! wn) LOCAL_WINDOW]\<rparr>)))))))"

definition issue_locals :: "nat \<Rightarrow> nat \<Rightarrow> nat \<Rightarrow> nat \<Rightarrow> nat \<Rightarrow> nat \<Rightarrow> client \<Rightarrow> client result" where
  "issue_locals local_client_id local_worker_id wn0 worker_id0 size_of_op op_i c =
    (let moved = (ENABLE_LOCAL_WORKERS \<noteq> 0 \<or> (ENABLE_WORKERS_CRCW \<noteq> 0 \<and> ENABLE_STATIC_LOCAL_ALLOCATION \<noteq> 0));
         wn = (if ENABLE_LOCAL_WORKERS \<noteq> 0 then local_worker_id
               else if moved then local_client_id mod WORKERS_PER_MACHINE else wn0);
         worker_id = (if moved then (worker_id0 div WORKERS_PER_MACHINE) * WORKERS_PER_MACHINE + wn else worker_id0) in
     assert_res (\<not> (DISABLE_LOCALS = 1 \<and> ENABLE_ASSERTIONS = 1))
     (if wn \<ge> length (ws c) then Inl Out_Of_Bounds
      else let off = OFFSET wn local_client_id (ws c ! wn);
               region = off mod LOCAL_WINDOW div LOCAL_REGION_SIZE in
        if \<not> local_recv_flag c wn local_client_id region
        then issue_local local_client_id wn worker_id off region size_of_op op_i c
        else copy_op_to_next_op False op_i c))"

definition poll_local_req_for_latency_measurement :: "int \<Rightarrow> client \<Rightarrow> client result" where
  "poll_local_req_for_latency_measurement useconds c =
    (if measuring_local c \<and> local_latency_start_polling (local_measure c) then
       (case flag_to_poll (local_measure c) of
          None \<Rightarrow> Inl Out_Of_Bounds
        | Some (wn, clt, region) \<Rightarrow>
            if local_recv_flag c wn clt region then Inr c
            else assert_res (ENABLE_ASSERTIONS = 0 \<or> useconds > 0)
             (bind_res (bookkeep_latency useconds LOCAL_REQ (latency_count c)) (\<lambda>lc.
              Inr (c\<lparr>latency_count := lc,
                latency_info := (latency_info c)\<lparr>measured_req_flag := NO_REQ\<rparr>,
                local_measure := \<lparr>measured_local_region = -1, local_latency_start_polling = False,
                  flag_to_poll = None\<rparr>\<rparr>))))
     else Inr c)"

section \<open>Remote requests\<close>

definition add_erpc_request :: "nat \<Rightarrow> nat \<Rightarrow> nat \<Rightarrow> client \<Rightarrow> client result" where
  "add_erpc_request rm_id op_i request_length c =
    (if rm_id \<ge> length (batch c) then Inl Out_Of_Bounds
     else assert_res (length (batch c ! rm_id) < WINDOW_SIZE)
       (Inr (c\<lparr>batch := (batch c)[rm_id := batch c ! rm_id @ [(op_i, request_length)]]\<rparr>)))"

text \<open>The worker that takes a request its own worker has no room for (option 1).\<close>

definition alternative_worker :: "nat \<Rightarrow> nat \<Rightarrow> u8 list \<Rightarrow> nat" where
  "alternative_worker rm_id wn p =
    (case find (\<lambda>i. unat (p ! (rm_id * WORKERS_PER_MACHINE + i)) < WS_PER_WORKER) [0 ..< WORKERS_PER_MACHINE] of
       Some i \<Rightarrow> i | None \<Rightarrow> wn)"

definition handle_lack_of_credits_for_remotes ::
  "nat \<Rightarrow> nat \<Rightarrow> nat \<Rightarrow> nat \<Rightarrow> nat \<Rightarrow> client \<Rightarrow> (control_flow_directive \<times> nat \<times> client) result" where
  "handle_lack_of_credits_for_remotes rm_id wn worker_id wr_i op_i c =
    bind_res (update_at worker_id (\<lambda>n. n - 1) (per_worker_outstanding c)) (\<lambda>p.
    let c1 = c\<lparr>per_worker_outstanding := p\<rparr> in
    if wr_i \<ge> KVS_BATCH * MACHINE_NUM
    then bind_res (copy_op_to_next_op False op_i c1) (\<lambda>c2. Inr (break_loop, worker_id, c2))
    else if BALANCE_REQS = 1 then
      (let worker_id' = rm_id * WORKERS_PER_MACHINE + alternative_worker rm_id wn p in
       bind_res (update_at worker_id' (\<lambda>n. n + 1) p) (\<lambda>p'.
         Inr (no_cf_change, worker_id', c1\<lparr>per_worker_outstanding := p'\<rparr>)))
    else if FINISH_BATCH_ON_MISSING_CREDIT = 1
    then bind_res (copy_op_to_next_op False op_i c1) (\<lambda>c2. Inr (break_loop, worker_id, c2))
    else bind_res (copy_op_to_next_op False op_i c1) (\<lambda>c2. Inr (continue_loop, worker_id, c2)))"

definition send_remote :: "nat \<Rightarrow> nat \<Rightarrow> nat \<Rightarrow> nat \<Rightarrow> nat \<Rightarrow> client \<Rightarrow> (bool \<times> nat \<times> client) result" where
  "send_remote rm_id worker_id size_of_op op_i wr_i c =
    bind_res (update_at worker_id (\<lambda>n. n + 1) (remote_for_each_worker c)) (\<lambda>r.
    bind_res (add_erpc_request rm_id op_i size_of_op (c\<lparr>remote_for_each_worker := r\<rparr>)) (\<lambda>c1.
    Inr (False, wr_i + 1, set_rtype op_i EMPTY (c1\<lparr>rem_req_i := rem_req_i c1 + 1\<rparr>))))"

text \<open>The client's identity is written over the part of the key that holds the version.\<close>

definition set_clt_gid :: "nat \<Rightarrow> u32 \<Rightarrow> client \<Rightarrow> client" where
  "set_clt_gid op_i clt_gid c = c\<lparr>bufs := (bufs c)[op_i := (bufs c ! op_i)
     \<lparr>e_op := set_meta ((op_meta (e_op (bufs c ! op_i)))\<lparr>version := clt_gid\<rparr>) (e_op (bufs c ! op_i))\<rparr>]\<rparr>"

text \<open>One iteration of the loop for the request at \<open>op_i\<close>, a miss: it says whether the
  loop ends, and the number of requests collected so far.  Every branch of the source
  then moves on to the next request.  Coalescing of reads is switched off by
  \<open>ENABLE_COALESCING\<close>.\<close>

definition cold_step ::
  "nat \<Rightarrow> nat \<Rightarrow> nat \<Rightarrow> u32 \<Rightarrow> nat \<Rightarrow> nat \<Rightarrow> client \<Rightarrow> (bool \<times> nat \<times> client) result" where
  "cold_step machine_id local_client_id local_worker_id clt_gid op_i wr_i c0 =
    (let e = bufs c0 ! op_i in
     assert_res (ENABLE_ASSERTIONS = 0 \<or> opcode (e_op e) \<noteq> CACHE_OP_PUT \<or>
        unat (val_len (e_op e)) = HERD_VALUE_SIZE div 2 ^ SHIFT_BITS)
     (let c = set_rtype op_i UNSERVED_CACHE_MISS c0; rm_id = unat (home_machine (e_home e)) in
      assert_res (ENABLE_ASSERTIONS = 0 \<or> DISABLE_LOCALS = 0 \<or> rm_id \<noteq> machine_id)
      (let wn = (if ENABLE_THREAD_PARTITIONING_C_TO_W = 1
                 then (local_client_id + machine_id) mod ACTIVE_WORKERS_PER_MACHINE
                 else unat (home_worker (e_home e)) mod ACTIVE_WORKERS_PER_MACHINE);
           worker_id = rm_id * WORKERS_PER_MACHINE + wn;
           size_of_op = (if opcode (e_op e) = CACHE_OP_PUT then HERD_PUT_REQ_SIZE else HERD_GET_REQ_SIZE) in
       if rm_id = machine_id then
         bind_res (issue_locals local_client_id local_worker_id wn worker_id size_of_op op_i c)
           (\<lambda>c1. Inr (False, wr_i, c1))
       else
         (let c1 = set_clt_gid op_i clt_gid c in
          bind_res (update_at worker_id (\<lambda>n. n + 1) (per_worker_outstanding c1)) (\<lambda>p.
          let c2 = c1\<lparr>per_worker_outstanding := p\<rparr> in
          if unat (p ! worker_id) > KVS_BATCH then
            bind_res (handle_lack_of_credits_for_remotes rm_id wn worker_id wr_i op_i c2) (\<lambda>(cf, worker_id', c3).
              case cf of
                continue_loop \<Rightarrow> Inr (False, wr_i, c3)
              | break_loop \<Rightarrow> Inr (True, wr_i, c3)
              | no_cf_change \<Rightarrow> send_remote rm_id worker_id' size_of_op op_i wr_i c3)
          else send_remote rm_id worker_id size_of_op op_i wr_i c2)))))"

definition hit_bookkeeping :: "nat \<Rightarrow> nat \<Rightarrow> nat \<Rightarrow> client \<Rightarrow> (nat \<times> client) result" where
  "hit_bookkeeping protocol local_client_id op_i c =
    (if DISABLE_CACHE = 1 then Inr (op_i, c)
     else if protocol = LINEARIZABILITY then cache_hit_bookkeeping_LIN op_i c
     else if protocol = SEQUENTIAL_CONSISTENCY then cache_hit_bookkeeping_SC local_client_id op_i c
     else Inr (op_i, c))"

lemma hit_loop_ge: "hit_loop body op_i c = Inr (i, c') \<Longrightarrow> op_i \<le> i"
proof (induction body op_i c rule: hit_loop.induct)
  case (1 body op_i c)
  then show ?case
    by (subst (asm) hit_loop.simps) (fastforce split: if_splits simp: res_simps)
qed

lemma hit_bookkeeping_ge: "hit_bookkeeping protocol clt op_i c = Inr (i, c') \<Longrightarrow> op_i \<le> i"
  by (auto simp: hit_bookkeeping_def cache_hit_bookkeeping_LIN_def cache_hit_bookkeeping_SC_def
      dest: hit_loop_ge split: if_splits)

function cold_loop ::
  "nat \<Rightarrow> nat \<Rightarrow> nat \<Rightarrow> nat \<Rightarrow> u32 \<Rightarrow> nat \<Rightarrow> nat \<Rightarrow> client \<Rightarrow> (nat \<times> nat \<times> client) result" where
  "cold_loop protocol mid clt lw gid op_i wr_i c =
    (if rem_req_i c < WINDOW_SIZE \<and> op_i < CACHE_BATCH_SIZE then
       bind_res (hit_bookkeeping protocol clt op_i c) (\<lambda>(i, c1).
         if i \<ge> CACHE_BATCH_SIZE then Inr (i, wr_i, c1)
         else bind_res (cold_step mid clt lw gid i wr_i c1) (\<lambda>(stop, wr_i', c2).
           if stop then Inr (i + 1, wr_i', c2)
           else cold_loop protocol mid clt lw gid (i + 1) wr_i' c2))
     else Inr (op_i, wr_i, c))"
  by pat_completeness auto
termination
  by (relation "measure (\<lambda>(_, _, _, _, _, op_i, _, _). CACHE_BATCH_SIZE - op_i)")
     (auto dest!: hit_bookkeeping_ge)

declare cold_loop.simps [simp del]

definition handle_cold_requests ::
  "nat \<Rightarrow> nat \<Rightarrow> nat \<Rightarrow> nat \<Rightarrow> u32 \<Rightarrow> int \<Rightarrow> client \<Rightarrow> (nat \<times> client) result" where
  "handle_cold_requests protocol machine_id local_client_id local_worker_id clt_gid useconds c =
    bind_res (cold_loop protocol machine_id local_client_id local_worker_id clt_gid 0 0 c) (\<lambda>(op_i, wr_i, c1).
    bind_res (if protocol = LINEARIZABILITY then run_through_rest_of_ops_LIN op_i c1
              else if protocol = SEQUENTIAL_CONSISTENCY then run_through_rest_of_ops_SC op_i c1
              else Inr c1) (\<lambda>c2.
    bind_res (poll_local_req_for_latency_measurement useconds c2) (\<lambda>c3. Inr (wr_i, c3))))"

end
