(* ===== verification/Trace.thy ===== *)
theory Trace
  imports Requests SC LIN
begin

text \<open>
  Where requests come from (\<open>util.c\<close>, \<open>cache.c\<close>): \<open>parse_trace\<close> turns the lines of a
  file into commands, choosing reads and writes and the homes of keys at random, and
  \<open>batch_from_trace_to_cache\<close> refills a client's batch with requests made from the
  commands and gives the batch to the cache.  The file is a list of lines and the
  numbers that \<open>rand\<close> returns are a list of draws; when the draws are used up the
  program is still drawing.
\<close>

section \<open>Commands\<close>

record trace_command =
  tc_opcode :: u8
  home_machine_id :: u8
  home_worker_id :: u8
  key_id :: u32
  key_hash :: uint128

definition IS_READ :: "u8 \<Rightarrow> bool" where
  "IS_READ x \<longleftrightarrow> x = HOT_READ \<or> x = LOCAL_READ \<or> x = REMOTE_READ"

definition IS_WRITE :: "u8 \<Rightarrow> bool" where
  "IS_WRITE x \<longleftrightarrow> x = HOT_WRITE \<or> x = LOCAL_WRITE \<or> x = REMOTE_WRITE"

definition IS_HOT :: "u8 \<Rightarrow> bool" where
  "IS_HOT x \<longleftrightarrow> x = HOT_WRITE \<or> x = HOT_READ"

definition IS_NORMAL :: "u8 \<Rightarrow> bool" where
  "IS_NORMAL x \<longleftrightarrow> \<not> IS_HOT x"

section \<open>The trace file\<close>

subsection \<open>Words and numbers\<close>

text \<open>\<open>strtok_r\<close> with the separator blank: the non-empty pieces of a line.\<close>

fun split_space :: "string \<Rightarrow> string list" where
  "split_space [] = [[]]"
| "split_space (c # cs) =
    (if c = CHR '' '' then [] # split_space cs
     else case split_space cs of w # rest \<Rightarrow> (c # w) # rest | [] \<Rightarrow> [[c]])"

definition strtok :: "string \<Rightarrow> string list" where
  "strtok line = filter (\<lambda>w. w \<noteq> []) (split_space line)"

definition chop_newline :: "string \<Rightarrow> string" where
  "chop_newline w = (if w \<noteq> [] \<and> last w = CHR 0x0A then butlast w else w)"

definition is_space :: "char \<Rightarrow> bool" where
  "is_space c \<longleftrightarrow> c = CHR '' '' \<or> (9 \<le> (of_char c :: nat) \<and> (of_char c :: nat) \<le> 13)"

definition is_digit :: "char \<Rightarrow> bool" where
  "is_digit c \<longleftrightarrow> 48 \<le> (of_char c :: nat) \<and> (of_char c :: nat) \<le> 57"

definition strtoul :: "string \<Rightarrow> nat" where
  "strtoul s =
    (let s = dropWhile is_space s;
         neg = (s \<noteq> [] \<and> hd s = CHR ''-'');
         s = (if s \<noteq> [] \<and> (hd s = CHR ''-'' \<or> hd s = CHR ''+'') then tl s else s);
         v = foldl (\<lambda>a c. 10 * a + (of_char c - 48)) 0 (takeWhile is_digit s)
     in if v \<ge> 2 ^ 64 then 2 ^ 64 - 1 else if neg then (2 ^ 64 - v) mod 2 ^ 64 else v)"

fun draw :: "nat list \<Rightarrow> (nat \<times> nat list) result" where
  "draw [] = Inl Spins"
| "draw (r # rs) = Inr (r, rs)"

subsection \<open>Homes and keys\<close>

text \<open>A machine drawn until it is another than the client's own.\<close>

fun draw_other :: "nat \<Rightarrow> nat list \<Rightarrow> (nat \<times> nat list) result" where
  "draw_other machine_id [] = Inl Spins"
| "draw_other machine_id (r # rs) =
    (if DISABLE_LOCALS = 1 \<and> r mod MACHINE_NUM = machine_id then draw_other machine_id rs
     else Inr (r mod MACHINE_NUM, rs))"

definition redirect :: "nat \<Rightarrow> nat \<Rightarrow> nat \<Rightarrow> nat" where
  "redirect machine_id i h =
    (if SEND_ONLY_TO_ONE_MACHINE = 1 then (if DISABLE_LOCALS = 1 \<and> machine_id = 0 then 1 else 0)
     else if SEND_ONLY_TO_NEXT_MACHINE = 1 then (machine_id + 1) mod MACHINE_NUM
     else if BALANCE_REQS_IN_CHUNKS = 1 then (if CHUNK_NUM = 0 then 0 else (i div CHUNK_NUM) mod MACHINE_NUM)
     else if DO_ONLY_LOCALS = 1 then machine_id
     else h)"

definition home_machine_of :: "nat \<Rightarrow> nat \<Rightarrow> string \<Rightarrow> nat list \<Rightarrow> (nat \<times> nat list) result" where
  "home_machine_of machine_id i w rs =
    bind_res (if RANDOM_MACHINE = 1 then bind_res (draw rs) (\<lambda>(r, rs). Inr (r mod MACHINE_NUM, rs))
              else Inr (strtoul w mod MACHINE_NUM, rs)) (\<lambda>(h, rs).
    assert_res (h < MACHINE_NUM)
    (bind_res
      (if LOAD_BALANCE = 1 then draw_other machine_id rs
       else if DISABLE_LOCALS = 1 \<and> h = machine_id then Inr ((h + 1) mod MACHINE_NUM, rs)
       else Inr (h, rs)) (\<lambda>(h, rs).
     let h = redirect machine_id i h in
     assert_res (DISABLE_LOCALS = 0 \<or> machine_id \<noteq> h) (Inr (h, rs)))))"

definition home_worker_of :: "string \<Rightarrow> nat list \<Rightarrow> (nat \<times> nat list) result" where
  "home_worker_of w rs =
    bind_res (if LOAD_BALANCE = 1 \<or> EMULATING_CREW = 1
              then bind_res (draw rs) (\<lambda>(r, rs). Inr (r mod ACTIVE_WORKERS_PER_MACHINE, rs))
              else Inr (strtoul w mod WORKERS_PER_MACHINE, rs)) (\<lambda>(h, rs).
    assert_res (h < WORKERS_PER_MACHINE) (Inr (h, rs)))"

text \<open>A hot key may be spread over the hot keys or over a group of them; a cold one is
  brought into the range of the keys of the store that are not hot.\<close>

definition spread_hot :: "bool \<Rightarrow> nat \<Rightarrow> nat list \<Rightarrow> (nat \<times> nat list) result" where
  "spread_hot is_update k rs =
    (if (BALANCE_HOT_WRITES = 1 \<and> is_update) \<or> BALANCE_HOT_REQS = 1
     then bind_res (draw rs) (\<lambda>(r, rs). Inr (r mod CACHE_NUM_KEYS, rs))
     else if ENABLE_HOT_REQ_GROUPING = 1
     then if k < NUM_OF_KEYS_TO_GROUP
       then bind_res (draw rs) (\<lambda>(r, rs). Inr (k * GROUP_SIZE + r mod GROUP_SIZE, rs))
       else Inr (if k < NUM_OF_KEYS_TO_GROUP * GROUP_SIZE then k + GROUP_SIZE else k, rs)
     else Inr (k, rs))"

definition spread_cold :: "nat \<Rightarrow> nat" where
  "spread_cold k =
    (let k = k mod HERD_NUM_KEYS in if k < CACHE_NUM_KEYS then k + CACHE_NUM_KEYS else k)"

definition key_id_of :: "bool \<Rightarrow> string \<Rightarrow> nat list \<Rightarrow> (nat \<times> nat list) result" where
  "key_id_of is_update w rs =
    bind_res (if ONLY_CACHE_HITS = 1 then bind_res (draw rs) (\<lambda>(r, rs). Inr (r mod CACHE_NUM_KEYS, rs))
              else Inr (strtoul w mod 2 ^ 32, rs)) (\<lambda>(k, rs).
    bind_res (if k < CACHE_NUM_KEYS then spread_hot is_update k rs else Inr (spread_cold k, rs)) (\<lambda>(k, rs).
    Inr (if USE_A_SINGLE_KEY = 1 then 0 else k, rs)))"

definition command_code :: "nat \<Rightarrow> bool \<Rightarrow> nat \<Rightarrow> nat \<Rightarrow> u8" where
  "command_code machine_id is_update home k =
    (if k < CACHE_NUM_KEYS then (if is_update then HOT_WRITE else HOT_READ)
     else if home = machine_id then (if is_update then LOCAL_WRITE else LOCAL_READ)
     else (if is_update then REMOTE_WRITE else REMOTE_READ))"

subsection \<open>Lines\<close>

text \<open>A line has at least four words: a code that is not used, the home machine, the home
  worker and the key.  A line without words leaves its command without a key.\<close>

definition parse_line :: "nat \<Rightarrow> nat \<Rightarrow> string \<Rightarrow> nat list \<Rightarrow> (trace_command option \<times> nat list) result" where
  "parse_line machine_id i line rs =
    (let wds = map chop_newline (strtok line) in
     bind_res (draw rs) (\<lambda>(r, rs).
     let is_update = r mod 1000 < WRITE_RATIO in
     if length wds = 0 then Inr (None, rs)
     else if length wds = 1 then Inl Assert_Failed
     else bind_res (home_machine_of machine_id i (wds ! 1) rs) (\<lambda>(m, rs).
     if length wds = 2 then Inl Assert_Failed
     else bind_res (home_worker_of (wds ! 2) rs) (\<lambda>(w, rs).
     if length wds = 3 then Inl Assert_Failed
     else bind_res (key_id_of is_update (wds ! 3) rs) (\<lambda>(k, rs).
     bind_res (CityHash128 (bytes32 (of_nat k)) 0 4) (\<lambda>h.
     Inr (Some \<lparr>tc_opcode = command_code machine_id is_update m k, home_machine_id = of_nat m,
       home_worker_id = of_nat w, key_id = of_nat k, key_hash = h\<rparr>, rs)))))))"

definition parse_step :: "nat \<Rightarrow> nat \<times> string \<Rightarrow> trace_command option list \<times> nat list \<Rightarrow>
    (trace_command option list \<times> nat list) result" where
  "parse_step machine_id = (\<lambda>(i, line) (cmds, rs).
    bind_res (parse_line machine_id i line rs) (\<lambda>(c, rs). Inr (cmds @ [c], rs)))"

definition parse_trace :: "nat \<Rightarrow> string list \<Rightarrow> nat list \<Rightarrow> trace_command \<Rightarrow> trace_command list result" where
  "parse_trace machine_id lines rs junk =
    bind_res (fold_res (parse_step machine_id) (zip [0 ..< length lines] lines) ([], rs)) (\<lambda>(cmds, rs).
    assert_res (\<forall>c\<in>set cmds. c \<noteq> None) (Inr (map the cmds @ [junk\<lparr>tc_opcode := NOP\<rparr>])))"

section \<open>Refilling a batch\<close>

record fill =
  fl_iter :: nat
  fl_i :: nat
  fl_seed :: u64
  fl_empty :: nat

definition hrd_fastrand :: "u64 \<Rightarrow> u64 \<times> u32" where
  "hrd_fastrand seed = (let seed = seed * 1103515245 + 12345 in (seed, ucast (drop_bit 32 seed)))"

definition next_command :: "trace_command list \<Rightarrow> nat \<Rightarrow> nat result" where
  "next_command tr it =
    (if it + 1 < length tr then Inr (if tc_opcode (tr ! (it + 1)) = NOP then 0 else it + 1)
     else Inl Out_Of_Bounds)"

text \<open>A read of one of the hottest keys that is already in the batch is not put there
  again: the length field of the first counts it.\<close>

definition count_read :: "nat \<Rightarrow> client \<Rightarrow> client result" where
  "count_read op_i c =
    (if op_i \<ge> length (bufs c) then Inl Out_Of_Bounds
     else let e = bufs c ! op_i in
       assert_res (ENABLE_ASSERTIONS = 0 \<or> opcode (e_op e) = CACHE_OP_GET \<and> val_len (e_op e) < 255)
       (Inr (c\<lparr>bufs := (bufs c)[op_i := e\<lparr>e_op := (e_op e)\<lparr>val_len := val_len (e_op e) + 1\<rparr>\<rparr>]\<rparr>)))"

definition tag_read :: "bool \<Rightarrow> nat \<Rightarrow> nat \<Rightarrow> client \<Rightarrow> client" where
  "tag_read isSC i k c =
    (let c = c\<lparr>hottest_keys_pointers := (hottest_keys_pointers c)[k := i + 1]\<rparr>; e = bufs c ! i in
     if isSC then c\<lparr>bufs := (bufs c)[i := e\<lparr>e_op := (e_op e)\<lparr>value := (value (e_op e))[0 := of_nat k]\<rparr>\<rparr>]\<rparr> else c)"

definition track_hottest :: "bool \<Rightarrow> nat \<Rightarrow> trace_command \<Rightarrow> client \<Rightarrow> (bool \<times> client) result" where
  "track_hottest isSC i cmd c =
    (let k = unat (key_id cmd) in
     if ENABLE_HOT_KEY_TRACKING = 1 \<and> DISABLE_CACHE = 0 \<and> k < HOTTEST_KEYS_TO_TRACK then
       if IS_READ (tc_opcode cmd) then
         if hottest_keys_pointers c ! k = 0 then Inr (False, tag_read isSC i k c)
         else bind_res (count_read (hottest_keys_pointers c ! k - 1) c) (\<lambda>c. Inr (True, c))
       else Inr (False, c\<lparr>hottest_keys_pointers := (hottest_keys_pointers c)[k := 0]\<rparr>)
     else Inr (False, c))"

definition session_id :: "nat \<Rightarrow> u32 \<Rightarrow> u8" where
  "session_id thread_id r =
    of_nat (if ENABLE_MULTIPLE_SESSIONS = 1
      then (unat r mod SESSIONS_PER_CLIENT) mod 256 * CLIENTS_PER_MACHINE + thread_id else thread_id)"

definition armonia :: "u8 list" where
  "armonia = map of_char ''Armonia is the key to success!  ''"

text \<open>The request at position \<open>i\<close>: every field the request needs is set, the rest of the
  entry stays as it is.\<close>

definition request_op :: "nat \<Rightarrow> u32 \<Rightarrow> trace_command \<Rightarrow> cache_op \<Rightarrow> cache_op" where
  "request_op thread_id r cmd op =
    (let k = set_key_word (second (key_hash cmd)) (set_meta_word (first (key_hash cmd)) (key op));
         m = (if MEASURE_LATENCY = 1 then (meta k)\<lparr>state := 0\<rparr> else meta k);
         upd = IS_WRITE (tc_opcode cmd)
     in op\<lparr>key := k\<lparr>meta := m\<lparr>cid := session_id thread_id r\<rparr>\<rparr>,
          opcode := if upd then CACHE_OP_PUT else CACHE_OP_GET,
          val_len := if upd then of_nat (HERD_VALUE_SIZE div 2 ^ SHIFT_BITS) else 0\<rparr>)"

definition put_value :: "cache_op \<Rightarrow> cache_op result" where
  "put_value op =
    (if opcode op = CACHE_OP_PUT
     then bind_res (str_to_binary (value op) armonia HERD_VALUE_SIZE) (\<lambda>v. Inr (op\<lparr>value := v\<rparr>))
     else Inr op)"

definition make_request :: "nat \<Rightarrow> int \<Rightarrow> nat \<Rightarrow> bool \<Rightarrow> nat \<Rightarrow> u32 \<Rightarrow> trace_command \<Rightarrow> client \<Rightarrow> client result" where
  "make_request machine_id batches thread_id isSC i r cmd c =
    (let e = bufs c ! i; op = request_op thread_id r cmd (e_op e) in
     assert_res (ENABLE_ASSERTIONS = 0 \<or> WRITE_RATIO > 0 \<or> \<not> IS_WRITE (tc_opcode cmd))
     (assert_res (ENABLE_ASSERTIONS = 0 \<or> \<not> IS_WRITE (tc_opcode cmd) \<or> val_len op > 0)
     (bind_res
       (if MEASURE_LATENCY = 1
        then start_measurement machine_id batches thread_id (unat (home_machine_id cmd)) (tc_opcode cmd) isSC i (latency_info c, op)
        else Inr (latency_info c, op)) (\<lambda>(li, op).
      bind_res (put_value op) (\<lambda>op.
      Inr (c\<lparr>bufs := (bufs c)[i := \<lparr>e_op = op,
             e_resp = (e_resp e)\<lparr>rtype := if DISABLE_CACHE = 1 then CACHE_MISS else EMPTY\<rparr>,
             e_home = \<lparr>home_machine = home_machine_id cmd, home_worker = home_worker_id cmd\<rparr>\<rparr>],
           latency_info := li\<rparr>))))))"

definition fill_step :: "nat \<Rightarrow> int \<Rightarrow> nat \<Rightarrow> bool \<Rightarrow> trace_command list \<Rightarrow> fill \<times> client \<Rightarrow> (fill \<times> client) result" where
  "fill_step machine_id batches thread_id isSC tr = (\<lambda>(f, c).
    let cmd = tr ! fl_iter f; i = fl_i f in
    bind_res (track_hottest isSC i cmd c) (\<lambda>(counted, c).
    if counted then bind_res (next_command tr (fl_iter f)) (\<lambda>it. Inr (f\<lparr>fl_iter := it\<rparr>, c))
    else
      (let (seed, r) = (if ENABLE_MULTIPLE_SESSIONS = 1 then hrd_fastrand (fl_seed f) else (fl_seed f, 0)) in
       bind_res (make_request machine_id batches thread_id isSC i r cmd c) (\<lambda>c.
       bind_res (next_command tr (fl_iter f)) (\<lambda>it.
       Inr (\<lparr>fl_iter = it, fl_i = i + 1, fl_seed = seed, fl_empty = fl_empty f + 1\<rparr>, c))))))"

text \<open>The loop ends because every turn fills an entry or counts a read, and no read is
  counted more than 255 times.\<close>

definition reads_left :: "client \<Rightarrow> nat" where
  "reads_left c = sum_list (map (\<lambda>e. 255 - unat (val_len (e_op e))) (bufs c))"

lemma sum_list_update_less:
  fixes f :: "'a \<Rightarrow> nat"
  assumes "i < length xs" "f x < f (xs ! i)"
  shows "sum_list (map f (xs[i := x])) < sum_list (map f xs)"
  using assms
proof (induction xs arbitrary: i)
  case (Cons y ys)
  then show ?case by (cases i) auto
qed simp

lemma count_read_left:
  assumes "count_read op_i c = Inr c'"
  shows "reads_left c' < reads_left c"
proof -
  let ?e = "bufs c ! op_i"
  have i: "op_i < length (bufs c)" and v: "val_len (e_op ?e) < 255"
    and c': "c' = c\<lparr>bufs := (bufs c)[op_i := ?e\<lparr>e_op := (e_op ?e)\<lparr>val_len := val_len (e_op ?e) + 1\<rparr>\<rparr>]\<rparr>"
    using assms by (auto simp: count_read_def Let_def res_simps ENABLE_ASSERTIONS_def split: if_splits)
  have "unat (val_len (e_op ?e) + 1) = unat (val_len (e_op ?e)) + 1"
    using v by (simp add: word_less_nat_alt unat_word_ariths)
  moreover have "unat (val_len (e_op ?e)) < 255" using v by (simp add: word_less_nat_alt)
  ultimately show ?thesis unfolding reads_left_def c' by (simp add: sum_list_update_less[OF i])
qed

lemma fill_step_progress:
  assumes "fill_step machine_id batches thread_id isSC tr (f, c) = Inr (f', c')"
  shows "fl_i f' = fl_i f + 1 \<or> fl_i f' = fl_i f \<and> reads_left c' < reads_left c"
  using assms count_read_left
  by (auto simp: fill_step_def track_hottest_def Let_def res_simps split: if_splits prod.splits)

function fill_loop :: "nat \<Rightarrow> int \<Rightarrow> nat \<Rightarrow> bool \<Rightarrow> trace_command list \<Rightarrow> fill \<times> client \<Rightarrow> (fill \<times> client) result" where
  "fill_loop machine_id batches thread_id isSC tr (f, c) =
    (if fl_i f < CACHE_BATCH_SIZE then
       if fl_iter f \<ge> length tr then Inl Out_Of_Bounds
       else if tc_opcode (tr ! fl_iter f) = NOP then Inr (f, c)
       else bind_res (fill_step machine_id batches thread_id isSC tr (f, c)) (fill_loop machine_id batches thread_id isSC tr)
     else Inr (f, c))"
  by pat_completeness auto
termination
  by (relation "measures [\<lambda>(_, _, _, _, _, f, c). CACHE_BATCH_SIZE - fl_i f, \<lambda>(_, _, _, _, _, f, c). reads_left c]")
     (auto dest!: fill_step_progress)

declare fill_loop.simps [simp del]

section \<open>The batch\<close>

text \<open>The statistics of refills; the source divides both by \<open>CACHE_BATCH_SIZE\<close>.\<close>

record trace_stats =
  empty_reqs_per_trace :: int
  tot_empty_reqs_per_trace :: int

definition with_answers :: "entry list \<Rightarrow> (cache_op \<times> mica_resp) list \<Rightarrow> entry list" where
  "with_answers es out = map2 (\<lambda>e (op, r). e\<lparr>e_op := op, e_resp := r\<rparr>) es out @ drop (length out) es"

definition carried_over :: "entry \<Rightarrow> bool" where
  "carried_over e \<longleftrightarrow> rtype (e_resp e) \<noteq> EMPTY \<and>
     \<not> (rtype (e_resp e) = CACHE_GET_SUCCESS \<or> opcode (e_op e) = CACHE_OP_INV \<or> rtype (e_resp e) = CACHE_PUT_FAIL)"

definition probe_cache :: "nat \<Rightarrow> nat \<Rightarrow> bool \<Rightarrow> nat \<Rightarrow> cache \<times> client \<Rightarrow> (cache \<times> client) result" where
  "probe_cache machine_id thread_id isSC n = (\<lambda>(ch, c).
    if DISABLE_CACHE = 0 then
      let ops = map (\<lambda>e. (e_op e, e_resp e)) (take n (bufs c)) in
      bind_res (if isSC then cache_batch_op_lin_non_stalling_sessions machine_id thread_id ops ch
                else cache_batch_op_sc machine_id thread_id ops ch) (\<lambda>(ch, out).
      Inr (ch, c\<lparr>bufs := with_answers (bufs c) out\<rparr>))
    else Inr (ch, c))"

definition measure_hot :: "int \<Rightarrow> bool \<Rightarrow> client \<Rightarrow> client result" where
  "measure_hot useconds isSC c =
    (if MEASURE_LATENCY = 1 \<and> DISABLE_CACHE = 0 then
       bind_res (hot_request_bookkeeping_for_latency_measurements useconds isSC
           (map (\<lambda>e. (e_op e, e_resp e)) (bufs c)) (latency_info c, latency_count c)) (\<lambda>(li, lc).
       Inr (c\<lparr>latency_info := li, latency_count := lc\<rparr>))
     else Inr c)"

definition batch_from_trace_to_cache ::
  "nat \<Rightarrow> int \<Rightarrow> int \<Rightarrow> nat \<Rightarrow> trace_command list \<Rightarrow> bool \<Rightarrow> nat \<Rightarrow> nat \<Rightarrow> cache \<times> client \<times> trace_stats \<Rightarrow>
   (nat \<times> cache \<times> client \<times> trace_stats) result" where
  "batch_from_trace_to_cache machine_id batches useconds thread_id tr isSC n trace_iter = (\<lambda>(ch, c, st).
    assert_res (ENABLE_ASSERTIONS = 0 \<or> (\<forall>e\<in>set (take n (bufs c)). carried_over e))
    (let c = (if ENABLE_HOT_KEY_TRACKING = 1 \<and> \<not> isSC
              then c\<lparr>hottest_keys_pointers := replicate HOTTEST_KEYS_TO_TRACK 0\<rparr> else c) in
     bind_res (fill_loop machine_id batches thread_id isSC tr
         (\<lparr>fl_iter = trace_iter, fl_i = n, fl_seed = 0xdeadbeef, fl_empty = 0\<rparr>, c)) (\<lambda>(f, c).
     let per = 100 * int (fl_empty f);
         st = \<lparr>empty_reqs_per_trace = per, tot_empty_reqs_per_trace = tot_empty_reqs_per_trace st + per\<rparr> in
     bind_res (probe_cache machine_id thread_id isSC (fl_i f) (ch, c)) (\<lambda>(ch, c).
     bind_res (measure_hot useconds isSC c) (\<lambda>c.
     assert_res (ENABLE_ASSERTIONS = 0 \<or> (\<forall>e\<in>set (take CACHE_BATCH_SIZE (bufs c)). rtype (e_resp e) \<noteq> RETRY))
     (Inr (fl_iter f, ch, c, st)))))))"

end
