(* ===== verification/Mica_Crcw.thy ===== *)
theory Mica_Crcw
  imports Cache Mica_Correct
begin

text \<open>
  The store shared by all workers of a machine (\<open>cache.c\<close>, \<open>MICA CRCW\<close>): the batch of
  \<open>mica_batch_op\<close> with the sequence lock of the cache around every access to an object
  and one lock around insertions.  The machine the code runs on, a global variable of
  the program, is an argument.
\<close>

section \<open>Operations\<close>

definition crcw_hit :: "nat \<Rightarrow> handler" where
  "crcw_hit machine_id vp e op r =
    (if opcode op = MICA_OP_GET then
       (let prev_meta = op_meta e in
        if optik_is_same_version_and_valid prev_meta (op_meta e)
        then Inr (e, op, \<lparr>rtype = MICA_RESP_GET_SUCCESS, rval_len = val_len e, val_ptr = Some vp\<rparr>)
        else Inl Spins)
     else if opcode op = MICA_OP_PUT then
       assert_res (val_len op = val_len e)
       (bind_res (optik_lock (op_meta e)) (\<lambda>m.
        bind_res (copy_value (unat (val_len e)) (value op) (value e)) (\<lambda>v.
        let (m, ver) = optik_unlock_write m (of_nat machine_id) in
        Inr (set_meta m (e\<lparr>value := v\<rparr>), set_meta ((op_meta op)\<lparr>version := ver\<rparr>) op,
             \<lparr>rtype = MICA_RESP_PUT_SUCCESS, rval_len = 0, val_ptr = None\<rparr>))))
     else Inl Assert_Failed)"

definition crcw_fresh :: "mica_op \<Rightarrow> mica_op" where
  "crcw_fresh op = set_meta ((optik_init (op_meta op))\<lparr>pending_acks := 0, state := VALID_STATE\<rparr>) op"

definition mica_insert_one_crcw :: "mica_kv \<times> cache_meta \<Rightarrow> mica_op \<Rightarrow> (mica_kv \<times> cache_meta \<times> mica_op) result" where
  "mica_insert_one_crcw = (\<lambda>(kv, kv_lock) op.
    let op = crcw_fresh op in
    bind_res (optik_lock kv_lock) (\<lambda>kv_lock.
    bind_res (index_insert kv (key op)) (\<lambda>kv.
    bind_res (log_append kv op (KEY_SIZE + 1 + 1 + unat (val_len op))) (\<lambda>kv.
    bind_res (optik_unlock_decrement_version kv_lock) (\<lambda>kv_lock.
    Inr (kv, kv_lock, op))))))"

definition crcw_miss :: "mica_kv \<times> cache_meta \<Rightarrow> mica_op \<Rightarrow> (mica_kv \<times> cache_meta \<times> mica_op \<times> mica_resp) result" where
  "crcw_miss = (\<lambda>(kv, kv_lock) op.
    if opcode op = MICA_OP_GET
    then Inr (kv, kv_lock, op, \<lparr>rtype = MICA_RESP_GET_FAIL, rval_len = 0, val_ptr = None\<rparr>)
    else bind_res (mica_insert_one_crcw (kv, kv_lock) op) (\<lambda>(kv, kv_lock, op).
      Inr (kv, kv_lock, op, \<lparr>rtype = MICA_RESP_PUT_SUCCESS, rval_len = 0, val_ptr = None\<rparr>)))"

definition crcw_step :: "nat \<Rightarrow> (mica_op \<times> mica_resp) \<times> nat option \<Rightarrow>
    (mica_kv \<times> cache_meta) \<times> (mica_op \<times> mica_resp) list \<Rightarrow>
    ((mica_kv \<times> cache_meta) \<times> (mica_op \<times> mica_resp) list) result" where
  "crcw_step machine_id = (\<lambda>((op, r), p) ((kv, kv_lock), out).
     bind_res (entry_at kv p (key op)) (\<lambda>hit.
       case hit of
         Some (off, e) \<Rightarrow>
           bind_res (crcw_hit machine_id (value_addr off) e op r) (\<lambda>(e', op', r').
           bind_res (write_op (ht_log kv) off e') (\<lambda>l.
           Inr ((kv\<lparr>ht_log := l\<rparr>, kv_lock), out @ [(op', r')])))
       | None \<Rightarrow>
           bind_res (crcw_miss (kv, kv_lock) op) (\<lambda>(kv, kv_lock, op', r').
           Inr ((kv, kv_lock), out @ [(op', r')]))))"

definition mica_batch_op_crcw :: "nat \<Rightarrow> mica_kv \<times> cache_meta \<Rightarrow> (mica_op \<times> mica_resp) list \<Rightarrow>
    ((mica_kv \<times> cache_meta) \<times> (mica_op \<times> mica_resp) list) result" where
  "mica_batch_op_crcw machine_id = (\<lambda>(kv, kv_lock) ops.
    if length ops \<le> MICA_MAX_BATCH_SIZE
    then fold_res (crcw_step machine_id)
      (zip ops (map (\<lambda>(op, r). kv_ptr kv (key op)) ops)) ((kv, kv_lock), [])
    else Inl Out_Of_Bounds)"

section \<open>Inserting\<close>

lemma crcw_fresh_simps [simp]:
  "key_word (key (crcw_fresh op)) = key_word (key op)" "val_len (crcw_fresh op) = val_len op"
  "value (crcw_fresh op) = value op" "bkt (key (crcw_fresh op)) = bkt (key op)"
  by (simp_all add: crcw_fresh_def set_meta_def key_word_def)

lemma displaced_key_word:
  assumes "key_word k' = key_word k"
  shows "displaced kv k' = displaced kv k"
  using assms by (simp add: fun_eq_iff displaced_def bkt_of_def key_word_eq_iff)

lemma head_in_first_lap:
  assumes "kv_wf kv" "room_for kv 1" "inserted kv op kv'" "len \<le> 50"
    "log_head kv' = advance_head (log_cap kv) (log_mask kv) (log_head kv) len"
  shows "in_first_lap kv'"
proof -
  from assms(1) obtain c where c: "8 \<le> c" "c \<le> 39" "log_cap kv = 2 ^ c" "log_mask kv = mask c"
    "unat (log_cap kv) = 2 ^ c" by (auto simp: kv_wf_def elim: log_wf_cases)
  have r: "unat (log_head kv) + 78 + 56 < 2 ^ c" using assms(2) c(5) by (simp add: room_for_def)
  obtain q where q: "unat (log_head kv) = 8 * q"
    using assms(1) by (auto simp: kv_wf_def log_wf_def elim: dvdE)
  let ?h = "unat (log_head kv) + len + 7 - (unat (log_head kv) + len + 7) mod 8"
  have "?h \<le> unat (log_head kv) + 56" unfolding q using assms(4) by presburger
  then have "unat (log_head kv') < 2 ^ c"
    using advance_head_spec[OF c(1,2), of "log_head kv" len] r assms(4) by (simp add: assms(5) c(3,4) Let_def)
  then show ?thesis using assms(3) c(5) by (simp add: in_first_lap_def inserted_def Let_def)
qed

lemma crcw_insert_ok:
  assumes wf: "kv_wf kv" "room_for kv 1" and op: "op_ok op" and lk: "meta_ok lk"
  obtains kv' where "mica_insert_one_crcw (kv, lk) op = Inr (kv', lk, crcw_fresh op)"
    "inserted kv (crcw_fresh op) kv'" "kv_wf kv'" "in_first_lap kv'"
proof -
  let ?op = "crcw_fresh op" and ?len = "KEY_SIZE + 1 + 1 + unat (val_len op)"
  have room: "log_room kv" using wf(2) room_for_Suc[of kv 0] by simp
  have v: "unat (val_len op) \<le> 32" "length (value op) = MICA_MAX_VALUE"
    using op by (simp_all add: op_ok_def HERD_VALUE_SIZE_eq)
  have i: "index_wf kv" "log_wf kv" using wf(1) by (simp_all add: kv_wf_def)
  obtain kv' where kv': "bind_res (index_insert kv (key ?op)) (\<lambda>kv. log_append kv ?op ?len) = Inr kv'"
    "inserted kv ?op kv'" "log_head kv' = advance_head (log_cap kv) (log_mask kv) (log_head kv) ?len"
    by (rule inserted_append[OF i room, of ?op ?len]) (use v in \<open>simp_all add: KEY_SIZE_def\<close>)
  have "kv_wf kv'" using inserted_wf[OF wf(1) room kv'(2)] v by (simp add: MICA_MAX_VALUE_eq)
  moreover have "in_first_lap kv'"
    by (rule head_in_first_lap[OF wf kv'(2) _ kv'(3)]) (use v in \<open>simp add: KEY_SIZE_def\<close>)
  moreover have ul: "optik_unlock_decrement_version (lk\<lparr>lock := OPTIK_LOCKED, version := version lk + 1\<rparr>) = Inr lk"
    using lk by (simp add: optik_unlock_decrement_version_def meta_ok_def even_iff_mod_2_eq_zero)
  moreover have "mica_insert_one_crcw (kv, lk) op = Inr (kv', lk, ?op)"
  proof -
    obtain kv1 where "index_insert kv (key ?op) = Inr kv1" "log_append kv1 ?op ?len = Inr kv'"
      using kv'(1) by (auto simp: res_simps)
    then show ?thesis by (simp add: mica_insert_one_crcw_def Let_def lk ul)
  qed
  ultimately show ?thesis using that kv'(2) by blast
qed

lemma crcw_insert_abs:
  assumes "kv_wf kv" "room_for kv 1" "op_ok op" "meta_ok lk"
  obtains kv' where "mica_insert_one_crcw (kv, lk) op = Inr (kv', lk, crcw_fresh op)" "kv_wf kv'" "in_first_lap kv'"
    "\<And>k. kv_abs kv' k =
       (if key_word k = key_word (key op) then Some (stored (crcw_fresh op))
        else if displaced kv (key op) k then None else kv_abs kv k)"
proof -
  obtain kv' where kv': "mica_insert_one_crcw (kv, lk) op = Inr (kv', lk, crcw_fresh op)"
    "inserted kv (crcw_fresh op) kv'" "kv_wf kv'" "in_first_lap kv'" by (rule crcw_insert_ok[OF assms])
  have room: "log_room kv" using assms(2) room_for_Suc[of kv 0] by simp
  have v: "length (value (crcw_fresh op)) = MICA_MAX_VALUE" "unat (val_len (crcw_fresh op)) \<le> MICA_MAX_VALUE"
    using assms(3) by (simp_all add: op_ok_def HERD_VALUE_SIZE_eq MICA_MAX_VALUE_eq)
  show ?thesis
    using that[OF kv'(1,3,4)] inserted_abs[OF assms(1) room kv'(2) v kv'(4)]
      displaced_key_word[of "key (crcw_fresh op)" "key op" kv] by auto
qed

text \<open>Property C31: the insertion of the shared store refines the update of a map and
  gives the lock back.  In a well-formed store with room in its log and with the lock free,
  \<open>mica_insert_one_crcw\<close> returns a well-formed store in which the key is bound to the
  object with fresh metadata, the displaced keys are unbound and every other key is as
  before; the lock is as it was, and so is its version.\<close>

theorem mica_insert_crcw_refines_map:
  assumes "kv_wf kv" "room_for kv 1" "op_ok op" "meta_ok lk"
  shows "\<exists>kv'. mica_insert_one_crcw (kv, lk) op = Inr (kv', lk, crcw_fresh op) \<and> kv_wf kv' \<and>
    (\<forall>k. kv_abs kv' k =
       (if key_word k = key_word (key op) then Some (stored (crcw_fresh op))
        else if displaced kv (key op) k then None else kv_abs kv k))"
  using crcw_insert_abs[OF assms] by metis

theorem mica_insert_crcw_refines_map_witness:
  "\<exists>kv kv'. mica_init 0 0 1 256 demo_index demo_log = Inr kv \<and>
     mica_insert_one_crcw (kv, demo_meta) (demo_op MICA_OP_PUT 9) = Inr (kv', demo_meta, crcw_fresh (demo_op MICA_OP_PUT 9)) \<and>
     kv_abs kv' (key (demo_op MICA_OP_PUT 9)) = Some (stored (crcw_fresh (demo_op MICA_OP_PUT 9)))"
proof -
  obtain kv where kv: "mica_init 0 0 1 256 demo_index demo_log = Inr kv" "kv_wf kv" "room_for kv 2"
    by (rule demo_store)
  from kv(3) have r: "room_for kv 1" by (simp add: room_for_def)
  have lk: "meta_ok demo_meta" by (simp add: meta_ok_def demo_meta_def)
  from mica_insert_crcw_refines_map[OF kv(2) r demo_op_ok[of MICA_OP_PUT 9] lk] kv(1) show ?thesis by metis
qed

section \<open>Batches\<close>

definition fresh_resp :: mica_resp where
  "fresh_resp = \<lparr>rtype = 0, rval_len = 0, val_ptr = None\<rparr>"

text \<open>What a key stands for in both stores: the length and the value under it.  The
  shared store also keeps versions, which clients never see.\<close>

definition content :: "cache_op \<Rightarrow> u8 \<times> u8 list" where
  "content e = (val_len e, value e)"

definition contents :: "mica_kv \<Rightarrow> cache_key \<Rightarrow> (u8 \<times> u8 list) option" where
  "contents kv k = map_option content (kv_abs kv k)"

definition unlocked :: "mica_kv \<Rightarrow> bool" where
  "unlocked kv \<longleftrightarrow> (\<forall>k e. kv_abs kv k = Some e \<longrightarrow> meta_ok (op_meta e))"

definition put_content :: "mica_op \<Rightarrow> (cache_key \<Rightarrow> (u8 \<times> u8 list) option) \<Rightarrow> cache_key \<Rightarrow> (u8 \<times> u8 list) option" where
  "put_content op m k =
    (if opcode op = MICA_OP_PUT \<and> key_word k = key_word (key op)
     then map_option (\<lambda>(l, v). (l, take (unat l) (value op))) (m k) else m k)"

interpretation crcw: entry_handler "crcw_hit machine_id" for machine_id
  by unfold_locales
     (auto simp: crcw_hit_def res_simps copy_value_def entry_wf_def set_meta_def key_word_def optik_unlock_write_def
       Let_def split: if_splits)

lemma contents_abs_step:
  assumes "kv_abs kv' = abs_step op (kv_abs kv)"
  shows "contents kv' = put_content op (contents kv)"
  by (rule ext) (auto simp: contents_def assms abs_step_def put_content_def content_def option.map_comp comp_def
      split: if_splits intro: option.map_cong)

lemma unlocked_upd:
  assumes "unlocked kv" "meta_ok (op_meta e')" "kv_abs kv' = map_upd k e' (kv_abs kv)"
  shows "unlocked kv'"
  using assms by (auto simp: unlocked_def map_upd_def split: if_splits)

lemma crcw_hit_present:
  assumes e: "kv_abs kv (key op) = Some e" "meta_ok (op_meta e)" "entry_wf e" and hit: "hit_ok (kv_abs kv) op"
    and loc: "kv_ptr kv (key op) = Some off"
  obtains e' op' where "crcw_hit mid (value_addr off) e op r = Inr (e', op', hit_answer (kv_ptr kv) (kv_abs kv) op)"
    "meta_ok (op_meta e')" "content e' = (if opcode op = MICA_OP_PUT then (val_len e, take (unat (val_len e)) (value op)) else content e)"
proof (cases "opcode op = MICA_OP_GET")
  case True
  then show ?thesis using that[of e op] e loc by (simp add: crcw_hit_def hit_answer_def)
next
  case False
  then have put: "opcode op = MICA_OP_PUT" "val_len op = val_len e" "unat (val_len e) \<le> length (value op)"
    using hit e(1) by (auto simp: hit_ok_def)
  let ?m = "(op_meta e)\<lparr>cid := of_nat mid, version := version (op_meta e) + 1 + 1, lock := OPTIK_FREE\<rparr>"
  let ?e = "set_meta ?m (e\<lparr>value := take (unat (val_len e)) (value op)\<rparr>)"
  let ?op = "set_meta ((op_meta op)\<lparr>version := version (op_meta e) + 1 + 1\<rparr>) op"
  have cp: "copy_value (unat (val_len e)) (value op) (value e) = Inr (take (unat (val_len e)) (value op))"
    using put(3) e(3) by (simp add: copy_value_def entry_wf_def)
  have "crcw_hit mid (value_addr off) e op r = Inr (?e, ?op, hit_answer (kv_ptr kv) (kv_abs kv) op)"
    using put e(2) by (simp add: crcw_hit_def cp optik_unlock_write_def hit_answer_def Let_def)
  moreover have "meta_ok (op_meta ?e)" using e(2) by (simp add: set_meta_def meta_ok_def)
  ultimately show ?thesis using that[of ?e ?op] put(1) by (simp add: content_def set_meta_def)
qed

lemma crcw_step_hit:
  assumes wf: "kv_wf kv" "in_first_lap kv" and un: "unlocked kv" and hit: "hit_ok (kv_abs kv) op"
  obtains kv' op' where "crcw_step mid ((op, r), kv_ptr kv (key op)) ((kv, lk), out) =
      Inr ((kv', lk), out @ [(op', hit_answer (kv_ptr kv) (kv_abs kv) op)])"
    "kv_wf kv'" "in_first_lap kv'" "kv_ptr kv' = kv_ptr kv" "unlocked kv'"
    "contents kv' = put_content op (contents kv)"
proof -
  from hit obtain e where e: "kv_abs kv (key op) = Some e" by (auto simp: hit_ok_def)
  with kv_abs_lookup[OF wf] obtain off where lk: "mica_lookup kv (key op) = Inr (Some (off, e))" by blast
  then have look: "entry_at kv (kv_ptr kv (key op)) (key op) = Inr (Some (off, e))" by (simp add: mica_lookup_def)
  then have ptr: "kv_ptr kv (key op) = Some off"
    by (auto simp: entry_at_def res_simps split: option.splits if_splits)
  have ent: "entry_wf e" using lookup_Some_slot[OF wf lk] by (metis slot_entry_def)
  have mo: "meta_ok (op_meta e)" using un e by (auto simp: unlocked_def)
  obtain e' op' where h: "crcw_hit mid (value_addr off) e op r = Inr (e', op', hit_answer (kv_ptr kv) (kv_abs kv) op)"
    "meta_ok (op_meta e')" "content e' = (if opcode op = MICA_OP_PUT then (val_len e, take (unat (val_len e)) (value op)) else content e)"
    by (rule crcw_hit_present[OF e mo ent hit ptr])
  have "abs_batch_step (crcw_hit mid) (\<lambda>_. False) (kv_ptr kv) (op, r) (kv_abs kv, out) =
      Inr (map_upd (key op) e' (kv_abs kv), out @ [(op', hit_answer (kv_ptr kv) (kv_abs kv) op)])"
    using e ptr h(1) by (simp add: abs_batch_step_def)
  with crcw.batch_step_refines[where machine_id = mid and skip = "\<lambda>_. False" and r = r and op = op and out = out, OF wf refl] obtain kv' where kv':
    "batch_step (crcw_hit mid) (\<lambda>_. False) ((op, r), kv_ptr kv (key op)) (kv, out) =
      Inr (kv', out @ [(op', hit_answer (kv_ptr kv) (kv_abs kv) op)])"
    "kv_abs kv' = map_upd (key op) e' (kv_abs kv)" "kv_wf kv'" "in_first_lap kv'" "kv_ptr kv' = kv_ptr kv" by auto
  have "crcw_step mid ((op, r), kv_ptr kv (key op)) ((kv, lk), out) =
      Inr ((kv', lk), out @ [(op', hit_answer (kv_ptr kv) (kv_abs kv) op)])" for lk
    using kv'(1) look h(1) by (auto simp: batch_step_def crcw_step_def res_simps)
  moreover have "contents kv' k = put_content op (contents kv) k" for k
    using h(3) e kv_abs_key_word[of k "key op" kv]
    by (auto simp: contents_def kv'(2) map_upd_def put_content_def content_def)
  ultimately show ?thesis
    using that[of kv' op'] kv' unlocked_upd[OF un h(2) kv'(2)] by blast
qed

text \<open>Two stores that a client cannot tell apart, step by step.\<close>

lemma hit_ok_contents:
  "hit_ok (kv_abs kv) op \<longleftrightarrow> (opcode op = MICA_OP_GET \<or> opcode op = MICA_OP_PUT) \<and>
     (\<exists>l v. contents kv (key op) = Some (l, v) \<and> (opcode op = MICA_OP_PUT \<longrightarrow> val_len op = l \<and> unat l \<le> length (value op)))"
  by (auto simp: hit_ok_def contents_def content_def)

lemma hit_answer_contents:
  assumes "hit_ok (kv_abs kv) op" "contents kv' = contents kv"
  shows "hit_answer loc (kv_abs kv') op = hit_answer loc (kv_abs kv) op"
proof -
  obtain e where e: "kv_abs kv (key op) = Some e" using assms(1) by (auto simp: hit_ok_def)
  then have "contents kv' (key op) = Some (content e)" using assms(2) by (simp add: contents_def)
  then show ?thesis using e by (auto simp: hit_answer_def contents_def content_def)
qed

lemma crcw_batch_simulates:
  assumes "kv_wf kv" "in_first_lap kv" "kv_wf kv2" "in_first_lap kv2" "unlocked kv2"
    "kv_ptr kv2 = kv_ptr kv" "contents kv2 = contents kv" "ptr = kv_ptr kv"
    "\<forall>(op, r)\<in>set ops. hit_ok (kv_abs kv) op" "map snd out = rs"
  shows "\<exists>kv' kv2' out'. fold_res mica_step (zip (map fst ops) (map (\<lambda>op. ptr (key op)) (map fst ops))) (kv, rs) =
      Inr (kv', map snd out') \<and>
    fold_res (crcw_step mid) (zip ops (map (\<lambda>(op, r). ptr (key op)) ops)) ((kv2, lk), out) = Inr ((kv2', lk), out') \<and>
    kv_wf kv2' \<and> unlocked kv2' \<and> contents kv2' = contents kv'"
  using assms
proof (induction ops arbitrary: kv kv2 rs out)
  case Nil
  then show ?case by auto
next
  case (Cons x ops)
  obtain op r where x: "x = (op, r)" by (cases x)
  have hit: "hit_ok (kv_abs kv) op" using Cons.prems(9) x by simp
  then have hit2: "hit_ok (kv_abs kv2) op" using Cons.prems(7) by (simp add: hit_ok_contents)
  obtain kv' a where s: "mica_step (op, kv_ptr kv (key op)) (kv, rs) = Inr (kv', rs @ [a])"
    "kv_wf kv'" "in_first_lap kv'" "kv_ptr kv' = kv_ptr kv" "kv_abs kv' = abs_step op (kv_abs kv)"
    "a = hit_answer (kv_ptr kv) (kv_abs kv) op"
    by (rule mica_step_hit[OF Cons.prems(1,2) hit]) (rule that)
  obtain kv2' op' where t: "crcw_step mid ((op, r), kv_ptr kv2 (key op)) ((kv2, lk), out) =
      Inr ((kv2', lk), out @ [(op', hit_answer (kv_ptr kv2) (kv_abs kv2) op)])"
    "kv_wf kv2'" "in_first_lap kv2'" "kv_ptr kv2' = kv_ptr kv2" "unlocked kv2'"
    "contents kv2' = put_content op (contents kv2)"
    by (rule crcw_step_hit[OF Cons.prems(3-5) hit2])
  have ans: "hit_answer (kv_ptr kv2) (kv_abs kv2) op = a"
    using hit_answer_contents[OF hit Cons.prems(7)] by (simp add: s(6) Cons.prems(6))
  have "\<forall>(op', r)\<in>set ops. hit_ok (kv_abs kv') op'"
    using Cons.prems(9) by (auto simp: s(5) hit_ok_abs_step)
  from Cons.IH[OF s(2,3) t(2,3,5) _ _ _ this, of "out @ [(op', a)]" "rs @ [a]"]
  obtain kv'' kv2'' out'' where
    "fold_res mica_step (zip (map fst ops) (map (\<lambda>op. ptr (key op)) (map fst ops))) (kv', rs @ [a]) = Inr (kv'', map snd out'')"
    "fold_res (crcw_step mid) (zip ops (map (\<lambda>(op, r). ptr (key op)) ops)) ((kv2', lk), out @ [(op', a)]) = Inr ((kv2'', lk), out'')"
    "kv_wf kv2''" "unlocked kv2''" "contents kv2'' = contents kv''"
    using Cons.prems(6,7,8,10) s(4) t(4,6) contents_abs_step[OF s(5)] by auto
  then show ?case using s(1) t(1) ans Cons.prems(6,8) by (auto simp: x)
qed

text \<open>A store with one object, made by an insertion.\<close>

lemma demo_crcw_store:
  obtains kv kv1 where "mica_init 0 0 1 256 demo_index demo_log = Inr kv"
    "mica_insert_one_crcw (kv, demo_meta) (demo_op MICA_OP_PUT 9) = Inr (kv1, demo_meta, crcw_fresh (demo_op MICA_OP_PUT 9))"
    "kv_wf kv1" "in_first_lap kv1" "unlocked kv1"
    "\<forall>k. kv_abs kv1 k = (if key_word k = key_word (key (demo_op MICA_OP_PUT 9))
       then Some (stored (crcw_fresh (demo_op MICA_OP_PUT 9))) else None)"
proof -
  let ?op = "demo_op MICA_OP_PUT 9"
  obtain kv where kv: "mica_init 0 0 1 256 demo_index demo_log = Inr kv" "kv_wf kv" "room_for kv 2" "\<forall>k. kv_abs kv k = None"
    by (rule demo_store)
  from kv(3) have r: "room_for kv 1" by (simp add: room_for_def)
  have lk: "meta_ok demo_meta" by (simp add: meta_ok_def demo_meta_def)
  obtain kv1 where kv1: "mica_insert_one_crcw (kv, demo_meta) ?op = Inr (kv1, demo_meta, crcw_fresh ?op)"
    "kv_wf kv1" "in_first_lap kv1"
    "\<And>k. kv_abs kv1 k = (if key_word k = key_word (key ?op) then Some (stored (crcw_fresh ?op))
        else if displaced kv (key ?op) k then None else kv_abs kv k)"
    by (rule crcw_insert_abs[OF kv(2) r demo_op_ok[of MICA_OP_PUT 9] lk]) (rule that)
  have un: "unlocked kv1"
    using kv(4) by (auto simp: unlocked_def kv1(4) stored_def crcw_fresh_def set_meta_def meta_ok_def optik_init_def
        split: if_splits)
  show ?thesis using that[OF kv(1) kv1(1-3) un] kv(4) kv1(4) by simp
qed

lemma demo_crcw_hit:
  assumes "\<forall>k. m k = (if key_word k = key_word (key (demo_op MICA_OP_PUT 9))
       then Some (stored (crcw_fresh (demo_op MICA_OP_PUT 9))) else None)"
    and "oc = MICA_OP_GET \<or> oc = MICA_OP_PUT"
  shows "hit_ok m (demo_op oc 9)"
proof -
  have "key_word (key (demo_op oc 9)) = key_word (key (demo_op MICA_OP_PUT 9))" by (simp add: demo_op_def)
  then show ?thesis using assms(2) by (simp add: hit_ok_def assms(1) stored_def) (auto simp: demo_op_def)
qed

text \<open>Property C21: the store shared by the workers answers a batch as the private store
  does.  On a well-formed store with all objects unlocked, and with the keys of the batch
  present and the lengths matching, both batches return, give the same response to every
  operation (type, length and address of the value) and leave the same value under every
  key; the shared store stays well formed, all its locks are free again and the lock for
  insertions is untouched.\<close>

theorem crcw_batch_equals_private:
  assumes "kv_wf kv" "in_first_lap kv" "unlocked kv" "length ops \<le> MICA_MAX_BATCH_SIZE"
    "\<forall>(op, r)\<in>set ops. hit_ok (kv_abs kv) op"
  shows "\<exists>kv1 kv2 out. mica_batch_op kv (map fst ops) = Inr (kv1, map snd out) \<and>
    mica_batch_op_crcw machine_id (kv, lk) ops = Inr ((kv2, lk), out) \<and>
    kv_wf kv2 \<and> unlocked kv2 \<and> contents kv2 = contents kv1"
  using crcw_batch_simulates[OF assms(1,2,1,2,3) refl refl refl assms(5), of "[]" "[]" machine_id lk] assms(4)
  by (simp add: mica_batch_op_def mica_batch_op_crcw_def)

theorem crcw_batch_equals_private_witness:
  "\<exists>kv kv1 kv2 out. mica_init 0 0 1 256 demo_index demo_log = Inr kv \<and>
     mica_insert_one_crcw (kv, demo_meta) (demo_op MICA_OP_PUT 9) = Inr (kv1, demo_meta, crcw_fresh (demo_op MICA_OP_PUT 9)) \<and>
     mica_batch_op_crcw 2 (kv1, demo_meta) [(demo_op MICA_OP_PUT 9, fresh_resp), (demo_op MICA_OP_GET 9, fresh_resp)] =
       Inr ((kv2, demo_meta), out) \<and> unlocked kv2"
proof -
  let ?op = "demo_op MICA_OP_PUT 9" and ?get = "demo_op MICA_OP_GET 9"
  obtain kv kv1 where d: "mica_init 0 0 1 256 demo_index demo_log = Inr kv"
    "mica_insert_one_crcw (kv, demo_meta) ?op = Inr (kv1, demo_meta, crcw_fresh ?op)" "kv_wf kv1" "in_first_lap kv1"
    "unlocked kv1" "\<forall>k. kv_abs kv1 k = (if key_word k = key_word (key ?op) then Some (stored (crcw_fresh ?op)) else None)"
    by (rule demo_crcw_store)
  have "\<forall>(op, r)\<in>set [(?op, fresh_resp), (?get, fresh_resp)]. hit_ok (kv_abs kv1) op"
    using demo_crcw_hit[OF d(6)] by simp
  moreover have "length [(?op, fresh_resp), (?get, fresh_resp)] \<le> MICA_MAX_BATCH_SIZE" by (simp add: MICA_MAX_BATCH_SIZE_def)
  ultimately show ?thesis using crcw_batch_equals_private[OF d(3-5), of _ 2 demo_meta] d(1,2) by blast
qed

end
