(* ===== verification/Transport.thy ===== *)
theory Transport
  imports Requests SC Mica_Crcw
begin

text \<open>
  The messages between machines under sequential consistency (\<open>client-sc.c\<close>,
  \<open>worker.c\<close>, \<open>util.h\<close>): a client packs the requests for a machine into one message,
  a worker parses it and serves it from the store; the updates of a client are packed
  into one message for every other client, whose handler applies them to its cache.
  Messages are lists of bytes.  The RPC library is a parameter of this model: it takes
  the messages an operation returns and delivers each to its handler once; which
  handler runs when is left to it.
\<close>

section \<open>State\<close>

text \<open>The part of a client's context that concerns messages.  \<open>cbatch\<close> holds positions in
  the buffer of operations, and its length is \<open>cidx\<close>.\<close>

record ctx =
  bufferused :: "nat list"
  cache_bufferused :: "nat list"
  reqs_in_transit :: int
  cbatch :: "nat list"
  creq_length :: nat
  updates_per_client :: int
  received_updates_per_client :: int
  coh_buf :: "cache_op list"
  coh_buf_i :: nat
  update_ops :: "u8 list"
  update_resp :: "mica_resp list"

record worker =
  handle :: "u8 list list"
  op_ptr_arr :: "(nat \<times> nat) list"
  ops_in_req :: "nat list"
  batches_per_worker :: int
  remotes_per_worker :: int

section \<open>Requests for remote machines\<close>

text \<open>The first bytes of an operation as they lie in memory.\<close>

definition op_bytes :: "nat \<Rightarrow> cache_op \<Rightarrow> u8 list" where
  "op_bytes len op = take len (encode_op op)"

definition request_packet :: "client \<Rightarrow> nat \<Rightarrow> u8 list" where
  "request_packet c rm_id = concat (map (\<lambda>(op_i, len). op_bytes len (e_op (bufs c ! op_i))) (batch c ! rm_id))"

definition send_request :: "nat \<Rightarrow> nat \<Rightarrow> (client \<times> ctx) \<times> (nat \<times> u8 list) list \<Rightarrow>
    ((client \<times> ctx) \<times> (nat \<times> u8 list) list) result" where
  "send_request machine_id rm_id = (\<lambda>((c, x), out).
    if rm_id \<noteq> machine_id \<and> length (batch c ! rm_id) > 0 then
      assert_res (bufferused x ! rm_id = 0)
      (Inr ((c\<lparr>batch := (batch c)[rm_id := []]\<rparr>,
             x\<lparr>bufferused := (bufferused x)[rm_id := 1], reqs_in_transit := reqs_in_transit x + 1\<rparr>),
            out @ [(rm_id, request_packet c rm_id)]))
    else Inr ((c, x), out))"

definition send_requests :: "nat \<Rightarrow> client \<times> ctx \<Rightarrow> ((client \<times> ctx) \<times> (nat \<times> u8 list) list) result" where
  "send_requests machine_id s = fold_res (send_request machine_id) [0 ..< MACHINE_NUM] (s, [])"

definition receive_response :: "nat \<Rightarrow> nat \<Rightarrow> int \<Rightarrow> nat \<Rightarrow> client \<times> ctx \<Rightarrow> (client \<times> ctx) result" where
  "receive_response machine_id local_client_id useconds rm_id = (\<lambda>(c, x).
    let x = x\<lparr>bufferused := (bufferused x)[rm_id := 0], reqs_in_transit := reqs_in_transit x - 1\<rparr> in
    if MEASURE_LATENCY = 1 \<and> measured_req_flag (latency_info c) = REMOTE_REQ \<and> local_client_id = 0 \<and> machine_id = 0
    then assert_res (ENABLE_ASSERTIONS = 0 \<or> useconds > 0)
      (bind_res (bookkeep_latency useconds REMOTE_REQ (latency_count c)) (\<lambda>lc.
       Inr (c\<lparr>latency_count := lc, latency_info := (latency_info c)\<lparr>measured_req_flag := NO_REQ\<rparr>\<rparr>, x)))
    else Inr (c, x))"

section \<open>The worker\<close>

text \<open>The loop of \<open>req_handler\<close> over a message: the positions of its operations.\<close>

function parse_ops :: "u8 list \<Rightarrow> nat \<Rightarrow> nat list result" where
  "parse_ops msg off =
    (if off < length msg then
       if off + HERD_GET_REQ_SIZE > length msg then Inl Out_Of_Bounds
       else bind_res (parse_ops msg (off +
           (if msg ! (off + KEY_SIZE) = CACHE_OP_PUT then HERD_PUT_REQ_SIZE else HERD_GET_REQ_SIZE)))
         (\<lambda>offs. Inr (off # offs))
     else Inr [])"
  by pat_completeness auto
termination
  by (relation "measure (\<lambda>(msg, off). length msg - off)") (auto simp: HERD_PUT_REQ_SIZE_def HERD_GET_REQ_SIZE_def KEY_SIZE_def)

declare parse_ops.simps [simp del]

definition total_ops :: "worker \<Rightarrow> nat" where
  "total_ops w = length (op_ptr_arr w)"

definition req_handler :: "u8 list \<Rightarrow> worker \<Rightarrow> worker result" where
  "req_handler msg w =
    (if length (handle w) \<ge> MACHINE_NUM then Inl Out_Of_Bounds
     else bind_res (parse_ops msg 0) (\<lambda>offs.
       if total_ops w + length offs > WORKER_MAX_BATCH then Inl Out_Of_Bounds
       else let w' = w\<lparr>handle := handle w @ [msg], ops_in_req := ops_in_req w @ [length offs],
                op_ptr_arr := op_ptr_arr w @ map (\<lambda>off. (length (handle w), off)) offs\<rparr> in
         assert_res (total_ops w' \<le> WORKER_MAX_BATCH) (Inr w')))"

text \<open>A pointer into a message read as a \<open>struct mica_op\<close>.  The last request of a message
  may be shorter than the structure; \<open>tail\<close> are the bytes that lie behind the message.\<close>

definition decode_op :: "u8 list \<Rightarrow> cache_op" where
  "decode_op bs = \<lparr>key = decode_key (take 16 bs), opcode = bs ! 16, val_len = bs ! 17,
     value = take MICA_MAX_VALUE (drop 18 bs)\<rparr>"

definition op_at :: "u8 list \<Rightarrow> u8 list \<Rightarrow> nat \<Rightarrow> cache_op" where
  "op_at tail msg off = decode_op (drop off (msg @ tail))"

text \<open>\<open>drain_batch\<close>: all operations collected go to the store as one batch, and each
  request gets the responses of its own operations.\<close>

fun split_resps :: "nat list \<Rightarrow> 'a list \<Rightarrow> 'a list list" where
  "split_resps [] rs = []"
| "split_resps (n # ns) rs = take n rs # split_resps ns (drop n rs)"

definition worker_ops :: "u8 list \<Rightarrow> worker \<Rightarrow> cache_op list" where
  "worker_ops tail w = map (\<lambda>(r, off). op_at tail (handle w ! r) off) (op_ptr_arr w)"

definition drain_batch :: "nat \<Rightarrow> u8 list \<Rightarrow> mica_resp list \<Rightarrow> (mica_kv \<times> cache_meta) \<times> worker \<Rightarrow>
    ((mica_kv \<times> cache_meta) \<times> worker \<times> mica_resp list list) result" where
  "drain_batch machine_id tail resps = (\<lambda>(kv, w).
    bind_res (mica_batch_op_crcw machine_id kv (zip (worker_ops tail w) resps)) (\<lambda>(kv', out).
    Inr (kv', w\<lparr>batches_per_worker := batches_per_worker w + 1,
           remotes_per_worker := remotes_per_worker w + int (total_ops w)\<rparr>,
         split_resps (ops_in_req w) (map snd out))))"

text \<open>One turn of the loop of \<open>run_worker\<close>: the messages that arrived are collected, and
  then the batch is drained.\<close>

definition worker_turn :: "nat \<Rightarrow> u8 list \<Rightarrow> mica_resp list \<Rightarrow> u8 list list \<Rightarrow> (mica_kv \<times> cache_meta) \<times> worker \<Rightarrow>
    ((mica_kv \<times> cache_meta) \<times> worker \<times> mica_resp list list) result" where
  "worker_turn machine_id tail resps msgs = (\<lambda>(kv, w).
    let w = w\<lparr>handle := [], op_ptr_arr := [], ops_in_req := []\<rparr> in
    bind_res (fold_res req_handler msgs w) (\<lambda>w.
    if length (handle w) = 0 then Inr (kv, w, []) else drain_batch machine_id tail resps (kv, w)))"

section \<open>Updates\<close>

definition add_cache_op :: "nat \<Rightarrow> nat \<Rightarrow> ctx \<Rightarrow> ctx result" where
  "add_cache_op op_i request_length x =
    assert_res (length (cbatch x) < CACHE_BATCH_SIZE)
    (Inr (x\<lparr>creq_length := request_length, cbatch := cbatch x @ [op_i],
       updates_per_client := updates_per_client x + 1\<rparr>))"

text \<open>The hot writes of a batch become updates.  The copy into \<open>coh_buf\<close> is a remainder of
  the transport this one replaced, and is not read.\<close>

definition broadcast_SC :: "nat \<Rightarrow> client \<times> ctx \<Rightarrow> (client \<times> ctx) result" where
  "broadcast_SC op_i = (\<lambda>(c, x).
    let e = bufs c ! op_i in
    if opcode (e_op e) \<noteq> CACHE_OP_BRC then Inr (c, x)
    else
      (let e = e\<lparr>e_op := (e_op e)\<lparr>opcode := CACHE_OP_UPD\<rparr>\<rparr> in
       bind_res (add_cache_op op_i HERD_PUT_REQ_SIZE x) (\<lambda>x.
       bind_res (update_at (coh_buf_i x) (copy_op HERD_PUT_REQ_SIZE (e_op e)) (coh_buf x)) (\<lambda>b.
       Inr (c\<lparr>bufs := (bufs c)[op_i := e]\<rparr>,
            x\<lparr>coh_buf := b, coh_buf_i := MOD_ADD_WITH_BASE (coh_buf_i x) COH_BUF_SLOTS 0\<rparr>)))))"

definition perform_broadcasts_SC :: "client \<times> ctx \<Rightarrow> (client \<times> ctx) result" where
  "perform_broadcasts_SC s = fold_res broadcast_SC [0 ..< CACHE_BATCH_SIZE] s"

definition update_packet :: "client \<Rightarrow> ctx \<Rightarrow> u8 list" where
  "update_packet c x = concat (map (\<lambda>op_i. op_bytes (creq_length x) (e_op (bufs c ! op_i))) (cbatch x))"

definition broadcast_to :: "nat \<Rightarrow> u8 list \<Rightarrow> nat \<Rightarrow> ctx \<times> (nat \<times> u8 list) list \<Rightarrow>
    (ctx \<times> (nat \<times> u8 list) list) result" where
  "broadcast_to machine_id buffer rm_id = (\<lambda>(x, out).
    if rm_id \<noteq> machine_id then
      assert_res (cache_bufferused x ! rm_id = 0)
      (Inr (x\<lparr>cache_bufferused := (cache_bufferused x)[rm_id := 1], reqs_in_transit := reqs_in_transit x + 1\<rparr>,
            out @ [(rm_id, buffer)]))
    else Inr (x, out))"

definition broadcast_cache_ops :: "nat \<Rightarrow> client \<times> ctx \<Rightarrow> (ctx \<times> (nat \<times> u8 list) list) result" where
  "broadcast_cache_ops machine_id = (\<lambda>(c, x).
    if length (cbatch x) = 0 then Inr (x, [])
    else bind_res (fold_res (broadcast_to machine_id (update_packet c x)) [0 ..< MACHINE_NUM] (x, [])) (\<lambda>(x, out).
      Inr (x\<lparr>cbatch := []\<rparr>, out)))"

definition cache_response :: "nat \<Rightarrow> ctx \<Rightarrow> ctx" where
  "cache_response rm_id x =
    x\<lparr>cache_bufferused := (cache_bufferused x)[rm_id := 0], reqs_in_transit := reqs_in_transit x - 1\<rparr>"

text \<open>The handler of an update message copies the message over its array of operations and
  gives the number of updates in the message to the cache.\<close>

definition received_ops :: "nat \<Rightarrow> u8 list \<Rightarrow> cache_op list" where
  "received_ops n mem = map (\<lambda>i. decode_op (take sizeof_mica_op (drop (sizeof_mica_op * i) mem))) [0 ..< n]"

definition req_cache :: "u8 list \<Rightarrow> cache \<times> ctx \<Rightarrow> (cache \<times> ctx) result" where
  "req_cache msg = (\<lambda>(ch, x).
    let updates = length msg div HERD_PUT_REQ_SIZE in
    bind_res (mem_write (update_ops x) 0 msg) (\<lambda>mem.
    bind_res (cache_batch_op_sc_with_cache_op (zip (received_ops updates mem) (update_resp x)) ch) (\<lambda>(ch', out).
    Inr (ch', x\<lparr>update_ops := mem, update_resp := map snd out @ drop (length out) (update_resp x),
      received_updates_per_client := received_updates_per_client x + int updates\<rparr>))))"

end
