(* ===== verification/Client.thy ===== *)
theory Client
  imports Trace Transport
begin

text \<open>
  The loop of a client of the sequentially consistent protocol (\<open>run_client\<close> of
  \<open>client-sc.c\<close>).  A turn swaps the buffers, refills the batch from the trace and gives
  it to the cache, turns the hot writes into updates, walks over the batch, waits for the
  responses to the requests of the turn before, and sends the updates and the requests.
  The RPC library is a parameter: each of its polls is given as the list of messages whose
  handlers it calls.
\<close>

section \<open>State\<close>

record client_thread =
  th_client :: client
  th_ctx :: ctx
  third_bufs :: "entry list"
  th_trace_iter :: nat
  th_trace_stats :: trace_stats
  th_wr_i :: nat
  th_previous_wr_i :: nat
  outstanding_rem_reqs :: u32
  remotes_per_client :: int
  remote_messages_per_client :: int
  batches_per_client :: int
  wasted_loops :: int
  stalled_time_per_client :: int

text \<open>What a poll of the RPC library may deliver: the response to the requests sent to a
  machine (with the time since the measured request was made), the response to the updates
  sent to a machine, or updates from another client.\<close>

datatype event = Response nat int | Cache_response nat | Update "u8 list"

section \<open>Polling\<close>

definition handle_event :: "nat \<Rightarrow> nat \<Rightarrow> event \<Rightarrow> cache \<times> client \<times> ctx \<Rightarrow> (cache \<times> client \<times> ctx) result" where
  "handle_event machine_id local_client_id ev = (\<lambda>(ch, c, x).
    case ev of
      Response rm_id useconds \<Rightarrow>
        bind_res (receive_response machine_id local_client_id useconds rm_id (c, x)) (\<lambda>(c, x). Inr (ch, c, x))
    | Cache_response rm_id \<Rightarrow> Inr (ch, c, cache_response rm_id x)
    | Update msg \<Rightarrow> bind_res (req_cache msg (ch, x)) (\<lambda>(ch, x). Inr (ch, c, x)))"

definition run_event_loop_once :: "nat \<Rightarrow> nat \<Rightarrow> event list \<Rightarrow> cache \<times> client \<times> ctx \<Rightarrow> (cache \<times> client \<times> ctx) result" where
  "run_event_loop_once machine_id local_client_id evs s = fold_res (handle_event machine_id local_client_id) evs s"

fun wait_responses :: "nat \<Rightarrow> nat \<Rightarrow> event list list \<Rightarrow> nat \<Rightarrow> cache \<times> client \<times> ctx \<Rightarrow>
    (nat \<times> cache \<times> client \<times> ctx) result" where
  "wait_responses machine_id clt [] debug_cnt (ch, c, x) =
    (if reqs_in_transit x > 0 then Inl Spins else Inr (debug_cnt, ch, c, x))"
| "wait_responses machine_id clt (evs # polls) debug_cnt (ch, c, x) =
    (if reqs_in_transit x > 0 then
       bind_res (run_event_loop_once machine_id clt evs (ch, c, x)) (\<lambda>s.
       wait_responses machine_id clt polls (if debug_cnt + 1 > M_256 then 0 else debug_cnt + 1) s)
     else Inr (debug_cnt, ch, c, x))"

section \<open>A turn of the loop\<close>

text \<open>The times and polls of a turn: the time of a measured hot request, that of a measured
  local request, and the polls while it waits.\<close>

record turn_input =
  t_hot :: int
  t_local :: int
  t_polls :: "event list list"

definition swap_buffers :: "client_thread \<Rightarrow> client_thread" where
  "swap_buffers t =
    (let c = th_client t; (b, nb, tb) = swap_ops (bufs c, next_bufs c, third_bufs t)
     in t\<lparr>th_client := c\<lparr>bufs := b, next_bufs := nb\<rparr>, third_bufs := tb,
          outstanding_rem_reqs := (if th_previous_wr_i t > 0 then outstanding_rem_reqs t - of_nat (th_previous_wr_i t)
            else outstanding_rem_reqs t)\<rparr>)"

definition probe_turn :: "nat \<Rightarrow> nat \<Rightarrow> trace_command list \<Rightarrow> turn_input \<Rightarrow> cache \<times> client_thread \<Rightarrow>
    (cache \<times> client_thread) result" where
  "probe_turn machine_id clt tr inp = (\<lambda>(ch, t).
    let c = th_client t in
    bind_res (batch_from_trace_to_cache machine_id (batches_per_client t) (t_hot inp) clt tr False
        (next_op_i c) (th_trace_iter t) (ch, c, th_trace_stats t)) (\<lambda>(it, ch, c, st).
    bind_res (if WRITE_RATIO > 0 \<and> DISABLE_CACHE = 0 then perform_broadcasts_SC (c, th_ctx t)
              else Inr (c, th_ctx t)) (\<lambda>(c, x).
    Inr (ch, t\<lparr>th_client := c, th_ctx := x, th_trace_iter := it, th_trace_stats := st\<rparr>))))"

text \<open>The counters of the turn are reset and the batch is walked over.  (With
  \<open>ENABLE_MULTI_BATCHES\<close>, which the configuration does not set, the credits of the workers
  would not be reset.)\<close>

definition cold_turn :: "nat \<Rightarrow> nat \<Rightarrow> nat \<Rightarrow> u32 \<Rightarrow> turn_input \<Rightarrow> client_thread \<Rightarrow> client_thread result" where
  "cold_turn machine_id clt local_worker_id clt_gid inp t =
    (let c = th_client t;
         c = c\<lparr>rem_req_i := 0, next_op_i := 0, per_worker_outstanding :=
           (if ENABLE_MULTI_BATCHES = 1 then per_worker_outstanding c else replicate WORKER_NUM 0)\<rparr> in
     bind_res (handle_cold_requests SEQUENTIAL_CONSISTENCY machine_id clt local_worker_id clt_gid (t_local inp) c) (\<lambda>(wr_i, c).
     Inr (t\<lparr>th_client := (if ENABLE_WORKER_COALESCING = 1 then c\<lparr>rem_req_i := wr_i\<rparr> else c),
            th_previous_wr_i := th_wr_i t, th_wr_i := wr_i,
            remotes_per_client := remotes_per_client t + int (rem_req_i c),
            remote_messages_per_client := remote_messages_per_client t + int wr_i,
            batches_per_client := (if wr_i > 0 then batches_per_client t + 1 else batches_per_client t),
            wasted_loops := (if wr_i = 0 \<and> ENABLE_STAT_COUNTING = 1 then wasted_loops t + 1 else wasted_loops t)\<rparr>)))"

definition wait_turn :: "nat \<Rightarrow> nat \<Rightarrow> turn_input \<Rightarrow> cache \<times> client_thread \<Rightarrow> (cache \<times> client_thread) result" where
  "wait_turn machine_id clt inp = (\<lambda>(ch, t).
    if th_previous_wr_i t > 0 then
      bind_res (wait_responses machine_id clt (t_polls inp) 0 (ch, th_client t, th_ctx t)) (\<lambda>(debug_cnt, ch, c, x).
      Inr (ch, t\<lparr>th_client := c, th_ctx := x, stalled_time_per_client := stalled_time_per_client t + int debug_cnt\<rparr>))
    else Inr (ch, t))"

definition send_turn :: "nat \<Rightarrow> cache \<times> client_thread \<Rightarrow>
    (cache \<times> client_thread \<times> (nat \<times> u8 list) list \<times> (nat \<times> u8 list) list) result" where
  "send_turn machine_id = (\<lambda>(ch, t).
    bind_res (broadcast_cache_ops machine_id (th_client t, th_ctx t)) (\<lambda>(x, updates).
    bind_res (send_requests machine_id (th_client t, x)) (\<lambda>((c, x), requests).
    Inr (ch, t\<lparr>th_client := c, th_ctx := x\<rparr>, updates, requests))))"

text \<open>The turn up to the messages it sends, and the whole turn with the poll at its end.\<close>

definition turn_sends :: "nat \<Rightarrow> nat \<Rightarrow> nat \<Rightarrow> u32 \<Rightarrow> trace_command list \<Rightarrow> turn_input \<Rightarrow> cache \<times> client_thread \<Rightarrow>
    (cache \<times> client_thread \<times> (nat \<times> u8 list) list \<times> (nat \<times> u8 list) list) result" where
  "turn_sends machine_id clt local_worker_id clt_gid tr inp = (\<lambda>(ch, t).
    bind_res (probe_turn machine_id clt tr inp (ch, swap_buffers t)) (\<lambda>(ch, t).
    bind_res (cold_turn machine_id clt local_worker_id clt_gid inp t) (\<lambda>t.
    bind_res (wait_turn machine_id clt inp (ch, t)) (send_turn machine_id))))"

definition client_turn :: "nat \<Rightarrow> nat \<Rightarrow> nat \<Rightarrow> u32 \<Rightarrow> trace_command list \<Rightarrow> turn_input \<Rightarrow> event list \<Rightarrow> cache \<times> client_thread \<Rightarrow>
    (cache \<times> client_thread \<times> (nat \<times> u8 list) list \<times> (nat \<times> u8 list) list) result" where
  "client_turn machine_id clt local_worker_id clt_gid tr inp last_poll s =
    bind_res (turn_sends machine_id clt local_worker_id clt_gid tr inp s) (\<lambda>(ch, t, updates, requests).
    bind_res (run_event_loop_once machine_id clt last_poll (ch, th_client t, th_ctx t)) (\<lambda>(ch, c, x).
    Inr (ch, t\<lparr>th_client := c, th_ctx := x\<rparr>, updates, requests)))"

end
