(* ===== verification/Requests_Correct.thy ===== *)
theory Requests_Correct
  imports Requests
begin

text \<open>
  What the walk over a batch guarantees: no request is lost, duplicated or
  reordered.  \<open>walk_ok\<close> relates the part of the batch already walked over to the
  buffer of the next cycle, \<open>sent_ok\<close> to the batches for the remote machines; every
  operation on a request preserves both.
\<close>

section \<open>Invariants\<close>

definition entries_ok :: "entry list \<Rightarrow> bool" where
  "entries_ok es \<longleftrightarrow> length es = CACHE_BATCH_SIZE \<and> (\<forall>e\<in>set es. length (value (e_op e)) = MICA_MAX_VALUE)"

text \<open>A request is finished once its response is \<open>EMPTY\<close>: it was answered, or it was
  sent.  \<open>request_of\<close> is the part of an entry that the request means.\<close>

definition unfinished :: "entry list \<Rightarrow> entry list" where
  "unfinished = filter (\<lambda>e. rtype (e_resp e) \<noteq> EMPTY)"

definition request_of :: "entry \<Rightarrow> cache_key \<times> u8 \<times> u8 \<times> u8 list \<times> mica_resp \<times> key_home" where
  "request_of e = (let op = e_op e in
     (key op, opcode op, val_len op,
      take (if opcode op = CACHE_OP_GET then 1 else HERD_VALUE_SIZE) (value op), e_resp e, e_home e))"

definition walk_ok :: "nat \<Rightarrow> client \<Rightarrow> bool" where
  "walk_ok op_i c \<longleftrightarrow> entries_ok (bufs c) \<and> entries_ok (next_bufs c) \<and>
    (\<forall>e\<in>set (drop op_i (bufs c)). rtype (e_resp e) \<noteq> EMPTY) \<and>
    next_op_i c = length (unfinished (take op_i (bufs c))) \<and>
    map request_of (take (next_op_i c) (next_bufs c)) = map request_of (unfinished (take op_i (bufs c)))"

definition others_kept :: "client \<Rightarrow> client \<Rightarrow> bool" where
  "others_kept c c' \<longleftrightarrow> batch c' = batch c \<and> per_worker_outstanding c' = per_worker_outstanding c \<and>
    rem_req_i c' = rem_req_i c \<and> remote_for_each_worker c' = remote_for_each_worker c \<and>
    local_measure c' = local_measure c \<and> latency_count c' = latency_count c \<and>
    (last_measured_op_i (latency_info c) < CACHE_BATCH_SIZE \<longrightarrow> last_measured_op_i (latency_info c') < CACHE_BATCH_SIZE) \<and>
    length (hottest_keys_pointers c') = length (hottest_keys_pointers c)"

text \<open>The client may change the response of an entry and the metadata of its key, never
  the rest.\<close>

definition same_request :: "entry \<Rightarrow> entry \<Rightarrow> bool" where
  "same_request e e' \<longleftrightarrow> e_home e' = e_home e \<and> key_word (key (e_op e')) = key_word (key (e_op e)) \<and>
     opcode (e_op e') = opcode (e_op e) \<and> val_len (e_op e') = val_len (e_op e) \<and> value (e_op e') = value (e_op e)"

definition missed :: "entry \<Rightarrow> bool" where
  "missed e \<longleftrightarrow> (opcode (e_op e) = CACHE_OP_GET \<or> opcode (e_op e) = CACHE_OP_PUT) \<and>
     (rtype (e_resp e) = CACHE_MISS \<or> rtype (e_resp e) = UNSERVED_CACHE_MISS)"

definition hit :: "entry \<Rightarrow> bool" where
  "hit e \<longleftrightarrow> rtype (e_resp e) \<noteq> CACHE_MISS \<and> rtype (e_resp e) \<noteq> UNSERVED_CACHE_MISS"

text \<open>The hits that are over when the client has walked past them, and what is left of the
  other requests: a hit keeps its response, a miss becomes an unserved one.\<close>

definition retired_by :: "nat \<Rightarrow> entry \<Rightarrow> bool" where
  "retired_by pr e \<longleftrightarrow> rtype (e_resp e) = CACHE_GET_SUCCESS \<or>
     (if pr = LINEARIZABILITY then opcode (e_op e) = CACHE_OP_INV \<or> rtype (e_resp e) = CACHE_PUT_FAIL
      else opcode (e_op e) = CACHE_OP_UPD)"

definition left_over :: "(entry \<Rightarrow> bool) \<Rightarrow> entry \<Rightarrow> entry \<Rightarrow> bool" where
  "left_over dn e e' \<longleftrightarrow> (rtype (e_resp e') \<noteq> EMPTY \<longrightarrow>
     (if hit e then \<not> dn e \<and> rtype (e_resp e') = rtype (e_resp e) else rtype (e_resp e') = UNSERVED_CACHE_MISS))"

lemma same_request_refl [simp]: "same_request e e"
  by (simp add: same_request_def)

lemma same_request_trans: "same_request a b \<Longrightarrow> same_request b c \<Longrightarrow> same_request a c"
  by (simp add: same_request_def)

lemma same_request_resp [simp]: "same_request a (b\<lparr>e_resp := r\<rparr>) = same_request a b"
  by (simp add: same_request_def)

text \<open>One request is dealt with: its entry alone changes, and it either becomes empty
  or is appended to the next buffer.\<close>

definition finishes :: "nat \<Rightarrow> client \<Rightarrow> client \<Rightarrow> entry \<Rightarrow> bool" where
  "finishes op_i c c' e \<longleftrightarrow> bufs c' = (bufs c)[op_i := e] \<and> same_request (bufs c ! op_i) e \<and>
     length (value (e_op e)) = MICA_MAX_VALUE \<and>
     (rtype (e_resp e) = EMPTY \<and> next_bufs c' = next_bufs c \<and> next_op_i c' = next_op_i c \<or>
      rtype (e_resp e) \<noteq> EMPTY \<and> (\<exists>n. next_bufs c' = (next_bufs c)[next_op_i c := n] \<and>
        length (value (e_op n)) = MICA_MAX_VALUE \<and> request_of n = request_of e) \<and>
        next_op_i c' = next_op_i c + 1)"

lemma unfinished_length: "length (unfinished es) \<le> length es"
  by (simp add: unfinished_def)

lemma take_Suc_update:
  "i < length xs \<Longrightarrow> take (Suc i) (xs[i := x]) = take i xs @ [x]"
  by (simp add: take_Suc_conv_app_nth)

lemma walk_ok_next:
  assumes "walk_ok op_i c" "op_i < CACHE_BATCH_SIZE"
  shows "next_op_i c \<le> op_i" "next_op_i c < length (next_bufs c)"
    "op_i < length (bufs c)" "length (value (e_op (bufs c ! op_i))) = MICA_MAX_VALUE"
    "rtype (e_resp (bufs c ! op_i)) \<noteq> EMPTY"
    "length (value (e_op (next_bufs c ! next_op_i c))) = MICA_MAX_VALUE"
proof -
  have "length (unfinished (take op_i (bufs c))) \<le> op_i"
    using unfinished_length[of "take op_i (bufs c)"] by simp
  then show le: "next_op_i c \<le> op_i" using assms by (simp add: walk_ok_def)
  then show lt: "next_op_i c < length (next_bufs c)" using assms by (simp add: walk_ok_def entries_ok_def)
  show l: "op_i < length (bufs c)" using assms by (simp add: walk_ok_def entries_ok_def)
  then show "length (value (e_op (bufs c ! op_i))) = MICA_MAX_VALUE"
    using assms by (simp add: walk_ok_def entries_ok_def)
  have "bufs c ! op_i \<in> set (drop op_i (bufs c))"
    using l by (metis Cons_nth_drop_Suc list.set_intros(1))
  then show "rtype (e_resp (bufs c ! op_i)) \<noteq> EMPTY" using assms by (auto simp: walk_ok_def)
  show "length (value (e_op (next_bufs c ! next_op_i c))) = MICA_MAX_VALUE"
    using assms lt by (simp add: walk_ok_def entries_ok_def)
qed

lemma finishes_walk:
  assumes w: "walk_ok op_i c" and lt: "op_i < CACHE_BATCH_SIZE" and f: "finishes op_i c c' e"
  shows "walk_ok (Suc op_i) c'"
proof -
  note n = walk_ok_next[OF w lt]
  have b: "bufs c' = (bufs c)[op_i := e]" "length (value (e_op e)) = MICA_MAX_VALUE"
    using f by (auto simp: finishes_def)
  have ent: "entries_ok (bufs c')"
    using w b by (auto simp: walk_ok_def entries_ok_def dest!: subsetD[OF set_update_subset_insert])
  have rest: "drop (Suc op_i) (bufs c') = drop (Suc op_i) (bufs c)" by (simp add: b)
  have "set (drop (Suc op_i) (bufs c)) \<subseteq> set (drop op_i (bufs c))" by (rule set_drop_subset_set_drop) simp
  then have rest_ok: "\<forall>e\<in>set (drop (Suc op_i) (bufs c')). rtype (e_resp e) \<noteq> EMPTY"
    using w by (auto simp: walk_ok_def rest)
  have un: "unfinished (take (Suc op_i) (bufs c')) = unfinished (take op_i (bufs c)) @ unfinished [e]"
    using n(3) by (simp add: b take_Suc_update unfinished_def)
  from f consider (finished) "rtype (e_resp e) = EMPTY" "next_bufs c' = next_bufs c" "next_op_i c' = next_op_i c"
    | (moved) m where "rtype (e_resp e) \<noteq> EMPTY" "next_bufs c' = (next_bufs c)[next_op_i c := m]"
        "length (value (e_op m)) = MICA_MAX_VALUE" "request_of m = request_of e" "next_op_i c' = next_op_i c + 1"
    by (auto simp: finishes_def)
  then show ?thesis
  proof cases
    case finished
    then have u: "unfinished (take (Suc op_i) (bufs c')) = unfinished (take op_i (bufs c))"
      by (simp only: un) (simp add: unfinished_def)
    show ?thesis using w ent rest_ok finished(2,3) unfolding walk_ok_def u by metis
  next
    case moved
    have "entries_ok (next_bufs c')"
      using w moved by (auto simp: walk_ok_def entries_ok_def dest!: subsetD[OF set_update_subset_insert])
    moreover have u: "unfinished (take (Suc op_i) (bufs c')) = unfinished (take op_i (bufs c)) @ [e]"
      using moved(1) by (simp only: un) (simp add: unfinished_def)
    moreover have "take (next_op_i c') (next_bufs c') = take (next_op_i c) (next_bufs c) @ [m]"
      using moved(2,5) n(2) by (simp add: take_Suc_update)
    moreover have "next_op_i c = length (unfinished (take op_i (bufs c)))"
      "map request_of (take (next_op_i c) (next_bufs c)) = map request_of (unfinished (take op_i (bufs c)))"
      using w unfolding walk_ok_def by blast+
    ultimately show ?thesis using ent rest_ok moved(4,5) unfolding walk_ok_def by simp
  qed
qed

lemma finishes_bufs:
  assumes "finishes op_i c c' e"
  shows "bufs c' = (bufs c)[op_i := e]"
  using assms by (simp add: finishes_def)

section \<open>Each operation deals with its request\<close>

lemma request_of_copy:
  assumes "size_of_copy (opcode (e_op e)) = Inr n" "length (value (e_op e)) = MICA_MAX_VALUE"
    "length (value (e_op d)) = MICA_MAX_VALUE"
  shows "request_of (copy_entry n e d) = request_of e"
    "length (value (e_op (copy_entry n e d))) = MICA_MAX_VALUE"
proof -
  show "length (value (e_op (copy_entry n e d))) = MICA_MAX_VALUE"
    using assms by (simp add: copy_entry_def copy_op_length)
  have "1 \<le> length (value (e_op e))" "HERD_VALUE_SIZE \<le> length (value (e_op e))"
    by (simp_all add: assms(2) MICA_MAX_VALUE_eq HERD_VALUE_SIZE_eq)
  then show "request_of (copy_entry n e d) = request_of e"
    using assms(1)
    by (auto simp: size_of_copy_def copy_entry_def request_of_def copy_op_def Let_def HERD_PUT_REQ_SIZE_def
        HERD_GET_REQ_SIZE_def MICA_OP_METADATA_def ENABLE_HOT_KEY_TRACKING_def split: if_splits)
qed

text \<open>The request at \<open>op_i\<close> is being worked on: its entry is \<open>e\<close>, and nothing has been
  appended for it.\<close>

definition working :: "nat \<Rightarrow> client \<Rightarrow> client \<Rightarrow> entry \<Rightarrow> bool" where
  "working op_i c c' e \<longleftrightarrow> walk_ok op_i c \<and> op_i < CACHE_BATCH_SIZE \<and> bufs c' = (bufs c)[op_i := e] \<and>
     same_request (bufs c ! op_i) e \<and> length (value (e_op e)) = MICA_MAX_VALUE \<and> rtype (e_resp e) \<noteq> EMPTY \<and>
     next_bufs c' = next_bufs c \<and> next_op_i c' = next_op_i c"

lemma working_start:
  assumes "walk_ok op_i c" "op_i < CACHE_BATCH_SIZE"
  shows "working op_i c c (bufs c ! op_i)"
  using assms walk_ok_next[OF assms] by (simp add: working_def)

lemma working_entry:
  assumes "working op_i c c' e"
  shows "bufs c' ! op_i = e" "op_i < length (bufs c')"
  using assms walk_ok_next(3)[of op_i c] by (auto simp: working_def)

lemma working_cong:
  assumes "working op_i c c' e" "bufs c'' = bufs c'" "next_bufs c'' = next_bufs c'" "next_op_i c'' = next_op_i c'"
  shows "working op_i c c'' e"
  using assms by (simp add: working_def)

lemma working_set_rtype:
  assumes "working op_i c c' e" "t \<noteq> EMPTY"
  shows "working op_i c (set_rtype op_i t c') (e\<lparr>e_resp := (e_resp e)\<lparr>rtype := t\<rparr>\<rparr>)"
  using assms working_entry[OF assms(1)] by (simp add: working_def set_rtype_def)

lemma working_finish:
  assumes "working op_i c c' e"
  shows "finishes op_i c (set_rtype op_i EMPTY c') (e\<lparr>e_resp := (e_resp e)\<lparr>rtype := EMPTY\<rparr>\<rparr>)"
  using assms working_entry[OF assms(1)] by (simp add: working_def set_rtype_def finishes_def)

lemma working_copy:
  assumes wk: "working op_i c c' e" and r: "copy_op_to_next_op tracked op_i c' = Inr c''"
  shows "finishes op_i c c'' e" "others_kept c' c''"
proof -
  have w: "walk_ok op_i c" and lt: "op_i < CACHE_BATCH_SIZE"
    and bufs0: "bufs c' = (bufs c)[op_i := e]" "length (value (e_op e)) = MICA_MAX_VALUE"
    and rt: "rtype (e_resp e) \<noteq> EMPTY" and eq: "next_bufs c' = next_bufs c" "next_op_i c' = next_op_i c"
    and same: "same_request (bufs c ! op_i) e"
    using wk by (auto simp: working_def)
  note n = walk_ok_next[OF w lt]
  have e: "bufs c' ! op_i = e" using n(3) bufs0 by simp
  from r obtain k c1 nb where k: "size_of_copy (opcode (e_op e)) = Inr k"
    and c1: "move_hot_pointer tracked op_i c' = Inr c1"
    and nb: "update_at (next_op_i c1) (copy_entry k e) (next_bufs c1) = Inr nb"
    and c'': "c'' = (let c2 = move_measurement op_i (c1\<lparr>next_bufs := nb\<rparr>) in c2\<lparr>next_op_i := next_op_i c2 + 1\<rparr>)"
    by (auto simp: copy_op_to_next_op_def Let_def res_simps e)
  have f1: "bufs c1 = bufs c'" "next_bufs c1 = next_bufs c'" "next_op_i c1 = next_op_i c'" "others_kept c' c1"
    using c1 by (auto simp: move_hot_pointer_def Let_def others_kept_def split: if_splits)
  have nb': "nb = (next_bufs c)[next_op_i c := copy_entry k e (next_bufs c ! next_op_i c)]"
    using nb f1 eq by (auto simp: update_at_def split: if_splits)
  have f2: "bufs c'' = bufs c'" "next_bufs c'' = nb" "next_op_i c'' = next_op_i c' + 1" "others_kept c' c''"
    using f1 n(1) lt eq by (auto simp: c'' move_measurement_def Let_def others_kept_def)
  show "others_kept c' c''" by (fact f2)
  show "finishes op_i c c'' e"
    using f2 bufs0 rt eq nb' same request_of_copy[OF k bufs0(2) n(6)] by (auto simp: finishes_def)
qed

lemma working_copy_returns:
  assumes wk: "working op_i c c' e" and o: "\<exists>n. size_of_copy (opcode (e_op e)) = Inr n"
    and h: "tracked \<and> length (hottest_keys_pointers c') = HOTTEST_KEYS_TO_TRACK \<or> rtype (e_resp e) \<noteq> CACHE_GET_STALL"
  shows "\<exists>c''. copy_op_to_next_op tracked op_i c' = Inr c''"
proof -
  note e = working_entry(1)[OF wk]
  have "\<exists>c1. move_hot_pointer tracked op_i c' = Inr c1 \<and> next_bufs c1 = next_bufs c' \<and> next_op_i c1 = next_op_i c'"
    using h by (auto simp: move_hot_pointer_def Let_def e)
  then obtain c1 where c1: "move_hot_pointer tracked op_i c' = Inr c1"
    and f: "next_bufs c1 = next_bufs c'" "next_op_i c1 = next_op_i c'" by blast
  have "next_op_i c < length (next_bufs c)"
    using wk walk_ok_next(2)[of op_i c] by (simp add: working_def)
  then have "next_op_i c1 < length (next_bufs c1)" using wk f by (simp add: working_def)
  then show ?thesis using o c1 by (auto simp: copy_op_to_next_op_def Let_def e update_at_def)
qed

lemma others_kept_simps [simp]:
  "others_kept c c"
  "others_kept c (set_rtype op_i t c)"
  "others_kept c (count_hit e c)"
  "others_kept c (count_stall e c)"
  "others_kept c (forget_hot_pointer op_i e c)"
  "others_kept c (mark_unserved op_i c)"
  by (simp_all add: others_kept_def set_rtype_def count_hit_def count_stall_def forget_hot_pointer_def
      mark_unserved_def Let_def)

lemma others_kept_trans [trans]: "others_kept a b \<Longrightarrow> others_kept b c \<Longrightarrow> others_kept a c"
  by (simp add: others_kept_def)

lemma kept_bufs [simp]:
  "bufs (count_hit e c) = bufs c" "next_bufs (count_hit e c) = next_bufs c" "next_op_i (count_hit e c) = next_op_i c"
  "bufs (count_stall e c) = bufs c" "next_bufs (count_stall e c) = next_bufs c" "next_op_i (count_stall e c) = next_op_i c"
  "bufs (forget_hot_pointer i e c) = bufs c" "next_bufs (forget_hot_pointer i e c) = next_bufs c"
  "next_op_i (forget_hot_pointer i e c) = next_op_i c"
  by (simp_all add: count_hit_def count_stall_def forget_hot_pointer_def Let_def)

lemma working_mark:
  assumes "working op_i c c' e"
  shows "\<exists>e'. working op_i c (mark_unserved op_i c') e' \<and> e_op e' = e_op e \<and> e_home e' = e_home e \<and>
    rtype (e_resp e') = (if rtype (e_resp e) = CACHE_MISS then UNSERVED_CACHE_MISS else rtype (e_resp e))"
proof (cases "rtype (e_resp e) = CACHE_MISS")
  case True
  then show ?thesis using working_set_rtype[OF assms, of UNSERVED_CACHE_MISS] working_entry[OF assms]
    by (intro exI[of _ "e\<lparr>e_resp := (e_resp e)\<lparr>rtype := UNSERVED_CACHE_MISS\<rparr>\<rparr>"]) (simp add: mark_unserved_def)
next
  case False
  then show ?thesis using assms working_entry[OF assms] by (intro exI[of _ e]) (simp add: mark_unserved_def)
qed

lemma serve_SC_finishes:
  assumes wk: "working op_i c c' e" and r: "serve_SC op_i c' = Inr c''"
  shows "\<exists>e'. finishes op_i c c'' e' \<and> (missed e \<longrightarrow> rtype (e_resp e') \<noteq> EMPTY) \<and>
    (rtype (e_resp e') \<noteq> EMPTY \<longrightarrow> \<not> retired_by SEQUENTIAL_CONSISTENCY e \<and> rtype (e_resp e') = rtype (e_resp e))" "others_kept c' c''"
proof -
  note e = working_entry(1)[OF wk]
  have wk': "working op_i c (count_hit e c') e" using working_cong[OF wk] by simp
  have ne: "rtype (e_resp e) \<noteq> EMPTY" using wk by (simp add: working_def)
  show "\<exists>e'. finishes op_i c c'' e' \<and> (missed e \<longrightarrow> rtype (e_resp e') \<noteq> EMPTY) \<and>
    (rtype (e_resp e') \<noteq> EMPTY \<longrightarrow> \<not> retired_by SEQUENTIAL_CONSISTENCY e \<and> rtype (e_resp e') = rtype (e_resp e))"
    using r ne working_finish[OF wk'] working_copy(1)[OF wk]
    by (auto simp: serve_SC_def Let_def e missed_def retired_by_def SEQUENTIAL_CONSISTENCY_def LINEARIZABILITY_def split: if_splits)
  show "others_kept c' c''"
    using r working_copy(2)[OF wk] others_kept_trans[of c' "count_hit e c'"]
    by (auto simp: serve_SC_def Let_def e split: if_splits)
qed

lemma serve_LIN_finishes:
  assumes wk: "working op_i c c' e" and r: "serve_LIN op_i c' = Inr c''"
  shows "\<exists>e'. finishes op_i c c'' e' \<and> (missed e \<longrightarrow> rtype (e_resp e') \<noteq> EMPTY) \<and>
    (rtype (e_resp e') \<noteq> EMPTY \<longrightarrow> \<not> retired_by LINEARIZABILITY e \<and> rtype (e_resp e') = rtype (e_resp e))" "others_kept c' c''"
proof -
  note e = working_entry(1)[OF wk]
  let ?c1 = "count_stall e c'"
  let ?c2 = "count_hit e ?c1"
  let ?c3 = "forget_hot_pointer op_i e ?c2"
  have wk': "working op_i c ?c1 e" "working op_i c ?c3 e" using working_cong[OF wk] by simp_all
  have ne: "rtype (e_resp e) \<noteq> EMPTY" using wk by (simp add: working_def)
  show "\<exists>e'. finishes op_i c c'' e' \<and> (missed e \<longrightarrow> rtype (e_resp e') \<noteq> EMPTY) \<and>
    (rtype (e_resp e') \<noteq> EMPTY \<longrightarrow> \<not> retired_by LINEARIZABILITY e \<and> rtype (e_resp e') = rtype (e_resp e))"
    using r ne working_finish[OF wk'(2)] working_copy(1)[OF wk'(1)]
    by (auto simp: serve_LIN_def Let_def e missed_def retired_by_def SEQUENTIAL_CONSISTENCY_def LINEARIZABILITY_def split: if_splits)
  have "others_kept c' ?c3"
    by (meson others_kept_simps(3,4,5) others_kept_trans)
  then have "others_kept c' (set_rtype op_i EMPTY ?c3)" by (rule others_kept_trans) simp
  moreover have "others_kept ?c1 c'' \<Longrightarrow> others_kept c' c''" by (rule others_kept_trans[of _ ?c1]) simp
  ultimately show "others_kept c' c''"
    using r working_copy(2)[OF wk'(1)] by (auto simp: serve_LIN_def Let_def e split: if_splits)
qed

section \<open>The two loops\<close>

text \<open>The contract of the body of a loop over the batch: it deals with its request, and
  it returns for the requests it is meant for.\<close>

definition walked :: "(entry \<Rightarrow> bool) \<Rightarrow> nat \<Rightarrow> nat \<Rightarrow> client \<Rightarrow> client \<Rightarrow> bool" where
  "walked dn i j c c' \<longleftrightarrow> i \<le> j \<and> j \<le> CACHE_BATCH_SIZE \<and> walk_ok j c' \<and> others_kept c c' \<and>
     take i (bufs c') = take i (bufs c) \<and> drop j (bufs c') = drop j (bufs c) \<and>
     list_all2 same_request (bufs c) (bufs c') \<and>
     (\<forall>k. i \<le> k \<and> k < j \<longrightarrow> left_over dn (bufs c ! k) (bufs c' ! k) \<and>
        (missed (bufs c ! k) \<longrightarrow> rtype (e_resp (bufs c' ! k)) \<noteq> EMPTY))"

lemma walked_refl: "walk_ok i c \<Longrightarrow> i \<le> CACHE_BATCH_SIZE \<Longrightarrow> walked dn i i c c"
  by (auto simp: walked_def list_all2_refl)

lemma finishes_same:
  assumes "finishes i c c1 e"
  shows "list_all2 same_request (bufs c) (bufs c1)"
proof -
  have "bufs c1 = (bufs c)[i := e]" "same_request (bufs c ! i) e" using assms by (auto simp: finishes_def)
  then show ?thesis by (simp add: list_all2_conv_all_nth) (metis nth_list_update_eq nth_list_update_neq same_request_refl)
qed

lemmas same_all_trans = list_all2_trans[OF same_request_trans]

lemma walked_step:
  assumes "walk_ok i c" "i < CACHE_BATCH_SIZE" "finishes i c c1 e" "missed (bufs c ! i) \<longrightarrow> rtype (e_resp e) \<noteq> EMPTY"
    "left_over dn (bufs c ! i) e" "others_kept c c1" "walked dn (Suc i) j c1 c'"
  shows "walked dn i j c c'"
proof -
  have b: "bufs c1 = (bufs c)[i := e]" using assms(3) by (rule finishes_bufs)
  have ij: "Suc i \<le> j" and t: "take (Suc i) (bufs c') = take (Suc i) (bufs c1)"
    and d: "drop j (bufs c') = drop j (bufs c1)" using assms(7) by (auto simp: walked_def)
  have "take i (bufs c') = take i (take (Suc i) (bufs c'))" by (simp add: min_def)
  also have "\<dots> = take i (bufs c)" by (simp add: t b min_def)
  finally have "take i (bufs c') = take i (bufs c)" .
  moreover have "drop j (bufs c') = drop j (bufs c)" using ij by (simp add: d b)
  moreover have "list_all2 same_request (bufs c) (bufs c')"
    using finishes_same[OF assms(3)] assms(7) same_all_trans by (auto simp: walked_def)
  moreover have "bufs c' ! i = e"
    using arg_cong[OF t, of "\<lambda>xs. xs ! i"] walk_ok_next(3)[OF assms(1,2)] by (simp add: b)
  then have "left_over dn (bufs c ! k) (bufs c' ! k) \<and> (missed (bufs c ! k) \<longrightarrow> rtype (e_resp (bufs c' ! k)) \<noteq> EMPTY)"
    if "i \<le> k" "k < j" for k
    using assms(4,5,7) that by (cases "k = i") (auto simp: walked_def b)
  ultimately show ?thesis using assms(6,7) ij others_kept_trans[of c c1 c'] by (simp add: walked_def)
qed

locale walker =
  fixes body :: "nat \<Rightarrow> client \<Rightarrow> client result" and pre good dn :: "entry \<Rightarrow> bool"
  assumes pre_hit: "hit e \<Longrightarrow> pre e" and pre_good: "good e \<Longrightarrow> pre e"
    and body_finishes: "walk_ok i c \<Longrightarrow> i < CACHE_BATCH_SIZE \<Longrightarrow> pre (bufs c ! i) \<Longrightarrow> body i c = Inr c' \<Longrightarrow>
      (\<exists>e. finishes i c c' e \<and> (missed (bufs c ! i) \<longrightarrow> rtype (e_resp e) \<noteq> EMPTY) \<and> left_over dn (bufs c ! i) e) \<and>
      others_kept c c'"
    and body_returns: "walk_ok i c \<Longrightarrow> i < CACHE_BATCH_SIZE \<Longrightarrow>
      length (hottest_keys_pointers c) = HOTTEST_KEYS_TO_TRACK \<Longrightarrow> good (bufs c ! i) \<Longrightarrow>
      \<exists>c'. body i c = Inr c'"
begin

lemma step_walk:
  assumes "walk_ok i c" "i < CACHE_BATCH_SIZE" "pre (bufs c ! i)" "body i c = Inr c1"
  shows "walk_ok (Suc i) c1" "others_kept c c1" "drop (Suc i) (bufs c1) = drop (Suc i) (bufs c)"
  using body_finishes[OF assms] finishes_walk[OF assms(1,2)] by (auto simp: finishes_def)

lemma hit_loop_walk:
  assumes "hit_loop body i c = Inr (j, c')" "walk_ok i c" "i \<le> CACHE_BATCH_SIZE"
  shows "walked dn i j c c' \<and> (j < CACHE_BATCH_SIZE \<longrightarrow> rtype (e_resp (bufs c' ! j)) = CACHE_MISS \<or>
    rtype (e_resp (bufs c' ! j)) = UNSERVED_CACHE_MISS)"
  using assms
proof (induction "CACHE_BATCH_SIZE - i" arbitrary: i c)
  case 0
  then show ?case by (auto simp: hit_loop.simps[of body CACHE_BATCH_SIZE c] walked_refl)
next
  case (Suc n)
  show ?case
  proof (cases "rtype (e_resp (bufs c ! i)) = CACHE_MISS \<or> rtype (e_resp (bufs c ! i)) = UNSERVED_CACHE_MISS")
    case True
    then show ?thesis using Suc.prems by (auto simp: hit_loop.simps[of body i c] walked_refl)
  next
    case False
    have lt: "i < CACHE_BATCH_SIZE" using Suc by simp
    have pr: "pre (bufs c ! i)" using False by (intro pre_hit) (simp add: hit_def)
    from lt obtain c1 where c1: "body i c = Inr c1" "hit_loop body (i + 1) c1 = Inr (j, c')"
      using False Suc.prems(1) by (auto simp: hit_loop.simps[of body i c] res_simps)
    obtain e where e: "finishes i c c1 e" "missed (bufs c ! i) \<longrightarrow> rtype (e_resp e) \<noteq> EMPTY"
      "left_over dn (bufs c ! i) e" "others_kept c c1"
      using body_finishes[OF Suc.prems(2) lt pr c1(1)] by auto
    have "CACHE_BATCH_SIZE - (i + 1) = n" using Suc.hyps(2) by simp
    then show ?thesis
      using Suc.hyps(1)[of "i + 1" c1] c1 step_walk(1)[OF Suc.prems(2) lt pr c1(1)] lt
        walked_step[OF Suc.prems(2) lt e] by auto
  qed
qed

lemma rest_loop_walk:
  assumes "rest_loop body i c = Inr c'" "walk_ok i c" "i \<le> CACHE_BATCH_SIZE" "\<And>e. pre e"
  shows "walked dn i CACHE_BATCH_SIZE c c'"
  using assms
proof (induction "CACHE_BATCH_SIZE - i" arbitrary: i c)
  case 0
  then show ?case by (simp add: rest_loop_def walked_refl)
next
  case (Suc n)
  have lt: "i < CACHE_BATCH_SIZE" using Suc by simp
  have pr: "pre (bufs c ! i)" by (rule Suc.prems(4))
  from lt obtain c1 where c1: "body i c = Inr c1" "rest_loop body (Suc i) c1 = Inr c'"
    using Suc.prems(1) by (auto simp: rest_loop_def upt_conv_Cons res_simps)
  obtain e where e: "finishes i c c1 e" "missed (bufs c ! i) \<longrightarrow> rtype (e_resp e) \<noteq> EMPTY"
      "left_over dn (bufs c ! i) e" "others_kept c c1"
    using body_finishes[OF Suc.prems(2) lt pr c1(1)] by auto
  have "CACHE_BATCH_SIZE - Suc i = n" using Suc.hyps(2) by simp
  then show ?case
    using Suc.hyps(1)[of "Suc i" c1] c1 step_walk(1)[OF Suc.prems(2) lt pr c1(1)] lt Suc.prems(4)
      walked_step[OF Suc.prems(2) lt e] by auto
qed

lemma step_returns:
  assumes "walk_ok i c" "i < CACHE_BATCH_SIZE" "length (hottest_keys_pointers c) = HOTTEST_KEYS_TO_TRACK"
    "good (bufs c ! i)" "\<And>e. e \<in> set (drop i (bufs c)) \<Longrightarrow> P e"
  obtains c1 where "body i c = Inr c1" "walk_ok (Suc i) c1"
    "length (hottest_keys_pointers c1) = HOTTEST_KEYS_TO_TRACK" "\<And>e. e \<in> set (drop (Suc i) (bufs c1)) \<Longrightarrow> P e"
proof -
  obtain c1 where c1: "body i c = Inr c1" using body_returns[OF assms(1-4)] by auto
  note s = step_walk[OF assms(1,2) pre_good[OF assms(4)] c1]
  have "set (drop (Suc i) (bufs c1)) \<subseteq> set (drop i (bufs c))"
    unfolding s(3) by (rule set_drop_subset_set_drop) simp
  then show ?thesis using that[OF c1] s assms by (auto simp: others_kept_def)
qed

lemma in_rest: "walk_ok i c \<Longrightarrow> i < CACHE_BATCH_SIZE \<Longrightarrow> bufs c ! i \<in> set (drop i (bufs c))"
  using walk_ok_next(3)[of i c] by (metis Cons_nth_drop_Suc list.set_intros(1))

lemma hit_loop_returns:
  assumes "walk_ok i c" "i \<le> CACHE_BATCH_SIZE" "length (hottest_keys_pointers c) = HOTTEST_KEYS_TO_TRACK"
    "\<And>e. e \<in> set (drop i (bufs c)) \<Longrightarrow> rtype (e_resp e) = CACHE_MISS \<or> rtype (e_resp e) = UNSERVED_CACHE_MISS \<or> good e"
  shows "\<exists>x. hit_loop body i c = Inr x"
  using assms
proof (induction "CACHE_BATCH_SIZE - i" arbitrary: i c)
  case 0
  then show ?case by (simp add: hit_loop.simps[of body CACHE_BATCH_SIZE c])
next
  case (Suc n)
  have lt: "i < CACHE_BATCH_SIZE" and n: "CACHE_BATCH_SIZE - Suc i = n" using Suc.hyps(2) by simp_all
  show ?case
  proof (cases "rtype (e_resp (bufs c ! i)) = CACHE_MISS \<or> rtype (e_resp (bufs c ! i)) = UNSERVED_CACHE_MISS")
    case True
    then show ?thesis by (auto simp: hit_loop.simps[of body i c])
  next
    case False
    then have g: "good (bufs c ! i)" using Suc.prems(4)[OF in_rest[OF Suc.prems(1) lt]] by blast
    obtain c1 where c1: "body i c = Inr c1" "walk_ok (Suc i) c1"
      "length (hottest_keys_pointers c1) = HOTTEST_KEYS_TO_TRACK"
      "\<And>e. e \<in> set (drop (Suc i) (bufs c1)) \<Longrightarrow> rtype (e_resp e) = CACHE_MISS \<or> rtype (e_resp e) = UNSERVED_CACHE_MISS \<or> good e"
      using step_returns[of i c "\<lambda>e. rtype (e_resp e) = CACHE_MISS \<or> rtype (e_resp e) = UNSERVED_CACHE_MISS \<or> good e",
          OF Suc.prems(1) lt Suc.prems(3) g Suc.prems(4)] by blast
    have "\<exists>x. hit_loop body (Suc i) c1 = Inr x"
      using Suc.hyps(1)[OF n[symmetric] c1(2) _ c1(3,4)] lt by simp
    then show ?thesis using c1(1) False lt by (simp add: hit_loop.simps[of body i c])
  qed
qed

lemma rest_loop_returns:
  assumes "walk_ok i c" "i \<le> CACHE_BATCH_SIZE" "length (hottest_keys_pointers c) = HOTTEST_KEYS_TO_TRACK"
    "\<And>e. e \<in> set (drop i (bufs c)) \<Longrightarrow> good e"
  shows "\<exists>c'. rest_loop body i c = Inr c'"
  using assms
proof (induction "CACHE_BATCH_SIZE - i" arbitrary: i c)
  case 0
  then show ?case by (simp add: rest_loop_def)
next
  case (Suc n)
  have lt: "i < CACHE_BATCH_SIZE" and n: "CACHE_BATCH_SIZE - Suc i = n" using Suc.hyps(2) by simp_all
  obtain c1 where c1: "body i c = Inr c1" "walk_ok (Suc i) c1"
    "length (hottest_keys_pointers c1) = HOTTEST_KEYS_TO_TRACK" "\<And>e. e \<in> set (drop (Suc i) (bufs c1)) \<Longrightarrow> good e"
    using step_returns[of i c good, OF Suc.prems(1) lt Suc.prems(3) Suc.prems(4)[OF in_rest[OF Suc.prems(1) lt]] Suc.prems(4)] by blast
  have "\<exists>x. rest_loop body (Suc i) c1 = Inr x"
    using Suc.hyps(1)[OF n[symmetric] c1(2) _ c1(3,4)] lt by simp
  then show ?case using c1(1) lt by (simp add: rest_loop_def upt_conv_Cons)
qed

end

section \<open>The bodies meet the contract\<close>

text \<open>The requests each protocol may find in its batch: the opcodes the client knows,
  with the responses its cache gives.\<close>

definition copyable :: "entry \<Rightarrow> bool" where
  "copyable e \<longleftrightarrow> opcode (e_op e) \<in> {CACHE_OP_GET, CACHE_OP_PUT, CACHE_OP_UPD, CACHE_OP_INV, CACHE_OP_BRC}"

definition ready :: "nat \<Rightarrow> entry \<Rightarrow> bool" where
  "ready protocol e \<longleftrightarrow> copyable e \<and> rtype (e_resp e) \<in>
    (if protocol = LINEARIZABILITY
     then {CACHE_MISS, UNSERVED_CACHE_MISS, CACHE_GET_SUCCESS, CACHE_PUT_SUCCESS, CACHE_GET_STALL,
           CACHE_PUT_STALL, CACHE_PUT_FAIL}
     else {CACHE_MISS, UNSERVED_CACHE_MISS, CACHE_GET_SUCCESS, CACHE_PUT_SUCCESS})"

lemma copyable_size: "copyable e \<Longrightarrow> \<exists>n. size_of_copy (opcode (e_op e)) = Inr n"
  by (auto simp: copyable_def size_of_copy_def)

lemma serve_SC_returns:
  assumes wk: "working op_i c c' e" and "copyable e" "rtype (e_resp e) \<noteq> CACHE_GET_STALL"
  shows "\<exists>c''. serve_SC op_i c' = Inr c''"
  using working_copy_returns[OF wk copyable_size[OF assms(2)], of False] assms(3)
  by (simp add: serve_SC_def Let_def working_entry(1)[OF wk])

lemma serve_LIN_returns:
  assumes wk: "working op_i c c' e" and "copyable e"
    "length (hottest_keys_pointers c') = HOTTEST_KEYS_TO_TRACK"
  shows "\<exists>c''. serve_LIN op_i c' = Inr c''"
proof -
  have "working op_i c (count_stall e c') e" using working_cong[OF wk] by simp
  moreover have "length (hottest_keys_pointers (count_stall e c')) = HOTTEST_KEYS_TO_TRACK"
    using assms(3) by (simp add: count_stall_def)
  ultimately show ?thesis
    using working_copy_returns[of op_i c "count_stall e c'" e True] copyable_size[OF assms(2)]
    by (simp add: serve_LIN_def Let_def working_entry(1)[OF wk])
qed

interpretation hit_sc: walker "hit_SC clt" hit "\<lambda>e. ready SEQUENTIAL_CONSISTENCY e \<and> hit e" "retired_by SEQUENTIAL_CONSISTENCY" for clt
proof unfold_locales
  fix i c c' assume a: "walk_ok i c" "i < CACHE_BATCH_SIZE" "hit (bufs c ! i)" "hit_SC clt i c = Inr c'"
  have "serve_SC i c = Inr c'" using a(4) by (auto simp: hit_SC_def Let_def res_simps)
  from serve_SC_finishes[OF working_start[OF a(1,2)] this] a(3)
  show "(\<exists>e. finishes i c c' e \<and> (missed (bufs c ! i) \<longrightarrow> rtype (e_resp e) \<noteq> EMPTY) \<and>
      left_over (retired_by SEQUENTIAL_CONSISTENCY) (bufs c ! i) e) \<and> others_kept c c'" by (auto simp: left_over_def)
next
  fix i c assume "walk_ok i c" "i < CACHE_BATCH_SIZE" "ready SEQUENTIAL_CONSISTENCY (bufs c ! i) \<and> hit (bufs c ! i)"
  then show "\<exists>c'. hit_SC clt i c = Inr c'"
    using serve_SC_returns[OF working_start, of i c]
    by (auto simp: hit_SC_def Let_def ready_def hit_def LINEARIZABILITY_def SEQUENTIAL_CONSISTENCY_def)
qed auto

interpretation rest_sc: walker rest_SC "\<lambda>_. True" "ready SEQUENTIAL_CONSISTENCY" "retired_by SEQUENTIAL_CONSISTENCY"
proof unfold_locales
  fix i c c' assume a: "walk_ok i c" "i < CACHE_BATCH_SIZE" "rest_SC i c = Inr c'"
  obtain e' where e': "working i c (mark_unserved i c) e'" "missed (bufs c ! i) \<longrightarrow> missed e'"
    "e_op e' = e_op (bufs c ! i)"
    "rtype (e_resp e') = (if rtype (e_resp (bufs c ! i)) = CACHE_MISS then UNSERVED_CACHE_MISS else rtype (e_resp (bufs c ! i)))"
    using working_mark[OF working_start[OF a(1,2)]] by (auto simp: missed_def)
  have "serve_SC i (mark_unserved i c) = Inr c'"
    using a(3) by (auto simp: rest_SC_def Let_def res_simps split: if_splits)
  from serve_SC_finishes[OF e'(1) this] e'(2-4) others_kept_trans[of c "mark_unserved i c" c']
  show "(\<exists>e. finishes i c c' e \<and> (missed (bufs c ! i) \<longrightarrow> rtype (e_resp e) \<noteq> EMPTY) \<and>
      left_over (retired_by SEQUENTIAL_CONSISTENCY) (bufs c ! i) e) \<and> others_kept c c'"
    by (auto simp: left_over_def hit_def retired_by_def)
next
  fix i c assume a: "walk_ok i c" "i < CACHE_BATCH_SIZE" "ready SEQUENTIAL_CONSISTENCY (bufs c ! i)"
  obtain e' where e': "working i c (mark_unserved i c) e'" "e_op e' = e_op (bufs c ! i)"
    "rtype (e_resp e') = (if rtype (e_resp (bufs c ! i)) = CACHE_MISS then UNSERVED_CACHE_MISS else rtype (e_resp (bufs c ! i)))"
    using working_mark[OF working_start[OF a(1,2)]] by auto
  have "copyable e'" "rtype (e_resp e') \<noteq> CACHE_GET_STALL" "rtype (e_resp e') \<noteq> EMPTY"
    using a(3) e'(2,3) by (auto simp: ready_def copyable_def LINEARIZABILITY_def SEQUENTIAL_CONSISTENCY_def)
  then show "\<exists>c'. rest_SC i c = Inr c'"
    using serve_SC_returns[OF e'(1)] by (auto simp: rest_SC_def Let_def working_entry(1)[OF e'(1)])
qed auto

interpretation hit_lin: walker hit_LIN hit "\<lambda>e. ready LINEARIZABILITY e \<and> hit e" "retired_by LINEARIZABILITY"
proof unfold_locales
  fix i c c' assume a: "walk_ok i c" "i < CACHE_BATCH_SIZE" "hit (bufs c ! i)" "hit_LIN i c = Inr c'"
  have "serve_LIN i c = Inr c'" using a(4) by (auto simp: hit_LIN_def Let_def res_simps)
  from serve_LIN_finishes[OF working_start[OF a(1,2)] this] a(3)
  show "(\<exists>e. finishes i c c' e \<and> (missed (bufs c ! i) \<longrightarrow> rtype (e_resp e) \<noteq> EMPTY) \<and>
      left_over (retired_by LINEARIZABILITY) (bufs c ! i) e) \<and> others_kept c c'" by (auto simp: left_over_def)
next
  fix i c assume "walk_ok i c" "i < CACHE_BATCH_SIZE" "length (hottest_keys_pointers c) = HOTTEST_KEYS_TO_TRACK"
    "ready LINEARIZABILITY (bufs c ! i) \<and> hit (bufs c ! i)"
  then show "\<exists>c'. hit_LIN i c = Inr c'"
    using serve_LIN_returns[OF working_start, of i c] by (auto simp: hit_LIN_def Let_def ready_def hit_def)
qed auto

interpretation rest_lin: walker rest_LIN "\<lambda>_. True" "ready LINEARIZABILITY" "retired_by LINEARIZABILITY"
proof unfold_locales
  fix i c c' assume a: "walk_ok i c" "i < CACHE_BATCH_SIZE" "rest_LIN i c = Inr c'"
  obtain e' where e': "working i c (mark_unserved i c) e'" "missed (bufs c ! i) \<longrightarrow> missed e'"
    "e_op e' = e_op (bufs c ! i)"
    "rtype (e_resp e') = (if rtype (e_resp (bufs c ! i)) = CACHE_MISS then UNSERVED_CACHE_MISS else rtype (e_resp (bufs c ! i)))"
    using working_mark[OF working_start[OF a(1,2)]] by (auto simp: missed_def)
  have "serve_LIN i (mark_unserved i c) = Inr c'" using a(3) by (simp add: rest_LIN_def)
  from serve_LIN_finishes[OF e'(1) this] e'(2-4) others_kept_trans[of c "mark_unserved i c" c']
  show "(\<exists>e. finishes i c c' e \<and> (missed (bufs c ! i) \<longrightarrow> rtype (e_resp e) \<noteq> EMPTY) \<and>
      left_over (retired_by LINEARIZABILITY) (bufs c ! i) e) \<and> others_kept c c'"
    by (auto simp: left_over_def hit_def retired_by_def)
next
  fix i c assume a: "walk_ok i c" "i < CACHE_BATCH_SIZE" "length (hottest_keys_pointers c) = HOTTEST_KEYS_TO_TRACK"
    "ready LINEARIZABILITY (bufs c ! i)"
  obtain e' where e': "working i c (mark_unserved i c) e'" "e_op e' = e_op (bufs c ! i)"
    using working_mark[OF working_start[OF a(1,2)]] by auto
  have "copyable e'" using a(4) e'(2) by (auto simp: ready_def copyable_def)
  moreover have "length (hottest_keys_pointers (mark_unserved i c)) = HOTTEST_KEYS_TO_TRACK"
    using a(3) by (simp add: mark_unserved_def set_rtype_def)
  ultimately show "\<exists>c'. rest_LIN i c = Inr c'"
    using serve_LIN_returns[OF e'(1)] by (simp add: rest_LIN_def)
qed auto

section \<open>The requests for remote machines\<close>

text \<open>A request collected for machine \<open>m\<close>: it is at home there, it carries the client's
  identity, its entry is empty, and the bytes to send are those of its kind.  The number
  collected for a machine is what the counter of the worker says, at most a batch.\<close>

definition sent_entry :: "u32 \<Rightarrow> nat \<Rightarrow> nat \<Rightarrow> entry \<Rightarrow> bool" where
  "sent_entry gid m len e \<longleftrightarrow> rtype (e_resp e) = EMPTY \<and> unat (home_machine (e_home e)) = m \<and>
     version (op_meta (e_op e)) = gid \<and>
     len = (if opcode (e_op e) = CACHE_OP_PUT then HERD_PUT_REQ_SIZE else HERD_GET_REQ_SIZE)"

definition batch_ok :: "u32 \<Rightarrow> nat \<Rightarrow> nat \<Rightarrow> client \<Rightarrow> nat \<Rightarrow> bool" where
  "batch_ok gid wn op_i c m \<longleftrightarrow>
     length (batch c ! m) = unat (per_worker_outstanding c ! (m * WORKERS_PER_MACHINE + wn)) \<and>
     length (batch c ! m) \<le> KVS_BATCH \<and> sorted_wrt (<) (map fst (batch c ! m)) \<and>
     (\<forall>(i, len)\<in>set (batch c ! m). i < op_i \<and> sent_entry gid m len (bufs c ! i))"

definition sent_ok :: "u32 \<Rightarrow> nat \<Rightarrow> nat \<Rightarrow> nat \<Rightarrow> client \<Rightarrow> bool" where
  "sent_ok gid wn op_i wr_i c \<longleftrightarrow> length (batch c) = MACHINE_NUM \<and>
     length (per_worker_outstanding c) = WORKER_NUM \<and> length (remote_for_each_worker c) = WORKER_NUM \<and>
     sum_list (map length (batch c)) = wr_i \<and> rem_req_i c = wr_i \<and>
     (\<forall>m < MACHINE_NUM. batch_ok gid wn op_i c m)"

lemma batch_ok_cong:
  assumes "batch_ok gid wn i c m" "batch c' ! m = batch c ! m"
    "per_worker_outstanding c' ! (m * WORKERS_PER_MACHINE + wn) = per_worker_outstanding c ! (m * WORKERS_PER_MACHINE + wn)"
    "i \<le> j" "\<And>k. k < i \<Longrightarrow> bufs c' ! k = bufs c ! k"
  shows "batch_ok gid wn j c' m"
  using assms by (fastforce simp: batch_ok_def)

lemma sent_ok_cong:
  assumes "sent_ok gid wn i wr_i c" "others_kept c c'" "i \<le> j" "\<And>k. k < i \<Longrightarrow> bufs c' ! k = bufs c ! k"
  shows "sent_ok gid wn j wr_i c'"
  using assms batch_ok_cong[of gid wn i c _ c' j] by (auto simp: sent_ok_def others_kept_def)

lemma sent_ok_walked:
  assumes "sent_ok gid wn i wr_i c" "walked dn i j c c'" "length (bufs c) = CACHE_BATCH_SIZE"
  shows "sent_ok gid wn j wr_i c'"
proof (rule sent_ok_cong[OF assms(1)])
  show "others_kept c c'" "i \<le> j" using assms(2) by (auto simp: walked_def)
  fix k assume "k < i"
  then show "bufs c' ! k = bufs c ! k" using assms(2) by (metis nth_take walked_def)
qed

lemma worker_index:
  assumes "rm * WORKERS_PER_MACHINE + wn < WORKER_NUM" "wn < WORKERS_PER_MACHINE"
  shows "rm < MACHINE_NUM"
    "m < MACHINE_NUM \<Longrightarrow> m * WORKERS_PER_MACHINE + wn = rm * WORKERS_PER_MACHINE + wn \<longleftrightarrow> m = rm"
  using assms by (auto simp: WORKER_NUM_def WORKERS_PER_MACHINE_def MACHINE_NUM_def)

lemma worker_slot: "rm < MACHINE_NUM \<Longrightarrow> wn < WORKERS_PER_MACHINE \<Longrightarrow> rm * WORKERS_PER_MACHINE + wn < WORKER_NUM"
  by (simp add: WORKER_NUM_def WORKERS_PER_MACHINE_def MACHINE_NUM_def)

lemma worker_of_client: "(clt + mid) mod ACTIVE_WORKERS_PER_MACHINE < WORKERS_PER_MACHINE"
  by (simp add: ACTIVE_WORKERS_PER_MACHINE_def ENABLE_LOCAL_WORKERS_def DISABLE_LOCALS_def WORKERS_PER_MACHINE_def)

lemmas walk_config = ENABLE_ASSERTIONS_def DISABLE_LOCALS_def ENABLE_THREAD_PARTITIONING_C_TO_W_def
  ENABLE_THREAD_PARTITIONING_C_TO_W_base_def ENABLE_WORKERS_CRCW_def BALANCE_REQS_def FINISH_BATCH_ON_MISSING_CREDIT_def

lemma unat_byte_Suc: "unat (x :: u8) < 255 \<Longrightarrow> unat (x + 1) = unat x + 1"
  by (simp add: unat_word_ariths)

text \<open>The two outcomes of a miss: it is collected, or its machine has a full batch and
  the request moves to the next buffer.\<close>

definition cold_entry :: "u32 \<Rightarrow> entry \<Rightarrow> entry" where
  "cold_entry gid e = e\<lparr>e_resp := (e_resp e)\<lparr>rtype := UNSERVED_CACHE_MISS\<rparr>,
     e_op := set_meta ((op_meta (e_op e))\<lparr>version := gid\<rparr>) (e_op e)\<rparr>"

lemma cold_working:
  assumes "walk_ok i c" "i < CACHE_BATCH_SIZE"
  shows "working i c (set_clt_gid i gid (set_rtype i UNSERVED_CACHE_MISS c)) (cold_entry gid (bufs c ! i))"
  using working_set_rtype[OF working_start[OF assms], of UNSERVED_CACHE_MISS] walk_ok_next[OF assms]
  by (simp add: working_def set_clt_gid_def cold_entry_def set_rtype_def set_meta_def same_request_def key_word_def)

lemma cold_step_cases:
  assumes w: "walk_ok i c" and lt: "i < CACHE_BATCH_SIZE" and s: "sent_ok gid wn i wr_i c"
    and wn: "wn = (clt + mid) mod ACTIVE_WORKERS_PER_MACHINE"
    and r: "cold_step mid clt lw gid i wr_i c = Inr (stop, wr_i', c')"
  defines "c1 \<equiv> set_clt_gid i gid (set_rtype i UNSERVED_CACHE_MISS c)"
    and "rm \<equiv> unat (home_machine (e_home (bufs c ! i)))" and "p \<equiv> per_worker_outstanding c"
  shows "rm < MACHINE_NUM \<and> rm \<noteq> mid \<and>
    (wr_i' = wr_i \<and> copy_op_to_next_op False i c1 = Inr c' \<or>
     \<not> stop \<and> wr_i' = wr_i + 1 \<and> length (batch c ! rm) < KVS_BATCH \<and>
     c' = set_rtype i EMPTY (c1\<lparr>
        per_worker_outstanding := p[rm * WORKERS_PER_MACHINE + wn := p ! (rm * WORKERS_PER_MACHINE + wn) + 1],
        remote_for_each_worker := (remote_for_each_worker c)[rm * WORKERS_PER_MACHINE + wn :=
          remote_for_each_worker c ! (rm * WORKERS_PER_MACHINE + wn) + 1],
        batch := (batch c)[rm := batch c ! rm @ [(i, if opcode (e_op (bufs c ! i)) = CACHE_OP_PUT
          then HERD_PUT_REQ_SIZE else HERD_GET_REQ_SIZE)]],
        rem_req_i := rem_req_i c + 1\<rparr>))"
proof -
  let ?w = "rm * WORKERS_PER_MACHINE + wn"
  have wn': "wn < WORKERS_PER_MACHINE" by (simp add: wn worker_of_client)
  have lens: "length p = WORKER_NUM" "length (batch c) = MACHINE_NUM" "length (remote_for_each_worker c) = WORKER_NUM"
    using s by (auto simp: sent_ok_def p_def)
  have c1: "per_worker_outstanding c1 = p" "batch c1 = batch c" "rem_req_i c1 = rem_req_i c"
    "remote_for_each_worker c1 = remote_for_each_worker c"
    by (simp_all add: c1_def p_def set_clt_gid_def set_rtype_def)
  have w_lt: "?w < WORKER_NUM" and rm: "rm \<noteq> mid"
    using r lens c1 by (auto simp: cold_step_def Let_def res_simps update_at_def walk_config wn[symmetric] rm_def[symmetric] c1_def[symmetric] split: if_splits)
  note rml = worker_index[OF w_lt wn']
  have cnt: "length (batch c ! rm) = unat (p ! ?w)" "length (batch c ! rm) \<le> KVS_BATCH"
    using s rml(1) by (auto simp: sent_ok_def batch_ok_def p_def)
  have inc: "unat (p ! ?w + 1) = unat (p ! ?w) + 1" using cnt by (intro unat_byte_Suc) (simp add: KVS_BATCH_def)
  note cfg = walk_config
  have r': "(if unat (p ! ?w + 1) > KVS_BATCH then
      bind_res (handle_lack_of_credits_for_remotes rm wn ?w wr_i i (c1\<lparr>per_worker_outstanding := p[?w := p ! ?w + 1]\<rparr>))
        (\<lambda>(cf, worker_id', c3). case cf of continue_loop \<Rightarrow> Inr (False, wr_i, c3) | break_loop \<Rightarrow> Inr (True, wr_i, c3)
          | no_cf_change \<Rightarrow> send_remote rm worker_id' (if opcode (e_op (bufs c ! i)) = CACHE_OP_PUT
              then HERD_PUT_REQ_SIZE else HERD_GET_REQ_SIZE) i wr_i c3)
      else send_remote rm ?w (if opcode (e_op (bufs c ! i)) = CACHE_OP_PUT then HERD_PUT_REQ_SIZE else HERD_GET_REQ_SIZE)
        i wr_i (c1\<lparr>per_worker_outstanding := p[?w := p ! ?w + 1]\<rparr>)) = Inr (stop, wr_i', c')"
  proof -
    have "opcode (e_op (bufs c ! i)) = CACHE_OP_PUT \<Longrightarrow> unat (val_len (e_op (bufs c ! i))) = HERD_VALUE_SIZE div 2 ^ SHIFT_BITS"
      using r by (simp add: cold_step_def Let_def assert_res_Inr_iff cfg)
    then show ?thesis
      using r rm w_lt lens c1 unfolding rm_def
      by (cases "opcode (e_op (bufs c ! i)) = CACHE_OP_PUT")
         (simp_all add: cold_step_def Let_def update_at_def cfg wn[symmetric] c1_def[symmetric])
  qed
  show ?thesis
  proof (cases "unat (p ! ?w + 1) > KVS_BATCH")
    case True
    have "p[?w := p ! ?w] = p" by simp
    moreover have "c1\<lparr>per_worker_outstanding := p\<rparr> = c1" by (simp add: c1(1)[symmetric])
    ultimately have "wr_i' = wr_i \<and> copy_op_to_next_op False i c1 = Inr c'"
      using r' True w_lt lens by (auto simp: handle_lack_of_credits_for_remotes_def Let_def update_at_def res_simps cfg
          split: if_splits)
    then show ?thesis using rml(1) rm by blast
  next
    case False
    then show ?thesis using r' rml(1) rm w_lt lens c1 cnt(1) inc
      by (auto simp: send_remote_def add_erpc_request_def update_at_def res_simps split: if_splits)
  qed
qed

lemma sum_length_append:
  assumes "m < length bs"
  shows "sum_list (map length (bs[m := bs ! m @ [x]])) = sum_list (map length bs) + 1"
  using assms by (simp add: map_update sum_list_update)

lemma collect_ok:
  assumes w: "walk_ok i c" and lt: "i < CACHE_BATCH_SIZE" and s: "sent_ok gid wn i wr_i c"
    and wn: "wn < WORKERS_PER_MACHINE" and rm: "rm < MACHINE_NUM" "length (batch c ! rm) < KVS_BATCH"
    and e: "sent_entry gid rm len e" and b: "bufs c' = (bufs c)[i := e]"
    and c': "batch c' = (batch c)[rm := batch c ! rm @ [(i, len)]]" "rem_req_i c' = rem_req_i c + 1"
      "per_worker_outstanding c' = (per_worker_outstanding c)[rm * WORKERS_PER_MACHINE + wn :=
         per_worker_outstanding c ! (rm * WORKERS_PER_MACHINE + wn) + 1]"
      "length (remote_for_each_worker c') = length (remote_for_each_worker c)"
  shows "sent_ok gid wn (Suc i) (wr_i + 1) c'"
proof -
  let ?w = "\<lambda>m. m * WORKERS_PER_MACHINE + wn"
  have lens: "length (batch c) = MACHINE_NUM" "length (per_worker_outstanding c) = WORKER_NUM"
    and bm: "m < MACHINE_NUM \<Longrightarrow> batch_ok gid wn i c m" for m using s by (auto simp: sent_ok_def)
  have wl: "?w rm < WORKER_NUM" using rm(1) wn by (rule worker_slot)
  have il: "i < length (bufs c)" using walk_ok_next(3)[OF w lt] .
  have cnt: "unat (per_worker_outstanding c ! ?w rm + 1) = length (batch c ! rm) + 1"
    using bm[OF rm(1)] rm(2) unat_byte_Suc[of "per_worker_outstanding c ! ?w rm"] by (simp add: batch_ok_def KVS_BATCH_def)
  have "batch_ok gid wn (Suc i) c' m" if m: "m < MACHINE_NUM" for m
  proof (cases "m = rm")
    case True
    have old: "(j, l) \<in> set (batch c ! rm) \<Longrightarrow> j < i \<and> sent_entry gid rm l (bufs c ! j)" for j l
      using bm[OF rm(1)] by (auto simp: batch_ok_def)
    have "sorted_wrt (<) (map fst (batch c' ! rm))"
      using bm[OF rm(1)] old by (auto simp: c'(1) lens rm(1) sorted_wrt_append batch_ok_def)
    moreover have "\<forall>(j, l)\<in>set (batch c' ! rm). j < Suc i \<and> sent_entry gid rm l (bufs c' ! j)"
      using old e il by (auto simp: c'(1) lens rm(1) b nth_list_update less_Suc_eq dest: old)
    ultimately show ?thesis using True cnt rm lens wl by (simp add: batch_ok_def c')
  next
    case False
    then show ?thesis
      using worker_index(2)[OF wl wn m] by (intro batch_ok_cong[OF bm[OF m]]) (auto simp: c' b)
  qed
  moreover have "sum_list (map length (batch c')) = wr_i + 1"
    using s rm(1) sum_length_append[of rm "batch c" "(i, len)"] by (simp add: c'(1) sent_ok_def)
  ultimately show ?thesis using s c' by (simp add: sent_ok_def)
qed

lemma cold_fields:
  "local_measure (set_clt_gid i gid (set_rtype i t c)) = local_measure c"
  "latency_info (set_clt_gid i gid (set_rtype i t c)) = latency_info c"
  "latency_count (set_clt_gid i gid (set_rtype i t c)) = latency_count c"
  "hottest_keys_pointers (set_clt_gid i gid (set_rtype i t c)) = hottest_keys_pointers c"
  by (simp_all add: set_clt_gid_def set_rtype_def)

text \<open>No miss is dropped: one that is finished was collected for its home.\<close>

definition accounted :: "entry list \<Rightarrow> nat \<Rightarrow> client \<Rightarrow> bool" where
  "accounted es i c \<longleftrightarrow> (\<forall>k < i. missed (es ! k) \<longrightarrow> rtype (e_resp (bufs c ! k)) = EMPTY \<longrightarrow>
     (\<exists>len. (k, len) \<in> set (batch c ! unat (home_machine (e_home (es ! k))))))"

lemma accounted_walked:
  assumes "accounted es i c" "walked dn i j c c'" "drop i (bufs c) = drop i es" "i \<le> length es" "length (bufs c) = length es"
  shows "accounted es j c'"
proof -
  have t: "take i (bufs c') = take i (bufs c)" and b: "batch c' = batch c"
    and m: "\<And>k. i \<le> k \<Longrightarrow> k < j \<Longrightarrow> missed (bufs c ! k) \<Longrightarrow> rtype (e_resp (bufs c' ! k)) \<noteq> EMPTY"
    and l: "length (bufs c') = length es"
    using assms(2,5) by (auto simp: walked_def others_kept_def list_all2_lengthD)
  show ?thesis unfolding accounted_def
  proof (intro allI impI)
    fix k assume k: "k < j" "missed (es ! k)" "rtype (e_resp (bufs c' ! k)) = EMPTY"
    show "\<exists>len. (k, len) \<in> set (batch c' ! unat (home_machine (e_home (es ! k))))"
    proof (cases "k < i")
      case True
      then have "bufs c' ! k = bufs c ! k" using t by (metis nth_take)
      then show ?thesis using assms(1) True k b by (simp add: accounted_def)
    next
      case False
      have "k < length es \<Longrightarrow> bufs c ! k = es ! k"
        using arg_cong[OF assms(3), of "\<lambda>xs. xs ! (k - i)"] False assms(4,5) by simp
      moreover have "k < length es" using k(1) assms(2,5) by (auto simp: walked_def walk_ok_def entries_ok_def list_all2_lengthD)
      ultimately show ?thesis using m[of k] k False by simp
    qed
  qed
qed

lemma batch_grows: "x \<in> set (bs ! m) \<Longrightarrow> x \<in> set (bs[m := bs ! m @ ys] ! m)"
  by (cases "m < length bs") (simp_all add: list_update_beyond)

lemma cold_step_ok:
  assumes w: "walk_ok i c" and lt: "i < CACHE_BATCH_SIZE" and s: "sent_ok gid wn i wr_i c"
    and wn: "wn = (clt + mid) mod ACTIVE_WORKERS_PER_MACHINE"
    and r: "cold_step mid clt lw gid i wr_i c = Inr (stop, wr_i', c')"
  shows "walk_ok (Suc i) c' \<and> sent_ok gid wn (Suc i) wr_i' c' \<and> local_measure c' = local_measure c \<and>
    latency_count c' = latency_count c \<and>
    (last_measured_op_i (latency_info c) < CACHE_BATCH_SIZE \<longrightarrow> last_measured_op_i (latency_info c') < CACHE_BATCH_SIZE) \<and>
    (\<exists>e. bufs c' = (bufs c)[i := e] \<and> (rtype (e_resp e) = EMPTY \<or> rtype (e_resp e) = UNSERVED_CACHE_MISS)) \<and>
    length (hottest_keys_pointers c') = length (hottest_keys_pointers c) \<and>
    drop (Suc i) (bufs c') = drop (Suc i) (bufs c) \<and> batch c' ! mid = batch c ! mid \<and>
    list_all2 same_request (bufs c) (bufs c') \<and>
    (\<forall>es. accounted es i c \<longrightarrow> es ! i = bufs c ! i \<longrightarrow> accounted es (Suc i) c')"
proof -
  let ?rm = "unat (home_machine (e_home (bufs c ! i)))"
  let ?c1 = "set_clt_gid i gid (set_rtype i UNSERVED_CACHE_MISS c)" and ?e = "cold_entry gid (bufs c ! i)"
  have wn': "wn < WORKERS_PER_MACHINE" by (simp add: wn worker_of_client)
  note wk = cold_working[OF w lt, of gid]
  have k1: "others_kept c ?c1" by (simp add: others_kept_def set_clt_gid_def set_rtype_def)
  have il: "i < length (bufs c)" by (rule walk_ok_next(3)[OF w lt])
  note cases = cold_step_cases[OF w lt s wn r]
  then have rm: "?rm < MACHINE_NUM" "?rm \<noteq> mid" by blast+
  from cases consider (moved) "wr_i' = wr_i" "copy_op_to_next_op False i ?c1 = Inr c'"
    | (sent) c2 where "wr_i' = wr_i + 1" "length (batch c ! ?rm) < KVS_BATCH" "c' = set_rtype i EMPTY c2"
       "bufs c2 = bufs ?c1" "next_bufs c2 = next_bufs ?c1" "next_op_i c2 = next_op_i ?c1"
       "local_measure c2 = local_measure c" "hottest_keys_pointers c2 = hottest_keys_pointers c"
       "latency_info c2 = latency_info c" "latency_count c2 = latency_count c"
       "batch c2 = (batch c)[?rm := batch c ! ?rm @ [(i, if opcode (e_op (bufs c ! i)) = CACHE_OP_PUT
          then HERD_PUT_REQ_SIZE else HERD_GET_REQ_SIZE)]]" "rem_req_i c2 = rem_req_i c + 1"
       "per_worker_outstanding c2 = (per_worker_outstanding c)[?rm * WORKERS_PER_MACHINE + wn :=
         per_worker_outstanding c ! (?rm * WORKERS_PER_MACHINE + wn) + 1]"
       "length (remote_for_each_worker c2) = length (remote_for_each_worker c)"
    by (elim conjE disjE) (fastforce simp: cold_fields)+
  then show ?thesis
  proof cases
    case moved
    note f = working_copy[OF wk moved(2)]
    have k: "others_kept c c'" using k1 f(2) by (rule others_kept_trans)
    have "sent_ok gid wn (Suc i) wr_i c'"
      by (rule sent_ok_cong[OF s k]) (auto simp: finishes_bufs[OF f(1)])
    moreover have "accounted es (Suc i) c'" if "accounted es i c" for es
      using that il k by (auto simp: accounted_def finishes_bufs[OF f(1)] less_Suc_eq cold_entry_def others_kept_def)
    ultimately show ?thesis
      using finishes_walk[OF w lt f(1)] finishes_bufs[OF f(1)] finishes_same[OF f(1)] k moved(1)
      by (auto simp: others_kept_def cold_entry_def)
  next
    case sent
    have f: "finishes i c c' (?e\<lparr>e_resp := (e_resp ?e)\<lparr>rtype := EMPTY\<rparr>\<rparr>)" (is "finishes i c c' ?e'")
      unfolding sent(3) by (rule working_finish[OF working_cong[OF wk sent(4-6)]])
    have "sent_entry gid ?rm (if opcode (e_op (bufs c ! i)) = CACHE_OP_PUT
          then HERD_PUT_REQ_SIZE else HERD_GET_REQ_SIZE) ?e'"
      by (simp add: sent_entry_def cold_entry_def set_meta_def)
    from collect_ok[OF w lt s wn' rm(1) sent(2) this finishes_bufs[OF f]] sent(11-14)
    have "sent_ok gid wn (Suc i) (wr_i + 1) c'" by (simp add: sent(3) set_rtype_def)
    moreover have b: "batch c' = batch c2" by (simp add: sent(3) set_rtype_def)
    moreover have "accounted es (Suc i) c'" if a: "accounted es i c" and ei: "es ! i = bufs c ! i" for es
      unfolding accounted_def
    proof (intro allI impI)
      fix k assume k: "k < Suc i" "missed (es ! k)" "rtype (e_resp (bufs c' ! k)) = EMPTY"
      show "\<exists>len. (k, len) \<in> set (batch c' ! unat (home_machine (e_home (es ! k))))"
      proof (cases "k = i")
        case True
        then show ?thesis using rm(1) s by (auto simp: b sent(11) ei sent_ok_def)
      next
        case False
        then obtain len where "(k, len) \<in> set (batch c ! unat (home_machine (e_home (es ! k))))"
          using a k finishes_bufs[OF f] by (auto simp: accounted_def less_Suc_eq)
        then show ?thesis
          by (cases "unat (home_machine (e_home (es ! k))) = ?rm")
             (auto simp: b sent(11) nth_list_update_neq intro: batch_grows)
      qed
    qed
    ultimately show ?thesis
      using finishes_walk[OF w lt f] finishes_bufs[OF f] finishes_same[OF f] sent(1,7,8,9,10,11) rm(2)
      by (auto simp: sent(3) set_rtype_def)
  qed
qed

section \<open>The whole batch\<close>

definition cold_inv :: "(entry \<Rightarrow> bool) \<Rightarrow> entry list \<Rightarrow> u32 \<Rightarrow> nat \<Rightarrow> nat \<Rightarrow> nat \<Rightarrow> nat \<Rightarrow> client \<Rightarrow> bool" where
  "cold_inv dn es gid mid wn i wr_i c \<longleftrightarrow> i \<le> CACHE_BATCH_SIZE \<and> length es = CACHE_BATCH_SIZE \<and> walk_ok i c \<and>
     sent_ok gid wn i wr_i c \<and> accounted es i c \<and> drop i (bufs c) = drop i es \<and>
     list_all2 same_request es (bufs c) \<and> batch c ! mid = [] \<and>
     length (hottest_keys_pointers c) = HOTTEST_KEYS_TO_TRACK \<and>
     \<not> local_latency_start_polling (local_measure c) \<and> last_measured_op_i (latency_info c) < CACHE_BATCH_SIZE \<and>
     latency_ok (latency_count c) \<and> (\<forall>k < i. left_over dn (es ! k) (bufs c ! k))"

lemma cold_inv_walked:
  assumes "cold_inv dn es gid mid wn i wr_i c" "walked dn i j c c'"
  shows "cold_inv dn es gid mid wn j wr_i c'"
proof -
  have l: "length (bufs c) = CACHE_BATCH_SIZE" using assms(1) by (simp add: cold_inv_def walk_ok_def entries_ok_def)
  have ij: "i \<le> j" and d: "drop i (bufs c) = drop i es" and dj: "drop j (bufs c') = drop j (bufs c)"
    using assms by (auto simp: cold_inv_def walked_def)
  have "drop j (bufs c') = drop j es"
    using arg_cong[OF d, of "drop (j - i)"] ij by (simp add: dj)
  moreover have "list_all2 same_request es (bufs c')"
    using assms same_all_trans by (auto simp: cold_inv_def walked_def)
  moreover have "left_over dn (es ! k) (bufs c' ! k)" if k: "k < j" for k
  proof (cases "k < i")
    case True
    then have "bufs c' ! k = bufs c ! k" using assms(2) by (metis nth_take walked_def)
    then show ?thesis using assms(1) True by (simp add: cold_inv_def)
  next
    case False
    have "k < length es" "i \<le> length es" "length es = length (bufs c)" using k l assms by (auto simp: cold_inv_def walked_def)
    then have "bufs c ! k = es ! k" using arg_cong[OF d, of "\<lambda>xs. xs ! (k - i)"] False by simp
    moreover have "left_over dn (bufs c ! k) (bufs c' ! k)" using assms(2) False k by (simp add: walked_def)
    ultimately show ?thesis by simp
  qed
  ultimately show ?thesis
    using assms sent_ok_walked[OF _ assms(2) l, of gid wn wr_i] accounted_walked[of es i c dn j c']
    by (simp add: cold_inv_def walked_def others_kept_def l)
qed

lemma cold_inv_entry:
  assumes "cold_inv dn es gid mid wn i wr_i c" "i < CACHE_BATCH_SIZE"
  shows "bufs c ! i = es ! i"
proof -
  have "drop i (bufs c) = drop i es" "i < length (bufs c)" "i < length es"
    using assms by (auto simp: cold_inv_def walk_ok_def entries_ok_def)
  then show ?thesis by (metis hd_drop_conv_nth)
qed

lemma cold_inv_step:
  assumes "cold_inv dn es gid mid wn i wr_i c" "i < CACHE_BATCH_SIZE"
    "wn = (clt + mid) mod ACTIVE_WORKERS_PER_MACHINE" "cold_step mid clt lw gid i wr_i c = Inr (stop, wr_i', c')" "\<not> hit (bufs c ! i)"
  shows "cold_inv dn es gid mid wn (Suc i) wr_i' c'"
proof -
  have w: "walk_ok i c" and s: "sent_ok gid wn i wr_i c" and d: "drop i (bufs c) = drop i es"
    using assms(1) by (auto simp: cold_inv_def)
  note k = cold_step_ok[OF w assms(2) s assms(3,4)]
  have ei: "es ! i = bufs c ! i" using cold_inv_entry[OF assms(1,2)] by simp
  have il: "i < length (bufs c)" using walk_ok_next(3)[OF w assms(2)] .
  have "left_over dn (es ! m) (bufs c' ! m)" if "m < Suc i" for m
    using that k assms(1,5) il by (cases "m = i") (auto simp: cold_inv_def left_over_def ei)
  moreover note ei
  moreover have "drop (Suc i) (bufs c) = drop (Suc i) es"
    using arg_cong[OF d, of tl] by (simp add: drop_Suc tl_drop)
  moreover have "list_all2 same_request es (bufs c')"
    using assms(1) k same_all_trans by (auto simp: cold_inv_def)
  ultimately show ?thesis using assms(1,2) k by (simp add: cold_inv_def)
qed

lemma hit_bookkeeping_walked:
  assumes "hit_bookkeeping protocol clt i c = Inr (j, c')" "walk_ok i c" "i \<le> CACHE_BATCH_SIZE"
    "protocol = SEQUENTIAL_CONSISTENCY \<or> protocol = LINEARIZABILITY"
  shows "walked (retired_by protocol) i j c c' \<and> (j < CACHE_BATCH_SIZE \<longrightarrow> \<not> hit (bufs c' ! j))"
  using assms hit_sc.hit_loop_walk[of clt i c j c'] hit_lin.hit_loop_walk[of i c j c']
  by (auto simp: hit_bookkeeping_def DISABLE_CACHE_def cache_hit_bookkeeping_SC_def cache_hit_bookkeeping_LIN_def
      hit_def SEQUENTIAL_CONSISTENCY_def LINEARIZABILITY_def split: if_splits)

lemma cold_loop_inv:
  assumes "cold_loop protocol mid clt lw gid i wr_i c = Inr (j, wr_i', c')" "cold_inv (retired_by protocol) es gid mid wn i wr_i c"
    "wn = (clt + mid) mod ACTIVE_WORKERS_PER_MACHINE" "protocol = SEQUENTIAL_CONSISTENCY \<or> protocol = LINEARIZABILITY"
  shows "cold_inv (retired_by protocol) es gid mid wn j wr_i' c'"
  using assms
proof (induction protocol mid clt lw gid i wr_i c rule: cold_loop.induct)
  case (1 protocol mid clt lw gid i wr_i c)
  show ?case
  proof (cases "rem_req_i c < WINDOW_SIZE \<and> i < CACHE_BATCH_SIZE")
    case False
    then have "cold_loop protocol mid clt lw gid i wr_i c = Inr (i, wr_i, c)"
      by (subst cold_loop.simps) (rule if_not_P[OF False])
    then show ?thesis using "1.prems" by simp
  next
    case True
    let ?rest = "\<lambda>(k, c1). if k \<ge> CACHE_BATCH_SIZE then Inr (k, wr_i, c1)
         else bind_res (cold_step mid clt lw gid k wr_i c1) (\<lambda>(stop, wr_i', c2).
           if stop then Inr (k + 1, wr_i', c2) else cold_loop protocol mid clt lw gid (k + 1) wr_i' c2)"
    have eq: "cold_loop protocol mid clt lw gid i wr_i c = bind_res (hit_bookkeeping protocol clt i c) ?rest"
      by (subst cold_loop.simps) (rule if_P[OF True])
    obtain x where x: "hit_bookkeeping protocol clt i c = Inr x" "?rest x = Inr (j, wr_i', c')"
      using "1.prems"(1) unfolding eq bind_res_Inr_iff by (elim exE conjE)
    obtain k c1 where kc: "x = (k, c1)" by (cases x)
    note h = x(1)[unfolded kc] and rest = x(2)[unfolded kc]
    have wk: "walked (retired_by protocol) i k c c1" "k < CACHE_BATCH_SIZE \<longrightarrow> \<not> hit (bufs c1 ! k)"
      using hit_bookkeeping_walked[OF h _ _ "1.prems"(4)] "1.prems"(2) by (simp_all add: cold_inv_def)
    from wk(1) have k: "cold_inv (retired_by protocol) es gid mid wn k wr_i c1" by (rule cold_inv_walked[OF "1.prems"(2)])
    show ?thesis
    proof (cases "k \<ge> CACHE_BATCH_SIZE")
      case True
      then show ?thesis using rest k by simp
    next
      case False
      then obtain stop w2 c2 where s: "cold_step mid clt lw gid k wr_i c1 = Inr (stop, w2, c2)"
        and r: "(if stop then Inr (k + 1, w2, c2) else cold_loop protocol mid clt lw gid (k + 1) w2 c2) = Inr (j, wr_i', c')"
        using rest by (auto simp: bind_res_Inr_iff)
      have k2: "cold_inv (retired_by protocol) es gid mid wn (k + 1) w2 c2" using cold_inv_step[OF k _ "1.prems"(3) s] False wk(2) by simp
      show ?thesis
      proof (cases stop)
        case True
        then show ?thesis using r k2 by simp
      next
        case no: False
        have "cold_loop protocol mid clt lw gid (k + 1) w2 c2 = Inr (j, wr_i', c')" using r no by simp
        from "1.IH"[OF True h refl False s refl refl no this k2 "1.prems"(3,4)] show ?thesis .
      qed
    qed
  qed
qed

subsection \<open>The batch is served without a fault\<close>

definition cold_ready :: "nat \<Rightarrow> nat \<Rightarrow> entry \<Rightarrow> bool" where
  "cold_ready protocol mid e \<longleftrightarrow> ready protocol e \<and>
     (\<not> hit e \<longrightarrow> unat (home_machine (e_home e)) < MACHINE_NUM \<and> unat (home_machine (e_home e)) \<noteq> mid \<and>
       (opcode (e_op e) = CACHE_OP_PUT \<longrightarrow> unat (val_len (e_op e)) = HERD_VALUE_SIZE div 2 ^ SHIFT_BITS))"

lemma cold_step_returns:
  assumes inv: "cold_inv dn es gid mid wn i wr_i c" and lt: "i < CACHE_BATCH_SIZE"
    and wn: "wn = (clt + mid) mod ACTIVE_WORKERS_PER_MACHINE"
    and e: "cold_ready protocol mid (bufs c ! i)" "\<not> hit (bufs c ! i)"
  shows "\<exists>x. cold_step mid clt lw gid i wr_i c = Inr x"
proof -
  let ?e = "bufs c ! i" and ?c1 = "set_clt_gid i gid (set_rtype i UNSERVED_CACHE_MISS c)" and ?p = "per_worker_outstanding c"
  let ?rm = "unat (home_machine (e_home ?e))"
  let ?w = "?rm * WORKERS_PER_MACHINE + wn"
  have w: "walk_ok i c" and s: "sent_ok gid wn i wr_i c" using inv by (auto simp: cold_inv_def)
  have rm: "?rm < MACHINE_NUM" "?rm \<noteq> mid" and v: "opcode (e_op ?e) = CACHE_OP_PUT \<Longrightarrow>
    unat (val_len (e_op ?e)) = HERD_VALUE_SIZE div 2 ^ SHIFT_BITS" and cp: "copyable ?e"
    using e by (auto simp: cold_ready_def ready_def)
  have wn': "wn < WORKERS_PER_MACHINE" by (simp add: wn worker_of_client)
  have wl: "?w < WORKER_NUM" using rm(1) wn' by (rule worker_slot)
  have lens: "length ?p = WORKER_NUM" "length (batch c) = MACHINE_NUM" "length (remote_for_each_worker c) = WORKER_NUM"
    "length (batch c ! ?rm) < WINDOW_SIZE"
    using s rm(1) by (auto simp: sent_ok_def batch_ok_def KVS_BATCH_def WINDOW_SIZE_def)
  have c1: "per_worker_outstanding ?c1 = ?p" "batch ?c1 = batch c" "remote_for_each_worker ?c1 = remote_for_each_worker c"
    by (simp_all add: set_clt_gid_def set_rtype_def)
  have wk: "working i c (?c1\<lparr>per_worker_outstanding := q\<rparr>) (cold_entry gid ?e)" for q
    by (rule working_cong[OF cold_working[OF w lt, of gid]]) simp_all
  have "\<exists>n. size_of_copy (opcode (e_op (cold_entry gid ?e))) = Inr n"
    using copyable_size[OF cp] by (simp add: cold_entry_def set_meta_def)
  then have mv: "\<exists>c'. copy_op_to_next_op False i (?c1\<lparr>per_worker_outstanding := q\<rparr>) = Inr c'" for q
    by (rule working_copy_returns[OF wk]) (simp add: cold_entry_def)
  have snd: "\<exists>x. send_remote ?rm ?w n i wr_i (?c1\<lparr>per_worker_outstanding := q\<rparr>) = Inr x" for n q
    using lens c1 wl rm(1) by (auto simp: send_remote_def add_erpc_request_def update_at_def)
  have lack: "\<exists>cf c'. cf \<noteq> no_cf_change \<and> handle_lack_of_credits_for_remotes ?rm wn ?w wr_i i
      (?c1\<lparr>per_worker_outstanding := q\<rparr>) = Inr (cf, ?w, c')" if "length q = WORKER_NUM" for q
    using mv[of "q[?w := q ! ?w - 1]"] wl that
    by (auto simp: handle_lack_of_credits_for_remotes_def Let_def update_at_def walk_config)
  let ?q = "?p[?w := ?p ! ?w + 1]"
  obtain cf c' where l: "cf \<noteq> no_cf_change" "handle_lack_of_credits_for_remotes ?rm wn ?w wr_i i
      (?c1\<lparr>per_worker_outstanding := ?q\<rparr>) = Inr (cf, ?w, c')" using lack[of ?q] lens by auto
  have up: "update_at ?w (\<lambda>n. n + 1) ?p = Inr ?q" using wl lens(1) by (simp add: update_at_def)
  show ?thesis
    using v rm(2) l snd[of HERD_PUT_REQ_SIZE ?q] snd[of HERD_GET_REQ_SIZE ?q]
    by (cases "opcode (e_op ?e) = CACHE_OP_PUT"; cases cf)
       (auto simp: cold_step_def Let_def wn[symmetric] c1(1) up assert_res_def walk_config)
qed

lemma hit_bookkeeping_returns:
  assumes "walk_ok i c" "i \<le> CACHE_BATCH_SIZE" "length (hottest_keys_pointers c) = HOTTEST_KEYS_TO_TRACK"
    "protocol = SEQUENTIAL_CONSISTENCY \<or> protocol = LINEARIZABILITY"
    "\<And>e. e \<in> set (drop i (bufs c)) \<Longrightarrow> ready protocol e"
  shows "\<exists>x. hit_bookkeeping protocol clt i c = Inr x"
  using assms(4)
proof
  assume p: "protocol = SEQUENTIAL_CONSISTENCY"
  have "\<exists>x. hit_loop (hit_SC clt) i c = Inr x"
    by (rule hit_sc.hit_loop_returns[OF assms(1-3)]) (use assms(5) p in \<open>auto simp: hit_def\<close>)
  then show ?thesis
    by (simp add: hit_bookkeeping_def DISABLE_CACHE_def cache_hit_bookkeeping_SC_def p SEQUENTIAL_CONSISTENCY_def LINEARIZABILITY_def)
next
  assume p: "protocol = LINEARIZABILITY"
  have "\<exists>x. hit_loop hit_LIN i c = Inr x"
    by (rule hit_lin.hit_loop_returns[OF assms(1-3)]) (use assms(5) p in \<open>auto simp: hit_def\<close>)
  then show ?thesis by (simp add: hit_bookkeeping_def DISABLE_CACHE_def cache_hit_bookkeeping_LIN_def p)
qed

lemma cold_loop_returns:
  assumes "cold_inv (retired_by protocol) es gid mid wn i wr_i c" "wn = (clt + mid) mod ACTIVE_WORKERS_PER_MACHINE"
    "protocol = SEQUENTIAL_CONSISTENCY \<or> protocol = LINEARIZABILITY" "\<And>e. e \<in> set es \<Longrightarrow> cold_ready protocol mid e"
  shows "\<exists>x. cold_loop protocol mid clt lw gid i wr_i c = Inr x"
  using assms
proof (induction protocol mid clt lw gid i wr_i c rule: cold_loop.induct)
  case (1 protocol mid clt lw gid i wr_i c)
  show ?case
  proof (cases "rem_req_i c < WINDOW_SIZE \<and> i < CACHE_BATCH_SIZE")
    case False
    then have "cold_loop protocol mid clt lw gid i wr_i c = Inr (i, wr_i, c)"
      by (subst cold_loop.simps) (rule if_not_P[OF False])
    then show ?thesis by blast
  next
    case True
    let ?rest = "\<lambda>(k, c1). if k \<ge> CACHE_BATCH_SIZE then Inr (k, wr_i, c1)
         else bind_res (cold_step mid clt lw gid k wr_i c1) (\<lambda>(stop, wr_i', c2).
           if stop then Inr (k + 1, wr_i', c2) else cold_loop protocol mid clt lw gid (k + 1) wr_i' c2)"
    have eq: "cold_loop protocol mid clt lw gid i wr_i c = bind_res (hit_bookkeeping protocol clt i c) ?rest"
      by (subst cold_loop.simps) (rule if_P[OF True])
    have inv: "walk_ok i c" "i \<le> CACHE_BATCH_SIZE" "length (hottest_keys_pointers c) = HOTTEST_KEYS_TO_TRACK"
      and d: "drop i (bufs c) = drop i es" using "1.prems"(1) by (auto simp: cold_inv_def)
    have "\<exists>x. hit_bookkeeping protocol clt i c = Inr x"
      by (rule hit_bookkeeping_returns[OF inv "1.prems"(3)])
         (use "1.prems"(4) d in \<open>auto simp: cold_ready_def dest: in_set_dropD\<close>)
    then obtain k c1 where h: "hit_bookkeeping protocol clt i c = Inr (k, c1)" by (metis surj_pair)
    note wk = hit_bookkeeping_walked[OF h inv(1,2) "1.prems"(3)]
    then have k: "cold_inv (retired_by protocol) es gid mid wn k wr_i c1" using cold_inv_walked[OF "1.prems"(1)] by blast
    show ?thesis
    proof (cases "k \<ge> CACHE_BATCH_SIZE")
      case True
      then show ?thesis unfolding eq h by simp
    next
      case False
      have "bufs c1 ! k = es ! k" "k < length es" using k False cold_inv_entry[OF k] by (auto simp: cold_inv_def)
      then have "cold_ready protocol mid (bufs c1 ! k)" using "1.prems"(4) by simp
      from cold_step_returns[OF k _ "1.prems"(2) this] wk False
      obtain stop w2 c2 where s: "cold_step mid clt lw gid k wr_i c1 = Inr (stop, w2, c2)" by (metis leI surj_pair)
      have k2: "cold_inv (retired_by protocol) es gid mid wn (k + 1) w2 c2" using cold_inv_step[OF k _ "1.prems"(2) s] False wk by simp
      have "\<not> stop \<Longrightarrow> \<exists>x. cold_loop protocol mid clt lw gid (k + 1) w2 c2 = Inr x"
        using "1.IH"[OF True h refl False s refl refl _ k2 "1.prems"(2-4)] by blast
      then show ?thesis unfolding eq h using False s by simp
    qed
  qed
qed

text \<open>What \<open>run_client\<close> establishes before each batch: the counters and the batches for
  the machines are reset, the buffers are full and nothing in them is finished.\<close>

definition cold_start :: "client \<Rightarrow> bool" where
  "cold_start c \<longleftrightarrow> entries_ok (bufs c) \<and> entries_ok (next_bufs c) \<and> (\<forall>e\<in>set (bufs c). rtype (e_resp e) \<noteq> EMPTY) \<and>
     next_op_i c = 0 \<and> rem_req_i c = 0 \<and> batch c = replicate MACHINE_NUM [] \<and>
     per_worker_outstanding c = replicate WORKER_NUM 0 \<and> length (remote_for_each_worker c) = WORKER_NUM \<and>
     length (hottest_keys_pointers c) = HOTTEST_KEYS_TO_TRACK \<and> \<not> local_latency_start_polling (local_measure c) \<and>
     last_measured_op_i (latency_info c) < CACHE_BATCH_SIZE \<and> latency_ok (latency_count c)"

lemma cold_start_inv:
  assumes "cold_start c" "wn < WORKERS_PER_MACHINE" "mid < MACHINE_NUM"
  shows "cold_inv dn (bufs c) gid mid wn 0 0 c"
  using assms worker_slot[OF _ assms(2)]
  by (auto simp: cold_start_def cold_inv_def walk_ok_def entries_ok_def sent_ok_def batch_ok_def accounted_def
      list_all2_refl unfinished_def sum_list_replicate)

definition after_loop :: "nat \<Rightarrow> nat \<Rightarrow> client \<Rightarrow> client result" where
  "after_loop protocol i c =
    (if protocol = LINEARIZABILITY then run_through_rest_of_ops_LIN i c
     else if protocol = SEQUENTIAL_CONSISTENCY then run_through_rest_of_ops_SC i c else Inr c)"

lemma after_loop_inv:
  assumes "after_loop protocol i c = Inr c'" "cold_inv (retired_by protocol) es gid mid wn i wr_i c"
    "protocol = SEQUENTIAL_CONSISTENCY \<or> protocol = LINEARIZABILITY"
  shows "cold_inv (retired_by protocol) es gid mid wn CACHE_BATCH_SIZE wr_i c'"
proof (rule cold_inv_walked[OF assms(2)])
  have "walk_ok i c" "i \<le> CACHE_BATCH_SIZE" using assms(2) by (auto simp: cold_inv_def)
  then show "walked (retired_by protocol) i CACHE_BATCH_SIZE c c'"
    using assms(1,3) rest_sc.rest_loop_walk[of i c c'] rest_lin.rest_loop_walk[of i c c']
    by (auto simp: after_loop_def run_through_rest_of_ops_SC_def run_through_rest_of_ops_LIN_def split: if_splits)
qed

lemma after_loop_returns:
  assumes inv: "cold_inv (retired_by protocol) es gid mid wn i wr_i c" and p: "protocol = SEQUENTIAL_CONSISTENCY \<or> protocol = LINEARIZABILITY"
    and r: "\<And>e. e \<in> set es \<Longrightarrow> ready protocol e"
  shows "\<exists>c'. after_loop protocol i c = Inr c'"
proof -
  have w: "walk_ok i c" "i \<le> CACHE_BATCH_SIZE" "length (hottest_keys_pointers c) = HOTTEST_KEYS_TO_TRACK"
    and d: "drop i (bufs c) = drop i es" using inv by (auto simp: cold_inv_def)
  have e: "e \<in> set (drop i (bufs c)) \<Longrightarrow> ready protocol e" for e using r d by (auto dest: in_set_dropD)
  show ?thesis
    using p rest_sc.rest_loop_returns[OF w] rest_lin.rest_loop_returns[OF w] e
    by (auto simp: after_loop_def run_through_rest_of_ops_SC_def run_through_rest_of_ops_LIN_def)
qed

lemma poll_idle: "\<not> local_latency_start_polling (local_measure c) \<Longrightarrow> poll_local_req_for_latency_measurement u c = Inr c"
  by (simp add: poll_local_req_for_latency_measurement_def)

lemma handle_cold_requests_inv:
  assumes "cold_start c" "mid < MACHINE_NUM" "protocol = SEQUENTIAL_CONSISTENCY \<or> protocol = LINEARIZABILITY"
    "handle_cold_requests protocol mid clt lw gid u c = Inr (wr_i, c')"
  shows "cold_inv (retired_by protocol) (bufs c) gid mid ((clt + mid) mod ACTIVE_WORKERS_PER_MACHINE) CACHE_BATCH_SIZE wr_i c'"
proof -
  obtain i c1 c2 where l: "cold_loop protocol mid clt lw gid 0 0 c = Inr (i, wr_i, c1)"
    and a: "after_loop protocol i c1 = Inr c2" and p: "poll_local_req_for_latency_measurement u c2 = Inr c'"
    using assms(4) unfolding handle_cold_requests_def after_loop_def[symmetric] by (auto simp: bind_res_Inr_iff)
  note i = cold_loop_inv[OF l cold_start_inv[OF assms(1) worker_of_client assms(2)] refl assms(3)]
  note k = after_loop_inv[OF a i assms(3)]
  have "\<not> local_latency_start_polling (local_measure c2)" using k by (simp add: cold_inv_def)
  then show ?thesis using p k by (simp add: poll_idle)
qed

lemma handle_cold_requests_returns:
  assumes "cold_start c" "mid < MACHINE_NUM" "protocol = SEQUENTIAL_CONSISTENCY \<or> protocol = LINEARIZABILITY"
    "\<And>e. e \<in> set (bufs c) \<Longrightarrow> cold_ready protocol mid e"
  shows "\<exists>wr_i c'. handle_cold_requests protocol mid clt lw gid u c = Inr (wr_i, c')"
proof -
  note s = cold_start_inv[OF assms(1) worker_of_client[of clt mid] assms(2), of "retired_by protocol" gid]
  obtain i wr_i c1 where l: "cold_loop protocol mid clt lw gid 0 0 c = Inr (i, wr_i, c1)"
    using cold_loop_returns[OF s refl assms(3,4)] by (metis surj_pair)
  note i = cold_loop_inv[OF l s refl assms(3)]
  obtain c2 where a: "after_loop protocol i c1 = Inr c2"
    using after_loop_returns[OF i assms(3)] assms(4) by (auto simp: cold_ready_def)
  have "\<not> local_latency_start_polling (local_measure c2)"
    using after_loop_inv[OF a i assms(3)] by (simp add: cold_inv_def)
  then show ?thesis unfolding handle_cold_requests_def after_loop_def[symmetric] by (simp add: l a poll_idle)
qed

subsection \<open>Properties\<close>


text \<open>Property C23: what the client collects for the other machines is well formed.
  The batches together hold the number of requests reported, none is for the client's own
  machine, no machine gets more than a batch of \<open>KVS_BATCH\<close>; within a batch the requests are
  distinct and in their order, and each is at home on that machine, is marked as finished,
  carries the client's identity, and has the number of bytes of its kind.\<close>

theorem remote_batches_bounded:
  assumes "cold_start c" "mid < MACHINE_NUM" "protocol = SEQUENTIAL_CONSISTENCY \<or> protocol = LINEARIZABILITY"
    "handle_cold_requests protocol mid clt lw gid u c = Inr (wr_i, c')"
  shows "sum_list (map length (batch c')) = wr_i \<and> batch c' ! mid = [] \<and>
    (\<forall>m. m < MACHINE_NUM \<longrightarrow> length (batch c' ! m) \<le> KVS_BATCH \<and> sorted_wrt (<) (map fst (batch c' ! m)) \<and>
       (\<forall>(i, len)\<in>set (batch c' ! m). i < CACHE_BATCH_SIZE \<and> sent_entry gid m len (bufs c' ! i)))"
  using handle_cold_requests_inv[OF assms] by (auto simp: cold_inv_def sent_ok_def batch_ok_def)


subsection \<open>A batch\<close>

definition demo_entry :: "u8 \<Rightarrow> entry" where
  "demo_entry t = \<lparr>e_op = \<lparr>key = \<lparr>meta = \<lparr>state = 0, pending_acks = 0, cid = 0, lock = 0, version = 0\<rparr>,
       bkt = 7, server = 1, tag = 3\<rparr>, opcode = CACHE_OP_GET, val_len = 0, value = replicate MICA_MAX_VALUE 0\<rparr>,
     e_resp = \<lparr>rtype = t, rval_len = 0, val_ptr = None\<rparr>, e_home = \<lparr>home_machine = 1, home_worker = 0\<rparr>\<rparr>"

definition demo_client :: client where
  "demo_client = \<lparr>bufs = replicate CACHE_BATCH_SIZE (demo_entry CACHE_MISS),
     next_bufs = replicate CACHE_BATCH_SIZE (demo_entry EMPTY), next_op_i = 0, cache_hits = 0,
     latency_info = \<lparr>measured_req_flag = NO_REQ, last_measured_op_i = 0, key_to_measure = key (e_op (demo_entry EMPTY))\<rparr>,
     latency_count = zero_counters, hottest_keys_pointers = replicate HOTTEST_KEYS_TO_TRACK 0, stalled_ops_i = 0,
     rem_req_i = 0, per_worker_outstanding = replicate WORKER_NUM 0, remote_for_each_worker = replicate WORKER_NUM 0,
     batch = replicate MACHINE_NUM [], ws = replicate WORKERS_PER_MACHINE 0, local_recv_flag = (\<lambda>_ _ _. False),
     local_req_region = [], locals_per_client = 0,
     local_measure = \<lparr>measured_local_region = -1, local_latency_start_polling = False, flag_to_poll = None\<rparr>\<rparr>"

lemma demo_client_start: "cold_start demo_client" "\<forall>e \<in> set (bufs demo_client). cold_ready SEQUENTIAL_CONSISTENCY 0 e"
  by (simp_all add: demo_client_def cold_start_def entries_ok_def demo_entry_def cold_ready_def ready_def copyable_def
      hit_def SEQUENTIAL_CONSISTENCY_def LINEARIZABILITY_def MACHINE_NUM_def CACHE_BATCH_SIZE_def latency_ok_def zero_counters_def)

lemma demo_machine: "(0::nat) < MACHINE_NUM" "SEQUENTIAL_CONSISTENCY = SEQUENTIAL_CONSISTENCY \<or> SEQUENTIAL_CONSISTENCY = LINEARIZABILITY"
  by (simp_all add: MACHINE_NUM_def)

lemma demo_client_returns:
  obtains wr_i c' where "handle_cold_requests SEQUENTIAL_CONSISTENCY 0 0 0 5 0 demo_client = Inr (wr_i, c')"
  using handle_cold_requests_returns[OF demo_client_start(1) demo_machine(1,2)] demo_client_start(2) by blast


theorem remote_batches_bounded_witness:
  "\<exists>wr_i c'. handle_cold_requests SEQUENTIAL_CONSISTENCY 0 0 0 5 0 demo_client = Inr (wr_i, c') \<and>
     length (batch c' ! 1) \<le> KVS_BATCH \<and> batch c' ! 0 = []"
proof -
  obtain wr_i c' where r: "handle_cold_requests SEQUENTIAL_CONSISTENCY 0 0 0 5 0 demo_client = Inr (wr_i, c')"
    by (rule demo_client_returns)
  then show ?thesis using remote_batches_bounded[OF demo_client_start(1) demo_machine r] by (auto simp: MACHINE_NUM_def)
qed


end
