(* ===== verification/Trace_Correct.thy ===== *)
theory Trace_Correct
  imports Trace Requests_Correct SC_Correct
begin

text \<open>
  The trace and the batches made from it: every command that \<open>parse_trace\<close> stores is
  well formed, and a refill of the batch turns the next commands, in their order and
  each exactly once, into requests, ends, and fails no assertion as long as no hot key is
  read too often within a batch.
\<close>

section \<open>The commands of a trace\<close>

definition command_ok :: "nat \<Rightarrow> trace_command \<Rightarrow> bool" where
  "command_ok mid cmd \<longleftrightarrow>
     tc_opcode cmd \<in> {HOT_WRITE, HOT_READ, REMOTE_WRITE, REMOTE_READ} \<and>
     (IS_HOT (tc_opcode cmd) \<longleftrightarrow> unat (key_id cmd) < CACHE_NUM_KEYS) \<and> unat (key_id cmd) < HERD_NUM_KEYS \<and>
     unat (home_machine_id cmd) < MACHINE_NUM \<and> unat (home_machine_id cmd) \<noteq> mid \<and>
     unat (home_worker_id cmd) < WORKERS_PER_MACHINE \<and>
     CityHash128 (bytes32 (key_id cmd)) 0 4 = Inr (key_hash cmd)"

definition trace_ok :: "nat \<Rightarrow> trace_command list \<Rightarrow> bool" where
  "trace_ok mid tr \<longleftrightarrow> tr \<noteq> [] \<and> tc_opcode (last tr) = NOP \<and> (\<forall>cmd\<in>set (butlast tr). command_ok mid cmd)"

lemmas trace_config = RANDOM_MACHINE_def LOAD_BALANCE_def DISABLE_LOCALS_def SEND_ONLY_TO_ONE_MACHINE_def
  SEND_ONLY_TO_NEXT_MACHINE_def BALANCE_REQS_IN_CHUNKS_def DO_ONLY_LOCALS_def EMULATING_CREW_def ONLY_CACHE_HITS_def
  BALANCE_HOT_WRITES_def BALANCE_HOT_REQS_def ENABLE_HOT_REQ_GROUPING_def USE_A_SINGLE_KEY_def

text \<open>The key a word of the trace stands for.\<close>

definition key_of_word :: "string \<Rightarrow> nat" where
  "key_of_word w = (let k = strtoul w mod 2 ^ 32 in if k < CACHE_NUM_KEYS then k else spread_cold k)"

lemma key_of_word_range: "key_of_word w < HERD_NUM_KEYS" "key_of_word w < 2 ^ 32"
proof -
  show h: "key_of_word w < HERD_NUM_KEYS"
    by (auto simp: key_of_word_def spread_cold_def Let_def HERD_NUM_KEYS_def CACHE_NUM_KEYS_def USE_BIG_OBJECTS_def)
  have "HERD_NUM_KEYS < 2 ^ 32" by (simp add: HERD_NUM_KEYS_def USE_BIG_OBJECTS_def)
  then show "key_of_word w < 2 ^ 32" using h by linarith
qed

lemma hash4_returns: "returns (CityHash128 (bytes32 x) 0 4)"
  unfolding CityHash128_def by (intro returns_intro; simp)

definition draws_ok :: "nat \<Rightarrow> nat list \<Rightarrow> bool" where
  "draws_ok mid rs \<longleftrightarrow> (\<forall>r\<in>set rs. r mod MACHINE_NUM \<noteq> mid)"

lemma home_machine_drawn:
  assumes "draws_ok mid (r # rs)"
  shows "home_machine_of mid i w (r # rs) = Inr (r mod MACHINE_NUM, rs)"
  using assms
  by (simp add: home_machine_of_def trace_config redirect_def draws_ok_def Let_def MACHINE_NUM_def)

lemma home_worker_drawn: "home_worker_of w (r # rs) = Inr (r mod ACTIVE_WORKERS_PER_MACHINE, rs)"
  by (simp add: home_worker_of_def trace_config ACTIVE_WORKERS_PER_MACHINE_def ENABLE_LOCAL_WORKERS_def WORKERS_PER_MACHINE_def)

lemma key_id_parsed: "key_id_of u w rs = Inr (key_of_word w, rs)"
  by (simp add: key_id_of_def trace_config spread_hot_def key_of_word_def Let_def)

definition line_key :: "string \<Rightarrow> nat" where
  "line_key line = key_of_word (chop_newline (strtok line ! 3))"

lemma parse_line_ok:
  assumes "length (strtok line) \<ge> 4" "draws_ok mid (r1 # r2 # r3 # rs)"
  obtains cmd where "parse_line mid i line (r1 # r2 # r3 # rs) = Inr (Some cmd, rs)" "command_ok mid cmd"
    "unat (key_id cmd) = line_key line" "IS_WRITE (tc_opcode cmd) \<longleftrightarrow> r1 mod 1000 < WRITE_RATIO"
proof -
  let ?k = "line_key line" and ?m = "r2 mod MACHINE_NUM" and ?w = "r3 mod ACTIVE_WORKERS_PER_MACHINE"
  obtain h where h: "CityHash128 (bytes32 (of_nat ?k)) 0 4 = Inr h" using hash4_returns by (auto simp: returns_def)
  let ?cmd = "\<lparr>tc_opcode = command_code mid (r1 mod 1000 < WRITE_RATIO) ?m ?k, home_machine_id = of_nat ?m,
     home_worker_id = of_nat ?w, key_id = of_nat ?k, key_hash = h\<rparr>"
  have m: "?m < MACHINE_NUM" "?m \<noteq> mid" "?w < WORKERS_PER_MACHINE"
    using assms(2) by (auto simp: draws_ok_def MACHINE_NUM_def ACTIVE_WORKERS_PER_MACHINE_def ENABLE_LOCAL_WORKERS_def
        DISABLE_LOCALS_def WORKERS_PER_MACHINE_def)
  have un: "unat (of_nat ?k :: u32) = ?k" "unat (of_nat ?m :: u8) = ?m" "unat (of_nat ?w :: u8) = ?w"
    using key_of_word_range(2) m by (simp_all add: line_key_def unat_of_nat MACHINE_NUM_def WORKERS_PER_MACHINE_def)
  have ne: "strtok line \<noteq> []" using assms(1) by auto
  have "parse_line mid i line (r1 # r2 # r3 # rs) = Inr (Some ?cmd, rs)"
    using assms h ne home_machine_drawn[of mid r2 "r3 # rs"]
    by (simp add: parse_line_def Let_def home_worker_drawn key_id_parsed line_key_def draws_ok_def)
  moreover have "command_ok mid ?cmd"
    using m h key_of_word_range(1)[of "chop_newline (strtok line ! 3)"]
    by (auto simp: command_ok_def un command_code_def IS_HOT_def simp flip: line_key_def)
  ultimately show ?thesis using that un m by (auto simp: command_code_def IS_WRITE_def)
qed

lemma parse_lines_ok:
  assumes "\<forall>(i, line)\<in>set ls. length (strtok line) \<ge> 4" "draws_ok mid rs" "length rs \<ge> 3 * length ls"
  shows "\<exists>cs rs'. fold_res (parse_step mid) ls (pre, rs) = Inr (pre @ map Some cs, rs') \<and>
    (\<forall>c\<in>set cs. command_ok mid c) \<and> map (\<lambda>c. unat (key_id c)) cs = map (\<lambda>l. line_key (snd l)) ls"
  using assms
proof (induction ls arbitrary: pre rs)
  case Nil
  then show ?case by (intro exI[of _ "[]"] exI[of _ rs]) simp
next
  case (Cons l ls)
  obtain i line where l: "l = (i, line)" by (cases l)
  obtain r1 r2 r3 rs' where rs: "rs = r1 # r2 # r3 # rs'"
    using Cons.prems(3) by (cases rs; cases "tl rs"; cases "tl (tl rs)") auto
  obtain cmd where c: "parse_line mid i line rs = Inr (Some cmd, rs')" "command_ok mid cmd" "unat (key_id cmd) = line_key line"
    using parse_line_ok[of line mid r1 r2 r3 rs' i] Cons.prems(1,2) by (auto simp: rs l)
  have "draws_ok mid rs'" "length rs' \<ge> 3 * length ls" using Cons.prems by (auto simp: rs draws_ok_def)
  with Cons.IH[of rs' "pre @ [Some cmd]"] Cons.prems(1) obtain cs rs'' where
    cs: "fold_res (parse_step mid) ls (pre @ [Some cmd], rs') = Inr ((pre @ [Some cmd]) @ map Some cs, rs'')"
      "\<forall>c\<in>set cs. command_ok mid c" "map (\<lambda>c. unat (key_id c)) cs = map (\<lambda>l. line_key (snd l)) ls" by auto
  have "parse_step mid l (pre, rs) = Inr (pre @ [Some cmd], rs')" using c(1) by (simp add: l parse_step_def)
  then show ?case using cs c by (intro exI[of _ "cmd # cs"] exI[of _ rs'']) (simp add: l)
qed

lemma parse_trace_ok:
  assumes "\<forall>line\<in>set lines. length (strtok line) \<ge> 4" "draws_ok mid rs" "length rs \<ge> 3 * length lines"
  obtains tr where "parse_trace mid lines rs junk = Inr tr" "trace_ok mid tr"
    "map (\<lambda>c. unat (key_id c)) (butlast tr) = map line_key lines"
proof -
  let ?ls = "zip [0 ..< length lines] lines"
  have "\<forall>(i, line)\<in>set ?ls. length (strtok line) \<ge> 4" using assms(1) by (auto dest: set_zip_rightD)
  from parse_lines_ok[OF this assms(2), of "[]"] assms(3) obtain cs rs' where
    cs: "fold_res (parse_step mid) ?ls ([], rs) = Inr (map Some cs, rs')" "\<forall>c\<in>set cs. command_ok mid c"
      "map (\<lambda>c. unat (key_id c)) cs = map (\<lambda>l. line_key (snd l)) ?ls" by auto
  moreover have "map (\<lambda>l. line_key (snd l)) ?ls = map line_key lines"
    using map_snd_zip[of "[0 ..< length lines]" lines] map_map[of line_key snd ?ls] by (simp add: comp_def)
  ultimately show ?thesis
    using that[of "cs @ [junk\<lparr>tc_opcode := NOP\<rparr>]"] by (simp add: parse_trace_def trace_ok_def comp_def)
qed


definition demo_command :: "u32 \<Rightarrow> u8 \<Rightarrow> trace_command" where
  "demo_command k oc = \<lparr>tc_opcode = oc, home_machine_id = 1, home_worker_id = 0, key_id = k, key_hash = \<lparr>first = 0, second = 0\<rparr>\<rparr>"


section \<open>Refilling a batch\<close>

subsection \<open>What a refill should do\<close>

text \<open>The commands from a position on, around the end of the trace; the reads of the hottest
  keys that a refill counts instead of repeating; and the commands it makes requests from.\<close>

abbreviation cycle :: "trace_command list \<Rightarrow> nat" where
  "cycle tr \<equiv> length tr - 1"

definition window :: "trace_command list \<Rightarrow> nat \<Rightarrow> nat \<Rightarrow> trace_command list" where
  "window tr it m = map (\<lambda>j. tr ! ((it + j) mod cycle tr)) [0 ..< m]"

definition hottest_read :: "nat \<Rightarrow> trace_command \<Rightarrow> bool" where
  "hottest_read k cmd \<longleftrightarrow> k < HOTTEST_KEYS_TO_TRACK \<and> unat (key_id cmd) = k \<and> IS_READ (tc_opcode cmd)"

definition tracks :: "nat set \<Rightarrow> trace_command \<Rightarrow> nat set" where
  "tracks T cmd = (let k = unat (key_id cmd) in
     if k < HOTTEST_KEYS_TO_TRACK then (if IS_READ (tc_opcode cmd) then insert k T else T - {k}) else T)"

definition counted :: "nat set \<Rightarrow> trace_command \<Rightarrow> bool" where
  "counted T cmd \<longleftrightarrow> hottest_read (unat (key_id cmd)) cmd \<and> unat (key_id cmd) \<in> T"

fun kept :: "nat set \<Rightarrow> trace_command list \<Rightarrow> trace_command list" where
  "kept T [] = []"
| "kept T (cmd # cs) = (if counted T cmd then kept (tracks T cmd) cs else cmd # kept (tracks T cmd) cs)"

definition reads_of :: "nat \<Rightarrow> trace_command list \<Rightarrow> nat" where
  "reads_of k cs = length (filter (hottest_read k) cs)"

text \<open>No hot key is read more than 256 times by commands that fit into one batch.\<close>

definition spread :: "trace_command list \<Rightarrow> bool" where
  "spread tr \<longleftrightarrow> (\<forall>it m k. length (kept {} (window tr it m)) < CACHE_BATCH_SIZE \<longrightarrow> reads_of k (window tr it m) \<le> 256)"

lemma window_Suc: "window tr it (Suc m) = window tr it m @ [tr ! ((it + m) mod cycle tr)]"
  by (simp add: window_def)

lemma kept_snoc:
  "kept T (cs @ [cmd]) = kept T cs @ (if counted (foldl tracks T cs) cmd then [] else [cmd])"
  by (induction cs arbitrary: T) simp_all

lemma window_command:
  assumes "trace_ok mid tr" "0 < cycle tr"
  shows "command_ok mid (tr ! (j mod cycle tr))"
proof -
  have "j mod cycle tr < length (butlast tr)" using assms(2) by simp
  from nth_mem[OF this] nth_butlast[OF this] have "tr ! (j mod cycle tr) \<in> set (butlast tr)" by metis
  then show ?thesis using assms(1) by (auto simp: trace_ok_def)
qed

lemma next_command_ok:
  assumes "trace_ok mid tr" "it < cycle tr"
  shows "next_command tr it = Inr ((it + 1) mod cycle tr)"
proof (cases "it + 1 = cycle tr")
  case True
  then have "tr ! (it + 1) = last tr" using assms by (simp add: last_conv_nth trace_ok_def)
  then show ?thesis using True assms by (simp add: next_command_def trace_ok_def)
next
  case False
  then have l: "it + 1 < cycle tr" using assms(2) by simp
  then have "command_ok mid (tr ! (it + 1))" using window_command[OF assms(1), of "it + 1"] by simp
  then have "tc_opcode (tr ! (it + 1)) \<noteq> NOP" by (auto simp: command_ok_def)
  then show ?thesis using l by (simp add: next_command_def)
qed

subsection \<open>One request\<close>

definition made :: "trace_command \<Rightarrow> entry \<Rightarrow> bool" where
  "made cmd e \<longleftrightarrow> rtype (e_resp e) = EMPTY \<and>
     opcode (e_op e) = (if IS_WRITE (tc_opcode cmd) then CACHE_OP_PUT else CACHE_OP_GET) \<and>
     (IS_WRITE (tc_opcode cmd) \<longrightarrow> unat (val_len (e_op e)) = HERD_VALUE_SIZE \<and> take HERD_VALUE_SIZE (value (e_op e)) = armonia) \<and>
     key_word (key (e_op e)) = second (key_hash cmd) \<and>
     e_home e = \<lparr>home_machine = home_machine_id cmd, home_worker = home_worker_id cmd\<rparr>"

lemma made_count:
  assumes "made cmd e" "opcode (e_op e) = CACHE_OP_GET"
  shows "made cmd (e\<lparr>e_op := (e_op e)\<lparr>val_len := v\<rparr>\<rparr>)"
  using assms by (auto simp: made_def split: if_splits)

lemma start_measurement_ok:
  assumes "command_ok mid cmd" "state (op_meta op) = 0"
  shows "\<exists>li' m. start_measurement machine_id b clt rm (tc_opcode cmd) isSC i (li, op) = Inr (li', set_meta m op) \<and>
    (i < n \<longrightarrow> last_measured_op_i li < n \<longrightarrow> last_measured_op_i li' < n)"
proof -
  have op: "\<exists>m. op = set_meta m op" by (rule exI[of _ "op_meta op"]) simp
  have "measured_kind machine_id rm (tc_opcode cmd) isSC NO_REQ \<noteq> NO_REQ"
    using assms(1) by (auto simp: command_ok_def measured_kind_def DISABLE_CACHE_def IS_REMOTE_def IS_LOCAL_def Let_def)
  then show ?thesis using assms(2) op by (auto simp: start_measurement_def Let_def)
qed

lemma armonia_length: "length armonia = HERD_VALUE_SIZE"
  by (simp add: armonia_def HERD_VALUE_SIZE_eq)

lemma make_request_ok:
  assumes "command_ok mid cmd" "length (value (e_op (bufs c ! i))) = MICA_MAX_VALUE"
  obtains li e' where "make_request machine_id b clt isSC i r cmd c = Inr (c\<lparr>bufs := (bufs c)[i := e'], latency_info := li\<rparr>)"
    "made cmd e'" "length (value (e_op e')) = MICA_MAX_VALUE" "\<not> IS_WRITE (tc_opcode cmd) \<longrightarrow> val_len (e_op e') = 0"
    "i < n \<longrightarrow> last_measured_op_i (latency_info c) < n \<longrightarrow> last_measured_op_i li < n"
proof -
  let ?op = "request_op clt r cmd (e_op (bufs c ! i))"
  have rq: "key_word (key ?op) = second (key_hash cmd)" "state (op_meta ?op) = 0" "value ?op = value (e_op (bufs c ! i))"
    "opcode ?op = (if IS_WRITE (tc_opcode cmd) then CACHE_OP_PUT else CACHE_OP_GET)"
    "val_len ?op = (if IS_WRITE (tc_opcode cmd) then 32 else 0)"
    using key_word_set[of "second (key_hash cmd)"]
    by (simp_all add: request_op_def Let_def MEASURE_LATENCY_def HERD_VALUE_SIZE_eq SHIFT_BITS_def USE_BIG_OBJECTS_def key_word_def)
  obtain li m where st: "start_measurement machine_id b clt (unat (home_machine_id cmd)) (tc_opcode cmd) isSC i (latency_info c, ?op) =
      Inr (li, set_meta m ?op)" "i < n \<longrightarrow> last_measured_op_i (latency_info c) < n \<longrightarrow> last_measured_op_i li < n"
    using start_measurement_ok[OF assms(1) rq(2)] by blast
  have "\<exists>v. put_value (set_meta m ?op) = Inr (set_meta m ?op\<lparr>value := v\<rparr>) \<and> length v = MICA_MAX_VALUE \<and>
      (IS_WRITE (tc_opcode cmd) \<longrightarrow> take HERD_VALUE_SIZE v = armonia)"
  proof (cases "IS_WRITE (tc_opcode cmd)")
    case True
    then show ?thesis using rq assms(2) armonia_length
      by (auto simp: put_value_def str_to_binary_def HERD_VALUE_SIZE_eq MICA_MAX_VALUE_eq)
  next
    case False
    then show ?thesis using rq assms(2)
      by (intro exI[of _ "value ?op"]) (simp add: put_value_def)
  qed
  then obtain v where v: "put_value (set_meta m ?op) = Inr (set_meta m ?op\<lparr>value := v\<rparr>)" "length v = MICA_MAX_VALUE"
    "IS_WRITE (tc_opcode cmd) \<longrightarrow> take HERD_VALUE_SIZE v = armonia" by blast
  let ?e = "\<lparr>e_op = set_meta m ?op\<lparr>value := v\<rparr>, e_resp = (e_resp (bufs c ! i))\<lparr>rtype := EMPTY\<rparr>,
     e_home = \<lparr>home_machine = home_machine_id cmd, home_worker = home_worker_id cmd\<rparr>\<rparr>"
  have "make_request machine_id b clt isSC i r cmd c = Inr (c\<lparr>bufs := (bufs c)[i := ?e], latency_info := li\<rparr>)"
    using st(1) v(1) rq(5) by (simp add: make_request_def Let_def MEASURE_LATENCY_def WRITE_RATIO_def DISABLE_CACHE_def)
  moreover have "made cmd ?e" using rq v(3) by (simp add: made_def HERD_VALUE_SIZE_eq)
  ultimately show ?thesis using that v(2) rq(5) st(2) by simp
qed

subsection \<open>The invariant of the loop\<close>

definition load :: "entry \<Rightarrow> nat" where
  "load e = (if opcode (e_op e) = CACHE_OP_GET then unat (val_len (e_op e)) + 1 else 1)"

text \<open>The pointer of a hot key: it is set while the last command for the key in the batch is a
  read, and then points to the request made for it, which counts the reads since.\<close>

definition pointer_ok :: "nat \<Rightarrow> trace_command list \<Rightarrow> client \<Rightarrow> nat \<Rightarrow> bool" where
  "pointer_ok n cs c k \<longleftrightarrow> (let p = hottest_keys_pointers c ! k; ks = kept {} cs in
     (p \<noteq> 0 \<longleftrightarrow> k \<in> foldl tracks {} cs) \<and>
     (p \<noteq> 0 \<longrightarrow> n < p \<and> p \<le> n + length ks \<and> unat (key_id (ks ! (p - 1 - n))) = k \<and>
        opcode (e_op (bufs c ! (p - 1))) = CACHE_OP_GET \<and>
        unat (val_len (e_op (bufs c ! (p - 1)))) < reads_of k cs))"

definition filled :: "nat \<Rightarrow> trace_command list \<Rightarrow> client \<Rightarrow> bool" where
  "filled n cs c \<longleftrightarrow> (let ks = kept {} cs in
     n + length ks \<le> CACHE_BATCH_SIZE \<and> entries_ok (bufs c) \<and>
     (\<forall>j < length ks. made (ks ! j) (bufs c ! (n + j))) \<and>
     (\<Sum>j<length ks. load (bufs c ! (n + j))) = length cs \<and>
     length (hottest_keys_pointers c) = HOTTEST_KEYS_TO_TRACK \<and>
     (\<forall>k < HOTTEST_KEYS_TO_TRACK. pointer_ok n cs c k))"

definition framed :: "nat \<Rightarrow> client \<Rightarrow> client \<Rightarrow> bool" where
  "framed n c0 c \<longleftrightarrow> take n (bufs c) = take n (bufs c0) \<and>
     c\<lparr>bufs := [], latency_info := latency_info c0, hottest_keys_pointers := []\<rparr> = c0\<lparr>bufs := [], hottest_keys_pointers := []\<rparr> \<and>
     (last_measured_op_i (latency_info c0) < CACHE_BATCH_SIZE \<longrightarrow> last_measured_op_i (latency_info c) < CACHE_BATCH_SIZE)"

lemma reads_of_snoc: "reads_of k (cs @ [cmd]) = reads_of k cs + (if hottest_read k cmd then 1 else 0)"
  by (simp add: reads_of_def)

lemma pointer_entry:
  assumes "filled n cs c" "k < HOTTEST_KEYS_TO_TRACK" "hottest_keys_pointers c ! k \<noteq> 0"
  obtains j where "hottest_keys_pointers c ! k = n + j + 1" "j < length (kept {} cs)" "unat (key_id (kept {} cs ! j)) = k"
    "opcode (e_op (bufs c ! (n + j))) = CACHE_OP_GET" "unat (val_len (e_op (bufs c ! (n + j)))) < reads_of k cs"
    "n + j < length (bufs c)"
proof -
  let ?p = "hottest_keys_pointers c ! k"
  have "pointer_ok n cs c k" using assms(1,2) by (simp add: filled_def Let_def)
  then have p: "n < ?p" "?p \<le> n + length (kept {} cs)" "unat (key_id (kept {} cs ! (?p - 1 - n))) = k"
    "opcode (e_op (bufs c ! (?p - 1))) = CACHE_OP_GET" "unat (val_len (e_op (bufs c ! (?p - 1)))) < reads_of k cs"
    using assms(3) by (auto simp: pointer_ok_def Let_def)
  moreover have "?p - 1 < length (bufs c)" using assms(1) p(1,2) by (auto simp: filled_def Let_def entries_ok_def)
  ultimately show ?thesis using that[of "?p - 1 - n"] by auto
qed

lemma count_read_ok:
  assumes f: "filled n cs c" and k: "k = unat (key_id cmd)" "hottest_read k cmd" "k \<in> foldl tracks {} cs" and r: "reads_of k cs \<le> 255"
  obtains e' where "count_read (hottest_keys_pointers c ! k - 1) c =
      Inr (c\<lparr>bufs := (bufs c)[hottest_keys_pointers c ! k - 1 := e']\<rparr>)" "n \<le> hottest_keys_pointers c ! k - 1"
    "filled n (cs @ [cmd]) (c\<lparr>bufs := (bufs c)[hottest_keys_pointers c ! k - 1 := e']\<rparr>)"
proof -
  let ?ks = "kept {} cs"
  have kl: "k < HOTTEST_KEYS_TO_TRACK" using k(2) by (simp add: hottest_read_def)
  have "pointer_ok n cs c k" using f kl by (simp add: filled_def Let_def)
  then have nz: "hottest_keys_pointers c ! k \<noteq> 0" using k(3) by (simp add: pointer_ok_def Let_def)
  obtain j where j: "hottest_keys_pointers c ! k = n + j + 1" "j < length ?ks" "unat (key_id (?ks ! j)) = k"
    "opcode (e_op (bufs c ! (n + j))) = CACHE_OP_GET" "unat (val_len (e_op (bufs c ! (n + j)))) < reads_of k cs" "n + j < length (bufs c)"
    by (rule pointer_entry[OF f kl nz])
  let ?e = "bufs c ! (n + j)"
  let ?e' = "?e\<lparr>e_op := (e_op ?e)\<lparr>val_len := val_len (e_op ?e) + 1\<rparr>\<rparr>"
  let ?c' = "c\<lparr>bufs := (bufs c)[n + j := ?e']\<rparr>"
  have v: "unat (val_len (e_op ?e)) < 255" using j(5) r by linarith
  then have v1: "unat (val_len (e_op ?e) + 1) = unat (val_len (e_op ?e)) + 1" by (rule unat_byte_Suc)
  have eq: "count_read (hottest_keys_pointers c ! k - 1) c = Inr ?c'"
    using j v by (simp add: count_read_def Let_def word_less_nat_alt)
  have ks: "kept {} (cs @ [cmd]) = ?ks" "tracks (foldl tracks {} cs) cmd = foldl tracks {} cs"
    using k by (auto simp: kept_snoc counted_def tracks_def hottest_read_def Let_def)
  have "entries_ok (bufs ?c')"
    using f j(6) by (auto simp: filled_def Let_def entries_ok_def dest!: subsetD[OF set_update_subset_insert])
  moreover have "made (?ks ! i) (bufs ?c' ! (n + i))" if "i < length ?ks" for i
    using f that j(4,6) made_count by (cases "i = j") (auto simp: filled_def Let_def)
  moreover have "(\<Sum>i<length ?ks. load (bufs ?c' ! (n + i))) = length (cs @ [cmd])"
  proof -
    have "load (bufs ?c' ! (n + i)) = load (bufs c ! (n + i)) + (if i = j then 1 else 0)" for i
      using j(4,6) v1 by (auto simp: load_def)
    then have "(\<Sum>i<length ?ks. load (bufs ?c' ! (n + i))) = (\<Sum>i<length ?ks. load (bufs c ! (n + i))) + 1"
      using j(2) by (simp add: sum.distrib)
    then show ?thesis using f by (simp add: filled_def Let_def)
  qed
  moreover have "pointer_ok n (cs @ [cmd]) ?c' k'" if k': "k' < HOTTEST_KEYS_TO_TRACK" for k'
  proof (cases "hottest_keys_pointers c ! k' = 0")
    case True
    then show ?thesis using f k' by (auto simp: filled_def pointer_ok_def Let_def ks)
  next
    case False
    obtain j' where j': "hottest_keys_pointers c ! k' = n + j' + 1" "j' < length ?ks" "unat (key_id (?ks ! j')) = k'"
      "opcode (e_op (bufs c ! (n + j'))) = CACHE_OP_GET" "unat (val_len (e_op (bufs c ! (n + j')))) < reads_of k' cs"
      by (rule pointer_entry[OF f k' False])
    have "k' \<in> foldl tracks {} cs" using f k' False by (auto simp: filled_def pointer_ok_def Let_def)
    moreover have "unat (val_len (e_op (bufs ?c' ! (n + j')))) < reads_of k' (cs @ [cmd]) \<and>
        opcode (e_op (bufs ?c' ! (n + j'))) = CACHE_OP_GET"
      using j j' v1 k(2) by (cases "j' = j") (auto simp: reads_of_snoc)
    ultimately show ?thesis using j' by (auto simp: pointer_ok_def Let_def ks)
  qed
  ultimately have "filled n (cs @ [cmd]) ?c'" using f by (simp add: filled_def Let_def ks)
  with that[of ?e'] eq j(1) show ?thesis by simp
qed

lemma make_step_ok:
  assumes f: "filled n cs c" and nc: "\<not> counted (foldl tracks {} cs) cmd" and lt: "n + length (kept {} cs) < CACHE_BATCH_SIZE"
    and e: "made cmd e" "length (value (e_op e)) = MICA_MAX_VALUE" "\<not> IS_WRITE (tc_opcode cmd) \<longrightarrow> val_len (e_op e) = 0"
    and ptr: "hottest_keys_pointers c' = (if hottest_read (unat (key_id cmd)) cmd
        then (hottest_keys_pointers c)[unat (key_id cmd) := n + length (kept {} cs) + 1]
        else if unat (key_id cmd) < HOTTEST_KEYS_TO_TRACK then (hottest_keys_pointers c)[unat (key_id cmd) := 0]
        else hottest_keys_pointers c)"
    and b: "bufs c' = (bufs c)[n + length (kept {} cs) := e]" and rw: "IS_READ (tc_opcode cmd) \<longleftrightarrow> \<not> IS_WRITE (tc_opcode cmd)"
  shows "filled n (cs @ [cmd]) c'"
proof -
  let ?ks = "kept {} cs"
  have ks: "kept {} (cs @ [cmd]) = ?ks @ [cmd]" using nc by (simp add: kept_snoc)
  have il: "n + length ?ks < length (bufs c)" using f lt by (simp add: filled_def Let_def entries_ok_def)
  have "entries_ok (bufs c')"
    using f e(2) by (auto simp: b filled_def Let_def entries_ok_def dest!: subsetD[OF set_update_subset_insert])
  moreover have "made ((?ks @ [cmd]) ! j) (bufs c' ! (n + j))" if "j < length (?ks @ [cmd])" for j
    using f that e(1) il by (cases "j = length ?ks") (auto simp: b filled_def Let_def nth_append)
  moreover have "load e = 1" using e(1,3) by (auto simp: load_def made_def)
  then have "(\<Sum>j<length (?ks @ [cmd]). load (bufs c' ! (n + j))) = length (cs @ [cmd])"
    using f il by (simp add: b filled_def Let_def)
  moreover have len: "length (hottest_keys_pointers c') = HOTTEST_KEYS_TO_TRACK"
    using f by (auto simp: ptr filled_def Let_def)
  moreover have "pointer_ok n (cs @ [cmd]) c' k" if k: "k < HOTTEST_KEYS_TO_TRACK" for k
  proof (cases "unat (key_id cmd) = k")
    case True
    have lh: "k < length (hottest_keys_pointers c)" using f k by (simp add: filled_def Let_def)
    show ?thesis
    proof (cases "IS_READ (tc_opcode cmd)")
      case r: True
      then have "opcode (e_op e) = CACHE_OP_GET" "val_len (e_op e) = 0" using e(1,3) rw by (auto simp: made_def)
      then show ?thesis
        using True r k lh il by (simp add: pointer_ok_def Let_def ks ptr hottest_read_def tracks_def b reads_of_snoc nth_append)
    next
      case False
      then show ?thesis using True k lh by (simp add: pointer_ok_def Let_def ptr hottest_read_def tracks_def)
    qed
  next
    case False
    have p: "hottest_keys_pointers c' ! k = hottest_keys_pointers c ! k" using False by (auto simp: ptr)
    have t: "k \<in> tracks (foldl tracks {} cs) cmd \<longleftrightarrow> k \<in> foldl tracks {} cs" using False by (auto simp: tracks_def Let_def)
    show ?thesis
    proof (cases "hottest_keys_pointers c ! k = 0")
      case True
      then show ?thesis using f k by (auto simp: filled_def pointer_ok_def Let_def p t)
    next
      case nz: False
      obtain j where j: "hottest_keys_pointers c ! k = n + j + 1" "j < length ?ks" "unat (key_id (?ks ! j)) = k"
        "opcode (e_op (bufs c ! (n + j))) = CACHE_OP_GET" "unat (val_len (e_op (bufs c ! (n + j)))) < reads_of k cs"
        by (rule pointer_entry[OF f k nz])
      have "k \<in> foldl tracks {} cs" using f k nz by (auto simp: filled_def pointer_ok_def Let_def)
      then show ?thesis using j by (auto simp: pointer_ok_def Let_def p t ks b nth_append reads_of_snoc)
    qed
  qed
  ultimately show ?thesis using lt by (simp add: filled_def Let_def ks)
qed

definition fill_at :: "trace_command list \<Rightarrow> nat \<Rightarrow> nat \<Rightarrow> client \<Rightarrow> nat \<Rightarrow> fill \<times> client \<Rightarrow> bool" where
  "fill_at tr it n c0 m = (\<lambda>(f, c). filled n (window tr it m) c \<and> framed n c0 c \<and>
     fl_i f = n + length (kept {} (window tr it m)) \<and> fl_empty f = length (kept {} (window tr it m)) \<and>
     fl_iter f = (it + m) mod cycle tr)"

lemma framed_update:
  assumes "framed n c0 c" "n \<le> i"
    "c'\<lparr>bufs := [], latency_info := latency_info c, hottest_keys_pointers := []\<rparr> = c\<lparr>bufs := [], hottest_keys_pointers := []\<rparr>"
    "bufs c' = (bufs c)[i := e]"
    "last_measured_op_i (latency_info c) < CACHE_BATCH_SIZE \<longrightarrow> last_measured_op_i (latency_info c') < CACHE_BATCH_SIZE"
  shows "framed n c0 c'"
proof -
  have "c'\<lparr>bufs := [], latency_info := latency_info c0, hottest_keys_pointers := []\<rparr> =
      (c'\<lparr>bufs := [], latency_info := latency_info c, hottest_keys_pointers := []\<rparr>)\<lparr>latency_info := latency_info c0\<rparr>" by simp
  also have "\<dots> = c\<lparr>bufs := [], latency_info := latency_info c0, hottest_keys_pointers := []\<rparr>" by (simp add: assms(3))
  finally show ?thesis using assms by (simp add: framed_def)
qed

lemma fill_step_ok:
  assumes tr: "trace_ok mid tr" "0 < cycle tr" "spread tr" and at: "fill_at tr it n c0 m (f, c)" and lt: "fl_i f < CACHE_BATCH_SIZE"
  shows "\<exists>f' c'. fill_step machine_id b clt False tr (f, c) = Inr (f', c') \<and> fill_at tr it n c0 (Suc m) (f', c')"
proof -
  let ?cs = "window tr it m" and ?cmd = "tr ! fl_iter f"
  let ?k = "unat (key_id ?cmd)" and ?T = "foldl tracks {} ?cs" and ?i = "n + length (kept {} ?cs)"
  have f: "filled n ?cs c" "framed n c0 c" "fl_i f = ?i" "fl_empty f = length (kept {} ?cs)" "fl_iter f = (it + m) mod cycle tr"
    using at by (auto simp: fill_at_def)
  have cmd: "command_ok mid ?cmd" unfolding f(5) by (rule window_command[OF tr(1,2)])
  then have rw: "IS_READ (tc_opcode ?cmd) \<longleftrightarrow> \<not> IS_WRITE (tc_opcode ?cmd)"
    by (auto simp: command_ok_def IS_READ_def IS_WRITE_def)
  have win: "window tr it (Suc m) = ?cs @ [?cmd]" by (simp add: window_Suc f(5))
  have nx: "next_command tr (fl_iter f) = Inr ((it + Suc m) mod cycle tr)"
    using next_command_ok[OF tr(1), of "fl_iter f"] tr(2) by (simp add: f(5) mod_Suc_eq)
  have tg: "ENABLE_HOT_KEY_TRACKING = 1" "DISABLE_CACHE = 0" by (simp_all add: ENABLE_HOT_KEY_TRACKING_def DISABLE_CACHE_def)
  have ptr: "pointer_ok n ?cs c k" if "k < HOTTEST_KEYS_TO_TRACK" for k using f(1) that by (simp add: filled_def Let_def)
  show ?thesis
  proof (cases "counted ?T ?cmd")
    case True
    then have hr: "hottest_read ?k ?cmd" "?k \<in> ?T" by (auto simp: counted_def)
    have "length (kept {} (window tr it (Suc m))) < CACHE_BATCH_SIZE" using True lt f(3) by (simp add: win kept_snoc)
    then have "reads_of ?k (?cs @ [?cmd]) \<le> 256" using tr(3) unfolding spread_def win[symmetric] by blast
    then have "reads_of ?k ?cs \<le> 255" using hr(1) by (simp add: reads_of_snoc)
    from count_read_ok[OF f(1) refl hr this] obtain e' where
      r: "count_read (hottest_keys_pointers c ! ?k - 1) c = Inr (c\<lparr>bufs := (bufs c)[hottest_keys_pointers c ! ?k - 1 := e']\<rparr>)"
      "n \<le> hottest_keys_pointers c ! ?k - 1"
      "filled n (?cs @ [?cmd]) (c\<lparr>bufs := (bufs c)[hottest_keys_pointers c ! ?k - 1 := e']\<rparr>)" by blast
    have "hottest_keys_pointers c ! ?k \<noteq> 0" using ptr[of ?k] hr by (simp add: pointer_ok_def Let_def hottest_read_def)
    then have "fill_step machine_id b clt False tr (f, c) =
        Inr (f\<lparr>fl_iter := (it + Suc m) mod cycle tr\<rparr>, c\<lparr>bufs := (bufs c)[hottest_keys_pointers c ! ?k - 1 := e']\<rparr>)"
      using r(1) nx hr(1) tg by (simp add: fill_step_def track_hottest_def Let_def hottest_read_def)
    moreover have "framed n c0 (c\<lparr>bufs := (bufs c)[hottest_keys_pointers c ! ?k - 1 := e']\<rparr>)"
      by (rule framed_update[OF f(2) r(2)]) simp_all
    ultimately show ?thesis using r(3) f(3,4) True by (auto simp: fill_at_def win kept_snoc)
  next
    case False
    define h where "h = (if hottest_read ?k ?cmd then (hottest_keys_pointers c)[?k := ?i + 1]
        else if ?k < HOTTEST_KEYS_TO_TRACK then (hottest_keys_pointers c)[?k := 0] else hottest_keys_pointers c)"
    let ?c1 = "c\<lparr>hottest_keys_pointers := h\<rparr>"
    obtain seed r where sr: "hrd_fastrand (fl_seed f) = (seed, r)" by (cases "hrd_fastrand (fl_seed f)")
    have tk: "track_hottest False ?i ?cmd c = Inr (False, ?c1)"
      using False ptr[of ?k] tg
      by (auto simp: track_hottest_def Let_def tag_read_def counted_def hottest_read_def pointer_ok_def h_def)
    have il: "length (value (e_op (bufs ?c1 ! ?i))) = MICA_MAX_VALUE"
      using f(1,3) lt by (simp add: filled_def Let_def entries_ok_def)
    obtain li e' where mk: "make_request machine_id b clt False ?i r ?cmd ?c1 =
        Inr (?c1\<lparr>bufs := (bufs ?c1)[?i := e'], latency_info := li\<rparr>)" "made ?cmd e'"
      "length (value (e_op e')) = MICA_MAX_VALUE" "\<not> IS_WRITE (tc_opcode ?cmd) \<longrightarrow> val_len (e_op e') = 0"
      "?i < CACHE_BATCH_SIZE \<longrightarrow> last_measured_op_i (latency_info ?c1) < CACHE_BATCH_SIZE \<longrightarrow> last_measured_op_i li < CACHE_BATCH_SIZE"
      by (rule make_request_ok[OF cmd il, of machine_id b clt False r CACHE_BATCH_SIZE])
    let ?c2 = "?c1\<lparr>bufs := (bufs c)[?i := e'], latency_info := li\<rparr>"
    have "fill_step machine_id b clt False tr (f, c) = Inr (\<lparr>fl_iter = (it + Suc m) mod cycle tr, fl_i = ?i + 1,
        fl_seed = seed, fl_empty = fl_empty f + 1\<rparr>, ?c2)"
      using tk mk(1) nx by (simp add: fill_step_def Let_def f(3) ENABLE_MULTIPLE_SESSIONS_def sr)
    moreover have "filled n (?cs @ [?cmd]) ?c2"
      by (rule make_step_ok[OF f(1) False _ mk(2-4) _ _ rw]) (use lt f(3) in \<open>simp_all add: h_def\<close>)
    moreover have "framed n c0 ?c2"
      by (rule framed_update[OF f(2), of ?i]) (use mk(5) lt f(3) in simp_all)
    ultimately show ?thesis using f(4) False by (auto simp: fill_at_def win kept_snoc)
  qed
qed

lemma fill_loop_ok:
  assumes tr: "trace_ok mid tr" "0 < cycle tr" "spread tr" and at: "fill_at tr it n c0 m (f, c)"
  shows "\<exists>m' f' c'. fill_loop machine_id b clt False tr (f, c) = Inr (f', c') \<and> fill_at tr it n c0 m' (f', c') \<and>
    fl_i f' = CACHE_BATCH_SIZE"
  using at
proof (induction "(f, c)" arbitrary: f c m 
    rule: wf_induct_rule[OF wf_measures[of "[\<lambda>(f, c). CACHE_BATCH_SIZE - fl_i f, \<lambda>(f, c). reads_left c]"]])
  case (1 f c)
  show ?case
  proof (cases "fl_i f < CACHE_BATCH_SIZE")
    case False
    then have "fl_i f = CACHE_BATCH_SIZE" using 1(2) by (auto simp: fill_at_def filled_def Let_def)
    moreover have "fill_loop machine_id b clt False tr (f, c) = Inr (f, c)" using False by (subst fill_loop.simps) simp
    ultimately show ?thesis using 1(2) by blast
  next
    case True
    obtain f' c' where s: "fill_step machine_id b clt False tr (f, c) = Inr (f', c')" "fill_at tr it n c0 (Suc m) (f', c')"
      using fill_step_ok[OF tr 1(2) True] by blast
    have "fl_iter f = (it + m) mod cycle tr" using 1(2) by (simp add: fill_at_def)
    then have "fl_iter f < length tr" "tc_opcode (tr ! fl_iter f) \<noteq> NOP"
      using window_command[OF tr(1,2), of "it + m"] mod_less_divisor[OF tr(2), of "it + m"] by (auto simp: command_ok_def)
    then have "fill_loop machine_id b clt False tr (f, c) = fill_loop machine_id b clt False tr (f', c')"
      using True s(1) by (subst fill_loop.simps) simp
    moreover have "\<exists>m' f'' c''. fill_loop machine_id b clt False tr (f', c') = Inr (f'', c'') \<and> fill_at tr it n c0 m' (f'', c'') \<and>
        fl_i f'' = CACHE_BATCH_SIZE"
      by (rule 1(1)[OF _ s(2)]) (use fill_step_progress[OF s(1)] True in auto)
    ultimately show ?thesis by simp
  qed
qed

definition fill_start :: "nat \<Rightarrow> nat \<Rightarrow> fill" where
  "fill_start it n = \<lparr>fl_iter = it, fl_i = n, fl_seed = 0xdeadbeef, fl_empty = 0\<rparr>"

abbreviation untracked :: "client \<Rightarrow> client" where
  "untracked c \<equiv> c\<lparr>hottest_keys_pointers := replicate HOTTEST_KEYS_TO_TRACK 0\<rparr>"

lemma fill_start_at:
  assumes "it < cycle tr" "n \<le> CACHE_BATCH_SIZE" "entries_ok (bufs c)"
  shows "fill_at tr it n c 0 (fill_start it n, untracked c)"
  using assms by (simp add: fill_at_def fill_start_def window_def filled_def pointer_ok_def framed_def Let_def)

lemma sum_load_list:
  assumes "n + l = length xs"
  shows "(\<Sum>j<l. f (xs ! (n + j))) = sum_list (map f (drop n xs))"
proof -
  have "drop n xs = map (\<lambda>j. xs ! (n + j)) [0 ..< l]" using assms by (intro nth_equalityI) auto
  then show ?thesis by (simp add: comp_def interv_sum_list_conv_sum_set_nat atLeast0LessThan)
qed

lemma refill_ok:
  assumes "trace_ok mid tr" "it < cycle tr" "spread tr" "n \<le> CACHE_BATCH_SIZE" "entries_ok (bufs c)"
  obtains m f c' where "fill_loop machine_id b clt False tr (fill_start it n, untracked c) = Inr (f, c')"
    "fl_i f = CACHE_BATCH_SIZE" "fl_iter f = (it + m) mod cycle tr" "framed n c c'" "entries_ok (bufs c')"
    "length (hottest_keys_pointers c') = HOTTEST_KEYS_TO_TRACK"
    "list_all2 made (kept {} (window tr it m)) (drop n (bufs c'))" "sum_list (map load (drop n (bufs c'))) = m"
proof -
  have "0 < cycle tr" using assms(2) by simp
  from fill_loop_ok[OF assms(1) this assms(3) fill_start_at[OF assms(2,4,5)], of machine_id b clt] obtain m f c' where
    l: "fill_loop machine_id b clt False tr (fill_start it n, untracked c) = Inr (f, c')" "fill_at tr it n c m (f, c')"
    "fl_i f = CACHE_BATCH_SIZE" by blast
  let ?ks = "kept {} (window tr it m)"
  have f: "filled n (window tr it m) c'" "framed n c c'" "n + length ?ks = CACHE_BATCH_SIZE" "fl_iter f = (it + m) mod cycle tr"
    using l(2,3) by (auto simp: fill_at_def)
  have len: "length (bufs c') = CACHE_BATCH_SIZE" using f(1) by (simp add: filled_def Let_def entries_ok_def)
  have "list_all2 made ?ks (drop n (bufs c'))"
    using f(1,3) len by (auto simp: list_all2_conv_all_nth filled_def Let_def)
  moreover have "sum_list (map load (drop n (bufs c'))) = m"
    using f(1,3) len sum_load_list[of n "length ?ks" "bufs c'" load] by (simp add: filled_def Let_def window_def)
  ultimately show ?thesis using that[OF l(1,3) f(4,2)] f(1) by (simp add: filled_def Let_def)
qed

text \<open>Property C16: a refill takes the commands of the trace in their order, around its end, and
  accounts for each exactly once.  On a well-formed trace the loop ends with a full batch and
  no assertion fails; the requests carried over stay as they are; the new requests are made, in
  order, from the commands that are not repeated reads of a tracked hot key, each with the key,
  the home, the opcode and for writes the value it should have; and the requests and the reads
  they count add up to the number of commands taken.  The trace must be spread: a hot key is not
  read more than 256 times within a batch (the assertion on the counter fails otherwise).\<close>

theorem refill_accounts_for_commands:
  assumes "trace_ok mid tr" "it < cycle tr" "spread tr" "n \<le> CACHE_BATCH_SIZE" "entries_ok (bufs c)"
  shows "\<exists>m f c'. fill_loop machine_id b clt False tr (fill_start it n, untracked c) = Inr (f, c') \<and>
    fl_i f = CACHE_BATCH_SIZE \<and> fl_iter f = (it + m) mod cycle tr \<and> take n (bufs c') = take n (bufs c) \<and>
    list_all2 made (kept {} (window tr it m)) (drop n (bufs c')) \<and> sum_list (map load (drop n (bufs c'))) = m"
proof -
  obtain m f c' where r: "fill_loop machine_id b clt False tr (fill_start it n, untracked c) = Inr (f, c')"
    "fl_i f = CACHE_BATCH_SIZE" "fl_iter f = (it + m) mod cycle tr" "framed n c c'"
    "list_all2 made (kept {} (window tr it m)) (drop n (bufs c'))" "sum_list (map load (drop n (bufs c'))) = m"
    by (rule refill_ok[OF assms])
  then show ?thesis by (auto simp: framed_def)
qed

text \<open>A trace with a single cold key.\<close>

lemma spread_untracked:
  assumes "\<forall>cmd\<in>set (butlast tr). unat (key_id cmd) \<ge> HOTTEST_KEYS_TO_TRACK" "0 < cycle tr"
  shows "spread tr"
proof -
  have "reads_of k (window tr it m) = 0" for k it m
  proof -
    have "unat (key_id (tr ! ((it + j) mod cycle tr))) \<ge> HOTTEST_KEYS_TO_TRACK" for j
    proof -
      have "(it + j) mod cycle tr < length (butlast tr)" using assms(2) by simp
      from nth_mem[OF this] nth_butlast[OF this] have "tr ! ((it + j) mod cycle tr) \<in> set (butlast tr)" by metis
      then show ?thesis using assms(1) by blast
    qed
    then have "\<not> hottest_read k (tr ! ((it + j) mod cycle tr))" for j by (metis hottest_read_def leD)
    then show ?thesis by (simp add: reads_of_def window_def filter_empty_conv)
  qed
  then show ?thesis by (simp add: spread_def)
qed

lemma demo_trace:
  obtains tr where "trace_ok 0 tr" "cycle tr = 1" "spread tr"
proof -
  have l: "map line_key [''N 0 3 300000''] = [300000]"
    by (simp add: line_key_def strtok_def key_of_word_def strtoul_def chop_newline_def is_space_def is_digit_def Let_def
        CACHE_NUM_KEYS_def spread_cold_def HERD_NUM_KEYS_def USE_BIG_OBJECTS_def)
  obtain tr where tr: "trace_ok 0 tr" "map (\<lambda>c. unat (key_id c)) (butlast tr) = map line_key [''N 0 3 300000'']"
    by (rule parse_trace_ok[of "[''N 0 3 300000'']" 0 "[5, 1, 7]" "demo_command 0 0"])
       (simp_all add: strtok_def draws_ok_def MACHINE_NUM_def)
  have "length (butlast tr) = 1" using map_eq_imp_length_eq[OF tr(2)] by (simp del: length_butlast)
  then have "cycle tr = 1" by simp
  moreover have "\<forall>cmd\<in>set (butlast tr). unat (key_id cmd) = 300000" using tr(2) unfolding l by (auto simp: map_eq_Cons_conv)
  ultimately show ?thesis using that tr(1) spread_untracked[of tr] by (simp add: HOTTEST_KEYS_TO_TRACK_def)
qed

theorem refill_accounts_for_commands_witness:
  "\<exists>tr f c'. trace_ok 0 tr \<and> fill_loop 0 0 0 False tr (fill_start 0 0, untracked demo_client) = Inr (f, c') \<and>
     fl_i f = CACHE_BATCH_SIZE"
proof -
  obtain tr where tr: "trace_ok 0 tr" "cycle tr = 1" "spread tr" by (rule demo_trace)
  have e: "entries_ok (bufs demo_client)" using demo_client_start(1) by (simp add: cold_start_def)
  have "0 < cycle tr" "0 \<le> CACHE_BATCH_SIZE" using tr(2) by simp_all
  from refill_accounts_for_commands[OF tr(1) this(1) tr(3) this(2) e, of 0 0 0] tr(1) show ?thesis by blast
qed

end
