(* ===== verification/Transport_Correct.thy ===== *)
theory Transport_Correct
  imports Transport Requests_Correct
begin

text \<open>
  What arrives is what was sent: a worker parses from a message exactly the requests the
  client packed into it, never overruns its arrays, and serves them from the store as a
  sequence of operations.  For the updates the same holds of the first of a message only.
\<close>

section \<open>Requests in a message\<close>

definition wire_len :: "cache_op \<Rightarrow> nat" where
  "wire_len op = (if opcode op = CACHE_OP_PUT then HERD_PUT_REQ_SIZE else HERD_GET_REQ_SIZE)"

definition packet :: "cache_op list \<Rightarrow> u8 list" where
  "packet ops = concat (map (\<lambda>op. op_bytes (wire_len op) op) ops)"

text \<open>What a request means to the store: a read has a key, a write has a key, a length
  and a value.\<close>

definition seen :: "cache_op \<Rightarrow> cache_key \<times> u8 \<times> (u8 \<times> u8 list) option" where
  "seen op = (key op, opcode op,
     if opcode op = CACHE_OP_PUT then Some (val_len op, take HERD_VALUE_SIZE (value op)) else None)"

definition full_value :: "cache_op \<Rightarrow> bool" where
  "full_value op \<longleftrightarrow> length (value op) = MICA_MAX_VALUE"

lemma sizes: "HERD_PUT_REQ_SIZE = 50" "HERD_GET_REQ_SIZE = 17" "KEY_SIZE = 16" "sizeof_mica_op = 64"
  by (simp_all add: config)

lemma wire_len_bounds: "17 \<le> wire_len op" "wire_len op \<le> 50"
  by (simp_all add: wire_len_def sizes)

lemma op_bytes_length: "full_value op \<Longrightarrow> n \<le> 64 \<Longrightarrow> length (op_bytes n op) = n"
  by (simp add: op_bytes_def full_value_def MICA_MAX_VALUE_eq)

lemma op_bytes_head:
  assumes "17 \<le> n" "full_value op"
  shows "take 16 (op_bytes n op @ rest) = encode_key (key op)" "(op_bytes n op @ rest) ! 16 = opcode op"
proof -
  have "take 16 (op_bytes n op) = encode_key (key op)"
    using assms by (simp add: op_bytes_def encode_op_def min_def take_Cons')
  moreover have "16 < length (op_bytes n op)"
    using assms by (simp add: op_bytes_def full_value_def MICA_MAX_VALUE_eq)
  ultimately show "take 16 (op_bytes n op @ rest) = encode_key (key op)" by simp
  show "(op_bytes n op @ rest) ! 16 = opcode op"
    using assms \<open>16 < _\<close> by (simp add: nth_append op_bytes_def encode_op_def)
qed

lemma op_bytes_value:
  assumes "full_value op" "n = 50"
  shows "(op_bytes n op @ rest) ! 17 = val_len op" "take HERD_VALUE_SIZE (drop 18 (op_bytes n op @ rest)) = take HERD_VALUE_SIZE (value op)"
proof -
  have l: "length (op_bytes n op) = 50" using op_bytes_length[OF assms(1)] assms(2) by simp
  then show "(op_bytes n op @ rest) ! 17 = val_len op"
    by (simp add: nth_append op_bytes_def encode_op_def assms(2))
  have "drop 18 (op_bytes n op) = take 32 (value op)"
    by (simp add: op_bytes_def encode_op_def assms(2) take_Cons')
  then show "take HERD_VALUE_SIZE (drop 18 (op_bytes n op @ rest)) = take HERD_VALUE_SIZE (value op)"
    using l assms(1) by (simp add: HERD_VALUE_SIZE_eq full_value_def MICA_MAX_VALUE_eq)
qed

lemma decode_head:
  assumes "17 \<le> n" "full_value op"
  shows "key (decode_op (op_bytes n op @ rest)) = key op" "opcode (decode_op (op_bytes n op @ rest)) = opcode op"
  using op_bytes_head[OF assms, of rest] by (simp_all add: decode_op_def)

lemma decode_value:
  assumes "full_value op"
  shows "val_len (decode_op (op_bytes 50 op @ rest)) = val_len op"
    "take HERD_VALUE_SIZE (value (decode_op (op_bytes 50 op @ rest))) = take HERD_VALUE_SIZE (value op)"
proof -
  have t: "take HERD_VALUE_SIZE (take MICA_MAX_VALUE xs) = take HERD_VALUE_SIZE xs" for xs :: "u8 list"
    by (simp add: MICA_MAX_VALUE_eq HERD_VALUE_SIZE_eq)
  show "val_len (decode_op (op_bytes 50 op @ rest)) = val_len op"
    using op_bytes_value(1)[OF assms refl, of rest] by (simp add: decode_op_def)
  show "take HERD_VALUE_SIZE (value (decode_op (op_bytes 50 op @ rest))) = take HERD_VALUE_SIZE (value op)"
    using op_bytes_value(2)[OF assms refl, of rest] by (simp only: decode_op_def cache_op.select_convs t)
qed

lemma decode_seen:
  assumes "full_value op"
  shows "seen (decode_op (op_bytes (wire_len op) op @ rest)) = seen op"
proof (cases "opcode op = CACHE_OP_PUT")
  case True
  then show ?thesis using decode_head[OF wire_len_bounds(1)[of op] assms, of rest] decode_value[OF assms, of rest]
    by (simp add: seen_def wire_len_def sizes)
next
  case False
  then show ?thesis using decode_head[OF wire_len_bounds(1)[of op] assms, of rest] by (simp add: seen_def)
qed

text \<open>The worker's loop inverts the client's: generalised over what precedes and what
  follows in memory.\<close>

lemma parse_packet:
  assumes "\<forall>op\<in>set ops. full_value op"
  shows "\<exists>offs. parse_ops (pre @ packet ops) (length pre) = Inr offs \<and>
    map (\<lambda>off. seen (op_at tail (pre @ packet ops) off)) offs = map seen ops"
  using assms
proof (induction ops arbitrary: pre)
  case Nil
  then show ?case by (simp add: packet_def parse_ops.simps)
next
  case (Cons op ops)
  let ?b = "op_bytes (wire_len op) op" and ?msg = "pre @ packet (op # ops)"
  have fv: "full_value op" using Cons.prems by simp
  have lb: "length ?b = wire_len op" using op_bytes_length[OF fv] wire_len_bounds(2)[of op] by simp
  have msg: "?msg = (pre @ ?b) @ packet ops" by (simp add: packet_def)
  obtain offs where offs: "parse_ops ((pre @ ?b) @ packet ops) (length (pre @ ?b)) = Inr offs"
    "map (\<lambda>off. seen (op_at tail ((pre @ ?b) @ packet ops) off)) offs = map seen ops"
    using Cons.IH[of "pre @ ?b"] Cons.prems by auto
  have opc: "packet (op # ops) ! KEY_SIZE = opcode op"
    using op_bytes_head(2)[OF wire_len_bounds(1)[of op] fv, of "packet ops"] by (simp add: packet_def sizes)
  have "length pre < length ?msg" "length pre + HERD_GET_REQ_SIZE \<le> length ?msg"
    using lb wire_len_bounds(1)[of op] by (simp_all add: packet_def sizes)
  then have "parse_ops ?msg (length pre) = bind_res (parse_ops ?msg (length pre + wire_len op)) (\<lambda>offs. Inr (length pre # offs))"
    by (subst parse_ops.simps) (simp add: opc wire_len_def)
  then have "parse_ops ?msg (length pre) = Inr (length pre # offs)"
    using offs(1) lb by (simp add: msg)
  moreover have "seen (op_at tail ?msg (length pre)) = seen op"
    using decode_seen[OF fv, of "packet ops @ tail"] by (simp add: op_at_def packet_def)
  ultimately show ?case using offs(2) by (intro exI[of _ "length pre # offs"]) (simp add: msg)
qed

lemma parse_packet_start:
  assumes "\<forall>op\<in>set ops. full_value op"
  obtains offs where "parse_ops (packet ops) 0 = Inr offs" "length offs = length ops"
    "map (\<lambda>off. seen (op_at tail (packet ops) off)) offs = map seen ops"
  using parse_packet[OF assms, of "[]" tail] by simp (metis length_map that)

section \<open>The client's side\<close>

text \<open>The requests collected for a machine, as the walk over the batch left them.\<close>

definition batch_ops :: "client \<Rightarrow> nat \<Rightarrow> cache_op list" where
  "batch_ops c m = map (\<lambda>(i, len). e_op (bufs c ! i)) (batch c ! m)"

definition sendable :: "client \<Rightarrow> nat \<Rightarrow> bool" where
  "sendable c m \<longleftrightarrow> (\<forall>(i, len)\<in>set (batch c ! m). full_value (e_op (bufs c ! i)) \<and> len = wire_len (e_op (bufs c ! i)))"

lemma request_packet_eq:
  assumes "sendable c m"
  shows "request_packet c m = packet (batch_ops c m)" "\<forall>op\<in>set (batch_ops c m). full_value op"
proof -
  have "map (\<lambda>(i, len). op_bytes len (e_op (bufs c ! i))) (batch c ! m) =
      map (\<lambda>op. op_bytes (wire_len op) op) (batch_ops c m)"
    using assms by (auto simp: sendable_def batch_ops_def)
  then show "request_packet c m = packet (batch_ops c m)" by (simp only: request_packet_def packet_def)
  show "\<forall>op\<in>set (batch_ops c m). full_value op" using assms by (auto simp: sendable_def batch_ops_def)
qed

lemma cold_sendable:
  assumes "cold_inv dn es gid mid wn CACHE_BATCH_SIZE wr_i c" "m < MACHINE_NUM"
  shows "sendable c m" "length (batch_ops c m) \<le> KVS_BATCH"
  using assms by (fastforce simp: cold_inv_def sent_ok_def batch_ok_def sendable_def sent_entry_def wire_len_def
      full_value_def walk_ok_def entries_ok_def batch_ops_def)+

lemma send_request_eq:
  "send_request mid m ((c, x), out) =
    (if m \<noteq> mid \<and> batch c ! m \<noteq> [] then
       if bufferused x ! m = 0
       then Inr ((c\<lparr>batch := (batch c)[m := []]\<rparr>,
             x\<lparr>bufferused := (bufferused x)[m := 1], reqs_in_transit := reqs_in_transit x + 1\<rparr>),
            out @ [(m, request_packet c m)])
       else Inl Assert_Failed
     else Inr ((c, x), out))"
  by (simp add: send_request_def assert_res_def)

lemma send_requests_fold:
  assumes "fold_res (send_request mid) ms ((c, x), out) = Inr ((c', x'), out')" "distinct ms"
    "\<And>m. m \<in> set ms \<Longrightarrow> m < length (batch c)"
  shows "bufs c' = bufs c \<and> out' = out @ map (\<lambda>m. (m, request_packet c m)) (filter (\<lambda>m. m \<noteq> mid \<and> batch c ! m \<noteq> []) ms)"
  using assms
proof (induction ms arbitrary: c x out)
  case Nil
  then show ?case by simp
next
  case (Cons m ms)
  show ?case
  proof (cases "m \<noteq> mid \<and> batch c ! m \<noteq> []")
    case True
    let ?c = "c\<lparr>batch := (batch c)[m := []]\<rparr>"
    obtain x1 where "fold_res (send_request mid) ms ((?c, x1), out @ [(m, request_packet c m)]) = Inr ((c', x'), out')"
      using Cons.prems(1) True by (auto simp: send_request_eq split: if_splits)
    from Cons.IH[OF this] Cons.prems(2,3)
    have "bufs c' = bufs c" "out' = (out @ [(m, request_packet c m)]) @
      map (\<lambda>m. (m, request_packet ?c m)) (filter (\<lambda>k. k \<noteq> mid \<and> batch ?c ! k \<noteq> []) ms)" by auto
    moreover have "k \<in> set ms \<Longrightarrow> request_packet ?c k = request_packet c k \<and> batch ?c ! k = batch c ! k" for k
    proof -
      assume "k \<in> set ms"
      then have "m \<noteq> k" using Cons.prems(2) by auto
      then show ?thesis by (simp add: request_packet_def)
    qed
    ultimately show ?thesis using True by (auto cong: filter_cong map_cong)
  next
    case False
    then have "fold_res (send_request mid) ms ((c, x), out) = Inr ((c', x'), out')"
      using Cons.prems(1) by (auto simp: send_request_eq split: if_splits)
    from Cons.IH[OF this] Cons.prems(2,3) False show ?thesis by auto
  qed
qed

lemma send_requests_returns:
  assumes "distinct ms" "\<And>m. m \<in> set ms \<Longrightarrow> bufferused x ! m = 0"
  shows "\<exists>y. fold_res (send_request mid) ms ((c, x), out) = Inr y"
  using assms
proof (induction ms arbitrary: c x out)
  case (Cons m ms)
  have "k \<in> set ms \<Longrightarrow> (bufferused x)[m := 1] ! k = 0" for k
    using Cons.prems by (cases "k = m") (auto simp: nth_list_update_neq)
  then show ?case using Cons.IH Cons.prems by (auto simp: send_request_eq)
qed simp

section \<open>The worker's side\<close>

definition worker_start :: worker where
  "worker_start = \<lparr>handle = [], op_ptr_arr = [], ops_in_req = [], batches_per_worker = 0, remotes_per_worker = 0\<rparr>"

lemma worker_ops_append:
  assumes "\<forall>(r, off)\<in>set ps. r < length hs"
  shows "map (\<lambda>(r, off). op_at tail ((hs @ [msg]) ! r) off) ps = map (\<lambda>(r, off). op_at tail (hs ! r) off) ps"
  using assms by (auto simp: nth_append)

definition pointers_ok :: "worker \<Rightarrow> bool" where
  "pointers_ok w \<longleftrightarrow> (\<forall>(r, off)\<in>set (op_ptr_arr w). r < length (handle w))"

lemma req_handler_packet:
  assumes "\<forall>op\<in>set ops. full_value op" "length (handle w) < MACHINE_NUM" "total_ops w + length ops \<le> WORKER_MAX_BATCH"
    "pointers_ok w"
  obtains w' where "req_handler (packet ops) w = Inr w'" "handle w' = handle w @ [packet ops]"
    "ops_in_req w' = ops_in_req w @ [length ops]" "total_ops w' = total_ops w + length ops" "pointers_ok w'"
    "map seen (worker_ops tail w') = map seen (worker_ops tail w) @ map seen ops"
    "batches_per_worker w' = batches_per_worker w" "remotes_per_worker w' = remotes_per_worker w"
proof -
  obtain offs where p: "parse_ops (packet ops) 0 = Inr offs" "length offs = length ops"
    "map (\<lambda>off. seen (op_at tail (packet ops) off)) offs = map seen ops"
    by (rule parse_packet_start[OF assms(1)])
  let ?w = "w\<lparr>handle := handle w @ [packet ops], ops_in_req := ops_in_req w @ [length offs],
    op_ptr_arr := op_ptr_arr w @ map (\<lambda>off. (length (handle w), off)) offs\<rparr>"
  have "req_handler (packet ops) w = Inr ?w"
    using assms(2,3) p by (simp add: req_handler_def total_ops_def Let_def)
  moreover have "worker_ops tail ?w = worker_ops tail w @ map (op_at tail (packet ops)) offs"
    using worker_ops_append[of "op_ptr_arr w" "handle w" tail "packet ops"] assms(4)
    by (simp add: worker_ops_def pointers_ok_def comp_def)
  then have "map seen (worker_ops tail ?w) = map seen (worker_ops tail w) @ map seen ops"
    using p(3) by (simp add: comp_def)
  moreover have "pointers_ok ?w" using assms(4) by (auto simp: pointers_ok_def)
  ultimately show ?thesis using that[of ?w] p(2) by (simp add: total_ops_def)
qed

lemma req_handler_packets:
  assumes "\<forall>ops\<in>set opss. length ops \<le> KVS_BATCH \<and> (\<forall>op\<in>set ops. full_value op)"
    "length (handle w) + length opss \<le> MACHINE_NUM" "total_ops w \<le> KVS_BATCH * length (handle w)" "pointers_ok w"
  shows "\<exists>w'. fold_res req_handler (map packet opss) w = Inr w' \<and> handle w' = handle w @ map packet opss \<and>
    ops_in_req w' = ops_in_req w @ map length opss \<and>
    map seen (worker_ops tail w') = map seen (worker_ops tail w) @ concat (map (map seen) opss) \<and>
    batches_per_worker w' = batches_per_worker w \<and> remotes_per_worker w' = remotes_per_worker w"
  using assms
proof (induction opss arbitrary: w)
  case Nil
  then show ?case by simp
next
  case (Cons ops opss)
  have fv: "\<forall>op\<in>set ops. full_value op" and k: "length ops \<le> KVS_BATCH" using Cons.prems(1) by auto
  have h: "length (handle w) < MACHINE_NUM" using Cons.prems(2) by simp
  have "KVS_BATCH * length (handle w) + KVS_BATCH \<le> WORKER_MAX_BATCH"
    using h by (simp add: WORKER_MAX_BATCH_def KVS_BATCH_def)
  then have t: "total_ops w + length ops \<le> WORKER_MAX_BATCH" using Cons.prems(3) k by linarith
  obtain w1 where w1: "req_handler (packet ops) w = Inr w1" "handle w1 = handle w @ [packet ops]"
    "ops_in_req w1 = ops_in_req w @ [length ops]" "total_ops w1 = total_ops w + length ops" "pointers_ok w1"
    "map seen (worker_ops tail w1) = map seen (worker_ops tail w) @ map seen ops"
    "batches_per_worker w1 = batches_per_worker w" "remotes_per_worker w1 = remotes_per_worker w"
    by (rule req_handler_packet[OF fv h t Cons.prems(4)]) (rule that)
  have "total_ops w1 \<le> KVS_BATCH * length (handle w1)" using w1(2,4) Cons.prems(3) k by simp
  from Cons.IH[OF _ _ this w1(5)] Cons.prems(1,2) w1 show ?case by auto
qed

text \<open>Property C15: the requests a client sends are the requests the worker reads.  For
  every batch of operations (reads shortened to key and opcode, writes to key, opcode,
  length and value), parsing the packed message finds as many operations as were packed,
  in their order, and each has the key with all its metadata, the opcode and, for a
  write, the length and the value that were sent, whatever bytes follow the message.\<close>

theorem request_roundtrip:
  assumes "sendable c m"
  shows "\<exists>offs. parse_ops (request_packet c m) 0 = Inr offs \<and>
    map (\<lambda>off. seen (op_at tail (request_packet c m) off)) offs = map seen (batch_ops c m)"
  using parse_packet_start[OF request_packet_eq(2)[OF assms], of tail]
  by (metis request_packet_eq(1)[OF assms])

text \<open>Property C14: from the client's walk over its batch to the worker's array.  When
  a client has walked over a batch and sends, every message goes to another machine, one
  message per machine with requests, and a worker that has not yet received its share of
  messages accepts it without overrunning its arrays or failing its assertion, and then
  sees exactly the requests collected for it, in order, behind those it had.\<close>

theorem requests_reach_worker:
  assumes "cold_start c" "mid < MACHINE_NUM" "pr = SEQUENTIAL_CONSISTENCY \<or> pr = LINEARIZABILITY"
    "handle_cold_requests pr mid clt lw gid u c = Inr (wr_i, c1)"
    "send_requests mid (c1, x) = Inr ((c2, x2), out)"
  shows "map fst out = filter (\<lambda>m. m \<noteq> mid \<and> batch c1 ! m \<noteq> []) [0 ..< MACHINE_NUM] \<and>
    (\<forall>m msg w. (m, msg) \<in> set out \<and> pointers_ok w \<and> length (handle w) < MACHINE_NUM \<and>
        total_ops w \<le> KVS_BATCH * length (handle w) \<longrightarrow>
       (\<exists>w'. req_handler msg w = Inr w' \<and>
          map seen (worker_ops tail w') = map seen (worker_ops tail w) @ map seen (batch_ops c1 m)))"
proof -
  note inv = handle_cold_requests_inv[OF assms(1-4)]
  have lb: "length (batch c1) = MACHINE_NUM" using inv by (simp add: cold_inv_def sent_ok_def)
  have out: "out = map (\<lambda>m. (m, request_packet c1 m)) (filter (\<lambda>m. m \<noteq> mid \<and> batch c1 ! m \<noteq> []) [0 ..< MACHINE_NUM])"
    using send_requests_fold[OF assms(5)[unfolded send_requests_def]] lb by simp
  have "\<exists>w'. req_handler msg w = Inr w' \<and>
          map seen (worker_ops tail w') = map seen (worker_ops tail w) @ map seen (batch_ops c1 m)"
    if m: "(m, msg) \<in> set out" and w: "pointers_ok w" "length (handle w) < MACHINE_NUM"
      "total_ops w \<le> KVS_BATCH * length (handle w)" for m msg w
  proof -
    have mm: "m < MACHINE_NUM" "msg = request_packet c1 m" using m by (auto simp: out)
    note s = cold_sendable[OF inv mm(1)]
    have "KVS_BATCH * length (handle w) + KVS_BATCH \<le> WORKER_MAX_BATCH"
      using w(2) by (simp add: WORKER_MAX_BATCH_def KVS_BATCH_def)
    then have "total_ops w + length (batch_ops c1 m) \<le> WORKER_MAX_BATCH" using w(3) s(2) by linarith
    then show ?thesis
      using req_handler_packet[OF request_packet_eq(2)[OF s(1)] w(2) _ w(1), of tail] request_packet_eq(1)[OF s(1)] mm(2)
      by metis
  qed
  moreover have "map fst out = filter (\<lambda>m. m \<noteq> mid \<and> batch c1 ! m \<noteq> []) [0 ..< MACHINE_NUM]"
    by (simp add: out comp_def)
  ultimately show ?thesis by blast
qed

definition demo_ctx :: ctx where
  "demo_ctx = \<lparr>bufferused = replicate MACHINE_NUM 0, cache_bufferused = replicate MACHINE_NUM 0, reqs_in_transit = 0,
     cbatch = [], creq_length = 0, updates_per_client = 0, received_updates_per_client = 0, coh_buf = [], coh_buf_i = 0,
     update_ops = replicate (CACHE_BATCH_SIZE * sizeof_mica_op) 0, update_resp = []\<rparr>"

theorem request_roundtrip_witness:
  "\<exists>offs. parse_ops (request_packet (demo_client\<lparr>batch := [[], [(3, 17), (5, 17)], [], []]\<rparr>) 1) 0 = Inr offs \<and> length offs = 2"
proof -
  let ?c = "demo_client\<lparr>batch := [[], [(3, 17), (5, 17)], [], []]\<rparr>"
  have "sendable ?c 1"
    by (simp add: sendable_def demo_client_def demo_entry_def full_value_def wire_len_def sizes CACHE_BATCH_SIZE_def)
  from request_roundtrip[OF this, of "[]"] show ?thesis
    by (auto simp: batch_ops_def dest!: map_eq_imp_length_eq)
qed

theorem requests_reach_worker_witness:
  "\<exists>wr_i c1 c2 x2 out. handle_cold_requests SEQUENTIAL_CONSISTENCY 0 0 0 5 0 demo_client = Inr (wr_i, c1) \<and>
     send_requests 0 (c1, demo_ctx) = Inr ((c2, x2), out) \<and>
     map fst out = filter (\<lambda>m. m \<noteq> 0 \<and> batch c1 ! m \<noteq> []) [0 ..< MACHINE_NUM]"
proof -
  obtain wr_i c1 where r: "handle_cold_requests SEQUENTIAL_CONSISTENCY 0 0 0 5 0 demo_client = Inr (wr_i, c1)"
    by (rule demo_client_returns)
  have "\<exists>y. send_requests 0 (c1, demo_ctx) = Inr y"
    unfolding send_requests_def by (rule send_requests_returns) (simp_all add: demo_ctx_def)
  then obtain c2 x2 out where s: "send_requests 0 (c1, demo_ctx) = Inr ((c2, x2), out)" by (metis surj_pair)
  from requests_reach_worker[OF demo_client_start(1) demo_machine r s, of "[]"] r s show ?thesis by blast
qed

section \<open>Serving the requests\<close>

definition short_values :: "(cache_key \<Rightarrow> (u8 \<times> u8 list) option) \<Rightarrow> bool" where
  "short_values m \<longleftrightarrow> (\<forall>k l v. m k = Some (l, v) \<longrightarrow> unat l \<le> HERD_VALUE_SIZE)"

lemma seen_parts:
  assumes "seen op' = seen op"
  shows "key op' = key op" "opcode op' = opcode op" "hit_resp op' = hit_resp op"
    "opcode op = CACHE_OP_PUT \<Longrightarrow> val_len op' = val_len op"
    "opcode op = CACHE_OP_PUT \<Longrightarrow> take HERD_VALUE_SIZE (value op') = take HERD_VALUE_SIZE (value op)"
  using assms by (auto simp: seen_def hit_resp_def split: if_splits)

lemma take_prefix: "take n xs = take n ys \<Longrightarrow> k \<le> n \<Longrightarrow> take k xs = take k ys"
  by (metis min.absorb1 take_take)

lemma put_content_seen:
  assumes "seen op' = seen op" "short_values m"
  shows "put_content op' m = put_content op m"
proof (rule ext)
  fix k
  show "put_content op' m k = put_content op m k"
  proof (cases "opcode op = MICA_OP_PUT \<and> key_word k = key_word (key op)")
    case True
    have "take (unat l) (value op') = take (unat l) (value op)" if "m k = Some (l, v)" for l v
      using take_prefix[OF seen_parts(5)[OF assms(1)]] True assms(2) that by (auto simp: short_values_def)
    then show ?thesis using True seen_parts[OF assms(1)] by (cases "m k") (auto simp: put_content_def)
  next
    case False
    then show ?thesis using seen_parts[OF assms(1)] by (auto simp: put_content_def)
  qed
qed

lemma short_values_put: "short_values m \<Longrightarrow> short_values (put_content op m)"
  by (fastforce simp: short_values_def put_content_def split: if_splits)

lemma put_contents_seen:
  assumes "map seen ops' = map seen ops" "short_values m"
  shows "fold put_content ops' m = fold put_content ops m"
  using assms
proof (induction ops arbitrary: ops' m)
  case (Cons op ops)
  then obtain a as where "ops' = a # as" "seen a = seen op" "map seen as = map seen ops" by (cases ops') auto
  then show ?case using Cons.IH[of as "put_content op m"] Cons.prems(2) put_content_seen[of a op m] short_values_put[of m op]
    by simp
qed simp

lemma hit_ok_seen:
  assumes "seen op' = seen op" "hit_ok (kv_abs kv) op" "full_value op" "short_values (contents kv)"
  shows "hit_ok (kv_abs kv) op'"
proof -
  obtain l v where lv: "contents kv (key op) = Some (l, v)" "opcode op = MICA_OP_PUT \<longrightarrow> val_len op = l"
    and oc: "opcode op = MICA_OP_GET \<or> opcode op = MICA_OP_PUT"
    using assms(2) by (auto simp: hit_ok_contents)
  have "unat l \<le> length (value op')" if "opcode op = MICA_OP_PUT"
  proof -
    have "length (take HERD_VALUE_SIZE (value op')) = HERD_VALUE_SIZE"
      using seen_parts(5)[OF assms(1) that] assms(3) by (simp add: full_value_def MICA_MAX_VALUE_eq HERD_VALUE_SIZE_eq)
    then have "HERD_VALUE_SIZE \<le> length (value op')" by simp
    then show ?thesis using assms(4) lv(1) by (fastforce simp: short_values_def)
  qed
  then show ?thesis using lv oc seen_parts[OF assms(1)] unfolding hit_ok_contents by auto
qed

lemma contents_fold:
  assumes "kv_abs kv' = fold abs_step ops (kv_abs kv)"
  shows "contents kv' = fold put_content ops (contents kv)"
proof -
  have "(\<lambda>k. map_option content (fold abs_step ops m k)) = fold put_content ops (\<lambda>k. map_option content (m k))" for m
  proof (induction ops arbitrary: m)
    case (Cons op ops)
    have "(\<lambda>k. map_option content (abs_step op m k)) = put_content op (\<lambda>k. map_option content (m k))"
      by (rule ext) (auto simp: abs_step_def put_content_def content_def option.map_comp comp_def intro: option.map_cong)
    then show ?case using Cons[of "abs_step op m"] by simp
  qed simp
  moreover have "contents kv = (\<lambda>k. map_option content (kv_abs kv k))"
    "contents kv' = (\<lambda>k. map_option content (kv_abs kv' k))" by (simp_all add: contents_def fun_eq_iff)
  ultimately show ?thesis by (simp only: assms)
qed

lemma crcw_batch_serves:
  assumes "kv_wf kv" "in_first_lap kv" "unlocked kv" "length ops \<le> MICA_MAX_BATCH_SIZE" "length resps \<ge> length ops"
    "\<forall>op\<in>set ops. hit_ok (kv_abs kv) op"
  obtains kv' out where "mica_batch_op_crcw mid (kv, lk) (zip ops resps) = Inr ((kv', lk), out)" "kv_wf kv'" "unlocked kv'"
    "contents kv' = fold put_content ops (contents kv)" "map rtype (map snd out) = map hit_resp ops"
proof -
  have f: "map fst (zip ops resps) = ops" using assms(5) by (simp add: map_fst_zip_take)
  have h: "\<forall>(op, r)\<in>set (zip ops resps). hit_ok (kv_abs kv) op" using assms(6) by (auto dest: set_zip_leftD)
  obtain kv1 kv2 out where c: "fold_res mica_step (zip ops (map (\<lambda>op. kv_ptr kv (key op)) ops)) (kv, []) = Inr (kv1, map snd out)"
    "fold_res (crcw_step mid) (zip (zip ops resps) (map (\<lambda>(op, r). kv_ptr kv (key op)) (zip ops resps))) ((kv, lk), []) = Inr ((kv2, lk), out)"
    "kv_wf kv2" "unlocked kv2" "contents kv2 = contents kv1"
    using crcw_batch_simulates[OF assms(1,2,1,2,3) refl refl refl h, of "[]" "[]" mid lk] f by auto
  have "kv_abs kv1 = fold abs_step ops (kv_abs kv)" "map rtype (map snd out) = map hit_resp ops"
    using mica_steps_hit[OF assms(1,2,6) refl, of "[]"] c(1) by auto
  moreover have "mica_batch_op_crcw mid (kv, lk) (zip ops resps) = Inr ((kv2, lk), out)"
    using c(2) assms(4,5) by (simp add: mica_batch_op_crcw_def)
  ultimately show ?thesis using that[of kv2 out] c(3-5) contents_fold[of kv1 ops kv] by simp
qed

lemma split_resps_map: "map (map f) (split_resps ns rs) = split_resps ns (map f rs)"
  by (induction ns arbitrary: rs) (simp_all add: take_map drop_map)

lemma split_resps_concat: "split_resps (map length xss) (concat xss) = xss"
  by (induction xss) simp_all

text \<open>Property C13: a turn of the worker serves what the clients sent.  Let messages from
  at most one client per machine arrive, each with at most a batch of reads and writes of
  keys that the store holds, unlocked and with values of the configured size.  The turn
  collects them, returns, and answers every message with the responses of its own requests
  in their order, all successful; the store then holds the values that the writes of all
  messages, in the order of arrival, leave, and all its locks are free.\<close>

theorem worker_turn_serves:
  assumes "kv_wf kv" "in_first_lap kv" "unlocked kv" "short_values (contents kv)"
    and "opss \<noteq> []" "length opss \<le> MACHINE_NUM" "length resps = WORKER_MAX_BATCH"
    and "\<forall>ops\<in>set opss. length ops \<le> KVS_BATCH \<and> (\<forall>op\<in>set ops. full_value op \<and> hit_ok (kv_abs kv) op)"
  shows "\<exists>kv' w' rss. worker_turn mid tail resps (map packet opss) ((kv, lk), w) = Inr ((kv', lk), w', rss) \<and>
    map (map rtype) rss = map (map hit_resp) opss \<and>
    contents kv' = fold put_content (concat opss) (contents kv) \<and> kv_wf kv' \<and> unlocked kv'"
proof -
  let ?w = "w\<lparr>handle := [], op_ptr_arr := [], ops_in_req := []\<rparr>"
  have ok: "\<forall>ops\<in>set opss. length ops \<le> KVS_BATCH \<and> (\<forall>op\<in>set ops. full_value op)" using assms(8) by blast
  obtain w1 where w1: "fold_res req_handler (map packet opss) ?w = Inr w1" "handle w1 = map packet opss"
    "ops_in_req w1 = map length opss" "map seen (worker_ops tail w1) = concat (map (map seen) opss)"
  proof -
    have "total_ops ?w \<le> KVS_BATCH * length (handle ?w)" "pointers_ok ?w" "worker_ops tail ?w = []"
      by (simp_all add: pointers_ok_def total_ops_def worker_ops_def)
    then show ?thesis using req_handler_packets[OF ok, of ?w tail] assms(6) that by fastforce
  qed
  let ?ops = "worker_ops tail w1"
  have sn: "map seen ?ops = map seen (concat opss)" by (simp add: w1(4) map_concat)
  then have ln: "length ?ops = length (concat opss)" by (rule map_eq_imp_length_eq)
  also have "\<dots> \<le> KVS_BATCH * length opss" using ok by (induction opss) auto
  also have "\<dots> \<le> WORKER_MAX_BATCH" using assms(6) by (simp add: WORKER_MAX_BATCH_def)
  finally have bound: "length ?ops \<le> WORKER_MAX_BATCH" .
  have hit: "\<forall>op\<in>set ?ops. hit_ok (kv_abs kv) op"
  proof
    fix op assume "op \<in> set ?ops"
    then have "seen op \<in> set (map seen (concat opss))" by (metis image_eqI list.set_map sn)
    then obtain op0 where "op0 \<in> set (concat opss)" "seen op = seen op0" by auto
    then show "hit_ok (kv_abs kv) op" using assms(4,8) by (auto intro!: hit_ok_seen[of op op0])
  qed
  have mb: "length ?ops \<le> MICA_MAX_BATCH_SIZE"
    using bound by (simp add: WORKER_MAX_BATCH_def KVS_BATCH_def MACHINE_NUM_def MICA_MAX_BATCH_SIZE_def)
  have le: "length ?ops \<le> length resps" using bound assms(7) by simp
  obtain kv' out where s: "mica_batch_op_crcw mid (kv, lk) (zip ?ops resps) = Inr ((kv', lk), out)" "kv_wf kv'" "unlocked kv'"
    "contents kv' = fold put_content ?ops (contents kv)" "map rtype (map snd out) = map hit_resp ?ops"
    by (rule crcw_batch_serves[OF assms(1-3) mb le hit]) (rule that)
  have "map hit_resp ?ops = map hit_resp (concat opss)"
  proof (rule nth_equalityI)
    fix i assume "i < length (map hit_resp ?ops)"
    then have i: "i < length ?ops" "i < length (concat opss)" using ln by simp_all
    then have "seen (?ops ! i) = seen (concat opss ! i)" using arg_cong[OF sn, of "\<lambda>xs. xs ! i"] by simp
    from seen_parts(3)[OF this] show "map hit_resp ?ops ! i = map hit_resp (concat opss) ! i" using i by simp
  qed (simp add: ln)
  then have "map rtype (map snd out) = concat (map (map hit_resp) opss)"
    unfolding s(5) by (simp add: map_concat)
  then have "map (map rtype) (split_resps (map length opss) (map snd out)) = map (map hit_resp) opss"
    using split_resps_concat[of "map (map hit_resp) opss"] by (simp add: split_resps_map comp_def)
  moreover have "contents kv' = fold put_content (concat opss) (contents kv)"
    using s(4) put_contents_seen[OF sn assms(4)] by simp
  ultimately show ?thesis
    using s(1-3) w1(1,2,3) assms(5) by (auto simp: worker_turn_def Let_def drain_batch_def)
qed

theorem worker_turn_serves_witness:
  "\<exists>kv kv' w' rss. kv_wf kv \<and>
     worker_turn 2 [] (replicate WORKER_MAX_BATCH fresh_resp)
       (map packet [[demo_op MICA_OP_PUT 9], [demo_op MICA_OP_GET 9, demo_op MICA_OP_GET 9]]) ((kv, demo_meta), worker_start) =
       Inr ((kv', demo_meta), w', rss) \<and>
     map (map rtype) rss = [[MICA_RESP_PUT_SUCCESS], [MICA_RESP_GET_SUCCESS, MICA_RESP_GET_SUCCESS]]"
proof -
  let ?op = "demo_op MICA_OP_PUT 9" and ?get = "demo_op MICA_OP_GET 9"
  obtain kv kv1 where d: "mica_init 0 0 1 256 demo_index demo_log = Inr kv"
    "mica_insert_one_crcw (kv, demo_meta) ?op = Inr (kv1, demo_meta, crcw_fresh ?op)" "kv_wf kv1" "in_first_lap kv1"
    "unlocked kv1" "\<forall>k. kv_abs kv1 k = (if key_word k = key_word (key ?op) then Some (stored (crcw_fresh ?op)) else None)"
    by (rule demo_crcw_store)
  have sv: "short_values (contents kv1)"
    by (auto simp: short_values_def contents_def d(6) content_def stored_def crcw_fresh_def demo_op_def set_meta_def HERD_VALUE_SIZE_eq)
  have fv: "full_value (demo_op oc t)" for oc t by (simp add: full_value_def demo_op_def MICA_MAX_VALUE_eq)
  have "\<forall>ops\<in>set [[?op], [?get, ?get]]. length ops \<le> KVS_BATCH \<and> (\<forall>op\<in>set ops. full_value op \<and> hit_ok (kv_abs kv1) op)"
    using demo_crcw_hit[OF d(6)] fv by (simp add: KVS_BATCH_def)
  from worker_turn_serves[OF d(3-5) sv _ _ _ this, of "replicate WORKER_MAX_BATCH fresh_resp" 2 "[]" demo_meta worker_start] d(3)
  show ?thesis by (auto simp: hit_resp_def demo_op_def MACHINE_NUM_def)
qed

section \<open>Updates in a message\<close>

text \<open>Property C32: of a message with updates the receiver reads the first as it was sent,
  but not the second.  The sender packs the updates at the length of a write request, the
  receiver takes them at the size of the structure: the operation code and the length of
  its second update are then bytes of the value of the second update sent.\<close>

theorem second_update_misread:
  assumes "cbatch x = [i, j]" "creq_length x = HERD_PUT_REQ_SIZE" "a = e_op (bufs c ! i)" "b = e_op (bufs c ! j)"
    and "full_value a" "full_value b"
    and "mem_write mem 0 (update_packet c x) = Inr mem'" "length mem = CACHE_BATCH_SIZE * sizeof_mica_op"
  shows "length (update_packet c x) div HERD_PUT_REQ_SIZE = 2 \<and>
    key (received_ops 2 mem' ! 0) = key a \<and> opcode (received_ops 2 mem' ! 0) = opcode a \<and>
    val_len (received_ops 2 mem' ! 0) = val_len a \<and>
    take HERD_VALUE_SIZE (value (received_ops 2 mem' ! 0)) = take HERD_VALUE_SIZE (value a) \<and>
    opcode (received_ops 2 mem' ! 1) = value b ! 12 \<and> val_len (received_ops 2 mem' ! 1) = value b ! 13"
proof -
  let ?p = "op_bytes 50 a @ op_bytes 50 b"
  have p: "update_packet c x = ?p" using assms(1-4) by (simp add: sizes update_packet_def)
  have l: "length (op_bytes 50 a) = 50" "length (op_bytes 50 b) = 50" by (simp_all add: op_bytes_length assms(5,6))
  then have mem': "mem' = ?p @ drop 100 mem" "length mem = 64 * CACHE_BATCH_SIZE"
    using assms(7,8) p by (auto simp: mem_write_def sizes split: if_splits)
  have r0: "received_ops 2 mem' ! 0 = decode_op (op_bytes 50 a @ take 14 (op_bytes 50 b @ drop 100 mem))"
    using l by (simp add: received_ops_def sizes mem' upt_rec)
  have "64 \<le> length mem'" using mem' l by (simp add: CACHE_BATCH_SIZE_def)
  then have "k < 64 \<Longrightarrow> take 64 (drop 64 mem') ! k = mem' ! (64 + k)" for k by simp
  from this[of 16] this[of 17] have "take 64 (drop 64 mem') ! 16 = mem' ! 80" "take 64 (drop 64 mem') ! 17 = mem' ! 81"
    by simp_all
  moreover have "mem' ! 80 = value b ! 12" "mem' ! 81 = value b ! 13"
    using l assms(6) by (simp_all add: mem'(1) nth_append op_bytes_def encode_op_def full_value_def MICA_MAX_VALUE_eq nth_Cons')
  ultimately have "opcode (received_ops 2 mem' ! 1) = value b ! 12" "val_len (received_ops 2 mem' ! 1) = value b ! 13"
    by (simp_all add: received_ops_def sizes decode_op_def upt_rec)
  moreover have "length (update_packet c x) div HERD_PUT_REQ_SIZE = 2" using p l by (simp add: sizes)
  ultimately show ?thesis
    using decode_head[OF _ assms(5), of 50 "take 14 (op_bytes 50 b @ drop 100 mem)"]
      decode_value[OF assms(5), of "take 14 (op_bytes 50 b @ drop 100 mem)"] unfolding r0 by simp
qed

theorem second_update_misread_witness:
  "\<exists>mem'. mem_write (update_ops demo_ctx) 0 (update_packet demo_client (demo_ctx\<lparr>cbatch := [0, 1], creq_length := HERD_PUT_REQ_SIZE\<rparr>)) =
       Inr mem' \<and>
     opcode (received_ops 2 mem' ! 1) = value (e_op (bufs demo_client ! 1)) ! 12"
proof -
  let ?x = "demo_ctx\<lparr>cbatch := [0, 1], creq_length := HERD_PUT_REQ_SIZE\<rparr>"
  let ?a = "e_op (bufs demo_client ! 0)" and ?b = "e_op (bufs demo_client ! 1)"
  have fv: "full_value ?a" "full_value ?b" by (simp_all add: demo_client_def demo_entry_def full_value_def CACHE_BATCH_SIZE_def)
  have lm: "length (update_ops demo_ctx) = CACHE_BATCH_SIZE * sizeof_mica_op" by (simp add: demo_ctx_def)
  have "length (update_packet demo_client ?x) \<le> length (update_ops demo_ctx)"
    using op_bytes_length[OF fv(1), of 50] op_bytes_length[OF fv(2), of 50]
    by (simp add: update_packet_def lm sizes CACHE_BATCH_SIZE_def)
  then obtain mem' where "mem_write (update_ops demo_ctx) 0 (update_packet demo_client ?x) = Inr mem'"
    by (auto simp: mem_write_def)
  with second_update_misread[of ?x 0 1 ?a demo_client ?b "update_ops demo_ctx" mem'] fv lm show ?thesis by simp
qed

lemma broadcast_to_eq:
  "broadcast_to mid buf m (x, out) =
    (if m \<noteq> mid then if cache_bufferused x ! m = 0
       then Inr (x\<lparr>cache_bufferused := (cache_bufferused x)[m := 1], reqs_in_transit := reqs_in_transit x + 1\<rparr>, out @ [(m, buf)])
       else Inl Assert_Failed
     else Inr (x, out))"
  by (simp add: broadcast_to_def assert_res_def)

lemma broadcasts_free:
  assumes "distinct ms" "\<forall>m\<in>set ms. m \<noteq> mid \<longrightarrow> cache_bufferused x ! m = 0 \<and> m < length (cache_bufferused x)"
  shows "\<exists>x'. fold_res (broadcast_to mid buf) ms (x, out) = Inr (x', out @ map (\<lambda>m. (m, buf)) (filter (\<lambda>m. m \<noteq> mid) ms)) \<and>
    (\<forall>m. cache_bufferused x' ! m = (if m \<in> set ms \<and> m \<noteq> mid then 1 else cache_bufferused x ! m)) \<and>
    length (cache_bufferused x') = length (cache_bufferused x)"
  using assms
proof (induction ms arbitrary: x out)
  case (Cons m ms)
  show ?case
  proof (cases "m = mid")
    case True
    then have "(k \<in> set (m # ms) \<and> k \<noteq> mid) = (k \<in> set ms \<and> k \<noteq> mid)" for k by auto
    then show ?thesis using True Cons.IH[of x out] Cons.prems by (simp add: broadcast_to_eq)
  next
    case False
    let ?x = "x\<lparr>cache_bufferused := (cache_bufferused x)[m := 1], reqs_in_transit := reqs_in_transit x + 1\<rparr>"
    have "\<forall>k\<in>set ms. k \<noteq> mid \<longrightarrow> cache_bufferused ?x ! k = 0 \<and> k < length (cache_bufferused ?x)"
      using Cons.prems by (auto simp: nth_list_update)
    from Cons.IH[OF _ this, of "out @ [(m, buf)]"] Cons.prems False show ?thesis
      by (auto simp: broadcast_to_eq nth_list_update)
  qed
qed simp

lemma broadcasts_blocked:
  assumes "m \<in> set ms" "m \<noteq> mid" "cache_bufferused x ! m \<noteq> 0"
  shows "fold_res (broadcast_to mid buf) ms (x, out) = Inl Assert_Failed"
  using assms
proof (induction ms arbitrary: x out)
  case (Cons k ms)
  show ?case
  proof (cases "k = m \<or> (k \<noteq> mid \<and> cache_bufferused x ! k \<noteq> 0)")
    case True
    then show ?thesis using Cons.prems by (auto simp: broadcast_to_eq)
  next
    case False
    then have "m \<in> set ms" "(cache_bufferused x)[k := v] ! m \<noteq> 0" for v
      using Cons.prems by (auto simp: nth_list_update_neq)
    then show ?thesis using Cons.IH Cons.prems(2,3) False by (auto simp: broadcast_to_eq)
  qed
qed simp

text \<open>Property C33: the updates of a batch go to every other machine, once, and a machine
  takes the next ones only after it answered.  With the buffers to the other machines free
  the broadcast returns, sends the same message to all of them and takes the buffers; a
  second broadcast with updates, before any response, fails the assertion on the first
  buffer; after the responses of all other machines it returns.\<close>

theorem broadcast_needs_responses:
  assumes "cbatch x \<noteq> []" "upds \<noteq> []" "machine_id < MACHINE_NUM" "length (cache_bufferused x) = MACHINE_NUM"
    and "\<forall>m. m < MACHINE_NUM \<and> m \<noteq> machine_id \<longrightarrow> cache_bufferused x ! m = 0"
  shows "\<exists>x'. broadcast_cache_ops machine_id (c, x) =
      Inr (x', map (\<lambda>m. (m, update_packet c x)) (filter (\<lambda>m. m \<noteq> machine_id) [0 ..< MACHINE_NUM])) \<and>
    broadcast_cache_ops machine_id (c, x'\<lparr>cbatch := upds\<rparr>) = Inl Assert_Failed \<and>
    (\<exists>y. broadcast_cache_ops machine_id
       (c, fold cache_response (filter (\<lambda>m. m \<noteq> machine_id) [0 ..< MACHINE_NUM]) (x'\<lparr>cbatch := upds\<rparr>)) = Inr y)"
proof -
  have free: "\<forall>m\<in>set [0 ..< MACHINE_NUM]. m \<noteq> machine_id \<longrightarrow> cache_bufferused x ! m = 0 \<and> m < length (cache_bufferused x)"
    using assms(4,5) by simp
  obtain x1 where x1: "fold_res (broadcast_to machine_id (update_packet c x)) [0 ..< MACHINE_NUM] (x, []) =
      Inr (x1, map (\<lambda>m. (m, update_packet c x)) (filter (\<lambda>m. m \<noteq> machine_id) [0 ..< MACHINE_NUM]))"
    "\<And>m. cache_bufferused x1 ! m = (if m \<in> set [0 ..< MACHINE_NUM] \<and> m \<noteq> machine_id then 1 else cache_bufferused x ! m)"
    "length (cache_bufferused x1) = MACHINE_NUM"
    using broadcasts_free[OF distinct_upt free, of "update_packet c x" "[]"] assms(4) by auto
  let ?y = "x1\<lparr>cbatch := upds\<rparr>"
  obtain m where m: "m < MACHINE_NUM" "m \<noteq> machine_id"
    by (rule that[of "if machine_id = 0 then 1 else 0"]) (simp_all add: MACHINE_NUM_def)
  have b: "broadcast_cache_ops machine_id (c, ?y) = Inl Assert_Failed"
    using broadcasts_blocked[of m "[0 ..< MACHINE_NUM]" machine_id ?y "update_packet c ?y" "[]"] m x1(2) assms(2)
    by (simp add: broadcast_cache_ops_def)
  have resp: "cache_bufferused (fold cache_response ms z) ! k = (if k \<in> set ms then 0 else cache_bufferused z ! k) \<and>
      length (cache_bufferused (fold cache_response ms z)) = length (cache_bufferused z) \<and>
      cbatch (fold cache_response ms z) = cbatch z"
    if "k < length (cache_bufferused z)" for ms z k
    using that by (induction ms arbitrary: z) (auto simp: cache_response_def nth_list_update)
  let ?z = "fold cache_response (filter (\<lambda>m. m \<noteq> machine_id) [0 ..< MACHINE_NUM]) ?y"
  have z: "length (cache_bufferused ?z) = MACHINE_NUM" "cbatch ?z = upds"
    using resp[of machine_id ?y "filter (\<lambda>m. m \<noteq> machine_id) [0 ..< MACHINE_NUM]"] assms(3) x1(3) by auto
  have "\<forall>m\<in>set [0 ..< MACHINE_NUM]. m \<noteq> machine_id \<longrightarrow> cache_bufferused ?z ! m = 0 \<and> m < length (cache_bufferused ?z)"
    using resp[of _ ?y "filter (\<lambda>m. m \<noteq> machine_id) [0 ..< MACHINE_NUM]"] z(1) x1(3) by auto
  from broadcasts_free[OF distinct_upt this, of "update_packet c ?z" "[]"]
  have "\<exists>y. broadcast_cache_ops machine_id (c, ?z) = Inr y" by (auto simp: broadcast_cache_ops_def)
  then show ?thesis using b x1(1) assms(1) by (intro exI[of _ "x1\<lparr>cbatch := []\<rparr>"]) (simp add: broadcast_cache_ops_def)
qed

theorem broadcast_needs_responses_witness:
  "\<exists>x'. broadcast_cache_ops 0 (demo_client, demo_ctx\<lparr>cbatch := [0]\<rparr>) =
       Inr (x', map (\<lambda>m. (m, update_packet demo_client (demo_ctx\<lparr>cbatch := [0]\<rparr>))) (filter (\<lambda>m. m \<noteq> 0) [0 ..< MACHINE_NUM])) \<and>
     broadcast_cache_ops 0 (demo_client, x'\<lparr>cbatch := [1]\<rparr>) = Inl Assert_Failed"
proof -
  have "length (cache_bufferused (demo_ctx\<lparr>cbatch := [0]\<rparr>)) = MACHINE_NUM"
    "\<forall>m. m < MACHINE_NUM \<and> m \<noteq> 0 \<longrightarrow> cache_bufferused (demo_ctx\<lparr>cbatch := [0]\<rparr>) ! m = 0"
    by (simp_all add: demo_ctx_def)
  from broadcast_needs_responses[OF _ _ _ this, of "[1]" demo_client] show ?thesis by (auto simp: MACHINE_NUM_def)
qed

end
