(* ===== verification/Client_Correct.thy ===== *)
theory Client_Correct
  imports Client Trace_Correct Transport_Correct
begin

text \<open>
  A client of the sequentially consistent protocol, end to end: from a well-formed
  state, a turn of its loop returns and leads to a well-formed state again.  The theory
  composes what the other theories show of the parts of a turn: the refill from the trace,
  the batch of the cache, the walk over the batch, the messages and their responses.
\<close>

section \<open>The cache answers\<close>

lemma sc_batch_answered:
  assumes "cache_batch_op_sc i t ops ch = Inr (ch', out)"
  shows "list_all2 (answered (sc_handler i) skipped) ops out"
  using assms cache_batch_answered[of "sc_handler i" skipped "hash_table ch" ops] by (auto simp: cache_batch_op_sc_eq res_simps)

text \<open>The requests of a batch before it goes to the cache, after, and when the hot writes have
  become updates.\<close>

definition home_ok :: "nat \<Rightarrow> entry \<Rightarrow> bool" where
  "home_ok mid e \<longleftrightarrow> unat (home_machine (e_home e)) < MACHINE_NUM \<and> unat (home_machine (e_home e)) \<noteq> mid"

definition plain :: "nat \<Rightarrow> entry \<Rightarrow> bool" where
  "plain mid e \<longleftrightarrow> home_ok mid e \<and> (opcode (e_op e) = CACHE_OP_GET \<or>
     opcode (e_op e) = CACHE_OP_PUT \<and> unat (val_len (e_op e)) = HERD_VALUE_SIZE)"

definition unserved :: "nat \<Rightarrow> entry \<Rightarrow> bool" where
  "unserved mid e \<longleftrightarrow> plain mid e \<and> rtype (e_resp e) = UNSERVED_CACHE_MISS"

definition asked :: "nat \<Rightarrow> entry \<Rightarrow> bool" where
  "asked mid e \<longleftrightarrow> plain mid e \<and> (rtype (e_resp e) = UNSERVED_CACHE_MISS \<or> rtype (e_resp e) = EMPTY)"

definition told :: "nat \<Rightarrow> u8 \<Rightarrow> entry \<Rightarrow> bool" where
  "told mid oc e \<longleftrightarrow> plain mid e \<and> rtype (e_resp e) \<in> {UNSERVED_CACHE_MISS, CACHE_MISS} \<or>
     opcode (e_op e) = CACHE_OP_GET \<and> rtype (e_resp e) = CACHE_GET_SUCCESS \<or>
     opcode (e_op e) = oc \<and> rtype (e_resp e) = CACHE_PUT_SUCCESS"

definition cache_sized :: "cache \<Rightarrow> bool" where
  "cache_sized ch \<longleftrightarrow> cache_ok ch \<and> (\<forall>k e. kv_abs (hash_table ch) k = Some e \<longrightarrow> unat (val_len e) = HERD_VALUE_SIZE)"

lemma cache_sized_kept:
  assumes "cache_sized ch" "cache_ok ch'"
    "\<forall>k. map_option val_len (kv_abs (hash_table ch') k) = map_option val_len (kv_abs (hash_table ch) k)"
  shows "cache_sized ch'"
  unfolding cache_sized_def
proof (intro conjI allI impI)
  fix k e assume "kv_abs (hash_table ch') k = Some e"
  then have "map_option val_len (kv_abs (hash_table ch) k) = Some (val_len e)" using assms(3) by (metis option.simps(9))
  then obtain e0 where "kv_abs (hash_table ch) k = Some e0" "val_len e0 = val_len e" by auto
  then show "unat (val_len e) = HERD_VALUE_SIZE" using assms(1) by (metis cache_sized_def)
qed (fact assms(2))

lemma asked_told:
  assumes "asked mid e" "answered (sc_handler i) skipped (e_op e, e_resp e) (op, r)"
  shows "told mid CACHE_OP_BRC (e\<lparr>e_op := op, e_resp := r\<rparr>)" "length (value op) = length (value (e_op e))"
proof -
  have p: "plain mid e" "opcode (e_op e) = CACHE_OP_GET \<or> opcode (e_op e) = CACHE_OP_PUT"
    using assms(1) by (auto simp: asked_def plain_def)
  consider (skip) "op = e_op e" "r = e_resp e" "rtype r = UNSERVED_CACHE_MISS" | (miss) "op = e_op e" "r = miss_resp (e_resp e)"
    | (hit) vp o' o'' where "sc_handler i vp o' (e_op e) (e_resp e) = Inr (o'', op, r)"
    using assms(2) by (auto simp: answered_def skipped_def split: if_splits)
  then have "told mid CACHE_OP_BRC (e\<lparr>e_op := op, e_resp := r\<rparr>) \<and> length (value op) = length (value (e_op e))"
  proof cases
    case skip
    then show ?thesis using p by (simp add: told_def plain_def home_ok_def)
  next
    case miss
    then show ?thesis using p by (simp add: told_def plain_def home_ok_def miss_resp_def)
  next
    case hit
    then show ?thesis using p(2)
      by (auto simp: sc_handler_def sc_get_def sc_put_def told_def Let_def res_simps case_prod_beta split: if_splits)
  qed
  then show "told mid CACHE_OP_BRC (e\<lparr>e_op := op, e_resp := r\<rparr>)" "length (value op) = length (value (e_op e))" by blast+
qed

section \<open>Refill and cache\<close>

lemma kept_subset: "set (kept T cs) \<subseteq> set cs"
  by (induction cs arbitrary: T) (auto split: if_splits)

lemma made_asked:
  assumes "made cmd e" "command_ok mid cmd"
  shows "asked mid e"
  using assms by (auto simp: made_def command_ok_def asked_def plain_def home_ok_def)

lemma refill_asked:
  assumes "trace_ok mid tr" "0 < cycle tr" "list_all2 made (kept {} (window tr it m)) (drop n es)"
    "\<forall>e\<in>set (take n es). unserved mid e" "e \<in> set es"
  shows "asked mid e"
proof -
  have "e \<in> set (take n es) \<or> e \<in> set (drop n es)" using assms(5) by (metis append_take_drop_id Un_iff set_append)
  then show ?thesis
  proof
    assume "e \<in> set (take n es)"
    then show ?thesis using assms(4) by (auto simp: unserved_def asked_def)
  next
    assume "e \<in> set (drop n es)"
    then obtain cmd where "cmd \<in> set (kept {} (window tr it m))" "made cmd e"
      using assms(3) by (metis in_set_conv_nth list_all2_conv_all_nth)
    moreover have "\<forall>cmd\<in>set (window tr it m). command_ok mid cmd"
      using window_command[OF assms(1,2)] by (auto simp: window_def)
    ultimately show ?thesis using made_asked kept_subset by blast
  qed
qed

definition probed :: "client \<Rightarrow> client \<Rightarrow> bool" where
  "probed c c' \<longleftrightarrow> c'\<lparr>bufs := [], latency_info := latency_info c, latency_count := latency_count c, hottest_keys_pointers := []\<rparr> =
       c\<lparr>bufs := [], hottest_keys_pointers := []\<rparr> \<and>
     length (hottest_keys_pointers c') = HOTTEST_KEYS_TO_TRACK \<and>
     last_measured_op_i (latency_info c') < CACHE_BATCH_SIZE \<and> latency_ok (latency_count c')"

lemma probe_cache_ok:
  assumes "cache_sized ch" "entries_ok (bufs c)" "\<forall>e\<in>set (bufs c). asked mid e"
  obtains ch' es where "probe_cache mid clt False CACHE_BATCH_SIZE (ch, c) = Inr (ch', c\<lparr>bufs := es\<rparr>)"
    "cache_sized ch'" "entries_ok es" "\<forall>e\<in>set es. told mid CACHE_OP_BRC e"
proof -
  let ?ops = "map (\<lambda>e. (e_op e, e_resp e)) (bufs c)"
  have len: "length (bufs c) = CACHE_BATCH_SIZE" using assms(2) by (simp add: entries_ok_def)
  have q: "\<forall>(op, r)\<in>set ?ops. skipped r \<or> (\<forall>e. kv_abs (hash_table ch) (key op) = Some e \<longrightarrow> sc_op_ok (val_len e) op)"
  proof clarsimp
    fix e x assume e: "e \<in> set (bufs c)" and x: "kv_abs (hash_table ch) (key (e_op e)) = Some x"
    have "unat (val_len x) = HERD_VALUE_SIZE" using assms(1) x by (auto simp: cache_sized_def)
    moreover have "length (value (e_op e)) = MICA_MAX_VALUE" "asked mid e" using assms(2,3) e by (auto simp: entries_ok_def)
    ultimately show "sc_op_ok (val_len x) (e_op e)"
      by (auto simp: sc_op_ok_def asked_def plain_def word_unat_eq_iff HERD_VALUE_SIZE_eq MICA_MAX_VALUE_eq)
  qed
  have ok: "cache_ok ch" using assms(1) by (simp add: cache_sized_def)
  obtain ch' out where b: "cache_batch_op_sc mid clt ?ops ch = Inr (ch', out)" "cache_ok ch'" "length out = length ?ops"
    "\<forall>k. map_option val_len (kv_abs (hash_table ch') k) = map_option val_len (kv_abs (hash_table ch) k)"
    using sc_batch_total[OF ok _ q, of mid clt] len by auto
  let ?es = "with_answers (bufs c) out"
  have es: "?es ! j = (bufs c ! j)\<lparr>e_op := fst (out ! j), e_resp := snd (out ! j)\<rparr>" "length ?es = CACHE_BATCH_SIZE"
    if "j < CACHE_BATCH_SIZE" for j
    using b(3) len that by (simp_all add: with_answers_def case_prod_beta)
  have t: "told mid CACHE_OP_BRC (?es ! j) \<and> length (value (e_op (?es ! j))) = MICA_MAX_VALUE" if j: "j < CACHE_BATCH_SIZE" for j
  proof -
    have a: "answered (sc_handler mid) skipped (e_op (bufs c ! j), e_resp (bufs c ! j)) (fst (out ! j), snd (out ! j))"
      using list_all2_nthD[OF sc_batch_answered[OF b(1)], of j] j len by simp
    have k: "asked mid (bufs c ! j)" "length (value (e_op (bufs c ! j))) = MICA_MAX_VALUE"
      using assms(2,3) j len by (auto simp: entries_ok_def)
    show ?thesis using asked_told[OF k(1) a] k(2) es(1)[OF j] by simp
  qed
  have ln: "length ?es = CACHE_BATCH_SIZE" using es(2)[of 0] by (simp add: CACHE_BATCH_SIZE_def)
  have "probe_cache mid clt False CACHE_BATCH_SIZE (ch, c) = Inr (ch', c\<lparr>bufs := ?es\<rparr>)"
    using b(1) len by (simp add: probe_cache_def DISABLE_CACHE_def)
  moreover have "entries_ok ?es" "\<forall>e\<in>set ?es. told mid CACHE_OP_BRC e"
    using t ln by (auto simp: entries_ok_def in_set_conv_nth)
  ultimately show ?thesis using that cache_sized_kept[OF assms(1) b(2,4)] by blast
qed

lemma batch_from_trace_ok:
  assumes tr: "trace_ok mid tr" "it < cycle tr" "spread tr" and ch: "cache_sized ch"
    and c: "n \<le> CACHE_BATCH_SIZE" "entries_ok (bufs c)" "\<forall>e\<in>set (take n (bufs c)). unserved mid e" "0 \<le> u"
      "last_measured_op_i (latency_info c) < CACHE_BATCH_SIZE" "latency_ok (latency_count c)"
  obtains it' ch' c' st' where "batch_from_trace_to_cache mid b u clt tr False n it (ch, c, st) = Inr (it', ch', c', st')"
    "it' < cycle tr" "cache_sized ch'" "entries_ok (bufs c')" "\<forall>e\<in>set (bufs c'). told mid CACHE_OP_BRC e" "probed c c'"
proof -
  obtain m f c1 where f: "fill_loop mid b clt False tr (fill_start it n, untracked c) = Inr (f, c1)"
    "fl_i f = CACHE_BATCH_SIZE" "fl_iter f = (it + m) mod cycle tr" "framed n c c1" "entries_ok (bufs c1)"
    "length (hottest_keys_pointers c1) = HOTTEST_KEYS_TO_TRACK"
    "list_all2 made (kept {} (window tr it m)) (drop n (bufs c1))"
    by (rule refill_ok[OF tr c(1,2)])
  have "0 < cycle tr" using tr(2) by simp
  then have asked: "\<forall>e\<in>set (bufs c1). asked mid e"
    using refill_asked[OF tr(1) _ f(7)] c(3) f(4) by (metis framed_def)
  obtain ch' es where p: "probe_cache mid clt False CACHE_BATCH_SIZE (ch, c1) = Inr (ch', c1\<lparr>bufs := es\<rparr>)"
    "cache_sized ch'" "entries_ok es" "\<forall>e\<in>set es. told mid CACHE_OP_BRC e"
    by (rule probe_cache_ok[OF ch f(5) asked])
  let ?c2 = "c1\<lparr>bufs := es\<rparr>"
  have fr: "c1\<lparr>bufs := [], latency_info := latency_info c, hottest_keys_pointers := []\<rparr> = c\<lparr>bufs := [], hottest_keys_pointers := []\<rparr>"
    "last_measured_op_i (latency_info c1) < CACHE_BATCH_SIZE" using f(4) c(5) by (auto simp: framed_def)
  from arg_cong[OF fr(1), of latency_count] have lc: "latency_count c1 = latency_count c" by simp
  obtain li lc' where h: "hot_request_bookkeeping_for_latency_measurements u False (map (\<lambda>e. (e_op e, e_resp e)) es)
      (latency_info c1, latency_count c1) = Inr (li, lc')" "latency_ok lc'" "last_measured_op_i li = last_measured_op_i (latency_info c1)"
    using hot_request_bookkeeping_ok[of "latency_count c1" u "latency_info c1" "map (\<lambda>e. (e_op e, e_resp e)) es" False]
      c(4,6) lc fr(2) p(3) by (auto simp: entries_ok_def)
  let ?c3 = "?c2\<lparr>latency_info := li, latency_count := lc'\<rparr>"
  have mh: "measure_hot u False ?c2 = Inr ?c3" using h(1) by (simp add: measure_hot_def MEASURE_LATENCY_def DISABLE_CACHE_def)
  have "\<forall>e\<in>set (take n (bufs c)). carried_over e"
    using c(3) by (auto simp: unserved_def plain_def carried_over_def)
  moreover have "\<forall>e\<in>set (take CACHE_BATCH_SIZE es). rtype (e_resp e) \<noteq> RETRY"
    using p(4) by (fastforce simp: told_def dest: in_set_takeD)
  ultimately have "batch_from_trace_to_cache mid b u clt tr False n it (ch, c, st) =
      Inr (fl_iter f, ch', ?c3, \<lparr>empty_reqs_per_trace = 100 * int (fl_empty f),
        tot_empty_reqs_per_trace = tot_empty_reqs_per_trace st + 100 * int (fl_empty f)\<rparr>)"
    using f(1,2) p(1) mh
    by (simp add: batch_from_trace_to_cache_def Let_def ENABLE_HOT_KEY_TRACKING_def fill_start_def)
  moreover have "probed c ?c3"
  proof -
    have "?c3\<lparr>bufs := [], latency_info := latency_info c, latency_count := latency_count c, hottest_keys_pointers := []\<rparr> =
        (c1\<lparr>bufs := [], latency_info := latency_info c, hottest_keys_pointers := []\<rparr>)\<lparr>latency_count := latency_count c\<rparr>" by simp
    also have "\<dots> = c\<lparr>bufs := [], hottest_keys_pointers := []\<rparr>" unfolding fr(1) by simp
    finally show ?thesis using f(6) h(2,3) fr(2) by (simp add: probed_def)
  qed
  moreover have "fl_iter f < cycle tr" using f(3) \<open>0 < cycle tr\<close> by simp
  ultimately show ?thesis using that p(2-4) by simp
qed

section \<open>Hot writes become updates\<close>

definition to_update :: "entry \<Rightarrow> entry" where
  "to_update e = (if opcode (e_op e) = CACHE_OP_BRC then e\<lparr>e_op := (e_op e)\<lparr>opcode := CACHE_OP_UPD\<rparr>\<rparr> else e)"

lemma told_update: "told mid CACHE_OP_BRC e \<Longrightarrow> told mid CACHE_OP_UPD (to_update e)"
  by (auto simp: told_def to_update_def plain_def home_ok_def)

definition coh_ok :: "ctx \<Rightarrow> bool" where
  "coh_ok x \<longleftrightarrow> length (coh_buf x) = COH_BUF_SLOTS \<and> coh_buf_i x < COH_BUF_SLOTS"

text \<open>The part of the context that collecting the updates leaves alone.\<close>

definition collected :: "ctx \<Rightarrow> ctx \<Rightarrow> bool" where
  "collected x x' \<longleftrightarrow> bufferused x' = bufferused x \<and> cache_bufferused x' = cache_bufferused x \<and>
     reqs_in_transit x' = reqs_in_transit x \<and> update_ops x' = update_ops x \<and> update_resp x' = update_resp x \<and> coh_ok x'"

lemma broadcast_SC_ok:
  assumes "i < length (bufs c)" "length (cbatch x) < CACHE_BATCH_SIZE" "coh_ok x"
  shows "\<exists>x'. broadcast_SC i (c, x) = Inr (c\<lparr>bufs := (bufs c)[i := to_update (bufs c ! i)]\<rparr>, x') \<and> collected x x' \<and>
    length (cbatch x') \<le> length (cbatch x) + 1"
  using assms by (auto simp: broadcast_SC_def to_update_def add_cache_op_def assert_res_def update_at_def collected_def coh_ok_def
      MOD_ADD_WITH_BASE_def Let_def)

lemma broadcasts_SC_ok:
  assumes "distinct ms" "\<forall>m\<in>set ms. m < length (bufs c)" "length (cbatch x) + length ms \<le> CACHE_BATCH_SIZE" "coh_ok x"
  shows "\<exists>es x'. fold_res broadcast_SC ms (c, x) = Inr (c\<lparr>bufs := es\<rparr>, x') \<and> collected x x' \<and> length es = length (bufs c) \<and>
    (\<forall>j. es ! j = (if j \<in> set ms then to_update (bufs c ! j) else bufs c ! j))"
  using assms
proof (induction ms arbitrary: c x)
  case Nil
  then show ?case by (auto simp: collected_def intro!: exI[of _ "bufs c"])
next
  case (Cons m ms)
  let ?c = "c\<lparr>bufs := (bufs c)[m := to_update (bufs c ! m)]\<rparr>"
  obtain x1 where s: "broadcast_SC m (c, x) = Inr (?c, x1)" "collected x x1" "length (cbatch x1) \<le> length (cbatch x) + 1"
    using broadcast_SC_ok[of m c x] Cons.prems by auto
  have "coh_ok x1" using s(2) by (simp add: collected_def)
  then obtain es x' where f: "fold_res broadcast_SC ms (?c, x1) = Inr (?c\<lparr>bufs := es\<rparr>, x')" "collected x1 x'" "length es = length (bufs c)"
    "\<And>j. es ! j = (if j \<in> set ms then to_update (bufs ?c ! j) else bufs ?c ! j)"
    using Cons.IH[of ?c x1] Cons.prems s(3) by auto
  have "\<forall>j. es ! j = (if j \<in> set (m # ms) then to_update (bufs c ! j) else bufs c ! j)"
    using f(4) Cons.prems by (auto simp: nth_list_update)
  moreover have "collected x x'" using s(2) f(2) by (simp add: collected_def)
  ultimately show ?case using s(1) f(1,3) by (intro exI[of _ es] exI[of _ x']) simp
qed

lemma perform_broadcasts_ok:
  assumes "entries_ok (bufs c)" "\<forall>e\<in>set (bufs c). told mid CACHE_OP_BRC e" "cbatch x = []" "coh_ok x"
  obtains es x' where "perform_broadcasts_SC (c, x) = Inr (c\<lparr>bufs := es\<rparr>, x')" "collected x x'" "entries_ok es"
    "\<forall>e\<in>set es. told mid CACHE_OP_UPD e"
proof -
  have l: "length (bufs c) = CACHE_BATCH_SIZE" using assms(1) by (simp add: entries_ok_def)
  obtain es x' where e: "fold_res broadcast_SC [0 ..< CACHE_BATCH_SIZE] (c, x) = Inr (c\<lparr>bufs := es\<rparr>, x')" "collected x x'"
    "length es = CACHE_BATCH_SIZE" "\<And>j. j < CACHE_BATCH_SIZE \<Longrightarrow> es ! j = to_update (bufs c ! j)"
    using broadcasts_SC_ok[of "[0 ..< CACHE_BATCH_SIZE]" c x] assms(3,4) l by auto
  have "told mid CACHE_OP_UPD (es ! j) \<and> length (value (e_op (es ! j))) = MICA_MAX_VALUE" if "j < CACHE_BATCH_SIZE" for j
  proof -
    have "bufs c ! j \<in> set (bufs c)" using that l by simp
    then have "told mid CACHE_OP_BRC (bufs c ! j)" "length (value (e_op (bufs c ! j))) = MICA_MAX_VALUE"
      using assms(1,2) by (auto simp: entries_ok_def)
    then show ?thesis using told_update e(4)[OF that] by (simp add: to_update_def)
  qed
  then have "entries_ok es" "\<forall>e\<in>set es. told mid CACHE_OP_UPD e" using e(3) by (auto simp: entries_ok_def in_set_conv_nth)
  then show ?thesis using that e(1,2) by (simp add: perform_broadcasts_SC_def)
qed

section \<open>The walk over the batch\<close>

lemma no_shift: "HERD_VALUE_SIZE div 2 ^ SHIFT_BITS = HERD_VALUE_SIZE"
  by (simp add: config)

lemma told_ready: "told mid CACHE_OP_UPD e \<Longrightarrow> cold_ready SEQUENTIAL_CONSISTENCY mid e"
  by (auto simp: told_def cold_ready_def ready_def copyable_def plain_def home_ok_def hit_def SEQUENTIAL_CONSISTENCY_def
      LINEARIZABILITY_def no_shift)

lemma told_left_over:
  assumes "told mid CACHE_OP_UPD e" "left_over (retired_by SEQUENTIAL_CONSISTENCY) e e'" "same_request e e'" "rtype (e_resp e') \<noteq> EMPTY"
  shows "unserved mid e'"
  using assms by (auto simp: told_def left_over_def hit_def retired_by_def same_request_def unserved_def plain_def home_ok_def
      SEQUENTIAL_CONSISTENCY_def LINEARIZABILITY_def split: if_splits)

lemma request_of_unserved: "request_of e = request_of e' \<Longrightarrow> unserved mid e' \<Longrightarrow> unserved mid e"
  by (auto simp: request_of_def Let_def unserved_def plain_def home_ok_def)

lemma cold_inv_unserved:
  assumes "cold_inv (retired_by SEQUENTIAL_CONSISTENCY) es gid mid wn CACHE_BATCH_SIZE wr_i c" "\<forall>e\<in>set es. told mid CACHE_OP_UPD e"
    "e \<in> set (take (next_op_i c) (next_bufs c))"
  shows "unserved mid e"
proof -
  have l: "length es = CACHE_BATCH_SIZE" "length (bufs c) = CACHE_BATCH_SIZE" "take CACHE_BATCH_SIZE (bufs c) = bufs c"
    using assms(1) by (auto simp: cold_inv_def walk_ok_def entries_ok_def)
  have "map request_of (take (next_op_i c) (next_bufs c)) = map request_of (unfinished (bufs c))"
    using assms(1) l(3) unfolding cold_inv_def walk_ok_def by metis
  then have "request_of e \<in> set (map request_of (unfinished (bufs c)))" using assms(3) by (metis image_eqI list.set_map)
  then obtain e' where e': "e' \<in> set (unfinished (bufs c))" "request_of e = request_of e'" by auto
  then obtain j where j: "j < CACHE_BATCH_SIZE" "bufs c ! j = e'" "rtype (e_resp e') \<noteq> EMPTY"
    using l(2) by (auto simp: unfinished_def in_set_conv_nth)
  have "left_over (retired_by SEQUENTIAL_CONSISTENCY) (es ! j) e'" "same_request (es ! j) e'"
    using assms(1) j l list_all2_nthD[of same_request es "bufs c" j] by (auto simp: cold_inv_def)
  moreover have "told mid CACHE_OP_UPD (es ! j)" using assms(2) j(1) l(1) by simp
  ultimately show ?thesis using told_left_over j(3) request_of_unserved[OF e'(2)] by blast
qed

section \<open>Buffers in use\<close>

text \<open>A buffer for a machine is in use from the message until the response, and
  \<open>reqs_in_transit\<close> counts the buffers in use.\<close>

definition buffers_ok :: "nat \<Rightarrow> nat list \<Rightarrow> bool" where
  "buffers_ok mid us \<longleftrightarrow> length us = MACHINE_NUM \<and> set us \<subseteq> {0, 1} \<and> us ! mid = 0"

definition ctx_ok :: "nat \<Rightarrow> ctx \<Rightarrow> bool" where
  "ctx_ok mid x \<longleftrightarrow> buffers_ok mid (bufferused x) \<and> buffers_ok mid (cache_bufferused x) \<and>
     reqs_in_transit x = int (sum_list (bufferused x)) + int (sum_list (cache_bufferused x)) \<and> coh_ok x \<and>
     length (update_ops x) = CACHE_BATCH_SIZE * sizeof_mica_op \<and> length (update_resp x) = CACHE_BATCH_SIZE"

abbreviation all_free :: "nat list \<Rightarrow> bool" where
  "all_free us \<equiv> us = replicate MACHINE_NUM 0"

lemma buffers_free: "buffers_ok mid us \<Longrightarrow> all_free us \<longleftrightarrow> sum_list us = 0"
  by (auto simp: buffers_ok_def sum_list_eq_0_iff intro!: replicate_eqI)

lemma buffer_taken:
  assumes "buffers_ok mid us" "m < MACHINE_NUM" "m \<noteq> mid" "us ! m = 0"
  shows "buffers_ok mid (us[m := 1])" "sum_list (us[m := 1]) = sum_list us + 1"
  using assms set_update_subset_insert[of us m 1] sum_list_update[of m us 1] by (auto simp: buffers_ok_def)

lemma buffer_released:
  assumes "buffers_ok mid us" "m < MACHINE_NUM" "us ! m = 1"
  shows "buffers_ok mid (us[m := 0])" "sum_list us = sum_list (us[m := 0]) + 1"
proof -
  have "us ! m \<le> sum_list us" using assms(1,2) by (simp add: buffers_ok_def elem_le_sum_list)
  then show "buffers_ok mid (us[m := 0])" "sum_list us = sum_list (us[m := 0]) + 1"
    using assms set_update_subset_insert[of us m 0] sum_list_update[of m us 0]
    by (auto simp: buffers_ok_def nth_list_update)
qed

lemma collected_ok: "ctx_ok mid x \<Longrightarrow> collected x x' \<Longrightarrow> ctx_ok mid x'"
  by (simp add: ctx_ok_def collected_def)

section \<open>Messages sent\<close>

lemma still_free: "m \<notin> set ms \<Longrightarrow> \<forall>k\<in>set ms. k < n \<and> us ! k = 0 \<Longrightarrow> \<forall>k\<in>set ms. k < n \<and> us[m := v] ! k = 0"
  by (metis nth_list_update_neq)

lemma broadcasts_ok:
  assumes "distinct ms" "\<forall>m\<in>set ms. m < MACHINE_NUM \<and> cache_bufferused x ! m = 0" "ctx_ok mid x"
  shows "\<exists>x' out'. fold_res (broadcast_to mid buf) ms (x, out) = Inr (x', out') \<and> ctx_ok mid x' \<and>
    bufferused x' = bufferused x"
  using assms
proof (induction ms arbitrary: x out)
  case (Cons m ms)
  show ?case
  proof (cases "m = mid")
    case True
    then show ?thesis using Cons.IH Cons.prems by (simp add: broadcast_to_eq)
  next
    case False
    let ?x = "x\<lparr>cache_bufferused := (cache_bufferused x)[m := 1], reqs_in_transit := reqs_in_transit x + 1\<rparr>"
    have "ctx_ok mid ?x" using buffer_taken[of mid "cache_bufferused x" m] Cons.prems False by (simp add: ctx_ok_def coh_ok_def)
    moreover have "\<forall>k\<in>set ms. k < MACHINE_NUM \<and> cache_bufferused ?x ! k = 0"
      using Cons.prems still_free[of m ms MACHINE_NUM "cache_bufferused x" 1] by simp
    ultimately show ?thesis using Cons.IH[of ?x "out @ [(m, buf)]"] Cons.prems False by (simp add: broadcast_to_eq)
  qed
qed simp

lemma broadcast_cache_ops_ok:
  assumes "ctx_ok mid x" "all_free (cache_bufferused x)"
  shows "\<exists>x' out. broadcast_cache_ops mid (c, x) = Inr (x', out) \<and> ctx_ok mid x' \<and> bufferused x' = bufferused x \<and> cbatch x' = []"
proof (cases "cbatch x = []")
  case False
  obtain x' out where f: "fold_res (broadcast_to mid (update_packet c x)) [0 ..< MACHINE_NUM] (x, []) = Inr (x', out)"
    "ctx_ok mid x'" "bufferused x' = bufferused x"
    using broadcasts_ok[of "[0 ..< MACHINE_NUM]" x mid "update_packet c x" "[]"] assms by auto
  have "ctx_ok mid (x'\<lparr>cbatch := []\<rparr>)" using f(2) by (simp add: ctx_ok_def coh_ok_def)
  then show ?thesis using False f by (simp add: broadcast_cache_ops_def)
qed (use assms in \<open>simp add: broadcast_cache_ops_def\<close>)

definition drained :: "nat \<Rightarrow> nat list \<Rightarrow> (nat \<times> nat) list list \<Rightarrow> ctx \<Rightarrow> (nat \<times> nat) list list \<Rightarrow> ctx \<Rightarrow> bool" where
  "drained mid ms b x b' x' \<longleftrightarrow> ctx_ok mid x' \<and> cbatch x' = cbatch x \<and> length b' = MACHINE_NUM \<and>
     (\<forall>m. b' ! m = (if m \<in> set ms \<and> m \<noteq> mid then [] else b ! m)) \<and> ((\<forall>m\<in>set ms. b ! m = []) \<longrightarrow> x' = x)"

lemma drained_skip:
  assumes "drained mid ms b x b' x'" "m = mid \<or> b ! m = []"
  shows "drained mid (m # ms) b x b' x'"
  using assms by (fastforce simp: drained_def)

lemma drained_send:
  assumes "drained mid ms (b[m := []]) (x\<lparr>bufferused := us, reqs_in_transit := n\<rparr>) b' x'" "m < length b" "m \<noteq> mid" "b ! m \<noteq> []"
  shows "drained mid (m # ms) b x b' x'"
proof -
  have "b' ! k = (if k \<in> set (m # ms) \<and> k \<noteq> mid then [] else b ! k)" for k
    using assms by (cases "k = m") (auto simp: drained_def)
  then show ?thesis using assms(1,4) unfolding drained_def by (metis list.set_intros(1) ctx.select_convs(4) ctx.update_convs(1,3) ctx.surjective)
qed

lemma sends_ok:
  assumes "distinct ms" "\<forall>m\<in>set ms. m < MACHINE_NUM \<and> bufferused x ! m = 0" "ctx_ok mid x" "length (batch c) = MACHINE_NUM"
  shows "\<exists>b x' out'. fold_res (send_request mid) ms ((c, x), out) = Inr ((c\<lparr>batch := b\<rparr>, x'), out') \<and>
    drained mid ms (batch c) x b x'"
  using assms
proof (induction ms arbitrary: c x out)
  case Nil
  then have "drained mid [] (batch c) x (batch c) x" by (simp add: drained_def)
  moreover have "fold_res (send_request mid) [] ((c, x), out) = Inr ((c\<lparr>batch := batch c\<rparr>, x), out)" by simp
  ultimately show ?case by blast
next
  case (Cons m ms)
  show ?case
  proof (cases "m \<noteq> mid \<and> batch c ! m \<noteq> []")
    case False
    have "fold_res (send_request mid) (m # ms) ((c, x), out) = fold_res (send_request mid) ms ((c, x), out)"
      using False by (auto simp: send_request_eq)
    then show ?thesis using Cons.IH[of x c out] Cons.prems False drained_skip[of mid ms "batch c" x _ _ m] by fastforce
  next
    case True
    let ?x = "x\<lparr>bufferused := (bufferused x)[m := 1], reqs_in_transit := reqs_in_transit x + 1\<rparr>"
    let ?c = "c\<lparr>batch := (batch c)[m := []]\<rparr>" and ?o = "out @ [(m, request_packet c m)]"
    have x: "ctx_ok mid ?x" using buffer_taken[of mid "bufferused x" m] Cons.prems True by (simp add: ctx_ok_def coh_ok_def)
    have f: "\<forall>k\<in>set ms. k < MACHINE_NUM \<and> bufferused ?x ! k = 0"
      using Cons.prems still_free[of m ms MACHINE_NUM "bufferused x" 1] by simp
    obtain b x' out' where r: "fold_res (send_request mid) ms ((?c, ?x), ?o) = Inr ((?c\<lparr>batch := b\<rparr>, x'), out')"
      "drained mid ms (batch ?c) ?x b x'" using Cons.IH[of ?x ?c ?o] Cons.prems f x by fastforce
    have "drained mid (m # ms) (batch c) x b x'" using drained_send[OF r(2)[simplified]] Cons.prems True by simp
    moreover have "fold_res (send_request mid) (m # ms) ((c, x), out) = Inr ((c\<lparr>batch := b\<rparr>, x'), out')"
      using r(1) True Cons.prems by (simp add: send_request_eq)
    ultimately show ?thesis by blast
  qed
qed

lemma send_requests_ok:
  assumes "ctx_ok mid x" "all_free (bufferused x)" "length (batch c) = MACHINE_NUM" "batch c ! mid = []"
  shows "\<exists>x' out. send_requests mid (c, x) = Inr ((c\<lparr>batch := replicate MACHINE_NUM []\<rparr>, x'), out) \<and> ctx_ok mid x' \<and>
    cbatch x' = cbatch x \<and> (sum_list (map length (batch c)) = 0 \<longrightarrow> x' = x)"
proof -
  obtain b x' out where s: "fold_res (send_request mid) [0 ..< MACHINE_NUM] ((c, x), []) = Inr ((c\<lparr>batch := b\<rparr>, x'), out)"
    "drained mid [0 ..< MACHINE_NUM] (batch c) x b x'"
    using sends_ok[of "[0 ..< MACHINE_NUM]" x mid c "[]"] assms by fastforce
  have d: "ctx_ok mid x'" "cbatch x' = cbatch x" "length b = MACHINE_NUM" "(\<forall>m < MACHINE_NUM. batch c ! m = []) \<longrightarrow> x' = x"
    using s(2) by (simp_all add: drained_def)
  have "b ! m = []" if "m < MACHINE_NUM" for m using s(2) assms(4) that by (simp add: drained_def)
  then have "b = replicate MACHINE_NUM []" using d(3) by (intro nth_equalityI) simp_all
  moreover have "x' = x" if "sum_list (map length (batch c)) = 0"
    using that d(4) assms(3) by (simp add: sum_list_eq_0_iff)
  ultimately show ?thesis using s(1) d(1,2) by (simp add: send_requests_def)
qed

section \<open>Messages received\<close>

text \<open>What the RPC library may deliver: a response to a message sent, once, and updates that
  another client sent, one to a message.\<close>

definition update_msg :: "u8 list \<Rightarrow> bool" where
  "update_msg msg \<longleftrightarrow> (\<exists>op. msg = op_bytes HERD_PUT_REQ_SIZE op \<and> full_value op \<and> opcode op = CACHE_OP_UPD \<and>
     even (version (op_meta op)) \<and> unat (val_len op) = HERD_VALUE_SIZE)"

fun event_ok :: "event \<Rightarrow> nat list \<times> nat list \<Rightarrow> bool" where
  "event_ok (Response m us) (u, v) \<longleftrightarrow> m < MACHINE_NUM \<and> u ! m = 1 \<and> us > 0"
| "event_ok (Cache_response m) (u, v) \<longleftrightarrow> m < MACHINE_NUM \<and> v ! m = 1"
| "event_ok (Update msg) (u, v) \<longleftrightarrow> update_msg msg"

fun freed :: "event \<Rightarrow> nat list \<times> nat list \<Rightarrow> nat list \<times> nat list" where
  "freed (Response m us) (u, v) = (u[m := 0], v)"
| "freed (Cache_response m) (u, v) = (u, v[m := 0])"
| "freed (Update msg) (u, v) = (u, v)"

fun events_ok :: "event list \<Rightarrow> nat list \<times> nat list \<Rightarrow> bool" where
  "events_ok [] s \<longleftrightarrow> True"
| "events_ok (ev # evs) s \<longleftrightarrow> event_ok ev s \<and> events_ok evs (freed ev s)"

text \<open>The polls deliver every response that is outstanding.\<close>

fun polls_ok :: "event list list \<Rightarrow> nat list \<times> nat list \<Rightarrow> bool" where
  "polls_ok [] s \<longleftrightarrow> all_free (fst s) \<and> all_free (snd s)"
| "polls_ok (evs # ps) s \<longleftrightarrow> all_free (fst s) \<and> all_free (snd s) \<or> events_ok evs s \<and> polls_ok ps (fold freed evs s)"

abbreviation in_use :: "ctx \<Rightarrow> nat list \<times> nat list" where
  "in_use x \<equiv> (bufferused x, cache_bufferused x)"

definition measured :: "client \<Rightarrow> client \<Rightarrow> bool" where
  "measured c c' \<longleftrightarrow> c'\<lparr>latency_info := latency_info c, latency_count := latency_count c\<rparr> = c \<and>
     last_measured_op_i (latency_info c') = last_measured_op_i (latency_info c) \<and>
     (latency_ok (latency_count c) \<longrightarrow> latency_ok (latency_count c'))"

lemma measured_trans: "measured a b \<Longrightarrow> measured b c \<Longrightarrow> measured a c"
proof -
  assume a: "measured a b" and b: "measured b c"
  have "c\<lparr>latency_info := latency_info a, latency_count := latency_count a\<rparr> =
      (c\<lparr>latency_info := latency_info b, latency_count := latency_count b\<rparr>)\<lparr>latency_info := latency_info a, latency_count := latency_count a\<rparr>" by simp
  also have "\<dots> = a" using a b by (simp add: measured_def)
  finally show ?thesis using a b by (simp add: measured_def)
qed

lemma req_cache_ok:
  assumes "cache_sized ch" "ctx_ok mid x" "update_msg msg"
  shows "\<exists>ch' x'. req_cache msg (ch, x) = Inr (ch', x') \<and> cache_sized ch' \<and> ctx_ok mid x' \<and> in_use x' = in_use x \<and> cbatch x' = cbatch x"
proof -
  obtain op where op: "msg = op_bytes 50 op" "full_value op" "opcode op = CACHE_OP_UPD" "even (version (op_meta op))"
    "unat (val_len op) = HERD_VALUE_SIZE" using assms(3) by (auto simp: update_msg_def sizes)
  have l: "length msg = 50" using op(1,2) by (simp add: op_bytes_length)
  have u: "length (update_ops x) = 38400" "length (update_ops x) = CACHE_BATCH_SIZE * sizeof_mica_op" "length (update_resp x) = CACHE_BATCH_SIZE"
    using assms(2) by (simp_all add: ctx_ok_def sizes CACHE_BATCH_SIZE_def)
  let ?mem = "msg @ drop 50 (update_ops x)" and ?op = "decode_op (msg @ take 14 (drop 50 (update_ops x)))"
  have w: "mem_write (update_ops x) 0 msg = Inr ?mem" "length ?mem = length (update_ops x)" using l u(1) by (simp_all add: mem_write_def)
  have ro: "received_ops 1 ?mem = [?op]" using l by (simp add: received_ops_def sizes upt_rec)
  have o': "key ?op = key op" "opcode ?op = CACHE_OP_UPD" "val_len ?op = val_len op" "length (value ?op) = MICA_MAX_VALUE"
    using decode_head[of 50 op] decode_value[OF op(2)] op l u(1) by (simp_all add: decode_op_def MICA_MAX_VALUE_eq)
  let ?ops = "zip [?op] (update_resp x)"
  have "sc_op_ok (val_len e) ?op" if "kv_abs (hash_table ch) (key ?op) = Some e" for e
  proof -
    have "unat (val_len e) = HERD_VALUE_SIZE" using assms(1) that by (auto simp: cache_sized_def)
    then show ?thesis using o' op by (auto simp: sc_op_ok_def word_unat_eq_iff HERD_VALUE_SIZE_eq MICA_MAX_VALUE_eq)
  qed
  then have q: "\<forall>(o1, r)\<in>set ?ops. skipped r \<or> (\<forall>e. kv_abs (hash_table ch) (key o1) = Some e \<longrightarrow> opcode o1 = CACHE_OP_UPD \<and> sc_op_ok (val_len e) o1)"
    using o'(2) by (auto dest!: set_zip_leftD)
  have ln: "length ?ops \<le> CACHE_BATCH_SIZE" by (simp add: CACHE_BATCH_SIZE_def)
  have "cache_ok ch" using assms(1) by (simp add: cache_sized_def)
  from sc_in_batch_total[OF this ln q] obtain ch' out where b: "cache_batch_op_sc_with_cache_op ?ops ch = Inr (ch', out)" "cache_ok ch'"
    "length out = length ?ops" "\<forall>k. map_option val_len (kv_abs (hash_table ch') k) = map_option val_len (kv_abs (hash_table ch) k)" by blast
  let ?x = "x\<lparr>received_updates_per_client := received_updates_per_client x + 1, update_ops := ?mem,
    update_resp := map snd out @ drop (length out) (update_resp x)\<rparr>"
  have "req_cache msg (ch, x) = Inr (ch', ?x)" using w(1) ro b(1) l by (simp add: req_cache_def sizes)
  moreover have "length out \<le> length (update_resp x)" using b(3) by simp
  then have "ctx_ok mid ?x" using assms(2) w(2) u(2,3) by (simp add: ctx_ok_def coh_ok_def)
  ultimately show ?thesis using cache_sized_kept[OF assms(1) b(2,4)] by fastforce
qed

lemma receive_response_ok:
  assumes "ctx_ok mid x" "m < MACHINE_NUM" "bufferused x ! m = 1" "us > 0" "latency_ok (latency_count c)"
  shows "\<exists>c' x'. receive_response mid clt us m (c, x) = Inr (c', x') \<and> measured c c' \<and> ctx_ok mid x' \<and>
    in_use x' = ((bufferused x)[m := 0], cache_bufferused x) \<and> cbatch x' = cbatch x"
proof -
  let ?x = "x\<lparr>bufferused := (bufferused x)[m := 0], reqs_in_transit := reqs_in_transit x - 1\<rparr>"
  have x: "ctx_ok mid ?x" using buffer_released[of mid "bufferused x" m] assms(1-3) by (simp add: ctx_ok_def coh_ok_def)
  obtain lc where lc: "bookkeep_latency us REMOTE_REQ (latency_count c) = Inr lc" "latency_ok lc"
    using bookkeep_latency_ok[OF assms(5), of us REMOTE_REQ] assms(4) by auto
  have "receive_response mid clt us m (c, x) = Inr (c, ?x) \<or>
      receive_response mid clt us m (c, x) =
        Inr (c\<lparr>latency_info := (latency_info c)\<lparr>measured_req_flag := NO_REQ\<rparr>, latency_count := lc\<rparr>, ?x)"
    using lc(1) assms(4) by (simp add: receive_response_def assert_res_def Let_def)
  then show ?thesis using x lc(2) by (auto simp: measured_def)
qed

lemma handle_event_ok:
  assumes "cache_sized ch" "ctx_ok mid x" "latency_ok (latency_count c)" "event_ok ev (in_use x)"
  shows "\<exists>ch' c' x'. handle_event mid clt ev (ch, c, x) = Inr (ch', c', x') \<and> cache_sized ch' \<and> measured c c' \<and> ctx_ok mid x' \<and>
    in_use x' = freed ev (in_use x) \<and> cbatch x' = cbatch x"
proof (cases ev)
  case (Response m us)
  then show ?thesis using receive_response_ok[OF assms(2), of m us c clt] assms by (auto simp: handle_event_def)
next
  case (Cache_response m)
  then show ?thesis using buffer_released[of mid "cache_bufferused x" m] assms
    by (simp add: handle_event_def cache_response_def ctx_ok_def coh_ok_def measured_def)
next
  case (Update msg)
  then show ?thesis using req_cache_ok[OF assms(1,2), of msg] assms by (fastforce simp: handle_event_def measured_def)
qed

lemma run_event_loop_ok:
  assumes "cache_sized ch" "ctx_ok mid x" "latency_ok (latency_count c)" "events_ok evs (in_use x)"
  shows "\<exists>ch' c' x'. run_event_loop_once mid clt evs (ch, c, x) = Inr (ch', c', x') \<and> cache_sized ch' \<and> measured c c' \<and> ctx_ok mid x' \<and>
    in_use x' = fold freed evs (in_use x) \<and> cbatch x' = cbatch x"
  using assms
proof (induction evs arbitrary: ch c x)
  case Nil
  then show ?case by (simp add: run_event_loop_once_def measured_def)
next
  case (Cons ev evs)
  obtain ch1 c1 x1 where s: "handle_event mid clt ev (ch, c, x) = Inr (ch1, c1, x1)" "cache_sized ch1" "measured c c1" "ctx_ok mid x1"
    "in_use x1 = freed ev (in_use x)" "cbatch x1 = cbatch x" using handle_event_ok[OF Cons.prems(1-3), of ev clt] Cons.prems(4) by auto
  have "latency_ok (latency_count c1)" "events_ok evs (in_use x1)" using s(3,5) Cons.prems(3,4) by (simp_all add: measured_def)
  from Cons.IH[OF s(2,4) this] obtain ch2 c2 x2 where "run_event_loop_once mid clt evs (ch1, c1, x1) = Inr (ch2, c2, x2)"
    "cache_sized ch2" "measured c1 c2" "ctx_ok mid x2" "in_use x2 = fold freed evs (in_use x1)" "cbatch x2 = cbatch x1" by blast
  then show ?case using s(1,5,6) measured_trans[OF s(3)] by (simp add: run_event_loop_once_def)
qed

lemma transit_free:
  assumes "ctx_ok mid x"
  shows "reqs_in_transit x > 0 \<longleftrightarrow> \<not> (all_free (bufferused x) \<and> all_free (cache_bufferused x))"
proof -
  have "reqs_in_transit x = int (sum_list (bufferused x)) + int (sum_list (cache_bufferused x))"
    "all_free (bufferused x) \<longleftrightarrow> sum_list (bufferused x) = 0" "all_free (cache_bufferused x) \<longleftrightarrow> sum_list (cache_bufferused x) = 0"
    using assms buffers_free[of mid "bufferused x"] buffers_free[of mid "cache_bufferused x"] unfolding ctx_ok_def by blast+
  then show ?thesis by linarith
qed

lemma wait_responses_ok:
  assumes "cache_sized ch" "ctx_ok mid x" "latency_ok (latency_count c)" "polls_ok ps (in_use x)"
  shows "\<exists>n ch' c' x'. wait_responses mid clt ps k (ch, c, x) = Inr (n, ch', c', x') \<and> cache_sized ch' \<and> measured c c' \<and>
    ctx_ok mid x' \<and> all_free (bufferused x') \<and> all_free (cache_bufferused x') \<and> cbatch x' = cbatch x"
  using assms
proof (induction ps arbitrary: k ch c x)
  case Nil
  then show ?case using transit_free[of mid x] by (simp add: measured_def)
next
  case (Cons evs ps)
  show ?case
  proof (cases "reqs_in_transit x > 0")
    case False
    then show ?thesis using transit_free[OF Cons.prems(2)] Cons.prems by (simp add: measured_def)
  next
    case True
    then have ev: "events_ok evs (in_use x)" "polls_ok ps (fold freed evs (in_use x))"
      using Cons.prems(4) transit_free[OF Cons.prems(2)] by auto
    obtain ch1 c1 x1 where s: "run_event_loop_once mid clt evs (ch, c, x) = Inr (ch1, c1, x1)" "cache_sized ch1" "measured c c1" "ctx_ok mid x1"
      "in_use x1 = fold freed evs (in_use x)" "cbatch x1 = cbatch x" using run_event_loop_ok[OF Cons.prems(1-3) ev(1), of clt] by blast
    have "latency_ok (latency_count c1)" "polls_ok ps (in_use x1)" using s(3,5) Cons.prems(3) ev(2) by (simp_all add: measured_def)
    from Cons.IH[OF s(2,4) this] show ?thesis using True s(1,6) measured_trans[OF s(3)] by fastforce
  qed
qed

section \<open>The turn\<close>

definition client_ok :: "nat \<Rightarrow> client \<Rightarrow> bool" where
  "client_ok mid c \<longleftrightarrow> entries_ok (bufs c) \<and> entries_ok (next_bufs c) \<and> next_op_i c \<le> CACHE_BATCH_SIZE \<and>
     (\<forall>e\<in>set (take (next_op_i c) (next_bufs c)). unserved mid e) \<and> length (remote_for_each_worker c) = WORKER_NUM \<and>
     \<not> local_latency_start_polling (local_measure c) \<and> last_measured_op_i (latency_info c) < CACHE_BATCH_SIZE \<and>
     latency_ok (latency_count c)"

text \<open>A client between two turns: nothing is collected, the requests left over from the last
  batch are unserved misses, the buffers in use are counted, and without requests sent in
  the last turn no request is outstanding.\<close>

definition thread_ok :: "nat \<Rightarrow> trace_command list \<Rightarrow> client_thread \<Rightarrow> bool" where
  "thread_ok mid tr t \<longleftrightarrow> client_ok mid (th_client t) \<and> batch (th_client t) = replicate MACHINE_NUM [] \<and>
     entries_ok (third_bufs t) \<and> th_trace_iter t < cycle tr \<and> ctx_ok mid (th_ctx t) \<and> cbatch (th_ctx t) = [] \<and>
     (th_wr_i t = 0 \<longrightarrow> all_free (bufferused (th_ctx t)))"

lemma measured_client: "measured c c' \<Longrightarrow> client_ok mid c \<Longrightarrow> client_ok mid c'"
  by (cases c; cases c') (simp add: measured_def client_ok_def)

lemma measured_batch: "measured c c' \<Longrightarrow> batch c' = batch c"
  by (cases c; cases c') (simp add: measured_def)

lemma probed_fields:
  "probed c c' \<Longrightarrow> next_bufs c' = next_bufs c \<and> batch c' = batch c \<and> remote_for_each_worker c' = remote_for_each_worker c \<and>
     local_measure c' = local_measure c"
  by (cases c; cases c') (simp add: probed_def)

definition reset_counters :: "client \<Rightarrow> client" where
  "reset_counters c = c\<lparr>rem_req_i := 0, next_op_i := 0, per_worker_outstanding := replicate WORKER_NUM 0\<rparr>"

lemma swap_fields:
  assumes "thread_ok mid tr t"
  shows "\<exists>nb tb r. swap_buffers t = t\<lparr>th_client := (th_client t)\<lparr>bufs := next_bufs (th_client t), next_bufs := nb\<rparr>, third_bufs := tb,
      outstanding_rem_reqs := r\<rparr> \<and> entries_ok nb \<and> entries_ok tb"
proof -
  obtain nb tb where "swap_ops (bufs (th_client t), next_bufs (th_client t), third_bufs t) = (next_bufs (th_client t), nb, tb)"
    "entries_ok nb" "entries_ok tb"
    using assms by (cases "CLIENT_ENABLE_INLINING = 1")
      (simp_all add: swap_ops_def swap_pointers_def circulate_pointers_def thread_ok_def client_ok_def)
  moreover from this(1) have "swap_buffers t = t\<lparr>th_client := (th_client t)\<lparr>bufs := next_bufs (th_client t), next_bufs := nb\<rparr>, third_bufs := tb,
      outstanding_rem_reqs := (if th_previous_wr_i t > 0 then outstanding_rem_reqs t - of_nat (th_previous_wr_i t)
        else outstanding_rem_reqs t)\<rparr>" by (simp only: swap_buffers_def Let_def prod.case)
  ultimately show ?thesis by blast
qed

lemma probe_turn_ok:
  assumes "trace_ok mid tr" "spread tr" "cache_sized ch" "thread_ok mid tr t" "0 \<le> t_hot inp"
  obtains ch' t' where "probe_turn mid clt tr inp (ch, swap_buffers t) = Inr (ch', t')" "cache_sized ch'"
    "cold_start (reset_counters (th_client t'))" "\<forall>e\<in>set (bufs (th_client t')). told mid CACHE_OP_UPD e" "entries_ok (third_bufs t')"
    "th_trace_iter t' < cycle tr" "collected (th_ctx t) (th_ctx t')" "th_wr_i t' = th_wr_i t"
proof -
  obtain b nb tb r where sw: "swap_buffers t = t\<lparr>th_client := (th_client t)\<lparr>bufs := b, next_bufs := nb\<rparr>, third_bufs := tb, outstanding_rem_reqs := r\<rparr>"
    "b = next_bufs (th_client t)" "entries_ok nb" "entries_ok tb" using swap_fields[OF assms(4)] by blast
  let ?c = "(th_client t)\<lparr>bufs := b, next_bufs := nb\<rparr>"
  have c: "next_op_i ?c \<le> CACHE_BATCH_SIZE" "entries_ok (bufs ?c)" "\<forall>e\<in>set (take (next_op_i ?c) (bufs ?c)). unserved mid e"
    "last_measured_op_i (latency_info ?c) < CACHE_BATCH_SIZE" "latency_ok (latency_count ?c)" "th_trace_iter t < cycle tr"
    using assms(4) sw(2) by (simp_all add: thread_ok_def client_ok_def)
  obtain it' ch' c1 st' where f: "batch_from_trace_to_cache mid (batches_per_client t) (t_hot inp) clt tr False (next_op_i ?c) (th_trace_iter t)
      (ch, ?c, th_trace_stats t) = Inr (it', ch', c1, st')" "it' < cycle tr" "cache_sized ch'" "entries_ok (bufs c1)"
    "\<forall>e\<in>set (bufs c1). told mid CACHE_OP_BRC e" "probed ?c c1"
    by (rule batch_from_trace_ok[OF assms(1) c(6) assms(2,3) c(1-3) assms(5) c(4,5)])
  have x: "cbatch (th_ctx t) = []" "coh_ok (th_ctx t)" using assms(4) by (simp_all add: thread_ok_def ctx_ok_def)
  obtain es x' where p: "perform_broadcasts_SC (c1, th_ctx t) = Inr (c1\<lparr>bufs := es\<rparr>, x')" "collected (th_ctx t) x'" "entries_ok es"
    "\<forall>e\<in>set es. told mid CACHE_OP_UPD e" by (rule perform_broadcasts_ok[OF f(4,5) x])
  have "\<forall>e\<in>set es. rtype (e_resp e) \<noteq> EMPTY" using p(4) by (fastforce simp: told_def)
  then have "cold_start (reset_counters (c1\<lparr>bufs := es\<rparr>))"
    using probed_fields[OF f(6)] f(6) p(3) sw(3) assms(4)
    by (simp add: cold_start_def reset_counters_def probed_def thread_ok_def client_ok_def)
  moreover have "probe_turn mid clt tr inp (ch, swap_buffers t) = Inr (ch', (swap_buffers t)\<lparr>th_client := c1\<lparr>bufs := es\<rparr>, th_ctx := x',
      th_trace_iter := it', th_trace_stats := st'\<rparr>)"
    using f(1) p(1) by (simp add: probe_turn_def sw(1) WRITE_RATIO_def DISABLE_CACHE_def)
  ultimately show ?thesis using that f(2,3) p(2,4) sw by simp
qed

lemma cold_turn_ok:
  assumes "mid < MACHINE_NUM" "cold_start (reset_counters (th_client t))" "\<forall>e\<in>set (bufs (th_client t)). told mid CACHE_OP_UPD e"
  obtains t' where "cold_turn mid clt lw gid inp t = Inr t'" "client_ok mid (th_client t')" "length (batch (th_client t')) = MACHINE_NUM"
    "batch (th_client t') ! mid = []" "sum_list (map length (batch (th_client t'))) = th_wr_i t'" "th_previous_wr_i t' = th_wr_i t"
    "th_ctx t' = th_ctx t" "third_bufs t' = third_bufs t" "th_trace_iter t' = th_trace_iter t"
proof -
  let ?c = "reset_counters (th_client t)"
  have p: "SEQUENTIAL_CONSISTENCY = SEQUENTIAL_CONSISTENCY \<or> SEQUENTIAL_CONSISTENCY = LINEARIZABILITY" by simp
  have b: "bufs ?c = bufs (th_client t)" by (simp add: reset_counters_def)
  then have r: "e \<in> set (bufs ?c) \<Longrightarrow> cold_ready SEQUENTIAL_CONSISTENCY mid e" for e using assms(3) told_ready by simp
  obtain wr_i c' where h: "handle_cold_requests SEQUENTIAL_CONSISTENCY mid clt lw gid (t_local inp) ?c = Inr (wr_i, c')"
    using handle_cold_requests_returns[OF assms(2,1) p r] by blast
  note inv = handle_cold_requests_inv[OF assms(2,1) p h]
  have u: "\<forall>e\<in>set (take (next_op_i c') (next_bufs c')). unserved mid e" using cold_inv_unserved[OF inv] assms(3) b by simp
  have i: "entries_ok (bufs c')" "entries_ok (next_bufs c')" "next_op_i c' = length (unfinished (take CACHE_BATCH_SIZE (bufs c')))"
    "length (batch c') = MACHINE_NUM" "sum_list (map length (batch c')) = wr_i" "batch c' ! mid = []"
    "length (remote_for_each_worker c') = WORKER_NUM" "\<not> local_latency_start_polling (local_measure c')"
    "last_measured_op_i (latency_info c') < CACHE_BATCH_SIZE" "latency_ok (latency_count c')"
    using inv unfolding cold_inv_def walk_ok_def sent_ok_def by blast+
  have "next_op_i c' \<le> CACHE_BATCH_SIZE" using i(1,3) unfinished_length[of "bufs c'"] by (simp add: entries_ok_def)
  then have k: "client_ok mid c'" "client_ok mid (c'\<lparr>rem_req_i := n\<rparr>)" for n using i u by (simp_all add: client_ok_def)
  have rc: "reset_counters c = c\<lparr>rem_req_i := 0, next_op_i := 0, per_worker_outstanding :=
      (if ENABLE_MULTI_BATCHES = 1 then per_worker_outstanding c else replicate WORKER_NUM 0)\<rparr>" for c
    by (simp add: reset_counters_def ENABLE_MULTI_BATCHES_def)
  have "\<exists>t'. cold_turn mid clt lw gid inp t = Inr t' \<and> (th_client t' = c' \<or> th_client t' = c'\<lparr>rem_req_i := wr_i\<rparr>) \<and> th_wr_i t' = wr_i \<and>
      th_previous_wr_i t' = th_wr_i t \<and> th_ctx t' = th_ctx t \<and> third_bufs t' = third_bufs t \<and> th_trace_iter t' = th_trace_iter t"
    using h by (simp add: cold_turn_def rc Let_def)
  then obtain t' where t': "cold_turn mid clt lw gid inp t = Inr t'" "th_client t' = c' \<or> th_client t' = c'\<lparr>rem_req_i := wr_i\<rparr>"
    "th_wr_i t' = wr_i" "th_previous_wr_i t' = th_wr_i t" "th_ctx t' = th_ctx t" "third_bufs t' = third_bufs t"
    "th_trace_iter t' = th_trace_iter t" by blast
  have "client_ok mid (th_client t')" "batch (th_client t') = batch c'" using t'(2) k by auto
  then show ?thesis using that[OF t'(1)] t'(3-7) i(4-6) by simp
qed

lemma wait_turn_ok:
  assumes "cache_sized ch" "client_ok mid (th_client t)" "ctx_ok mid (th_ctx t)"
    "th_previous_wr_i t > 0 \<longrightarrow> polls_ok (t_polls inp) (in_use (th_ctx t))"
    "th_previous_wr_i t = 0 \<longrightarrow> all_free (bufferused (th_ctx t)) \<and> all_free (cache_bufferused (th_ctx t))"
  obtains ch' c' x' st where "wait_turn mid clt inp (ch, t) = Inr (ch', t\<lparr>th_client := c', th_ctx := x', stalled_time_per_client := st\<rparr>)"
    "cache_sized ch'" "measured (th_client t) c'" "ctx_ok mid x'" "all_free (bufferused x')" "all_free (cache_bufferused x')"
proof (cases "th_previous_wr_i t > 0")
  case True
  have "latency_ok (latency_count (th_client t))" using assms(2) by (simp add: client_ok_def)
  then obtain n ch' c' x' where "wait_responses mid clt (t_polls inp) 0 (ch, th_client t, th_ctx t) = Inr (n, ch', c', x')" "cache_sized ch'"
    "measured (th_client t) c'" "ctx_ok mid x'" "all_free (bufferused x')" "all_free (cache_bufferused x')"
    using wait_responses_ok[OF assms(1,3)] assms(4) True by blast
  then show ?thesis using True that by (simp add: wait_turn_def)
next
  case False
  then have "wait_turn mid clt inp (ch, t) = Inr (ch, t\<lparr>th_client := th_client t, th_ctx := th_ctx t,
      stalled_time_per_client := stalled_time_per_client t\<rparr>)" by (simp add: wait_turn_def)
  from that[OF this assms(1)] show ?thesis using False assms by (simp add: measured_def)
qed

lemma send_turn_ok:
  assumes "client_ok mid (th_client t)" "length (batch (th_client t)) = MACHINE_NUM" "batch (th_client t) ! mid = []"
    "sum_list (map length (batch (th_client t))) = th_wr_i t" "entries_ok (third_bufs t)" "th_trace_iter t < cycle tr"
    "ctx_ok mid (th_ctx t)" "all_free (bufferused (th_ctx t))" "all_free (cache_bufferused (th_ctx t))"
  obtains t' us rs where "send_turn mid (ch, t) = Inr (ch, t', us, rs)" "thread_ok mid tr t'"
proof -
  obtain x1 us where b: "broadcast_cache_ops mid (th_client t, th_ctx t) = Inr (x1, us)" "ctx_ok mid x1" "bufferused x1 = bufferused (th_ctx t)"
    "cbatch x1 = []" using broadcast_cache_ops_ok[OF assms(7,9)] by blast
  have "all_free (bufferused x1)" using b(3) assms(8) by simp
  from send_requests_ok[OF b(2) this assms(2,3)] obtain x2 rs where s:
    "send_requests mid (th_client t, x1) = Inr (((th_client t)\<lparr>batch := replicate MACHINE_NUM []\<rparr>, x2), rs)" "ctx_ok mid x2" "cbatch x2 = []"
    "th_wr_i t = 0 \<longrightarrow> x2 = x1" using b(4) assms(4) by auto
  have "thread_ok mid tr (t\<lparr>th_client := (th_client t)\<lparr>batch := replicate MACHINE_NUM []\<rparr>, th_ctx := x2\<rparr>)"
    using assms(1,5,6,8) b(3) s(2-4) by (simp add: thread_ok_def client_ok_def)
  moreover have "send_turn mid (ch, t) = Inr (ch, t\<lparr>th_client := (th_client t)\<lparr>batch := replicate MACHINE_NUM []\<rparr>, th_ctx := x2\<rparr>, us, rs)"
    using b(1) s(1) by (simp add: send_turn_def)
  ultimately show ?thesis using that by blast
qed

text \<open>What the environment owes a turn: times are not negative; if requests were sent in the
  turn before, the polls deliver every outstanding response; if none were sent the client
  does not wait, and the buffers for updates must be free already.\<close>

definition inputs_ok :: "turn_input \<Rightarrow> client_thread \<Rightarrow> bool" where
  "inputs_ok inp t \<longleftrightarrow> 0 \<le> t_hot inp \<and> (th_wr_i t > 0 \<longrightarrow> polls_ok (t_polls inp) (in_use (th_ctx t))) \<and>
     (th_wr_i t = 0 \<longrightarrow> all_free (cache_bufferused (th_ctx t)))"

lemma turn_sends_ok:
  assumes m: "mid < MACHINE_NUM" and tr: "trace_ok mid tr" "spread tr" and ch: "cache_sized ch" and t: "thread_ok mid tr t"
    and inp: "inputs_ok inp t"
  obtains ch' t' us rs where "turn_sends mid clt lw gid tr inp (ch, t) = Inr (ch', t', us, rs)" "cache_sized ch'" "thread_ok mid tr t'"
proof -
  have hot: "0 \<le> t_hot inp" using inp by (simp add: inputs_ok_def)
  obtain ch1 t1 where p: "probe_turn mid clt tr inp (ch, swap_buffers t) = Inr (ch1, t1)" "cache_sized ch1"
    "cold_start (reset_counters (th_client t1))" "\<forall>e\<in>set (bufs (th_client t1)). told mid CACHE_OP_UPD e" "entries_ok (third_bufs t1)"
    "th_trace_iter t1 < cycle tr" "collected (th_ctx t) (th_ctx t1)" "th_wr_i t1 = th_wr_i t"
    by (rule probe_turn_ok[OF tr ch t hot])
  obtain t2 where c: "cold_turn mid clt lw gid inp t1 = Inr t2" "client_ok mid (th_client t2)" "length (batch (th_client t2)) = MACHINE_NUM"
    "batch (th_client t2) ! mid = []" "sum_list (map length (batch (th_client t2))) = th_wr_i t2" "th_previous_wr_i t2 = th_wr_i t1"
    "th_ctx t2 = th_ctx t1" "third_bufs t2 = third_bufs t1" "th_trace_iter t2 = th_trace_iter t1"
    by (rule cold_turn_ok[OF m p(3,4)])
  have x: "ctx_ok mid (th_ctx t2)" "in_use (th_ctx t2) = in_use (th_ctx t)"
    using collected_ok[OF _ p(7)] t p(7) c(7) by (simp_all add: thread_ok_def collected_def)
  have w: "th_previous_wr_i t2 > 0 \<longrightarrow> polls_ok (t_polls inp) (in_use (th_ctx t2))"
    "th_previous_wr_i t2 = 0 \<longrightarrow> all_free (bufferused (th_ctx t2)) \<and> all_free (cache_bufferused (th_ctx t2))"
    using inp t x(2) c(6) p(8) by (simp_all add: inputs_ok_def thread_ok_def)
  obtain ch3 c3 x3 st where wt: "wait_turn mid clt inp (ch1, t2) = Inr (ch3, t2\<lparr>th_client := c3, th_ctx := x3, stalled_time_per_client := st\<rparr>)"
    "cache_sized ch3" "measured (th_client t2) c3" "ctx_ok mid x3" "all_free (bufferused x3)" "all_free (cache_bufferused x3)"
    by (rule wait_turn_ok[OF p(2) c(2) x(1) w])
  let ?t3 = "t2\<lparr>th_client := c3, th_ctx := x3, stalled_time_per_client := st\<rparr>"
  note b = measured_batch[OF wt(3)] measured_client[OF wt(3) c(2)]
  obtain t4 us rs where s: "send_turn mid (ch3, ?t3) = Inr (ch3, t4, us, rs)" "thread_ok mid tr t4"
    by (rule send_turn_ok[of mid ?t3 tr ch3]) (use b c p(5,6) wt(4-6) in simp_all)
  show ?thesis using that[of ch3 t4 us rs] p(1) c(1) wt(1,2) s by (simp add: turn_sends_def)
qed

lemma freed_free: "all_free (fst s) \<Longrightarrow> all_free (fst (fold freed evs s))"
proof (induction evs arbitrary: s)
  case (Cons ev evs)
  have "(replicate MACHINE_NUM 0)[m := 0] = replicate MACHINE_NUM (0 :: nat)" for m
    by (metis list_update_id nth_replicate list_update_beyond length_replicate not_le)
  then have "all_free (fst (freed ev s))" using Cons.prems by (cases "(ev, s)" rule: freed.cases) auto
  then show ?case using Cons.IH by simp
qed simp

lemma client_turn_ok:
  assumes "turn_sends mid clt lw gid tr inp s = Inr (ch1, t1, us, rs)" "cache_sized ch1" "thread_ok mid tr t1"
    "events_ok evs (in_use (th_ctx t1))"
  obtains ch' t' where "client_turn mid clt lw gid tr inp evs s = Inr (ch', t', us, rs)" "cache_sized ch'" "thread_ok mid tr t'"
proof -
  have "ctx_ok mid (th_ctx t1)" "latency_ok (latency_count (th_client t1))" using assms(3) by (simp_all add: thread_ok_def client_ok_def)
  from run_event_loop_ok[OF assms(2) this assms(4)] obtain ch' c' x' where
    e: "run_event_loop_once mid clt evs (ch1, th_client t1, th_ctx t1) = Inr (ch', c', x')" "cache_sized ch'" "measured (th_client t1) c'"
    "ctx_ok mid x'" "in_use x' = fold freed evs (in_use (th_ctx t1))" "cbatch x' = cbatch (th_ctx t1)" by blast
  have "all_free (bufferused (th_ctx t1)) \<longrightarrow> all_free (bufferused x')" using freed_free[of "in_use (th_ctx t1)" evs] e(5) by (metis fst_conv)
  then have "thread_ok mid tr (t1\<lparr>th_client := c', th_ctx := x'\<rparr>)"
    using assms(3) e(4,6) measured_batch[OF e(3)] measured_client[OF e(3)] by (simp add: thread_ok_def)
  moreover have "client_turn mid clt lw gid tr inp evs s = Inr (ch', t1\<lparr>th_client := c', th_ctx := x'\<rparr>, us, rs)"
    using assms(1) e(1) by (simp add: client_turn_def)
  ultimately show ?thesis using that e(2) by blast
qed

subsection \<open>A run of the loop\<close>

inductive turns :: "nat \<Rightarrow> nat \<Rightarrow> nat \<Rightarrow> u32 \<Rightarrow> trace_command list \<Rightarrow> cache \<times> client_thread \<Rightarrow> cache \<times> client_thread \<Rightarrow> bool"
  for mid clt lw gid tr s0 where
  none: "turns mid clt lw gid tr s0 s0"
| one_more: "turns mid clt lw gid tr s0 (ch, t) \<Longrightarrow> inputs_ok inp t \<Longrightarrow>
     turn_sends mid clt lw gid tr inp (ch, t) = Inr (ch1, t1, us, rs) \<Longrightarrow> events_ok evs (in_use (th_ctx t1)) \<Longrightarrow>
     client_turn mid clt lw gid tr inp evs (ch, t) = Inr (ch', t', us, rs) \<Longrightarrow> turns mid clt lw gid tr s0 (ch', t')"

lemma turns_ok:
  assumes "turns mid clt lw gid tr s0 s" "mid < MACHINE_NUM" "trace_ok mid tr" "spread tr" "cache_sized (fst s0)" "thread_ok mid tr (snd s0)"
  shows "cache_sized (fst s) \<and> thread_ok mid tr (snd s)"
  using assms
proof (induction rule: turns.induct)
  case (one_more ch t inp ch1 t1 us rs evs ch' t')
  then have k: "cache_sized ch" "thread_ok mid tr t" by simp_all
  obtain ch2 t2 us2 rs2 where "turn_sends mid clt lw gid tr inp (ch, t) = Inr (ch2, t2, us2, rs2)" "cache_sized ch2" "thread_ok mid tr t2"
    by (rule turn_sends_ok[OF one_more.prems(1-3) k one_more.hyps(2)])
  then have s1: "cache_sized ch1" "thread_ok mid tr t1" using one_more.hyps(3) by simp_all
  obtain ch3 t3 where "client_turn mid clt lw gid tr inp evs (ch, t) = Inr (ch3, t3, us, rs)" "cache_sized ch3" "thread_ok mid tr t3"
    by (rule client_turn_ok[OF one_more.hyps(3) s1 one_more.hyps(4)])
  then show ?case using one_more.hyps(5) by simp
qed simp


lemma demo_slots: "0 < COH_BUF_SLOTS"
  by (simp add: config)

definition demo_thread :: client_thread where
  "demo_thread = \<lparr>th_client = demo_client, th_ctx = demo_ctx\<lparr>coh_buf := replicate COH_BUF_SLOTS (e_op (demo_entry EMPTY)),
       update_resp := replicate CACHE_BATCH_SIZE (e_resp (demo_entry EMPTY))\<rparr>,
     third_bufs = replicate CACHE_BATCH_SIZE (demo_entry EMPTY), th_trace_iter = 0,
     th_trace_stats = \<lparr>empty_reqs_per_trace = 0, tot_empty_reqs_per_trace = 0\<rparr>, th_wr_i = 0, th_previous_wr_i = 0,
     outstanding_rem_reqs = 0, remotes_per_client = 0, remote_messages_per_client = 0, batches_per_client = 0, wasted_loops = 0,
     stalled_time_per_client = 0\<rparr>"

lemma demo_thread_ok: "0 < cycle tr \<Longrightarrow> thread_ok 0 tr demo_thread"
  using demo_client_start(1) demo_machine(1) demo_slots
  by (simp add: thread_ok_def demo_thread_def client_ok_def cold_start_def ctx_ok_def buffers_ok_def demo_ctx_def coh_ok_def
      entries_ok_def demo_entry_def sum_list_replicate)


end
