(* ===== verification/Coherence.thy ===== *)
theory Coherence
  imports LIN_System Requests
begin

text \<open>
  Coherence messages and flow control of the linearizable client (\<open>inline_util.h\<close>,
  \<open>client-lin.c\<close>, \<open>util.c\<close>).  Invalidations, acknowledgements and updates arrive in a
  ring of slots; the client polls it, gives updates and acknowledgements to the cache
  first and invalidations after its own batch, queues the updates that a last
  acknowledgement allows and the acknowledgements that an invalidation asks for, and
  sends what the credits for the other machines allow.  For every slot it has emptied it
  owes its sender a credit.  The network card is a parameter: what it delivers into the
  ring and the credit messages that each poll of the credit queue finds are inputs, the
  messages posted to it are outputs.  The source runs all of it under the configuration
  test \<open>WRITE_RATIO > 0 && DISABLE_CACHE == 0\<close>, which holds here.  Credits keep
  their 8 bits; the counters of 16 bits are natural numbers, and the invariants of
  \<open>Flow_Control\<close> and \<open>Flow_System\<close> bound the sizes of the queues and the messages seen.
\<close>

section \<open>State\<close>

record coh_stats =
  received_acks :: nat
  received_updates :: nat
  received_invs :: nat
  sent_invs :: nat
  sent_updates :: nat
  sent_acks :: nat

text \<open>An operation without its value (\<open>struct small_cache_op\<close>) is an operation whose value
  is empty.  \<open>credit_recvs\<close> and \<open>coh_recvs\<close> count the receives posted for credits and
  for coherence messages.\<close>

record coherence =
  incoming_reqs :: "cache_op list"
  pull_ptr :: int
  push_ptr :: nat
  update_ops :: "cache_op list"
  update_resp :: "mica_resp list"
  inv_ops :: "cache_op list"
  inv_resp :: "mica_resp list"
  ack_bcast_ops :: "cache_op list"
  ack_push_ptr :: nat
  ack_pop_ptr :: nat
  ack_size :: nat
  inv_to_send_ops :: "cache_op list"
  inv_push_ptr :: nat
  inv_size :: nat
  credits :: "u8 list list"
  coh_message_count :: "nat list list"
  acks_seen :: "nat list"
  invs_seen :: "nat list"
  upds_seen :: "nat list"
  br_tx :: nat
  sent_ack_tx :: nat
  credit_tx :: nat
  credit_debug_cnt :: nat
  credit_recvs :: nat
  coh_recvs :: nat
  coh_buf :: "cache_op list"
  coh_buf_i :: nat
  stats :: coh_stats

definition small_op :: "cache_op \<Rightarrow> cache_op" where
  "small_op op = op\<lparr>val_len := 0, value := []\<rparr>"

section \<open>Initialisation\<close>

definition setup_credits :: "nat \<Rightarrow> u8 list list" where
  "setup_credits pr =
    (if pr = SEQUENTIAL_CONSISTENCY then [replicate MACHINE_NUM (of_nat SC_CREDITS)]
     else [replicate MACHINE_NUM (of_nat ACK_CREDITS), replicate MACHINE_NUM (of_nat INV_CREDITS),
           replicate MACHINE_NUM (of_nat UPD_CREDITS)])"

text \<open>The buffers as \<open>malloc\<close> returns them are arguments; the responses and the buffer of
  acknowledgements to send are set to \<open>EMPTY\<close>.\<close>

definition setup_coh_ops :: "cache_op list \<Rightarrow> cache_op list \<Rightarrow> cache_op list \<Rightarrow> cache_op list \<Rightarrow> mica_resp list \<Rightarrow> mica_resp list \<Rightarrow>
    cache_op list \<times> cache_op list \<times> cache_op list \<times> cache_op list \<times> mica_resp list \<times> mica_resp list" where
  "setup_coh_ops uops abops iops itsops ur ir =
    (uops, abops, iops, map (\<lambda>op. op\<lparr>opcode := EMPTY\<rparr>) itsops, map (\<lambda>r. r\<lparr>rtype := EMPTY\<rparr>) ur, map (\<lambda>r. r\<lparr>rtype := EMPTY\<rparr>) ir)"

definition post_coh_recvs :: "nat \<Rightarrow> nat \<Rightarrow> nat \<times> nat \<Rightarrow> nat \<times> nat" where
  "post_coh_recvs cr slots = (\<lambda>(ptr, posted).
    (((\<lambda>p. HRD_MOD_ADD p slots) ^^ ((MACHINE_NUM - 1) * cr)) ptr, posted + (MACHINE_NUM - 1) * cr))"

section \<open>Polling the ring\<close>

record poll =
  p_upd :: nat
  p_ack :: nat
  p_inv :: nat
  p_msgs :: nat

definition incoming :: "coherence \<Rightarrow> cache_op" where
  "incoming s = incoming_reqs s ! nat ((pull_ptr s + 1) mod int LIN_CLT_BUF_SLOTS)"

definition next_slot :: "int \<Rightarrow> int" where
  "next_slot p = (if p + 1 = int LIN_CLT_BUF_SLOTS then 0 else p + 1)"

definition take_update :: "poll \<times> coherence \<Rightarrow> (poll \<times> coherence) result" where
  "take_update = (\<lambda>(p, s).
    let s = s\<lparr>pull_ptr := next_slot (pull_ptr s)\<rparr>; m = incoming_reqs s ! nat (pull_ptr s) in
    bind_res (update_at (p_upd p) (polled m) (update_ops s)) (\<lambda>u.
    assert_res (unat (cid (op_meta (u ! p_upd p))) < MACHINE_NUM)
    (let st = stats s in
     Inr (p\<lparr>p_upd := p_upd p + 1, p_ack := (if opcode m = CACHE_OP_ACK then p_ack p + 1 else p_ack p)\<rparr>,
      s\<lparr>update_ops := u, stats := (if ENABLE_STAT_COUNTING \<noteq> 1 then st
         else if opcode m = CACHE_OP_ACK then st\<lparr>received_acks := received_acks st + 1\<rparr>
         else st\<lparr>received_updates := received_updates st + 1\<rparr>)\<rparr>))))"

definition take_inv :: "poll \<times> coherence \<Rightarrow> (poll \<times> coherence) result" where
  "take_inv = (\<lambda>(p, s).
    let s = s\<lparr>pull_ptr := next_slot (pull_ptr s)\<rparr>; m = incoming_reqs s ! nat (pull_ptr s) in
    bind_res (update_at (p_inv p) (\<lambda>_. small_op m) (inv_ops s)) (\<lambda>u.
    assert_res (unat (cid (op_meta (u ! p_inv p))) < MACHINE_NUM)
    (let st = stats s in
     Inr (p\<lparr>p_inv := p_inv p + 1\<rparr>,
      s\<lparr>inv_ops := u, stats := (if ENABLE_STAT_COUNTING \<noteq> 1 then st else st\<lparr>received_invs := received_invs st + 1\<rparr>)\<rparr>))))"

definition clear_slot :: "coherence \<Rightarrow> coherence result" where
  "clear_slot s =
    assert_res (ENABLE_ASSERTIONS \<noteq> 1 \<or> pull_ptr s \<ge> 0)
    (bind_res (update_at (nat (pull_ptr s)) (\<lambda>m. m\<lparr>opcode := 0\<rparr>) (incoming_reqs s)) (\<lambda>rs. Inr (s\<lparr>incoming_reqs := rs\<rparr>)))"

function poll_loop :: "poll \<times> coherence \<Rightarrow> (poll \<times> coherence) result" where
  "poll_loop (p, s) =
    (if p_msgs p < BCAST_TO_CACHE_BATCH then
       let oc = opcode (incoming s) in
       if oc \<noteq> CACHE_OP_UPD \<and> oc \<noteq> CACHE_OP_ACK \<and> oc \<noteq> CACHE_OP_INV
       then assert_res (ENABLE_ASSERTIONS \<noteq> 1 \<or> oc = 0) (Inr (p, s))
       else if oc \<noteq> CACHE_OP_INV \<and> ack_size s + p_ack p = BCAST_TO_CACHE_BATCH then Inr (p, s)
       else if oc = CACHE_OP_INV \<and> inv_size s + p_inv p = BCAST_TO_CACHE_BATCH then Inr (p, s)
       else bind_res (if oc \<noteq> CACHE_OP_INV then take_update (p, s) else take_inv (p, s)) (\<lambda>(q, s).
         bind_res (clear_slot s) (\<lambda>s. poll_loop (q\<lparr>p_msgs := p_msgs p + 1\<rparr>, s)))
     else Inr (p, s))"
  by pat_completeness auto
termination
  by (relation "measure (\<lambda>(p, s). BCAST_TO_CACHE_BATCH - p_msgs p)") auto

declare poll_loop.simps [simp del]

definition poll_coherence_LIN :: "coherence \<Rightarrow> (poll \<times> coherence) result" where
  "poll_coherence_LIN s = poll_loop (\<lparr>p_upd = 0, p_ack = 0, p_inv = 0, p_msgs = 0\<rparr>, s)"

section \<open>Bookkeeping\<close>

definition count_message :: "nat \<Rightarrow> nat \<Rightarrow> coherence \<Rightarrow> coherence result" where
  "count_message vc rm s =
    (let cm = coh_message_count s in
     if vc < length cm \<and> rm < length (cm ! vc)
     then Inr (s\<lparr>coh_message_count := cm[vc := (cm ! vc)[rm := cm ! vc ! rm + 1]]\<rparr>)
     else Inl Out_Of_Bounds)"

definition wake_up_stalled :: "nat \<Rightarrow> coherence \<Rightarrow> client \<Rightarrow> client" where
  "wake_up_stalled index s c =
    (if rtype (update_resp s ! index) = CACHE_UPD_SUCCESS
     then c\<lparr>bufs := map (\<lambda>e. if keys_are_equal (key (update_ops s ! index)) (key (e_op e)) \<and>
              (rtype (e_resp e) = CACHE_GET_STALL \<or> rtype (e_resp e) = CACHE_PUT_STALL)
            then e\<lparr>e_resp := (e_resp e)\<lparr>rtype := RETRY\<rparr>\<rparr> else e) (bufs c)\<rparr>
     else c)"

definition report_latency_of_hot_write :: "int \<Rightarrow> nat \<Rightarrow> coherence \<Rightarrow> client \<Rightarrow> client result" where
  "report_latency_of_hot_write useconds index s c =
    (let k = key (update_ops s ! index); li = latency_info c in
     if keys_and_meta_are_equal k (key_to_measure li) then
       assert_res (ENABLE_ASSERTIONS = 0 \<or> useconds > 0)
       (bind_res (bookkeep_latency useconds HOT_WRITE_REQ (latency_count c)) (\<lambda>lc.
        Inr (c\<lparr>latency_count := lc, latency_info := li\<lparr>measured_req_flag := NO_REQ\<rparr>\<rparr>)))
     else if keys_are_equal k (key_to_measure li) \<and> version (meta k) > version (meta (key_to_measure li))
     then Inr (c\<lparr>latency_info := li\<lparr>measured_req_flag := NO_REQ\<rparr>\<rparr>)
     else Inr c)"

text \<open>The last acknowledgement of a write is queued as the update to broadcast.\<close>

definition queue_update :: "nat \<Rightarrow> coherence \<Rightarrow> coherence result" where
  "queue_update i s =
    assert_res (ENABLE_ASSERTIONS \<noteq> 1 \<or> opcode (ack_bcast_ops s ! ack_push_ptr s) \<noteq> CACHE_OP_ACK)
    (bind_res (update_at (ack_push_ptr s) (\<lambda>_. (update_ops s ! i)\<lparr>val_len := of_nat (HERD_VALUE_SIZE div 2 ^ SHIFT_BITS)\<rparr>)
        (ack_bcast_ops s)) (\<lambda>q.
     Inr (s\<lparr>ack_bcast_ops := q, ack_push_ptr := HRD_MOD_ADD (ack_push_ptr s) BCAST_TO_CACHE_BATCH,
       ack_size := ack_size s + 1\<rparr>)))"

definition update_or_ack :: "int \<Rightarrow> nat \<Rightarrow> coherence \<times> client \<Rightarrow> (coherence \<times> client) result" where
  "update_or_ack useconds i = (\<lambda>(s, c).
    let op = update_ops s ! i; rm = unat (cid (op_meta op)) in
    if opcode op = CACHE_OP_UPD then
      bind_res (count_message UPD_VC rm s) (\<lambda>s. Inr (s, if ENABLE_WAKE_UP = 1 then wake_up_stalled i s c else c))
    else if rtype (update_resp s ! i) = CACHE_LAST_ACK_SUCCESS then
      (let c = (if ENABLE_WAKE_UP = 1 then wake_up_stalled i s c else c) in
       bind_res (if MEASURE_LATENCY = 1 \<and> measured_req_flag (latency_info c) = HOT_WRITE_REQ
                 then report_latency_of_hot_write useconds i s c else Inr c) (\<lambda>c.
       bind_res (queue_update i s) (\<lambda>s. Inr (s, c))))
    else bind_res (count_message ACK_VC rm s) (\<lambda>s. Inr (s, c)))"

definition updates_and_acks_bookkeeping :: "int \<Rightarrow> nat \<Rightarrow> coherence \<times> client \<Rightarrow> (coherence \<times> client) result" where
  "updates_and_acks_bookkeeping useconds update_ops_i = fold_res (update_or_ack useconds) [0 ..< update_ops_i]"

text \<open>A successful invalidation takes a free slot of the buffer of acknowledgements to send.\<close>

definition free_slot :: "coherence \<Rightarrow> nat" where
  "free_slot s =
    (case find (\<lambda>i. opcode (inv_to_send_ops s ! ((inv_push_ptr s + i) mod BCAST_TO_CACHE_BATCH)) \<noteq> CACHE_OP_BRC)
       [0 ..< BCAST_TO_CACHE_BATCH] of
       Some i \<Rightarrow> (inv_push_ptr s + i) mod BCAST_TO_CACHE_BATCH
     | None \<Rightarrow> inv_push_ptr s)"

definition inv_bookkeeping :: "nat \<Rightarrow> coherence \<Rightarrow> coherence result" where
  "inv_bookkeeping j s =
    (let op = inv_ops s ! j in
     if rtype (inv_resp s ! j) \<noteq> CACHE_INV_SUCCESS then count_message INV_VC (unat (cid (op_meta op))) s
     else let s = s\<lparr>inv_push_ptr := free_slot s\<rparr> in
       assert_res (ENABLE_ASSERTIONS \<noteq> 1 \<or> opcode op \<noteq> CACHE_OP_BRC \<and> unat (cid (op_meta op)) \<le> MACHINE_NUM)
       (bind_res (update_at (inv_push_ptr s) (\<lambda>_. (small_op op)\<lparr>opcode := CACHE_OP_BRC\<rparr>) (inv_to_send_ops s)) (\<lambda>q.
        Inr (s\<lparr>inv_to_send_ops := q, inv_size := inv_size s + 1\<rparr>))))"

definition invs_bookkeeping :: "nat \<Rightarrow> coherence \<Rightarrow> coherence result" where
  "invs_bookkeeping inv_ops_i = fold_res inv_bookkeeping [0 ..< inv_ops_i]"

section \<open>Credits received\<close>

definition grant :: "nat \<Rightarrow> nat \<Rightarrow> nat \<Rightarrow> u8 list list \<Rightarrow> u8 list list result" where
  "grant vc rm n cr =
    (if vc < length cr \<and> rm < length (cr ! vc) then Inr (cr[vc := (cr ! vc)[rm := cr ! vc ! rm + of_nat n]])
     else Inl Out_Of_Bounds)"

text \<open>The immediate data of a credit message names the channel and the machine.\<close>

definition increment_credits :: "nat \<Rightarrow> nat \<Rightarrow> u8 list list \<Rightarrow> u8 list list result" where
  "increment_credits pr imm cr =
    (if pr = LINEARIZABILITY then
       if imm \<ge> 2 * MACHINE_NUM then grant UPD_VC (imm - 2 * MACHINE_NUM) CREDITS_IN_MESSAGE cr
       else if imm \<ge> MACHINE_NUM then grant INV_VC (imm - MACHINE_NUM) CREDITS_IN_MESSAGE cr
       else grant ACK_VC imm CREDITS_IN_MESSAGE cr
     else if pr = SEQUENTIAL_CONSISTENCY then grant SC_UPD_VC imm SC_CREDITS_IN_MESSAGE cr
     else Inr cr)"

definition increment_credits_based_on_protocol :: "nat \<Rightarrow> nat list \<Rightarrow> u8 list list \<Rightarrow> u8 list list result" where
  "increment_credits_based_on_protocol pr imms cr = fold_res (increment_credits pr) imms cr"

text \<open>A poll of the credit queue takes what has arrived: the first of the lists of messages.\<close>

definition poll_credits :: "nat \<Rightarrow> nat list list \<times> coherence \<Rightarrow> (nat list list \<times> coherence) result" where
  "poll_credits pr = (\<lambda>(polls, s). case polls of
      [] \<Rightarrow> Inr ([], s)
    | found # polls \<Rightarrow>
        bind_res (increment_credits_based_on_protocol pr found (credits s)) (\<lambda>cr. Inr (polls, s\<lparr>credits := cr\<rparr>)))"

definition poll_credits_LIN :: "nat list list \<times> coherence \<Rightarrow> (nat list list \<times> coherence) result" where
  "poll_credits_LIN = (\<lambda>(polls, s). case polls of
      [] \<Rightarrow> Inr ([], s)
    | found # polls \<Rightarrow>
        bind_res (fold_res (\<lambda>imm cr.
            if imm \<ge> 2 * MACHINE_NUM then grant UPD_VC (imm - 2 * MACHINE_NUM) CREDITS_IN_MESSAGE cr
            else if imm \<ge> MACHINE_NUM then grant INV_VC (imm - MACHINE_NUM) CREDITS_IN_MESSAGE cr
            else grant ACK_VC imm CREDITS_IN_MESSAGE cr) found (credits s)) (\<lambda>cr. Inr (polls, s\<lparr>credits := cr\<rparr>)))"

definition no_credit :: "nat \<Rightarrow> nat \<Rightarrow> coherence \<Rightarrow> bool" where
  "no_credit machine_id vc s \<longleftrightarrow> list_ex (\<lambda>j. j \<noteq> machine_id \<and> credits s ! vc ! j = 0) [0 ..< MACHINE_NUM]"

definition check_broadcast_credits :: "nat \<Rightarrow> nat \<Rightarrow> nat \<Rightarrow> nat list list \<times> coherence \<Rightarrow>
    (bool \<times> nat list list \<times> coherence) result" where
  "check_broadcast_credits machine_id pr vc = (\<lambda>(polls, s).
    bind_res (if no_credit machine_id vc s then poll_credits pr (polls, s) else Inr (polls, s)) (\<lambda>(polls, s).
    if no_credit machine_id vc s then Inr (False, polls, s\<lparr>credit_debug_cnt := credit_debug_cnt s + 1\<rparr>)
    else Inr (True, polls, s\<lparr>credit_debug_cnt := 0\<rparr>)))"

section \<open>Broadcasts\<close>

definition spend :: "nat \<Rightarrow> coherence \<Rightarrow> coherence" where
  "spend vc s = s\<lparr>credits := (credits s)[vc := map (\<lambda>n. n - 1) (credits s ! vc)]\<rparr>"

definition post_credit_recvs :: "nat \<Rightarrow> nat \<Rightarrow> coherence \<Rightarrow> coherence result" where
  "post_credit_recvs pr counter s =
    (let mx = (if pr = LINEARIZABILITY then MAX_CREDIT_RECVS else SC_MAX_CREDIT_RECVS) in
     if counter > 0 then
       assert_res (ENABLE_ASSERTIONS \<noteq> 1 \<or> counter * (MACHINE_NUM - 1) \<le> mx)
       (Inr (s\<lparr>credit_recvs := credit_recvs s + (MACHINE_NUM - 1) * counter\<rparr>))
     else Inr s)"

definition forge_inv :: "nat \<Rightarrow> nat \<Rightarrow> coherence \<times> client \<Rightarrow> cache_op \<times> coherence \<times> client" where
  "forge_inv machine_id op_i = (\<lambda>(s, c).
    let e = bufs c ! op_i;
        op = set_meta ((op_meta (e_op e))\<lparr>cid := of_nat machine_id\<rparr>) ((e_op e)\<lparr>opcode := CACHE_OP_INV\<rparr>)
    in (small_op op, s\<lparr>stats := (stats s)\<lparr>sent_invs := sent_invs (stats s) + 1\<rparr>\<rparr>,
        c\<lparr>bufs := (bufs c)[op_i := e\<lparr>e_op := op\<rparr>]\<rparr>))"

definition forge_upd :: "nat \<Rightarrow> coherence \<Rightarrow> (cache_op \<times> coherence) result" where
  "forge_upd machine_id s =
    (let op = ack_bcast_ops s ! ack_pop_ptr s in
     bind_res (count_message ACK_VC (unat (cid (op_meta op))) s) (\<lambda>s.
     let op = set_meta ((op_meta op)\<lparr>cid := of_nat machine_id\<rparr>) op in
     bind_res (update_at (ack_pop_ptr s) (\<lambda>_. op) (ack_bcast_ops s)) (\<lambda>q.
     bind_res (if CLIENT_ENABLE_INLINING = 0
               then assert_res (ENABLE_ASSERTIONS \<noteq> 1 \<or> coh_buf_i s < COH_BUF_SLOTS)
                 (bind_res (update_at (coh_buf_i s) (copy_op HERD_PUT_REQ_SIZE op) (coh_buf s)) (\<lambda>b.
                  Inr (s\<lparr>coh_buf := b, coh_buf_i := MOD_ADD_WITH_BASE (coh_buf_i s) COH_BUF_SLOTS 0\<rparr>)))
               else Inr s) (\<lambda>s.
     Inr (op\<lparr>value := take HERD_VALUE_SIZE (value op)\<rparr>,
       s\<lparr>ack_bcast_ops := q, ack_pop_ptr := HRD_MOD_ADD (ack_pop_ptr s) BCAST_TO_CACHE_BATCH,
         stats := (stats s)\<lparr>sent_updates := sent_updates (stats s) + 1\<rparr>\<rparr>)))))"

text \<open>The loop over the hot writes of the batch and then over the queued updates; \<open>n\<close> is the
  number of updates queued before it.\<close>

record bcast =
  b_br_i :: nat
  b_updates_sent :: nat
  b_credit_recv_counter :: nat
  b_polls :: "nat list list"
  b_out :: "cache_op list"

definition forge_bcast_wrs_LIN :: "nat \<Rightarrow> nat \<Rightarrow> bcast \<times> coherence \<times> client \<Rightarrow> (bcast \<times> coherence \<times> client) result" where
  "forge_bcast_wrs_LIN machine_id op_i = (\<lambda>(b, s, c).
    bind_res (if op_i < CACHE_BATCH_SIZE then Inr (0, forge_inv machine_id op_i (s, c))
              else bind_res (forge_upd machine_id s) (\<lambda>(m, s). Inr (1, m, s, c))) (\<lambda>(n, m, s, c).
    Inr (b\<lparr>b_updates_sent := b_updates_sent b + n, b_out := b_out b @ [m]\<rparr>, s\<lparr>br_tx := br_tx s + 1\<rparr>, c)))"

definition broadcast_one :: "nat \<Rightarrow> nat \<Rightarrow> nat \<Rightarrow> bcast \<times> coherence \<times> client \<Rightarrow> (bcast \<times> coherence \<times> client) result" where
  "broadcast_one machine_id vc op_i x =
    bind_res (forge_bcast_wrs_LIN machine_id op_i x) (\<lambda>(b, s, c).
    let s = spend vc s;
        k = (if br_tx s mod CREDITS_IN_MESSAGE = 0 then b_credit_recv_counter b + 1 else b_credit_recv_counter b) in
    if b_br_i b + 1 = MAX_BCAST_BATCH
    then bind_res (post_credit_recvs LINEARIZABILITY k s) (\<lambda>s. Inr (b\<lparr>b_br_i := 0, b_credit_recv_counter := 0\<rparr>, s, c))
    else Inr (b\<lparr>b_br_i := b_br_i b + 1, b_credit_recv_counter := k\<rparr>, s, c))"

definition mark_update :: "coherence \<Rightarrow> coherence result" where
  "mark_update s = bind_res (update_at (ack_pop_ptr s) (\<lambda>op. op\<lparr>opcode := CACHE_OP_UPD\<rparr>) (ack_bcast_ops s)) (\<lambda>q.
     Inr (s\<lparr>ack_bcast_ops := q\<rparr>))"

function bcast_loop :: "nat \<Rightarrow> nat \<Rightarrow> nat \<Rightarrow> bcast \<times> coherence \<times> client \<Rightarrow> (bcast \<times> coherence \<times> client) result" where
  "bcast_loop machine_id n op_i (b, s, c) =
    (if op_i < CACHE_BATCH_SIZE + n then
       if op_i < CACHE_BATCH_SIZE \<and> opcode (e_op (bufs c ! op_i)) \<noteq> CACHE_OP_BRC
       then bcast_loop machine_id n (op_i + 1) (b, s, c)
       else
         let vc = (if op_i < CACHE_BATCH_SIZE then INV_VC else UPD_VC) in
         bind_res (if op_i < CACHE_BATCH_SIZE then Inr s else mark_update s) (\<lambda>s.
         bind_res (check_broadcast_credits machine_id LINEARIZABILITY vc (b_polls b, s)) (\<lambda>(ok, polls, s).
         if \<not> ok then
           if op_i \<ge> CACHE_BATCH_SIZE then Inr (b\<lparr>b_polls := polls\<rparr>, s, c)
           else bcast_loop machine_id n CACHE_BATCH_SIZE (b\<lparr>b_polls := polls\<rparr>, s, c)
         else bind_res (broadcast_one machine_id vc op_i (b\<lparr>b_polls := polls\<rparr>, s, c)) (\<lambda>x.
           bcast_loop machine_id n (op_i + 1) x)))
     else Inr (b, s, c))"
  by pat_completeness auto
termination
  by (relation "measure (\<lambda>(_, n, op_i, _). CACHE_BATCH_SIZE + n - op_i)") auto

declare bcast_loop.simps [simp del]

definition perform_broadcasts_LIN :: "nat \<Rightarrow> nat list list \<Rightarrow> coherence \<times> client \<Rightarrow>
    (nat list list \<times> cache_op list \<times> coherence \<times> client) result" where
  "perform_broadcasts_LIN machine_id polls = (\<lambda>(s, c).
    bind_res (bcast_loop machine_id (ack_size s) 0
        (\<lparr>b_br_i = 0, b_updates_sent = 0, b_credit_recv_counter = 0, b_polls = polls, b_out = []\<rparr>, s, c)) (\<lambda>(b, s, c).
    bind_res (post_credit_recvs LINEARIZABILITY (b_credit_recv_counter b) s) (\<lambda>s.
    Inr (b_polls b, b_out b, s\<lparr>ack_size := ack_size s - b_updates_sent b\<rparr>, c))))"

section \<open>Acknowledgements\<close>

record acks_out =
  a_polls :: "nat list list"
  a_recv_counter :: nat
  a_out :: "(nat \<times> cache_op) list"

definition send_ack :: "nat \<Rightarrow> nat \<Rightarrow> acks_out \<times> coherence \<Rightarrow> (acks_out \<times> coherence) result" where
  "send_ack machine_id i = (\<lambda>(a, s).
    let op = inv_to_send_ops s ! i; rm = unat (cid (op_meta op)) in
    if opcode op \<noteq> CACHE_OP_BRC then Inr (a, s)
    else if rm \<ge> length (credits s ! ACK_VC) then Inl Out_Of_Bounds
    else bind_res (if credits s ! ACK_VC ! rm = 0 then poll_credits_LIN (a_polls a, s) else Inr (a_polls a, s)) (\<lambda>(polls, s).
      let a = a\<lparr>a_polls := polls\<rparr> in
      if credits s ! ACK_VC ! rm = 0 then Inr (a, s)
      else
        (let s = s\<lparr>credits := (credits s)[ACK_VC := (credits s ! ACK_VC)[rm := credits s ! ACK_VC ! rm - 1]]\<rparr> in
         bind_res (count_message INV_VC rm s) (\<lambda>s.
         let op = set_meta ((op_meta op)\<lparr>cid := of_nat machine_id\<rparr>) (op\<lparr>opcode := CACHE_OP_ACK\<rparr>) in
         bind_res (update_at i (\<lambda>_. op) (inv_to_send_ops s)) (\<lambda>q.
         Inr (a\<lparr>a_out := a_out a @ [(rm, op)],
             a_recv_counter := (if (sent_ack_tx s + 1) mod CREDITS_IN_MESSAGE = 0 then a_recv_counter a + 1 else a_recv_counter a)\<rparr>,
           s\<lparr>inv_to_send_ops := q, inv_size := inv_size s - 1, sent_ack_tx := sent_ack_tx s + 1,
             stats := (stats s)\<lparr>sent_acks := sent_acks (stats s) + 1\<rparr>\<rparr>))))))"

definition post_recvs_and_send :: "nat \<Rightarrow> nat \<Rightarrow> nat \<Rightarrow> nat \<Rightarrow> coherence \<Rightarrow> coherence result" where
  "post_recvs_and_send recv_counter sent max_recvs max_sends s =
    assert_res (recv_counter = 0 \<or> ENABLE_ASSERTIONS \<noteq> 1 \<or> recv_counter \<le> max_recvs)
    (assert_res (sent = 0 \<or> ENABLE_ASSERTIONS \<noteq> 1 \<or> recv_counter \<le> max_sends)
    (Inr (s\<lparr>credit_recvs := credit_recvs s + recv_counter\<rparr>)))"

definition send_acks :: "nat \<Rightarrow> nat list list \<Rightarrow> coherence \<Rightarrow> (nat list list \<times> (nat \<times> cache_op) list \<times> coherence) result" where
  "send_acks machine_id polls s =
    bind_res (fold_res (send_ack machine_id) [0 ..< BCAST_TO_CACHE_BATCH]
        (\<lparr>a_polls = polls, a_recv_counter = 0, a_out = []\<rparr>, s)) (\<lambda>(a, s).
    bind_res (post_recvs_and_send (a_recv_counter a) (length (a_out a)) MAX_CREDIT_RECVS BCAST_TO_CACHE_BATCH s) (\<lambda>s.
    Inr (a_polls a, a_out a, s)))"

section \<open>Credits sent\<close>

text \<open>Of the messages of a machine the acknowledgements come first, then the invalidations,
  then the updates.\<close>

definition channel_of :: "coherence \<Rightarrow> nat \<Rightarrow> nat \<Rightarrow> nat" where
  "channel_of s rm i =
    (if i < coh_message_count s ! ACK_VC ! rm then ACK_VC
     else if i < coh_message_count s ! INV_VC ! rm + coh_message_count s ! ACK_VC ! rm then INV_VC else UPD_VC)"

definition see :: "nat \<Rightarrow> nat \<Rightarrow> (nat \<Rightarrow> nat) \<Rightarrow> coherence \<Rightarrow> coherence" where
  "see vc rm f s =
    (if vc = ACK_VC then s\<lparr>acks_seen := (acks_seen s)[rm := f (acks_seen s ! rm)]\<rparr>
     else if vc = INV_VC then s\<lparr>invs_seen := (invs_seen s)[rm := f (invs_seen s ! rm)]\<rparr>
     else s\<lparr>upds_seen := (upds_seen s)[rm := f (upds_seen s ! rm)]\<rparr>)"

definition credit_for :: "nat \<Rightarrow> nat \<Rightarrow> nat \<Rightarrow> coherence \<times> (nat \<times> nat) list \<Rightarrow> (coherence \<times> (nat \<times> nat) list) result" where
  "credit_for machine_id rm i = (\<lambda>(s, out).
    let vc = channel_of s rm i; s = see vc rm (\<lambda>n. n + 1) s in
    if acks_seen s ! rm = CREDITS_IN_MESSAGE \<or> invs_seen s ! rm = CREDITS_IN_MESSAGE \<or> upds_seen s ! rm = CREDITS_IN_MESSAGE then
      if length out \<ge> MAX_CREDIT_WRS then Inl Out_Of_Bounds
      else let out = out @ [(rm, machine_id + vc * MACHINE_NUM)] in
        assert_res (ENABLE_ASSERTIONS \<noteq> 1 \<or> length out \<le> CREDIT_SS_BATCH - 1)
        (Inr (see vc rm (\<lambda>_. 0) (s\<lparr>credit_tx := credit_tx s + 1\<rparr>), out))
    else Inr (s, out))"

definition fc_message_count :: "coherence \<Rightarrow> nat \<Rightarrow> nat" where
  "fc_message_count s rm = coh_message_count s ! ACK_VC ! rm + coh_message_count s ! INV_VC ! rm + coh_message_count s ! UPD_VC ! rm"

definition forge_credits_LIN :: "nat \<Rightarrow> coherence \<Rightarrow> (coherence \<times> (nat \<times> nat) list) result" where
  "forge_credits_LIN machine_id s =
    fold_res (\<lambda>rm (s, out). fold_res (credit_for machine_id rm) [0 ..< fc_message_count s rm] (s, out)) [0 ..< MACHINE_NUM] (s, [])"

text \<open>Before credits are sent, a receive is posted for every message they allow.\<close>

definition send_credits :: "nat \<Rightarrow> nat \<Rightarrow> nat \<Rightarrow> coherence \<Rightarrow> coherence" where
  "send_credits credit_wr_i credits_in_message clt_buf_slots s =
    s\<lparr>push_ptr := ((\<lambda>p. HRD_MOD_ADD p clt_buf_slots) ^^ (credit_wr_i * credits_in_message)) (push_ptr s),
      coh_recvs := coh_recvs s + credit_wr_i * credits_in_message\<rparr>"

section \<open>The coherence part of a turn\<close>

text \<open>The parts of a turn of the loop before and after the client's own batch has gone to the
  cache.\<close>

definition take_messages :: "nat \<Rightarrow> int \<Rightarrow> cache \<times> coherence \<times> client \<Rightarrow> (nat \<times> cache \<times> coherence \<times> client) result" where
  "take_messages machine_id useconds = (\<lambda>(ch, s, c).
    bind_res (poll_coherence_LIN (s\<lparr>coh_message_count := replicate VIRTUAL_CHANNELS (replicate MACHINE_NUM 0)\<rparr>)) (\<lambda>(p, s).
    assert_res (ENABLE_ASSERTIONS \<noteq> 1 \<or> p_upd p \<le> BCAST_TO_CACHE_BATCH)
    (if p_upd p > 0 then
       bind_res (cache_batch_op_lin_with_cache_op machine_id (zip (take (p_upd p) (update_ops s)) (update_resp s)) ch) (\<lambda>(ch, out).
       bind_res (updates_and_acks_bookkeeping useconds (p_upd p)
           (s\<lparr>update_ops := map fst out @ drop (length out) (update_ops s),
              update_resp := map snd out @ drop (length out) (update_resp s)\<rparr>, c)) (\<lambda>(s, c).
       Inr (p_inv p, ch, s, c)))
     else Inr (p_inv p, ch, s, c))))"

definition take_invs :: "nat \<Rightarrow> nat \<Rightarrow> cache \<times> coherence \<Rightarrow> (cache \<times> coherence) result" where
  "take_invs machine_id inv_ops_i = (\<lambda>(ch, s).
    if inv_ops_i > 0 then
      bind_res (cache_batch_op_lin_with_small_cache_op machine_id (zip (take inv_ops_i (inv_ops s)) (inv_resp s)) ch) (\<lambda>(ch, out).
      bind_res (invs_bookkeeping inv_ops_i
          (s\<lparr>inv_ops := map fst out @ drop (length out) (inv_ops s),
             inv_resp := map snd out @ drop (length out) (inv_resp s)\<rparr>)) (\<lambda>s.
      Inr (ch, s)))
    else Inr (ch, s))"

definition send_messages :: "nat \<Rightarrow> nat list list \<Rightarrow> coherence \<times> client \<Rightarrow>
    (nat list list \<times> coherence \<times> client \<times> cache_op list \<times> (nat \<times> cache_op) list \<times> (nat \<times> nat) list) result" where
  "send_messages machine_id polls = (\<lambda>(s, c).
    bind_res (perform_broadcasts_LIN machine_id polls (s, c)) (\<lambda>(polls, bs, s, c).
    bind_res (if inv_size s > 0 then send_acks machine_id polls s else Inr (polls, [], s)) (\<lambda>(polls, acks, s).
    bind_res (forge_credits_LIN machine_id s) (\<lambda>(s, crs).
    Inr (polls, if length crs > 0 then send_credits (length crs) CREDITS_IN_MESSAGE LIN_CLT_BUF_SLOTS s else s, c, bs, acks, crs)))))"

definition debug_stalling_LIN :: "nat \<Rightarrow> nat \<times> bool \<Rightarrow> nat \<times> bool" where
  "debug_stalling_LIN stalled_ops = (\<lambda>(stalled_counter, stalled).
    let (k, st) = (if stalled_ops = CACHE_BATCH_SIZE \<and> \<not> stalled then (1, True) else (stalled_counter, stalled));
        (k, st) = (if stalled_ops < CACHE_BATCH_SIZE div 2 \<and> st then (0, False) else (k, st))
    in (if k > 0 then k + 1 else k, st))"

end
