(* ===== verification/Coherence_Correct.thy ===== *)
theory Coherence_Correct
  imports Coherence
begin

text \<open>
  What the coherence messages of the linearizable client guarantee.  Every message that is
  taken from the ring is accounted for exactly once: it is counted for a credit, or it
  holds a place in one of the two queues and is counted when it leaves.  With the credits
  the machines exchange this bounds the messages under way.
\<close>

section \<open>Counting\<close>

definition number :: "('a \<Rightarrow> bool) \<Rightarrow> 'a list \<Rightarrow> nat" where
  "number P xs = length (filter P xs)"

lemma number_simps [simp]:
  "number P [] = 0" "number P (x # xs) = (if P x then 1 else 0) + number P xs" "number P (xs @ ys) = number P xs + number P ys"
  by (simp_all add: number_def)

lemma number_update:
  "k < length xs \<Longrightarrow> number P (xs[k := x]) + (if P (xs ! k) then 1 else 0) = number P xs + (if P x then 1 else 0)"
proof (induction xs arbitrary: k)
  case (Cons y ys)
  then show ?case by (cases k) auto
qed simp

lemma number_take_Suc: "k < length xs \<Longrightarrow> number P (take (Suc k) xs) = number P (take k xs) + (if P (xs ! k) then 1 else 0)"
  by (simp add: take_Suc_conv_app_nth)

lemma number_le: "number P xs \<le> length xs"
  by (simp add: number_def)

lemma number_full: "number P xs < length xs \<Longrightarrow> \<exists>k < length xs. \<not> P (xs ! k)"
  by (metis filter_True in_set_conv_nth less_irrefl number_def)

lemma mod_less_neq:
  fixes B :: nat
  assumes "k < l" "l < B"
  shows "(p + l) mod B \<noteq> (p + k) mod B"
proof
  assume "(p + l) mod B = (p + k) mod B"
  then have "B dvd (p + l) - (p + k)" using assms(1) mod_eq_dvd_iff_nat[of "p + k" "p + l" B] by simp
  then show False using assms by (simp add: nat_dvd_not_less)
qed

lemma mod_inj:
  fixes B :: nat
  shows "(p + k) mod B = (p + l) mod B \<Longrightarrow> k < B \<Longrightarrow> l < B \<Longrightarrow> k = l"
  using mod_less_neq[of k l B p] mod_less_neq[of l k B p] by (cases k l rule: linorder_cases) auto

lemma batch_pos: "0 < BCAST_TO_CACHE_BATCH"
  by (simp add: BCAST_TO_CACHE_BATCH_def)

section \<open>Invariants of a client\<close>

abbreviation from_machine :: "cache_op \<Rightarrow> nat" where
  "from_machine op \<equiv> unat (cid (op_meta op))"

definition counts_ok :: "coherence \<Rightarrow> bool" where
  "counts_ok s \<longleftrightarrow> length (coh_message_count s) = 3 \<and> (\<forall>vc < 3. length (coh_message_count s ! vc) = MACHINE_NUM)"

text \<open>The queue of updates to broadcast is a ring; outside the queue no slot holds an
  acknowledgement.\<close>

definition pending :: "coherence \<Rightarrow> cache_op list" where
  "pending s = map (\<lambda>k. ack_bcast_ops s ! ((ack_pop_ptr s + k) mod BCAST_TO_CACHE_BATCH)) [0 ..< ack_size s]"

definition queue_ok :: "coherence \<Rightarrow> bool" where
  "queue_ok s \<longleftrightarrow> length (ack_bcast_ops s) = BCAST_TO_CACHE_BATCH \<and> ack_pop_ptr s < BCAST_TO_CACHE_BATCH \<and>
     ack_push_ptr s = (ack_pop_ptr s + ack_size s) mod BCAST_TO_CACHE_BATCH \<and> ack_size s \<le> BCAST_TO_CACHE_BATCH \<and>
     (\<forall>op\<in>set (pending s). from_machine op < MACHINE_NUM) \<and>
     (\<forall>k. ack_size s \<le> k \<and> k < BCAST_TO_CACHE_BATCH \<longrightarrow>
        opcode (ack_bcast_ops s ! ((ack_pop_ptr s + k) mod BCAST_TO_CACHE_BATCH)) \<noteq> CACHE_OP_ACK)"

definition asked_ack :: "cache_op \<Rightarrow> bool" where
  "asked_ack op \<longleftrightarrow> opcode op = CACHE_OP_BRC"

definition invs_ok :: "coherence \<Rightarrow> bool" where
  "invs_ok s \<longleftrightarrow> length (inv_to_send_ops s) = BCAST_TO_CACHE_BATCH \<and> inv_push_ptr s < BCAST_TO_CACHE_BATCH \<and>
     inv_size s = number asked_ack (inv_to_send_ops s) \<and>
     (\<forall>op\<in>set (inv_to_send_ops s). asked_ack op \<longrightarrow> from_machine op < MACHINE_NUM)"

text \<open>The messages of a machine on a channel that wait in a queue, and those plus the ones
  counted for credits.\<close>

definition held :: "coherence \<Rightarrow> nat \<Rightarrow> nat \<Rightarrow> nat" where
  "held s vc i =
    (if vc = ACK_VC then number (\<lambda>op. from_machine op = i) (pending s)
     else if vc = INV_VC then number (\<lambda>op. asked_ack op \<and> from_machine op = i) (inv_to_send_ops s) else 0)"

definition counted_or_held :: "coherence \<Rightarrow> nat \<Rightarrow> nat \<Rightarrow> nat" where
  "counted_or_held s vc i = coh_message_count s ! vc ! i + held s vc i"

lemma vcs [simp]: "ACK_VC = 0" "INV_VC = 1" "UPD_VC = 2"
  by (simp_all add: ACK_VC_def INV_VC_def UPD_VC_def)

section \<open>Bookkeeping\<close>

lemma count_message_ok:
  assumes "counts_ok s" "vc < 3" "rm < MACHINE_NUM"
  shows "\<exists>cm. count_message vc rm s = Inr (s\<lparr>coh_message_count := cm\<rparr>) \<and> counts_ok (s\<lparr>coh_message_count := cm\<rparr>) \<and>
    (\<forall>v i. cm ! v ! i = coh_message_count s ! v ! i + (if v = vc \<and> i = rm then 1 else 0))"
proof -
  let ?cm = "coh_message_count s"
  let ?n = "?cm[vc := (?cm ! vc)[rm := ?cm ! vc ! rm + 1]]"
  have l: "vc < length ?cm" "rm < length (?cm ! vc)" using assms by (auto simp: counts_ok_def)
  have "?n ! v ! i = ?cm ! v ! i + (if v = vc \<and> i = rm then 1 else 0)" for v i
    using l by (cases "v = vc"; cases "i = rm") auto
  moreover have "counts_ok (s\<lparr>coh_message_count := ?n\<rparr>)" using assms(1) l by (auto simp: counts_ok_def nth_list_update)
  moreover have "count_message vc rm s = Inr (s\<lparr>coh_message_count := ?n\<rparr>)" using l by (simp add: count_message_def Let_def)
  ultimately show ?thesis by blast
qed

lemma pending_push:
  assumes "queue_ok s" "ack_size s < BCAST_TO_CACHE_BATCH" "q = (ack_bcast_ops s)[ack_push_ptr s := op]"
  shows "pending (s\<lparr>ack_bcast_ops := q, ack_push_ptr := p, ack_size := ack_size s + 1\<rparr>) = pending s @ [op]"
proof -
  let ?B = BCAST_TO_CACHE_BATCH
  have pp: "ack_push_ptr s = (ack_pop_ptr s + ack_size s) mod ?B" "ack_push_ptr s < length (ack_bcast_ops s)"
    using assms(1) batch_pos by (auto simp: queue_ok_def)
  have "q ! ((ack_pop_ptr s + k) mod ?B) = ack_bcast_ops s ! ((ack_pop_ptr s + k) mod ?B)" if "k < ack_size s" for k
    using that assms(2,3) pp mod_less_neq[of k "ack_size s" ?B "ack_pop_ptr s"] by (simp add: nth_list_update_neq)
  moreover have "q ! ((ack_pop_ptr s + ack_size s) mod ?B) = op" using assms(3) pp by simp
  ultimately show ?thesis by (simp add: pending_def)
qed

lemma queue_update_ok:
  assumes "queue_ok s" "ack_size s < BCAST_TO_CACHE_BATCH" "from_machine (update_ops s ! i) < MACHINE_NUM"
  shows "\<exists>q op. queue_update i s = Inr (s\<lparr>ack_bcast_ops := q, ack_push_ptr := HRD_MOD_ADD (ack_push_ptr s) BCAST_TO_CACHE_BATCH,
      ack_size := ack_size s + 1\<rparr>) \<and>
    queue_ok (s\<lparr>ack_bcast_ops := q, ack_push_ptr := HRD_MOD_ADD (ack_push_ptr s) BCAST_TO_CACHE_BATCH, ack_size := ack_size s + 1\<rparr>) \<and>
    pending (s\<lparr>ack_bcast_ops := q, ack_push_ptr := HRD_MOD_ADD (ack_push_ptr s) BCAST_TO_CACHE_BATCH, ack_size := ack_size s + 1\<rparr>) =
      pending s @ [op] \<and> op = (update_ops s ! i)\<lparr>val_len := lin_len\<rparr>"
proof -
  let ?B = BCAST_TO_CACHE_BATCH and ?op = "(update_ops s ! i)\<lparr>val_len := lin_len\<rparr>"
  let ?q = "(ack_bcast_ops s)[ack_push_ptr s := ?op]"
  let ?s = "s\<lparr>ack_bcast_ops := ?q, ack_push_ptr := HRD_MOD_ADD (ack_push_ptr s) ?B, ack_size := ack_size s + 1\<rparr>"
  note pend = pending_push[OF assms(1,2) refl, where op = ?op and p = "HRD_MOD_ADD (ack_push_ptr s) ?B"]
  have k: "length (ack_bcast_ops s) = ?B" "ack_pop_ptr s < ?B" "ack_push_ptr s = (ack_pop_ptr s + ack_size s) mod ?B"
    "opcode (ack_bcast_ops s ! ((ack_pop_ptr s + ack_size s) mod ?B)) \<noteq> CACHE_OP_ACK"
    using assms(1,2) unfolding queue_ok_def by auto
  have p: "ack_push_ptr s < ?B" using k(3) batch_pos by simp
  have "queue_ok ?s" unfolding queue_ok_def pend
  proof (intro conjI allI impI)
    show "ack_push_ptr ?s = (ack_pop_ptr ?s + ack_size ?s) mod ?B"
      using p k(3) by (simp add: HRD_MOD_ADD_mod mod_Suc_eq)
    show "\<forall>op\<in>set (pending s @ [?op]). from_machine op < MACHINE_NUM" using assms(1,3) by (auto simp: queue_ok_def)
    fix j assume j: "ack_size ?s \<le> j \<and> j < ?B"
    then have "(ack_pop_ptr s + j) mod ?B \<noteq> ack_push_ptr s" using k(3) mod_less_neq[of "ack_size s" j ?B "ack_pop_ptr s"] by simp
    then show "opcode (ack_bcast_ops ?s ! ((ack_pop_ptr ?s + j) mod ?B)) \<noteq> CACHE_OP_ACK"
      using j assms(1) by (simp add: queue_ok_def nth_list_update_neq)
  qed (use k assms(2) in simp_all)
  moreover have "queue_update i s = Inr ?s" using k p by (simp add: queue_update_def update_at_def)
  ultimately show ?thesis using pend by blast
qed

text \<open>The channel of a message, and whether it is a message of a machine on a channel.\<close>

definition channel :: "cache_op \<Rightarrow> nat" where
  "channel op = (if opcode op = CACHE_OP_UPD then UPD_VC else if opcode op = CACHE_OP_INV then INV_VC else ACK_VC)"

lemma channel_less [simp]: "channel op < 3"
  by (simp add: channel_def)

definition sent_by :: "nat \<Rightarrow> nat \<Rightarrow> cache_op \<Rightarrow> bool" where
  "sent_by vc i op \<longleftrightarrow> channel op = vc \<and> from_machine op = i"

text \<open>What the bookkeeping of updates and acknowledgements leaves alone.\<close>

definition books :: "coherence \<Rightarrow> coherence \<Rightarrow> bool" where
  "books s s' \<longleftrightarrow> s'\<lparr>ack_bcast_ops := [], ack_push_ptr := 0, ack_size := 0, coh_message_count := []\<rparr> =
     s\<lparr>ack_bcast_ops := [], ack_push_ptr := 0, ack_size := 0, coh_message_count := []\<rparr>"

lemma books_refl [simp]: "books s s"
  by (simp add: books_def)

lemma books_trans [trans]: "books a b \<Longrightarrow> books b c \<Longrightarrow> books a c"
  by (simp add: books_def)

lemma books_update: "books s (s\<lparr>ack_bcast_ops := a, ack_push_ptr := b, ack_size := k, coh_message_count := d\<rparr>)"
  by (simp add: books_def)

lemma books_fields:
  assumes "books s s'"
  shows "update_ops s' = update_ops s" "update_resp s' = update_resp s" "inv_to_send_ops s' = inv_to_send_ops s" "inv_size s' = inv_size s"
    "inv_push_ptr s' = inv_push_ptr s" "ack_pop_ptr s' = ack_pop_ptr s" "credits s' = credits s" "inv_ops s' = inv_ops s"
    "inv_resp s' = inv_resp s" "incoming_reqs s' = incoming_reqs s" "pull_ptr s' = pull_ptr s" "acks_seen s' = acks_seen s"
    "invs_seen s' = invs_seen s" "upds_seen s' = upds_seen s" "coh_buf s' = coh_buf s" "coh_buf_i s' = coh_buf_i s"
  using assms by (cases s; cases s'; simp add: books_def)+

definition completes :: "coherence \<Rightarrow> nat \<Rightarrow> bool" where
  "completes s i \<longleftrightarrow> opcode (update_ops s ! i) \<noteq> CACHE_OP_UPD \<and> rtype (update_resp s ! i) = CACHE_LAST_ACK_SUCCESS"

lemma report_latency_ok:
  assumes "latency_ok (latency_count c)" "0 < us"
  shows "\<exists>c'. report_latency_of_hot_write us i s c = Inr c' \<and> latency_ok (latency_count c')"
  using bookkeep_latency_ok[OF assms(1), of us HOT_WRITE_REQ] assms by (auto simp: report_latency_of_hot_write_def Let_def)

lemma held_count [simp]: "held (s\<lparr>coh_message_count := cm\<rparr>) vc i = held s vc i" "pending (s\<lparr>coh_message_count := cm\<rparr>) = pending s"
  by (simp_all add: held_def pending_def)

lemma queue_count [simp]: "queue_ok (s\<lparr>coh_message_count := cm\<rparr>) = queue_ok s"
  by (simp add: queue_ok_def)

definition booked :: "coherence \<Rightarrow> nat \<Rightarrow> nat list \<Rightarrow> coherence \<Rightarrow> bool" where
  "booked s n is s' \<longleftrightarrow> queue_ok s' \<and> counts_ok s' \<and> books s s' \<and> ack_size s' \<le> ack_size s + n \<and>
     pending s' = pending s @ map (\<lambda>i. (update_ops s ! i)\<lparr>val_len := lin_len\<rparr>) (filter (completes s) is) \<and>
     (\<forall>vc r. counted_or_held s' vc r = counted_or_held s vc r + number (\<lambda>i. sent_by vc r (update_ops s ! i)) is)"

lemma update_or_ack_ok:
  assumes "queue_ok s" "counts_ok s" "from_machine (update_ops s ! i) < MACHINE_NUM" "opcode (update_ops s ! i) \<noteq> CACHE_OP_INV"
    "opcode (update_ops s ! i) \<noteq> CACHE_OP_UPD \<longrightarrow> ack_size s < BCAST_TO_CACHE_BATCH" "0 < us" "latency_ok (latency_count c)"
  shows "\<exists>s' c'. update_or_ack us i (s, c) = Inr (s', c') \<and> latency_ok (latency_count c') \<and>
    booked s (if opcode (update_ops s ! i) = CACHE_OP_UPD then 0 else 1) [i] s'"
proof -
  let ?op = "update_ops s ! i"
  obtain cm where cm: "count_message (channel ?op) (from_machine ?op) s = Inr (s\<lparr>coh_message_count := cm\<rparr>)"
    "counts_ok (s\<lparr>coh_message_count := cm\<rparr>)"
    "\<And>v r. cm ! v ! r = coh_message_count s ! v ! r + (if v = channel ?op \<and> r = from_machine ?op then 1 else 0)"
    using count_message_ok[OF assms(2) channel_less assms(3), of ?op] by blast
  show ?thesis
  proof (cases "completes s i")
    case False
    have "booked s (if opcode ?op = CACHE_OP_UPD then 0 else 1) [i] (s\<lparr>coh_message_count := cm\<rparr>)"
      using False assms(1) cm(2,3) by (auto simp: booked_def books_def counted_or_held_def sent_by_def)
    moreover have "\<exists>c'. update_or_ack us i (s, c) = Inr (s\<lparr>coh_message_count := cm\<rparr>, c') \<and> latency_ok (latency_count c')"
      using cm(1) False assms(4,7) by (auto simp: update_or_ack_def completes_def channel_def Let_def ENABLE_WAKE_UP_def)
    ultimately show ?thesis by blast
  next
    case True
    then have nu: "opcode ?op \<noteq> CACHE_OP_UPD" "rtype (update_resp s ! i) = CACHE_LAST_ACK_SUCCESS" by (simp_all add: completes_def)
    let ?S = "\<lambda>q. s\<lparr>ack_bcast_ops := q, ack_push_ptr := HRD_MOD_ADD (ack_push_ptr s) BCAST_TO_CACHE_BATCH, ack_size := ack_size s + 1\<rparr>"
    obtain q op where q: "queue_update i s = Inr (?S q)" "queue_ok (?S q)" "pending (?S q) = pending s @ [op]" "op = ?op\<lparr>val_len := lin_len\<rparr>"
      using queue_update_ok[OF assms(1) _ assms(3)] assms(5) nu by blast
    let ?s = "?S q"
    have ch: "channel ?op = ACK_VC" using nu(1) assms(4) by (simp add: channel_def)
    have "counts_ok ?s" using assms(2) by (simp add: counts_ok_def)
    then have "booked s 1 [i] ?s" using q(2-4) True ch
      by (auto simp: booked_def books_def counted_or_held_def sent_by_def held_def)
    moreover obtain c' where "(if MEASURE_LATENCY = 1 \<and> measured_req_flag (latency_info c) = HOT_WRITE_REQ
        then report_latency_of_hot_write us i s c else Inr c) = Inr c'" "latency_ok (latency_count c')"
      using report_latency_ok[OF assms(7,6), of i s] assms(7) by (cases "MEASURE_LATENCY = 1 \<and> measured_req_flag (latency_info c) = HOT_WRITE_REQ") auto
    then have "update_or_ack us i (s, c) = Inr (?s, c')" "latency_ok (latency_count c')"
      using nu q(1) by (simp_all add: update_or_ack_def Let_def ENABLE_WAKE_UP_def)
    ultimately show ?thesis using nu(1) by auto
  qed
qed

lemma booked_trans:
  assumes "booked s n xs s1" "booked s1 m ys s2"
  shows "booked s (n + m) (xs @ ys) s2"
proof -
  have b: "books s s1" using assms(1) by (simp add: booked_def)
  have "completes s1 = completes s" by (rule ext) (simp add: completes_def books_fields[OF b])
  then show ?thesis using assms books_trans[OF b] by (auto simp: booked_def books_fields(1)[OF b])
qed

lemma updates_and_acks_ok:
  assumes "queue_ok s" "counts_ok s" "0 < us" "latency_ok (latency_count c)" "n \<le> length (update_ops s)"
    "\<forall>op\<in>set (take n (update_ops s)). from_machine op < MACHINE_NUM \<and> opcode op \<noteq> CACHE_OP_INV"
    "ack_size s + number (\<lambda>op. opcode op \<noteq> CACHE_OP_UPD) (take n (update_ops s)) \<le> BCAST_TO_CACHE_BATCH"
  shows "\<exists>s' c'. updates_and_acks_bookkeeping us n (s, c) = Inr (s', c') \<and> latency_ok (latency_count c') \<and>
    booked s (number (\<lambda>op. opcode op \<noteq> CACHE_OP_UPD) (take n (update_ops s))) [0 ..< n] s'"
  using assms(5-7)
proof (induction n)
  case 0
  then show ?case using assms(1-4) by (auto simp: updates_and_acks_bookkeeping_def booked_def)
next
  case (Suc n)
  let ?u = "update_ops s" and ?k = "\<lambda>n. number (\<lambda>op. opcode op \<noteq> CACHE_OP_UPD) (take n (update_ops s))"
  have n: "n < length ?u" using Suc.prems(1) by simp
  have t: "take (Suc n) ?u = take n ?u @ [?u ! n]" using n by (simp add: take_Suc_conv_app_nth)
  obtain s1 c1 where s1: "updates_and_acks_bookkeeping us n (s, c) = Inr (s1, c1)" "latency_ok (latency_count c1)" "booked s (?k n) [0 ..< n] s1"
    using Suc.IH Suc.prems t by auto
  have b: "books s s1" and k: "queue_ok s1" "counts_ok s1" "ack_size s1 \<le> ack_size s + ?k n" using s1(3) by (simp_all add: booked_def)
  have "from_machine (update_ops s1 ! n) < MACHINE_NUM" "opcode (update_ops s1 ! n) \<noteq> CACHE_OP_INV"
    "opcode (update_ops s1 ! n) \<noteq> CACHE_OP_UPD \<longrightarrow> ack_size s1 < BCAST_TO_CACHE_BATCH"
    using Suc.prems(2,3) t k(3) by (auto simp: books_fields(1)[OF b])
  from update_or_ack_ok[OF k(1,2) this assms(3) s1(2)] obtain s2 c2 where
    s2: "update_or_ack us n (s1, c1) = Inr (s2, c2)" "latency_ok (latency_count c2)"
      "booked s1 (if opcode (?u ! n) = CACHE_OP_UPD then 0 else 1) [n] s2" by (auto simp: books_fields(1)[OF b])
  have "booked s (?k (Suc n)) [0 ..< Suc n] s2" using booked_trans[OF s1(3) s2(3)] t by (cases "opcode (?u ! n) = CACHE_OP_UPD") simp_all
  then show ?case using s1(1) s2(1,2) by (auto simp: updates_and_acks_bookkeeping_def fold_res_append)
qed

section \<open>Polling\<close>

definition live :: "cache_op \<Rightarrow> bool" where
  "live m \<longleftrightarrow> opcode m \<noteq> 0"

definition message_ok :: "cache_op \<Rightarrow> bool" where
  "message_ok m \<longleftrightarrow> opcode m \<in> {CACHE_OP_UPD, CACHE_OP_ACK, CACHE_OP_INV} \<and> from_machine m < MACHINE_NUM"

definition ring_ok :: "coherence \<Rightarrow> bool" where
  "ring_ok s \<longleftrightarrow> length (incoming_reqs s) = LIN_CLT_BUF_SLOTS \<and> -1 \<le> pull_ptr s \<and> pull_ptr s < int LIN_CLT_BUF_SLOTS \<and>
     (\<forall>m\<in>set (incoming_reqs s). live m \<longrightarrow> message_ok m)"

definition arrays_ok :: "coherence \<Rightarrow> bool" where
  "arrays_ok s \<longleftrightarrow> length (update_ops s) = BCAST_TO_CACHE_BATCH \<and> length (update_resp s) = BCAST_TO_CACHE_BATCH \<and>
     length (inv_ops s) = BCAST_TO_CACHE_BATCH \<and> length (inv_resp s) = BCAST_TO_CACHE_BATCH"

definition in_ring :: "coherence \<Rightarrow> nat \<Rightarrow> nat \<Rightarrow> nat" where
  "in_ring s vc i = number (\<lambda>m. live m \<and> sent_by vc i m) (incoming_reqs s)"

lemma slots_pos: "0 < LIN_CLT_BUF_SLOTS"
  by (simp add: LIN_CLT_BUF_SLOTS_def BROADCAST_CREDITS_def UPD_CREDITS_def CREDITS_FOR_EACH_CLIENT_def MACHINE_NUM_def)

lemma next_slot_eq:
  assumes "ring_ok s"
  shows "incoming s = incoming_reqs s ! nat (next_slot (pull_ptr s))" "0 \<le> next_slot (pull_ptr s)"
    "next_slot (pull_ptr s) < int LIN_CLT_BUF_SLOTS"
  using assms slots_pos by (auto simp: incoming_def next_slot_def ring_ok_def)

text \<open>The messages that have not been taken lie in the slots from the next one to be taken up
  to the next one to be filled.\<close>

definition rd :: "coherence \<Rightarrow> nat" where
  "rd s = nat (pull_ptr s + 1)"

definition unread :: "coherence \<Rightarrow> nat \<Rightarrow> bool" where
  "unread s w \<longleftrightarrow> (\<exists>u \<le> LIN_CLT_BUF_SLOTS. w = (rd s + u) mod LIN_CLT_BUF_SLOTS \<and>
     (\<forall>k < LIN_CLT_BUF_SLOTS. live (incoming_reqs s ! ((rd s + k) mod LIN_CLT_BUF_SLOTS)) \<longleftrightarrow> k < u))"

lemma unread_next:
  assumes "ring_ok s" "live (incoming s)" "unread s w"
  shows "unread (s\<lparr>incoming_reqs := (incoming_reqs s)[nat (next_slot (pull_ptr s)) := (incoming s)\<lparr>opcode := 0\<rparr>],
      pull_ptr := next_slot (pull_ptr s)\<rparr>) w"
proof -
  let ?N = LIN_CLT_BUF_SLOTS and ?n = "nat (next_slot (pull_ptr s))"
  let ?r = "(incoming_reqs s)[?n := (incoming s)\<lparr>opcode := 0\<rparr>]"
  have n: "?n = rd s mod ?N" "nat (next_slot (pull_ptr s) + 1) = Suc ?n"
    using assms(1) slots_pos by (auto simp: next_slot_def rd_def ring_ok_def nat_add_distrib)
  obtain u where u: "u \<le> ?N" "w = (rd s + u) mod ?N" "\<And>k. k < ?N \<Longrightarrow> live (incoming_reqs s ! ((rd s + k) mod ?N)) \<longleftrightarrow> k < u"
    using assms(3) unfolding unread_def by blast
  have "0 < u" using u(3)[of 0] assms(2) next_slot_eq(1)[OF assms(1)] n(1) slots_pos by simp
  have m: "(Suc ?n + k) mod ?N = (rd s + Suc k) mod ?N" for k using mod_add_left_eq[of "rd s" ?N "Suc k"] by (simp add: n(1))
  have "live (?r ! ((rd s + Suc k) mod ?N)) \<longleftrightarrow> k < u - 1" if k: "k < ?N" for k
  proof (cases "Suc k = ?N")
    case True
    then show ?thesis using u(1) n(1) assms(1) slots_pos by (auto simp: live_def ring_ok_def)
  next
    case False
    then have "(rd s + Suc k) mod ?N \<noteq> ?n" using k mod_less_neq[of 0 "Suc k" ?N "rd s"] n(1) by simp
    then show ?thesis using u(3)[of "Suc k"] False k by auto
  qed
  moreover have "w = (Suc ?n + (u - 1)) mod ?N" using u(2) \<open>0 < u\<close> m[of "u - 1"] by simp
  moreover have "rd (s\<lparr>incoming_reqs := ?r, pull_ptr := next_slot (pull_ptr s)\<rparr>) = Suc ?n" by (simp add: rd_def n(2))
  ultimately show ?thesis using u(1) unfolding unread_def by (intro exI[of _ "u - 1"]) (simp add: m[simplified])
qed

definition polls_from :: "coherence \<Rightarrow> poll \<Rightarrow> coherence \<Rightarrow> bool" where
  "polls_from s0 p s \<longleftrightarrow> ring_ok s \<and> arrays_ok s \<and> p_upd p + p_inv p = p_msgs p \<and> p_msgs p \<le> BCAST_TO_CACHE_BATCH \<and>
     p_ack p = number (\<lambda>op. opcode op \<noteq> CACHE_OP_UPD) (take (p_upd p) (update_ops s)) \<and>
     ack_size s + p_ack p \<le> BCAST_TO_CACHE_BATCH \<and> inv_size s + p_inv p \<le> BCAST_TO_CACHE_BATCH \<and>
     (\<forall>op\<in>set (take (p_upd p) (update_ops s)). from_machine op < MACHINE_NUM \<and> opcode op \<noteq> CACHE_OP_INV) \<and>
     (\<forall>op\<in>set (take (p_inv p) (inv_ops s)). from_machine op < MACHINE_NUM \<and> opcode op = CACHE_OP_INV) \<and>
     (\<forall>vc i. in_ring s vc i + number (sent_by vc i) (take (p_upd p) (update_ops s)) + number (sent_by vc i) (take (p_inv p) (inv_ops s)) =
        in_ring s0 vc i) \<and>
     s\<lparr>incoming_reqs := [], pull_ptr := 0, update_ops := [], inv_ops := [], stats := stats s0\<rparr> =
       s0\<lparr>incoming_reqs := [], pull_ptr := 0, update_ops := [], inv_ops := []\<rparr> \<and>
     (\<forall>w. unread s0 w \<longrightarrow> unread s w)"

text \<open>A slot is taken: it is cleared, and its message is appended to one of the two arrays.\<close>

lemma ring_taken:
  assumes "ring_ok s" "live (incoming s)" "s' = s\<lparr>incoming_reqs := (incoming_reqs s)[nat (next_slot (pull_ptr s)) := (incoming s)\<lparr>opcode := 0\<rparr>],
      pull_ptr := next_slot (pull_ptr s)\<rparr>"
  shows "ring_ok s'" "in_ring s' vc i + (if sent_by vc i (incoming s) then 1 else 0) = in_ring s vc i"
proof -
  let ?k = "nat (next_slot (pull_ptr s))"
  note n = next_slot_eq[OF assms(1)]
  have k: "?k < length (incoming_reqs s)" using n(2,3) assms(1) by (simp add: ring_ok_def)
  show "ring_ok s'" using assms(1,3) n(2,3) by (auto simp: ring_ok_def live_def dest!: set_update_subset_insert[THEN subsetD])
  show "in_ring s' vc i + (if sent_by vc i (incoming s) then 1 else 0) = in_ring s vc i"
    using number_update[OF k, of "\<lambda>m. live m \<and> sent_by vc i m" "(incoming s)\<lparr>opcode := 0\<rparr>"] assms(2,3) n(1)
    by (simp add: in_ring_def live_def)
qed

lemma incoming_ok:
  assumes "ring_ok s" "live (incoming s)"
  shows "message_ok (incoming s)"
proof -
  have "incoming s \<in> set (incoming_reqs s)" using next_slot_eq[OF assms(1)] assms(1) by (simp add: ring_ok_def nat_less_iff)
  then show ?thesis using assms by (simp add: ring_ok_def)
qed

lemma polled_parts: "op_meta (polled m slot) = op_meta m" "opcode (polled m slot) = opcode m" "sent_by vc i (polled m slot) = sent_by vc i m"
  by (simp_all add: polled_def copy_op_def sent_by_def channel_def)

lemma small_parts [simp]: "op_meta (small_op m) = op_meta m" "opcode (small_op m) = opcode m" "sent_by vc i (small_op m) = sent_by vc i m"
  by (simp_all add: small_op_def sent_by_def channel_def)

lemma take_put: "k < length xs \<Longrightarrow> take (Suc k) (xs[k := x]) = take k xs @ [x]"
  by (simp add: take_Suc_conv_app_nth)

lemma poll_update:
  assumes "polls_from s0 p s" "p_msgs p < BCAST_TO_CACHE_BATCH" "live (incoming s)" "opcode (incoming s) \<noteq> CACHE_OP_INV"
    "ack_size s + p_ack p \<noteq> BCAST_TO_CACHE_BATCH"
  shows "\<exists>q s1 s2. take_update (p, s) = Inr (q, s1) \<and> clear_slot s1 = Inr s2 \<and> polls_from s0 (q\<lparr>p_msgs := p_msgs p + 1\<rparr>) s2"
proof -
  let ?n = "next_slot (pull_ptr s)" and ?m = "incoming s" and ?k = "p_upd p"
  have r: "ring_ok s" "arrays_ok s" using assms(1) by (simp_all add: polls_from_def)
  note n = next_slot_eq[OF r(1)]
  have m: "message_ok ?m" by (rule incoming_ok[OF r(1) assms(3)])
  have k: "?k < length (update_ops s)" using assms(1,2) by (auto simp: polls_from_def arrays_ok_def)
  define u where "u = (update_ops s)[?k := polled ?m (update_ops s ! ?k)]"
  define s1 where "s1 = s\<lparr>pull_ptr := ?n, update_ops := u, stats := (if ENABLE_STAT_COUNTING \<noteq> 1 then stats s
     else if opcode ?m = CACHE_OP_ACK then (stats s)\<lparr>received_acks := received_acks (stats s) + 1\<rparr>
     else (stats s)\<lparr>received_updates := received_updates (stats s) + 1\<rparr>)\<rparr>"
  let ?q = "p\<lparr>p_upd := ?k + 1, p_ack := (if opcode ?m = CACHE_OP_ACK then p_ack p + 1 else p_ack p)\<rparr>"
  let ?s2 = "s1\<lparr>incoming_reqs := (incoming_reqs s)[nat ?n := ?m\<lparr>opcode := 0\<rparr>]\<rparr>"
  have c: "from_machine (polled ?m (update_ops s ! ?k)) < MACHINE_NUM" using m by (simp add: polled_parts message_ok_def)
  have tk: "take_update (p, s) = Inr (?q, s1)"
    using k c n by (simp add: take_update_def update_at_def u_def s1_def Let_def)
  have cl: "clear_slot s1 = Inr ?s2" using n r(1) by (simp add: clear_slot_def update_at_def s1_def ring_ok_def nat_less_iff)
  note t = ring_taken[OF r(1) assms(3) refl]
  have ring: "ring_ok ?s2" "\<And>vc i. in_ring ?s2 vc i + (if sent_by vc i ?m then 1 else 0) = in_ring s vc i"
    using t by (simp_all add: ring_ok_def in_ring_def s1_def)
  have tu: "take (Suc ?k) u = take ?k (update_ops s) @ [polled ?m (update_ops s ! ?k)]" using take_put[OF k] by (simp add: u_def)
  have ao: "opcode ?m = CACHE_OP_ACK \<longleftrightarrow> opcode ?m \<noteq> CACHE_OP_UPD" using m assms(4) by (auto simp: message_ok_def)
  have "polls_from s0 (?q\<lparr>p_msgs := p_msgs p + 1\<rparr>) ?s2"
    unfolding polls_from_def
  proof (intro conjI allI)
    show "ring_ok ?s2" by (fact ring(1))
    show "arrays_ok ?s2" using r(2) by (simp add: arrays_ok_def s1_def u_def)
    show "unread s0 w \<longrightarrow> unread ?s2 w" for w
      using assms(1) unread_next[OF r(1) assms(3), of w] by (simp add: polls_from_def s1_def unread_def rd_def)
    show "in_ring ?s2 vc i + number (sent_by vc i) (take (p_upd (?q\<lparr>p_msgs := p_msgs p + 1\<rparr>)) (update_ops ?s2)) +
        number (sent_by vc i) (take (p_inv (?q\<lparr>p_msgs := p_msgs p + 1\<rparr>)) (inv_ops ?s2)) = in_ring s0 vc i" for vc i
    proof -
      have "in_ring s vc i + number (sent_by vc i) (take ?k (update_ops s)) + number (sent_by vc i) (take (p_inv p) (inv_ops s)) = in_ring s0 vc i"
        using assms(1) by (simp add: polls_from_def)
      then show ?thesis using ring(2)[of vc i] tu by (simp add: s1_def polled_parts)
    qed
  qed (use assms m tu ao c in \<open>auto simp: polls_from_def s1_def polled_parts message_ok_def\<close>)
  then show ?thesis using tk cl by blast
qed

lemma poll_inv:
  assumes "polls_from s0 p s" "p_msgs p < BCAST_TO_CACHE_BATCH" "live (incoming s)" "opcode (incoming s) = CACHE_OP_INV"
    "inv_size s + p_inv p \<noteq> BCAST_TO_CACHE_BATCH"
  shows "\<exists>q s1 s2. take_inv (p, s) = Inr (q, s1) \<and> clear_slot s1 = Inr s2 \<and> polls_from s0 (q\<lparr>p_msgs := p_msgs p + 1\<rparr>) s2"
proof -
  let ?n = "next_slot (pull_ptr s)" and ?m = "incoming s" and ?k = "p_inv p"
  have r: "ring_ok s" "arrays_ok s" using assms(1) by (simp_all add: polls_from_def)
  note n = next_slot_eq[OF r(1)]
  have m: "message_ok ?m" by (rule incoming_ok[OF r(1) assms(3)])
  have k: "?k < length (inv_ops s)" using assms(1,2) by (auto simp: polls_from_def arrays_ok_def)
  define u where "u = (inv_ops s)[?k := small_op ?m]"
  define s1 where "s1 = s\<lparr>pull_ptr := ?n, inv_ops := u, stats := (if ENABLE_STAT_COUNTING \<noteq> 1 then stats s
     else (stats s)\<lparr>received_invs := received_invs (stats s) + 1\<rparr>)\<rparr>"
  let ?q = "p\<lparr>p_inv := ?k + 1\<rparr>"
  let ?s2 = "s1\<lparr>incoming_reqs := (incoming_reqs s)[nat ?n := ?m\<lparr>opcode := 0\<rparr>]\<rparr>"
  have c: "from_machine ?m < MACHINE_NUM" using m by (simp add: message_ok_def)
  have tk: "take_inv (p, s) = Inr (?q, s1)"
    using k c n by (simp add: take_inv_def update_at_def u_def s1_def Let_def)
  have cl: "clear_slot s1 = Inr ?s2" using n r(1) by (simp add: clear_slot_def update_at_def s1_def ring_ok_def nat_less_iff)
  note t = ring_taken[OF r(1) assms(3) refl]
  have ring: "ring_ok ?s2" "\<And>vc i. in_ring ?s2 vc i + (if sent_by vc i ?m then 1 else 0) = in_ring s vc i"
    using t by (simp_all add: ring_ok_def in_ring_def s1_def)
  have tu: "take (Suc ?k) u = take ?k (inv_ops s) @ [small_op ?m]" using take_put[OF k] by (simp add: u_def)
  have "polls_from s0 (?q\<lparr>p_msgs := p_msgs p + 1\<rparr>) ?s2"
    unfolding polls_from_def
  proof (intro conjI allI)
    show "ring_ok ?s2" by (fact ring(1))
    show "arrays_ok ?s2" using r(2) by (simp add: arrays_ok_def s1_def u_def)
    show "unread s0 w \<longrightarrow> unread ?s2 w" for w
      using assms(1) unread_next[OF r(1) assms(3), of w] by (simp add: polls_from_def s1_def unread_def rd_def)
    show "in_ring ?s2 vc i + number (sent_by vc i) (take (p_upd (?q\<lparr>p_msgs := p_msgs p + 1\<rparr>)) (update_ops ?s2)) +
        number (sent_by vc i) (take (p_inv (?q\<lparr>p_msgs := p_msgs p + 1\<rparr>)) (inv_ops ?s2)) = in_ring s0 vc i" for vc i
    proof -
      have "in_ring s vc i + number (sent_by vc i) (take (p_upd p) (update_ops s)) + number (sent_by vc i) (take ?k (inv_ops s)) = in_ring s0 vc i"
        using assms(1) by (simp add: polls_from_def)
      then show ?thesis using ring(2)[of vc i] tu by (simp add: s1_def)
    qed
  qed (use assms m tu c in \<open>auto simp: polls_from_def s1_def message_ok_def\<close>)
  then show ?thesis using tk cl by blast
qed

text \<open>The polled operations are copies of messages of the ring.\<close>

definition came_from :: "cache_op set \<Rightarrow> poll \<Rightarrow> coherence \<Rightarrow> bool" where
  "came_from M p s \<longleftrightarrow> (\<forall>m\<in>set (incoming_reqs s). live m \<longrightarrow> m \<in> M) \<and>
     (\<forall>op\<in>set (take (p_upd p) (update_ops s)). \<exists>m\<in>M. \<exists>slot. opcode m \<noteq> CACHE_OP_INV \<and> op = polled m slot) \<and>
     (\<forall>op\<in>set (take (p_inv p) (inv_ops s)). \<exists>m\<in>M. opcode m = CACHE_OP_INV \<and> op = small_op m)"

lemma ring_cleared:
  assumes "\<forall>m\<in>set rs. live m \<longrightarrow> m \<in> M" "m \<in> set (rs[k := x\<lparr>opcode := 0\<rparr>])" "live m"
  shows "m \<in> M"
  using assms set_update_subset_insert[of rs k "x\<lparr>opcode := 0\<rparr>"] by (auto simp: live_def)

lemma take_inv_parts:
  assumes "take_inv (p, s) = Inr (q, s1)"
  shows "p_inv p < length (inv_ops s) \<and> inv_ops s1 = (inv_ops s)[p_inv p := small_op (incoming_reqs s ! nat (next_slot (pull_ptr s)))] \<and>
    incoming_reqs s1 = incoming_reqs s \<and> update_ops s1 = update_ops s \<and> p_inv q = Suc (p_inv p) \<and> p_upd q = p_upd p"
  using assms by (cases "p_inv p < length (inv_ops s)") (auto simp: take_inv_def update_at_def Let_def assert_res_def split: if_splits)

lemma take_update_parts:
  assumes "take_update (p, s) = Inr (q, s1)"
  shows "p_upd p < length (update_ops s) \<and>
    update_ops s1 = (update_ops s)[p_upd p := polled (incoming_reqs s ! nat (next_slot (pull_ptr s))) (update_ops s ! p_upd p)] \<and>
    incoming_reqs s1 = incoming_reqs s \<and> inv_ops s1 = inv_ops s \<and> p_upd q = Suc (p_upd p) \<and> p_inv q = p_inv p"
  using assms by (cases "p_upd p < length (update_ops s)") (auto simp: take_update_def update_at_def Let_def assert_res_def split: if_split_asm)

lemma clear_slot_parts:
  assumes "clear_slot s = Inr s'"
  shows "incoming_reqs s' = (incoming_reqs s)[nat (pull_ptr s) := (incoming_reqs s ! nat (pull_ptr s))\<lparr>opcode := 0\<rparr>] \<and>
    update_ops s' = update_ops s \<and> inv_ops s' = inv_ops s"
  using assms by (cases "nat (pull_ptr s) < length (incoming_reqs s)") (auto simp: clear_slot_def update_at_def assert_res_def split: if_splits)

lemma polled_from:
  assumes "came_from M p s" "ring_ok s" "live (incoming s)"
    "(if opcode (incoming s) \<noteq> CACHE_OP_INV then take_update (p, s) else take_inv (p, s)) = Inr (q, s1)" "clear_slot s1 = Inr s2"
  shows "came_from M (q\<lparr>p_msgs := n\<rparr>) s2"
proof -
  have i: "incoming_reqs s ! nat (next_slot (pull_ptr s)) = incoming s" using next_slot_eq(1)[OF assms(2)] by simp
  have "incoming s \<in> set (incoming_reqs s)" using next_slot_eq[OF assms(2)] assms(2) by (simp add: ring_ok_def nat_less_iff)
  then have m: "incoming s \<in> M" using assms(1,3) by (simp add: came_from_def)
  have o: "\<forall>m\<in>set (incoming_reqs s). live m \<longrightarrow> m \<in> M" "\<forall>op\<in>set (take (p_upd p) (update_ops s)). \<exists>m\<in>M. \<exists>slot. opcode m \<noteq> CACHE_OP_INV \<and> op = polled m slot"
    "\<forall>op\<in>set (take (p_inv p) (inv_ops s)). \<exists>m\<in>M. opcode m = CACHE_OP_INV \<and> op = small_op m" using assms(1) unfolding came_from_def by blast+
  note c = clear_slot_parts[OF assms(5)]
  show ?thesis
  proof (cases "opcode (incoming s) = CACHE_OP_INV")
    case True
    then have t: "take_inv (p, s) = Inr (q, s1)" using assms(4) by simp
    note k = take_inv_parts[OF t, unfolded i]
    have "take (p_inv q) (inv_ops s2) = take (p_inv p) (inv_ops s) @ [small_op (incoming s)]" "take (p_upd q) (update_ops s2) = take (p_upd p) (update_ops s)"
      using k c take_put[of "p_inv p" "inv_ops s"] by simp_all
    moreover have "\<forall>m\<in>set (incoming_reqs s2). live m \<longrightarrow> m \<in> M" using c k ring_cleared[OF o(1)] by metis
    ultimately show ?thesis using o(2,3) m True unfolding came_from_def by auto
  next
    case False
    then have t: "take_update (p, s) = Inr (q, s1)" using assms(4) by simp
    note k = take_update_parts[OF t, unfolded i]
    have "take (p_upd q) (update_ops s2) = take (p_upd p) (update_ops s) @ [polled (incoming s) (update_ops s ! p_upd p)]"
      "take (p_inv q) (inv_ops s2) = take (p_inv p) (inv_ops s)" using k c take_put[of "p_upd p" "update_ops s"] by simp_all
    moreover have "\<forall>m\<in>set (incoming_reqs s2). live m \<longrightarrow> m \<in> M" using c k ring_cleared[OF o(1)] by metis
    moreover have "\<exists>a\<in>M. \<exists>slot. opcode a \<noteq> CACHE_OP_INV \<and> polled (incoming s) (update_ops s ! p_upd p) = polled a slot" using m False by blast
    ultimately show ?thesis using o(2,3) unfolding came_from_def by auto
  qed
qed

lemma poll_loop_ok:
  assumes "polls_from s0 p s" "came_from M p s"
  shows "\<exists>q s'. poll_loop (p, s) = Inr (q, s') \<and> polls_from s0 q s' \<and> came_from M q s'"
  using assms
proof (induction "BCAST_TO_CACHE_BATCH - p_msgs p" arbitrary: p s rule: less_induct)
  case less
  let ?oc = "opcode (incoming s)"
  have r: "ring_ok s" using less.prems(1) by (simp add: polls_from_def)
  show ?case
  proof (cases "p_msgs p < BCAST_TO_CACHE_BATCH \<and> live (incoming s) \<and>
      \<not> (?oc \<noteq> CACHE_OP_INV \<and> ack_size s + p_ack p = BCAST_TO_CACHE_BATCH) \<and>
      \<not> (?oc = CACHE_OP_INV \<and> inv_size s + p_inv p = BCAST_TO_CACHE_BATCH)")
    case False
    then have "poll_loop (p, s) = Inr (p, s)"
      using incoming_ok[OF r] by (auto simp: poll_loop.simps Let_def live_def message_ok_def assert_res_def)
    then show ?thesis using less.prems by blast
  next
    case True
    then obtain q s1 s2 where b: "(if ?oc \<noteq> CACHE_OP_INV then take_update (p, s) else take_inv (p, s)) = Inr (q, s1)"
      "clear_slot s1 = Inr s2" "polls_from s0 (q\<lparr>p_msgs := p_msgs p + 1\<rparr>) s2"
      using poll_update[OF less.prems(1)] poll_inv[OF less.prems(1)] by (cases "?oc = CACHE_OP_INV") auto
    have "message_ok (incoming s)" using incoming_ok[OF r] True by blast
    then have "poll_loop (p, s) = poll_loop (q\<lparr>p_msgs := p_msgs p + 1\<rparr>, s2)"
      using True b(1,2) by (subst poll_loop.simps) (auto simp: Let_def message_ok_def)
    moreover have "BCAST_TO_CACHE_BATCH - p_msgs (q\<lparr>p_msgs := p_msgs p + 1\<rparr>) < BCAST_TO_CACHE_BATCH - p_msgs p" using True[THEN conjunct1] by simp
    from less.hyps[OF this b(3) polled_from[OF less.prems(2) r _ b(1,2)]] True obtain x where
      "poll_loop (q\<lparr>p_msgs := p_msgs p + 1\<rparr>, s2) = Inr x" "polls_from s0 (fst x) (snd x)" "came_from M (fst x) (snd x)" by auto
    ultimately show ?thesis by (cases x) auto
  qed
qed

section \<open>Invalidations\<close>

lemma free_slot_ok:
  assumes "invs_ok s" "inv_size s < BCAST_TO_CACHE_BATCH"
  shows "free_slot s < BCAST_TO_CACHE_BATCH" "\<not> asked_ack (inv_to_send_ops s ! free_slot s)"
proof -
  let ?B = BCAST_TO_CACHE_BATCH and ?p = "inv_push_ptr s"
  let ?free = "\<lambda>i. opcode (inv_to_send_ops s ! ((?p + i) mod ?B)) \<noteq> CACHE_OP_BRC"
  have l: "length (inv_to_send_ops s) = ?B" "?p < ?B" "number asked_ack (inv_to_send_ops s) < length (inv_to_send_ops s)"
    using assms by (simp_all add: invs_ok_def)
  obtain k where k: "k < ?B" "\<not> asked_ack (inv_to_send_ops s ! k)" using number_full[OF l(3)] l(1) by auto
  define i where "i = (if ?p \<le> k then k - ?p else ?B - ?p + k)"
  have "i < ?B" "(?p + i) mod ?B = k" using k(1) l(2) by (auto simp: i_def)
  then have "\<exists>i \<in> set [0 ..< ?B]. ?free i" using k(2) by (auto simp: asked_ack_def)
  then obtain j where "find ?free [0 ..< ?B] = Some j" "?free j" by (metis (mono_tags, lifting) find_None_iff2 find_Some_iff option.exhaust)
  then have "free_slot s = (?p + j) mod ?B" "?free j" by (simp_all add: free_slot_def)
  then show "free_slot s < ?B" "\<not> asked_ack (inv_to_send_ops s ! free_slot s)" using batch_pos by (simp_all add: asked_ack_def)
qed

definition inv_books :: "coherence \<Rightarrow> coherence \<Rightarrow> bool" where
  "inv_books s s' \<longleftrightarrow> s'\<lparr>inv_to_send_ops := [], inv_push_ptr := 0, inv_size := 0, coh_message_count := []\<rparr> =
     s\<lparr>inv_to_send_ops := [], inv_push_ptr := 0, inv_size := 0, coh_message_count := []\<rparr>"

lemma inv_books_refl [simp]: "inv_books s s"
  by (simp add: inv_books_def)

lemma inv_books_trans [trans]: "inv_books a b \<Longrightarrow> inv_books b c \<Longrightarrow> inv_books a c"
  by (simp add: inv_books_def)

lemma inv_books_fields:
  assumes "inv_books s s'"
  shows "inv_ops s' = inv_ops s" "inv_resp s' = inv_resp s" "update_ops s' = update_ops s" "update_resp s' = update_resp s"
    "ack_bcast_ops s' = ack_bcast_ops s" "ack_push_ptr s' = ack_push_ptr s" "ack_pop_ptr s' = ack_pop_ptr s" "ack_size s' = ack_size s"
    "credits s' = credits s" "incoming_reqs s' = incoming_reqs s" "pull_ptr s' = pull_ptr s" "acks_seen s' = acks_seen s"
    "invs_seen s' = invs_seen s" "upds_seen s' = upds_seen s" "coh_buf s' = coh_buf s" "coh_buf_i s' = coh_buf_i s"
  using assms by (cases s; cases s'; simp add: inv_books_def)+

definition inv_booked :: "coherence \<Rightarrow> nat list \<Rightarrow> coherence \<Rightarrow> bool" where
  "inv_booked s js s' \<longleftrightarrow> invs_ok s' \<and> counts_ok s' \<and> inv_books s s' \<and> inv_size s' \<le> inv_size s + length js \<and>
     (\<forall>vc r. counted_or_held s' vc r = counted_or_held s vc r + number (\<lambda>j. vc = INV_VC \<and> from_machine (inv_ops s ! j) = r) js)"

lemma inv_bookkeeping_ok:
  assumes "invs_ok s" "counts_ok s" "from_machine (inv_ops s ! j) < MACHINE_NUM" "opcode (inv_ops s ! j) \<noteq> CACHE_OP_BRC"
    "inv_size s < BCAST_TO_CACHE_BATCH"
  shows "\<exists>s'. inv_bookkeeping j s = Inr s' \<and> inv_booked s [j] s'"
proof (cases "rtype (inv_resp s ! j) = CACHE_INV_SUCCESS")
  case False
  let ?rm = "from_machine (inv_ops s ! j)"
  have v: "INV_VC < 3" by simp
  obtain cm where cm: "count_message INV_VC ?rm s = Inr (s\<lparr>coh_message_count := cm\<rparr>)" "counts_ok (s\<lparr>coh_message_count := cm\<rparr>)"
    "\<And>w r. cm ! w ! r = coh_message_count s ! w ! r + (if w = INV_VC \<and> r = ?rm then 1 else 0)"
    using count_message_ok[OF assms(2) v assms(3)] by blast
  have "inv_booked s [j] (s\<lparr>coh_message_count := cm\<rparr>)"
    using assms(1) cm(2,3) by (auto simp: inv_booked_def inv_books_def counted_or_held_def invs_ok_def)
  then show ?thesis using False cm(1) by (simp add: inv_bookkeeping_def Let_def)
next
  case True
  let ?f = "free_slot s" and ?op = "(small_op (inv_ops s ! j))\<lparr>opcode := CACHE_OP_BRC\<rparr>"
  note f = free_slot_ok[OF assms(1,5)]
  have l: "?f < length (inv_to_send_ops s)" using f(1) assms(1) by (simp add: invs_ok_def)
  let ?q = "(inv_to_send_ops s)[?f := ?op]"
  let ?s = "s\<lparr>inv_to_send_ops := ?q, inv_push_ptr := ?f, inv_size := inv_size s + 1\<rparr>"
  have o: "asked_ack ?op" "from_machine ?op = from_machine (inv_ops s ! j)" by (simp_all add: asked_ack_def small_op_def)
  have n: "number asked_ack ?q = number asked_ack (inv_to_send_ops s) + 1" using number_update[OF l, of asked_ack ?op] f(2) o(1) by simp
  have "number (\<lambda>op. asked_ack op \<and> from_machine op = r) ?q =
      number (\<lambda>op. asked_ack op \<and> from_machine op = r) (inv_to_send_ops s) + (if from_machine (inv_ops s ! j) = r then 1 else 0)" for r
    using number_update[OF l, of "\<lambda>op. asked_ack op \<and> from_machine op = r" ?op] f(2) o by simp
  then have h: "counted_or_held ?s vc r = counted_or_held s vc r + number (\<lambda>j. vc = INV_VC \<and> from_machine (inv_ops s ! j) = r) [j]" for vc r
    by (simp add: counted_or_held_def held_def pending_def)
  have "\<forall>op\<in>set ?q. asked_ack op \<longrightarrow> from_machine op < MACHINE_NUM"
    using assms(1,3) o(2) by (auto simp: invs_ok_def dest!: set_update_subset_insert[THEN subsetD])
  then have "inv_booked s [j] ?s" using assms(1,2) n f(1) h by (auto simp: inv_booked_def inv_books_def invs_ok_def counts_ok_def)
  moreover have "inv_bookkeeping j s = Inr ?s" using True assms(3,4) l by (simp add: inv_bookkeeping_def Let_def update_at_def)
  ultimately show ?thesis by blast
qed

lemma inv_booked_trans:
  assumes "inv_booked s xs s1" "inv_booked s1 ys s2"
  shows "inv_booked s (xs @ ys) s2"
proof -
  have b: "inv_books s s1" using assms(1) by (simp add: inv_booked_def)
  show ?thesis using assms inv_books_trans[OF b] by (auto simp: inv_booked_def inv_books_fields(1)[OF b])
qed

lemma invs_bookkeeping_ok:
  assumes "invs_ok s" "counts_ok s" "n \<le> length (inv_ops s)" "inv_size s + n \<le> BCAST_TO_CACHE_BATCH"
    "\<forall>op\<in>set (take n (inv_ops s)). from_machine op < MACHINE_NUM \<and> opcode op \<noteq> CACHE_OP_BRC"
  shows "\<exists>s'. invs_bookkeeping n s = Inr s' \<and> inv_booked s [0 ..< n] s'"
  using assms(3-5)
proof (induction n)
  case 0
  then show ?case using assms(1,2) by (simp add: invs_bookkeeping_def inv_booked_def)
next
  case (Suc n)
  have t: "take (Suc n) (inv_ops s) = take n (inv_ops s) @ [inv_ops s ! n]" using Suc.prems(1) by (simp add: take_Suc_conv_app_nth)
  obtain s1 where s1: "invs_bookkeeping n s = Inr s1" "inv_booked s [0 ..< n] s1" using Suc.IH Suc.prems t by auto
  have b: "inv_books s s1" and k: "invs_ok s1" "counts_ok s1" "inv_size s1 \<le> inv_size s + n" using s1(2) by (simp_all add: inv_booked_def)
  obtain s2 where s2: "inv_bookkeeping n s1 = Inr s2" "inv_booked s1 [n] s2"
    using inv_bookkeeping_ok[OF k(1,2), of n] Suc.prems t k(3) by (auto simp: inv_books_fields(1)[OF b])
  have "inv_booked s [0 ..< Suc n] s2" using inv_booked_trans[OF s1(2) s2(2)] by simp
  then show ?case using s1(1) s2(1) by (simp add: invs_bookkeeping_def fold_res_append)
qed

end
