(* ===== verification/Flow_Control.thy ===== *)
theory Flow_Control
  imports Coherence_Correct
begin

text \<open>
  Flow control of the linearizable client.  A turn of the client keeps account of every
  message: what it takes from the ring it counts or holds in a queue, and for what it
  counts it sends credits; it sends a message only for a credit it has.  A turn fails
  only when the cache fails on the messages it is given.
\<close>

section \<open>What a turn starts from\<close>

definition seen :: "coherence \<Rightarrow> nat \<Rightarrow> nat \<Rightarrow> nat" where
  "seen s vc i = (if vc = ACK_VC then acks_seen s ! i else if vc = INV_VC then invs_seen s ! i else upds_seen s ! i)"

definition seen_ok :: "coherence \<Rightarrow> bool" where
  "seen_ok s \<longleftrightarrow> length (acks_seen s) = MACHINE_NUM \<and> length (invs_seen s) = MACHINE_NUM \<and> length (upds_seen s) = MACHINE_NUM \<and>
     (\<forall>vc < 3. \<forall>i < MACHINE_NUM. seen s vc i < CREDITS_IN_MESSAGE)"

definition credits_ok :: "coherence \<Rightarrow> bool" where
  "credits_ok s \<longleftrightarrow> length (credits s) = 3 \<and> (\<forall>vc < 3. length (credits s ! vc) = MACHINE_NUM)"

definition buf_ok :: "coherence \<Rightarrow> bool" where
  "buf_ok s \<longleftrightarrow> length (coh_buf s) = COH_BUF_SLOTS \<and> coh_buf_i s < COH_BUF_SLOTS"

definition node_ok :: "coherence \<Rightarrow> bool" where
  "node_ok s \<longleftrightarrow> ring_ok s \<and> arrays_ok s \<and> queue_ok s \<and> invs_ok s \<and> seen_ok s \<and> credits_ok s \<and> buf_ok s"

text \<open>The parts of the state that only sending changes.\<close>

definition sending :: "coherence \<Rightarrow> u8 list list \<times> nat list \<times> nat list \<times> nat list \<times> nat \<times> nat \<times> cache_op list \<times> nat" where
  "sending s = (credits s, acks_seen s, invs_seen s, upds_seen s, push_ptr s, coh_recvs s, coh_buf s, coh_buf_i s)"

lemma sending_ok:
  assumes "sending s' = sending s"
  shows "seen_ok s' = seen_ok s" "credits_ok s' = credits_ok s" "buf_ok s' = buf_ok s" "seen s' vc i = seen s vc i"
  using assms by (auto simp: sending_def seen_ok_def seen_def credits_ok_def buf_ok_def)

lemma books_sending: "books s s' \<Longrightarrow> sending s' = sending s" "inv_books s s' \<Longrightarrow> sending s' = sending s"
  by (cases s; cases s'; simp add: books_def inv_books_def sending_def)+

text \<open>The messages of a machine on a channel that have arrived in this client and are not
  yet accounted for.\<close>

definition total :: "coherence \<Rightarrow> nat \<Rightarrow> nat \<Rightarrow> nat" where
  "total s vc i = in_ring s vc i + counted_or_held s vc i"

section \<open>Taking messages\<close>

lemma upd_ack_answer:
  assumes "lin_upd_ack_handler mid vp e op r = Inr (e', op', r')"
  shows "opcode op' = opcode op \<and> from_machine op' = from_machine op"
  using assms by (auto simp: lin_upd_ack_handler_def lin_upd_def lin_ack_def lin_refuse_def Let_def res_simps split: if_splits)

lemma inv_answer:
  assumes "lin_inv_handler mid vp e op r = Inr (e', op', r')"
  shows "opcode op' = CACHE_OP_ACK \<and> from_machine op' = from_machine op"
  using assms by (auto simp: lin_inv_handler_def lin_inv_def lin_invalidate_def lin_refuse_def Let_def res_simps split: if_splits)

lemma upd_ack_batch:
  assumes "cache_batch_op_lin_with_cache_op mid ops ch = Inr (ch', out)"
  shows "list_all2 (\<lambda>x y. opcode (fst y) = opcode (fst x) \<and> from_machine (fst y) = from_machine (fst x)) ops out"
proof -
  obtain kv kv' where "cache_batch (lin_upd_ack_handler mid) lin_skipped kv ops = Inr (kv', out)"
    using assms by (auto simp: cache_batch_op_lin_with_cache_op_def Let_def res_simps)
  from cache_batch_answered[OF this] show ?thesis
    by (rule list_all2_mono) (auto simp: answered_def dest: upd_ack_answer split: if_splits)
qed

lemma inv_batch:
  assumes "cache_batch_op_lin_with_small_cache_op mid ops ch = Inr (ch', out)" "\<forall>x\<in>set ops. opcode (fst x) = CACHE_OP_INV"
  shows "list_all2 (\<lambda>x y. opcode (fst y) \<noteq> CACHE_OP_BRC \<and> from_machine (fst y) = from_machine (fst x)) ops out"
proof -
  obtain kv kv' where "cache_batch (lin_inv_handler mid) lin_skipped kv ops = Inr (kv', out)"
    using assms by (auto simp: cache_batch_op_lin_with_small_cache_op_def Let_def res_simps)
  note a = cache_batch_answered[OF this]
  show ?thesis unfolding list_all2_conv_all_nth
  proof (intro conjI allI impI)
    show "length ops = length out" using a by (rule list_all2_lengthD)
    fix k assume k: "k < length ops"
    then have "answered (lin_inv_handler mid) lin_skipped (ops ! k) (out ! k)" "opcode (fst (ops ! k)) = CACHE_OP_INV"
      using a assms(2) by (auto simp: list_all2_conv_all_nth)
    then show "opcode (fst (out ! k)) \<noteq> CACHE_OP_BRC" "from_machine (fst (out ! k)) = from_machine (fst (ops ! k))"
      by (cases "ops ! k"; cases "out ! k"; fastforce simp: answered_def dest: inv_answer split: if_splits)+
  qed
qed

text \<open>After the messages have been taken and the updates and acknowledgements given to the
  cache, \<open>n\<close> invalidations are left.\<close>

definition took :: "coherence \<Rightarrow> nat \<Rightarrow> coherence \<Rightarrow> bool" where
  "took s n s' \<longleftrightarrow> node_ok s' \<and> counts_ok s' \<and> n \<le> BCAST_TO_CACHE_BATCH \<and> inv_size s' + n \<le> BCAST_TO_CACHE_BATCH \<and>
     (\<forall>op\<in>set (take n (inv_ops s')). from_machine op < MACHINE_NUM \<and> opcode op = CACHE_OP_INV) \<and>
     (\<forall>vc < 3. \<forall>i < MACHINE_NUM. total s' vc i + number (sent_by vc i) (take n (inv_ops s')) = in_ring s vc i + held s vc i) \<and>
     sending s' = sending s \<and> (\<forall>w. unread s w \<longrightarrow> unread s' w)"

lemma poll_coherence_ok:
  assumes "node_ok s"
  shows "\<exists>p s'. poll_coherence_LIN s = Inr (p, s') \<and> polls_from s p s' \<and> came_from {m \<in> set (incoming_reqs s). live m} p s'"
proof -
  have "inv_size s \<le> BCAST_TO_CACHE_BATCH" "ack_size s \<le> BCAST_TO_CACHE_BATCH"
    using assms number_le[of asked_ack "inv_to_send_ops s"] by (auto simp: node_ok_def invs_ok_def queue_ok_def)
  then have "polls_from s \<lparr>p_upd = 0, p_ack = 0, p_inv = 0, p_msgs = 0\<rparr> s" using assms by (simp add: polls_from_def node_ok_def)
  from poll_loop_ok[OF this, of "{m \<in> set (incoming_reqs s). live m}"] show ?thesis by (simp add: poll_coherence_LIN_def came_from_def)
qed

lemma polls_from_fields:
  assumes "polls_from s p s'"
  shows "sending s' = sending s" "queue_ok s' = queue_ok s" "invs_ok s' = invs_ok s" "pending s' = pending s" "inv_size s' = inv_size s"
    "ack_size s' = ack_size s" "coh_message_count s' = coh_message_count s" "inv_to_send_ops s' = inv_to_send_ops s"
proof -
  have "s'\<lparr>incoming_reqs := [], pull_ptr := 0, update_ops := [], inv_ops := [], stats := stats s\<rparr> =
       s\<lparr>incoming_reqs := [], pull_ptr := 0, update_ops := [], inv_ops := []\<rparr>" using assms by (simp add: polls_from_def)
  then show "sending s' = sending s" "queue_ok s' = queue_ok s" "invs_ok s' = invs_ok s" "pending s' = pending s" "inv_size s' = inv_size s"
    "ack_size s' = ack_size s" "coh_message_count s' = coh_message_count s" "inv_to_send_ops s' = inv_to_send_ops s"
    by (cases s; cases s'; simp add: sending_def queue_ok_def invs_ok_def pending_def)+
qed

lemma take_nth_map: "n \<le> length xs \<Longrightarrow> take n xs = map ((!) xs) [0 ..< n]"
  by (intro nth_equalityI) auto

lemma number_map: "number P (map f xs) = number (\<lambda>x. P (f x)) xs"
  by (induction xs) auto

lemma number_cong: "(\<And>x. x \<in> set xs \<Longrightarrow> P x = Q x) \<Longrightarrow> number P xs = number Q xs"
  by (simp add: number_def cong: filter_cong)

text \<open>What a batch answers takes the place of what it was asked.\<close>

lemma answers_in_place:
  assumes "list_all2 R (zip (take n ops) rs) out" "n \<le> length ops" "length rs = length ops"
  shows "length out = n" "length (map fst out @ drop (length out) ops) = length ops" "length (map snd out @ drop (length out) rs) = length ops"
    "k < n \<Longrightarrow> R (ops ! k, rs ! k) (out ! k) \<and> (map fst out @ drop (length out) ops) ! k = fst (out ! k)"
proof -
  show l: "length out = n" using list_all2_lengthD[OF assms(1)] assms(2,3) by simp
  then show "length (map fst out @ drop (length out) ops) = length ops" "length (map snd out @ drop (length out) rs) = length ops"
    using assms(2,3) by simp_all
  show "k < n \<Longrightarrow> R (ops ! k, rs ! k) (out ! k) \<and> (map fst out @ drop (length out) ops) ! k = fst (out ! k)"
    using assms l by (auto simp: list_all2_conv_all_nth nth_append)
qed

lemma sums_nth:
  assumes "n \<le> length xs" "\<And>k. k < n \<Longrightarrow> P (xs ! k) = Q (ys ! k)" "n \<le> length ys"
  shows "number P (take n xs) = number Q (take n ys)"
  using assms by (auto simp: take_nth_map number_map intro!: number_cong)

text \<open>The bookkeeping of a polled batch of updates and acknowledgements, with any answers that
  keep the operation and the sender of every message.\<close>

lemma polled_batch_booked:
  assumes p: "polls_from s p s1" and n: "node_ok s" and z: "\<forall>vc < 3. \<forall>i < MACHINE_NUM. coh_message_count s ! vc ! i = 0" "counts_ok s"
    and u: "length u = BCAST_TO_CACHE_BATCH" "length ur = BCAST_TO_CACHE_BATCH"
      "\<And>k. k < p_upd p \<Longrightarrow> opcode (u ! k) = opcode (update_ops s1 ! k) \<and> from_machine (u ! k) = from_machine (update_ops s1 ! k)"
    and lat: "0 < us" "latency_ok (latency_count c)"
  shows "\<exists>s' c'. updates_and_acks_bookkeeping us (p_upd p) (s1\<lparr>update_ops := u, update_resp := ur\<rparr>, c) = Inr (s', c') \<and>
    latency_ok (latency_count c') \<and> took s (p_inv p) s' \<and> inv_ops s' = inv_ops s1"
proof -
  let ?s = "s1\<lparr>update_ops := u, update_resp := ur\<rparr>" and ?n = "p_upd p" and ?ack = "\<lambda>op. opcode op \<noteq> CACHE_OP_UPD"
  note f = polls_from_fields[OF p]
  have pk: "ring_ok s1" "arrays_ok s1" "p_upd p + p_inv p \<le> BCAST_TO_CACHE_BATCH" "ack_size s1 + number ?ack (take ?n (update_ops s1)) \<le> BCAST_TO_CACHE_BATCH"
    "inv_size s1 + p_inv p \<le> BCAST_TO_CACHE_BATCH"
    "\<forall>op\<in>set (take ?n (update_ops s1)). from_machine op < MACHINE_NUM \<and> opcode op \<noteq> CACHE_OP_INV"
    "\<forall>op\<in>set (take (p_inv p) (inv_ops s1)). from_machine op < MACHINE_NUM \<and> opcode op = CACHE_OP_INV"
    "\<And>vc i. in_ring s1 vc i + number (sent_by vc i) (take ?n (update_ops s1)) + number (sent_by vc i) (take (p_inv p) (inv_ops s1)) = in_ring s vc i"
    "\<forall>w. unread s w \<longrightarrow> unread s1 w"
    using p unfolding polls_from_def by auto
  have l: "?n \<le> length u" "?n \<le> length (update_ops s1)" using pk(2,3) u(1) by (simp_all add: arrays_ok_def)
  have same: "number P (take ?n u) = number P (take ?n (update_ops s1))"
    if "\<And>a b. opcode a = opcode b \<Longrightarrow> from_machine a = from_machine b \<Longrightarrow> P a = P b" for P
    using sums_nth[OF l(1) _ l(2), of P P] u(3) that by blast
  have q: "queue_ok ?s" "counts_ok ?s" using n z(2) f(2,7) by (auto simp: node_ok_def queue_ok_def pending_def counts_ok_def)
  have a: "\<forall>op\<in>set (take ?n u). from_machine op < MACHINE_NUM \<and> opcode op \<noteq> CACHE_OP_INV"
    using pk(6) u(3) l by (auto simp: take_nth_map)
  have m: "ack_size ?s + number ?ack (take ?n u) \<le> BCAST_TO_CACHE_BATCH" using pk(4) same[of ?ack] by simp
  obtain s' c' where r: "updates_and_acks_bookkeeping us ?n (?s, c) = Inr (s', c')" "latency_ok (latency_count c')"
    and b: "booked ?s (number ?ack (take ?n u)) [0 ..< ?n] s'"
    using updates_and_acks_ok[OF q lat, of ?n] l(1) a m by auto
  have bk: "books ?s s'" "queue_ok s'" "counts_ok s'" using b by (simp_all add: booked_def)
  note g = books_fields[OF bk(1)]
  have sd: "sending s' = sending s" using f(1) books_sending(1)[OF bk(1)] by (simp add: sending_def)
  have rs: "unread s' = unread s1" "in_ring s' = in_ring s1" "arrays_ok s'" "invs_ok s'"
    using f(3) n u(1,2) pk(2) by (auto simp: g unread_def rd_def in_ring_def arrays_ok_def node_ok_def invs_ok_def fun_eq_iff)
  have "total s' vc i + number (sent_by vc i) (take (p_inv p) (inv_ops s')) = in_ring s vc i + held s vc i" if v: "vc < 3" "i < MACHINE_NUM" for vc i
  proof -
    have "counted_or_held s' vc i = counted_or_held ?s vc i + number (sent_by vc i) (take ?n u)"
      using b l(1) by (simp add: booked_def take_nth_map number_map)
    moreover have "counted_or_held ?s vc i = held s vc i" using z(1) v f(4,7,8) by (simp add: counted_or_held_def held_def pending_def)
    moreover have "number (sent_by vc i) (take ?n u) = number (sent_by vc i) (take ?n (update_ops s1))"
      by (rule same) (simp add: sent_by_def channel_def)
    ultimately show ?thesis using pk(8)[of vc i] rs(2) g(8) by (simp add: total_def)
  qed
  moreover have "node_ok s'" using n rs bk(2) sending_ok[OF sd] pk(1) by (simp add: node_ok_def ring_ok_def g)
  ultimately have "took s (p_inv p) s'" using bk(3) pk(3,5,7,9) sd rs(1) g by (simp add: took_def)
  then show ?thesis using r g(8) by auto
qed

lemma no_updates_took:
  assumes "polls_from s p s1" "node_ok s" "\<forall>vc < 3. \<forall>i < MACHINE_NUM. coh_message_count s ! vc ! i = 0" "counts_ok s" "p_upd p = 0"
  shows "took s (p_inv p) s1"
proof -
  note f = polls_from_fields[OF assms(1)]
  have pk: "ring_ok s1" "arrays_ok s1" "p_inv p \<le> BCAST_TO_CACHE_BATCH" "inv_size s1 + p_inv p \<le> BCAST_TO_CACHE_BATCH"
    "\<forall>op\<in>set (take (p_inv p) (inv_ops s1)). from_machine op < MACHINE_NUM \<and> opcode op = CACHE_OP_INV"
    "\<And>vc i. in_ring s1 vc i + number (sent_by vc i) (take (p_inv p) (inv_ops s1)) = in_ring s vc i" "\<forall>w. unread s w \<longrightarrow> unread s1 w"
    using assms(1,5) unfolding polls_from_def by auto
  have "counted_or_held s1 vc i = held s vc i" if "vc < 3" "i < MACHINE_NUM" for vc i
    using assms(3) that f(4,7,8) by (simp add: counted_or_held_def held_def)
  moreover have "node_ok s1" using assms(2) f(2,3) sending_ok[OF f(1)] pk(1,2) by (simp add: node_ok_def)
  moreover have "counts_ok s1" using assms(4) f(7) by (simp add: counts_ok_def)
  ultimately show ?thesis using pk f(1) by (simp add: took_def total_def add_ac)
qed

text \<open>A batch of updates and acknowledgements of the ring, and the invalidations of the ring that
  are left.\<close>

definition from_ring :: "coherence \<Rightarrow> (cache_op \<times> mica_resp) list \<Rightarrow> bool" where
  "from_ring s ops \<longleftrightarrow> length ops \<le> BCAST_TO_CACHE_BATCH \<and>
     (\<forall>x\<in>set ops. \<exists>m\<in>set (incoming_reqs s). \<exists>slot. live m \<and> opcode m \<noteq> CACHE_OP_INV \<and> fst x = polled m slot)"

definition invs_from_ring :: "coherence \<Rightarrow> nat \<Rightarrow> coherence \<Rightarrow> bool" where
  "invs_from_ring s n s' \<longleftrightarrow> (\<forall>op\<in>set (take n (inv_ops s')). \<exists>m\<in>set (incoming_reqs s). live m \<and> opcode m = CACHE_OP_INV \<and> op = small_op m)"

text \<open>Taking messages fails only when the cache fails on them.\<close>

lemma take_messages_ok:
  assumes "node_ok s" "0 < us" "latency_ok (latency_count c)"
  shows "case take_messages mid us (ch, s, c) of
      Inl f \<Rightarrow> \<exists>ops. cache_batch_op_lin_with_cache_op mid ops ch = Inl f \<and> from_ring s ops
    | Inr (n, ch', s', c') \<Rightarrow> took s n s' \<and> latency_ok (latency_count c') \<and> invs_from_ring s n s' \<and>
        (ch' = ch \<or> (\<exists>ops out. cache_batch_op_lin_with_cache_op mid ops ch = Inr (ch', out) \<and> from_ring s ops))"
proof -
  let ?s = "s\<lparr>coh_message_count := replicate VIRTUAL_CHANNELS (replicate MACHINE_NUM 0)\<rparr>"
  have "sending ?s = sending s" by (simp add: sending_def)
  then have n: "node_ok ?s" using assms(1) sending_ok[of ?s s] by (simp add: node_ok_def ring_ok_def arrays_ok_def invs_ok_def)
  have z: "\<forall>vc < 3. \<forall>i < MACHINE_NUM. coh_message_count ?s ! vc ! i = 0" "counts_ok ?s" by (simp_all add: VIRTUAL_CHANNELS_def counts_ok_def)
  have t: "took ?s k s' = took s k s'" for k s' by (simp add: took_def in_ring_def sending_def unread_def rd_def)
  obtain p s1 where p: "poll_coherence_LIN ?s = Inr (p, s1)" "polls_from ?s p s1" "came_from {m \<in> set (incoming_reqs ?s). live m} p s1"
    using poll_coherence_ok[OF n] by blast
  have iv: "invs_from_ring s (p_inv p) s'" if "inv_ops s' = inv_ops s1" for s' using p(3) that by (auto simp: came_from_def invs_from_ring_def)
  have pu: "p_upd p \<le> BCAST_TO_CACHE_BATCH" "arrays_ok s1" using p(2) by (auto simp: polls_from_def)
  then have l: "p_upd p \<le> length (update_ops s1)" "length (update_resp s1) = length (update_ops s1)" by (simp_all add: arrays_ok_def)
  show ?thesis
  proof (cases "p_upd p = 0")
    case True
    then show ?thesis using p(1) assms(3) no_updates_took[OF p(2) n z] t iv by (simp add: take_messages_def)
  next
    case False
    let ?ops = "zip (take (p_upd p) (update_ops s1)) (update_resp s1)"
    have fr: "from_ring s ?ops" using p(3) pu(1) by (fastforce simp: came_from_def from_ring_def dest: set_zip_leftD)
    show ?thesis
    proof (cases "cache_batch_op_lin_with_cache_op mid ?ops ch")
      case (Inl f)
      then show ?thesis using p(1) pu(1) False fr by (auto simp: take_messages_def)
    next
      case (Inr x)
      then obtain ch' out where x: "cache_batch_op_lin_with_cache_op mid ?ops ch = Inr (ch', out)" by (cases x) simp
      let ?u = "map fst out @ drop (length out) (update_ops s1)" and ?r = "map snd out @ drop (length out) (update_resp s1)"
      note a = answers_in_place[OF upd_ack_batch[OF x] l]
      have "length ?u = BCAST_TO_CACHE_BATCH" "length ?r = BCAST_TO_CACHE_BATCH" using a(2,3) pu(2) by (simp_all add: arrays_ok_def)
      from polled_batch_booked[OF p(2) n z this _ assms(2,3)] obtain s' c' where
        "updates_and_acks_bookkeeping us (p_upd p) (s1\<lparr>update_ops := ?u, update_resp := ?r\<rparr>, c) = Inr (s', c')"
        "latency_ok (latency_count c')" "took ?s (p_inv p) s'" "inv_ops s' = inv_ops s1" using a(4) by fastforce
      then show ?thesis using p(1) pu(1) False x t iv fr by (auto simp: take_messages_def)
    qed
  qed
qed

text \<open>The invalidations are given to the cache and booked.\<close>

definition took_all :: "coherence \<Rightarrow> coherence \<Rightarrow> bool" where
  "took_all s s' \<longleftrightarrow> node_ok s' \<and> counts_ok s' \<and> sending s' = sending s \<and> (\<forall>w. unread s w \<longrightarrow> unread s' w) \<and>
     (\<forall>vc < 3. \<forall>i < MACHINE_NUM. total s' vc i = in_ring s vc i + held s vc i)"

lemma invs_taken:
  assumes t: "took s n s1" and u: "length u = BCAST_TO_CACHE_BATCH" "length ur = BCAST_TO_CACHE_BATCH"
    "\<And>k. k < n \<Longrightarrow> opcode (u ! k) \<noteq> CACHE_OP_BRC \<and> from_machine (u ! k) = from_machine (inv_ops s1 ! k)"
  shows "\<exists>s'. invs_bookkeeping n (s1\<lparr>inv_ops := u, inv_resp := ur\<rparr>) = Inr s' \<and> took_all s s'"
proof -
  let ?s = "s1\<lparr>inv_ops := u, inv_resp := ur\<rparr>"
  have tk: "node_ok s1" "counts_ok s1" "n \<le> BCAST_TO_CACHE_BATCH" "inv_size s1 + n \<le> BCAST_TO_CACHE_BATCH"
    "\<forall>op\<in>set (take n (inv_ops s1)). from_machine op < MACHINE_NUM \<and> opcode op = CACHE_OP_INV" "sending s1 = sending s" "\<forall>w. unread s w \<longrightarrow> unread s1 w"
    "\<And>vc i. vc < 3 \<Longrightarrow> i < MACHINE_NUM \<Longrightarrow> total s1 vc i + number (sent_by vc i) (take n (inv_ops s1)) = in_ring s vc i + held s vc i"
    using t unfolding took_def by auto
  have l: "n \<le> length u" "n \<le> length (inv_ops s1)" using tk(1,3) u(1) by (simp_all add: node_ok_def arrays_ok_def)
  have iv: "from_machine (inv_ops s1 ! k) < MACHINE_NUM" "opcode (inv_ops s1 ! k) = CACHE_OP_INV" if "k < n" for k
    using tk(5) l(2) that by (auto simp: take_nth_map)
  have i: "invs_ok ?s" "counts_ok ?s" using tk(1,2) by (simp_all add: node_ok_def invs_ok_def counts_ok_def)
  have a: "\<forall>op\<in>set (take n u). from_machine op < MACHINE_NUM \<and> opcode op \<noteq> CACHE_OP_BRC"
    using u(3) iv(1) l(1) by (auto simp: take_nth_map)
  obtain s' where r: "invs_bookkeeping n ?s = Inr s'" "inv_booked ?s [0 ..< n] s'"
    using invs_bookkeeping_ok[OF i, of n] l(1) tk(4) a by auto
  have b: "inv_books ?s s'" "invs_ok s'" "counts_ok s'" using r(2) by (simp_all add: inv_booked_def)
  note g = inv_books_fields[OF b(1)]
  have sd: "sending s' = sending s" using tk(6) books_sending(2)[OF b(1)] by (simp add: sending_def)
  have rs: "unread s' = unread s1" "in_ring s' = in_ring s1" "arrays_ok s'" "queue_ok s'" "ring_ok s'"
    using tk(1) u(1,2) by (auto simp: g unread_def rd_def in_ring_def arrays_ok_def node_ok_def queue_ok_def pending_def ring_ok_def fun_eq_iff)
  have "total s' vc i = in_ring s vc i + held s vc i" if v: "vc < 3" "i < MACHINE_NUM" for vc i
  proof -
    have "counted_or_held s' vc i = counted_or_held s1 vc i + number (\<lambda>k. vc = INV_VC \<and> from_machine (u ! k) = i) [0 ..< n]"
      using r(2) by (simp add: inv_booked_def counted_or_held_def held_def pending_def)
    moreover have "number (\<lambda>k. vc = INV_VC \<and> from_machine (u ! k) = i) [0 ..< n] = number (sent_by vc i) (take n (inv_ops s1))"
      unfolding take_nth_map[OF l(2)] number_map using u(3) iv(2) by (intro number_cong) (auto simp: sent_by_def channel_def)
    ultimately show ?thesis using tk(8)[OF v] rs(2) by (simp add: total_def)
  qed
  moreover have "node_ok s'" using tk(1) b(2) rs sending_ok[OF sd] sending_ok[OF tk(6)] by (simp add: node_ok_def)
  ultimately show ?thesis using r(1) b(3) sd rs(1) tk(7) by (simp add: took_all_def)
qed

lemma take_invs_ok:
  assumes "took s n s1"
  shows "case take_invs mid n (ch, s1) of
      Inl f \<Rightarrow> cache_batch_op_lin_with_small_cache_op mid (zip (take n (inv_ops s1)) (inv_resp s1)) ch = Inl f
    | Inr (ch', s') \<Rightarrow> took_all s s' \<and>
        (ch' = ch \<or> (\<exists>out. cache_batch_op_lin_with_small_cache_op mid (zip (take n (inv_ops s1)) (inv_resp s1)) ch = Inr (ch', out)))"
proof (cases "n = 0")
  case True
  then show ?thesis using assms by (simp add: take_invs_def took_def took_all_def)
next
  case False
  let ?ops = "zip (take n (inv_ops s1)) (inv_resp s1)"
  have k: "node_ok s1" "n \<le> BCAST_TO_CACHE_BATCH" "\<forall>op\<in>set (take n (inv_ops s1)). opcode op = CACHE_OP_INV"
    using assms by (simp_all add: took_def)
  have l: "n \<le> length (inv_ops s1)" "length (inv_resp s1) = length (inv_ops s1)" using k(1,2) by (simp_all add: node_ok_def arrays_ok_def)
  show ?thesis
  proof (cases "cache_batch_op_lin_with_small_cache_op mid ?ops ch")
    case (Inl f)
    then show ?thesis using False by (auto simp: take_invs_def)
  next
    case (Inr x)
    then obtain ch' out where x: "cache_batch_op_lin_with_small_cache_op mid ?ops ch = Inr (ch', out)" by (cases x) simp
    let ?u = "map fst out @ drop (length out) (inv_ops s1)" and ?r = "map snd out @ drop (length out) (inv_resp s1)"
    have "\<forall>x\<in>set ?ops. opcode (fst x) = CACHE_OP_INV" using k(3) by (auto dest: set_zip_leftD)
    note a = answers_in_place[OF inv_batch[OF x this] l]
    have "length ?u = BCAST_TO_CACHE_BATCH" "length ?r = BCAST_TO_CACHE_BATCH" using a(2,3) k(1) by (simp_all add: node_ok_def arrays_ok_def)
    from invs_taken[OF assms this] obtain s' where "invs_bookkeeping n (s1\<lparr>inv_ops := ?u, inv_resp := ?r\<rparr>) = Inr s'" "took_all s s'"
      using a(4) by fastforce
    then show ?thesis using False x by (simp add: take_invs_def)
  qed
qed

section \<open>Credits received\<close>

definition credit :: "coherence \<Rightarrow> nat \<Rightarrow> nat \<Rightarrow> nat" where
  "credit s vc i = unat (credits s ! vc ! i)"

definition imm_of :: "nat \<Rightarrow> nat \<Rightarrow> nat" where
  "imm_of vc i = i + vc * MACHINE_NUM"

definition promised :: "nat list \<Rightarrow> nat \<Rightarrow> nat \<Rightarrow> nat" where
  "promised ks vc i = CREDITS_IN_MESSAGE * number (\<lambda>k. k = imm_of vc i) ks"

lemma imm_of_eq [simp]: "i < MACHINE_NUM \<Longrightarrow> j < MACHINE_NUM \<Longrightarrow> imm_of v i = imm_of w j \<longleftrightarrow> v = w \<and> i = j"
  by (auto simp: imm_of_def MACHINE_NUM_def; presburger)

lemma imm_of_cases:
  assumes "k < 3 * MACHINE_NUM"
  obtains vc i where "vc < 3" "i < MACHINE_NUM" "k = imm_of vc i"
proof
  show "k div MACHINE_NUM < 3" using assms by (simp add: MACHINE_NUM_def)
  show "k mod MACHINE_NUM < MACHINE_NUM" by (simp add: MACHINE_NUM_def)
  show "k = imm_of (k div MACHINE_NUM) (k mod MACHINE_NUM)" by (simp add: imm_of_def)
qed

lemma increment_credits_grant:
  assumes "vc < 3" "i < MACHINE_NUM"
  shows "increment_credits LINEARIZABILITY (imm_of vc i) cr = grant vc i CREDITS_IN_MESSAGE cr"
proof -
  have "vc = 0 \<or> vc = 1 \<or> vc = 2" using assms(1) by auto
  then show ?thesis using assms(2) by (auto simp: increment_credits_def imm_of_def)
qed

lemma unat_add_of_nat:
  fixes x :: u8
  assumes "unat x + n < 256"
  shows "unat (x + of_nat n) = unat x + n"
proof -
  have "unat (of_nat n :: u8) = n" using assms by (simp add: unat_of_nat take_bit_nat_eq_self)
  then show ?thesis using assms by (simp add: unat_add_lem[THEN iffD1])
qed

definition shape :: "u8 list list \<Rightarrow> bool" where
  "shape cs \<longleftrightarrow> length cs = 3 \<and> (\<forall>vc < 3. length (cs ! vc) = MACHINE_NUM)"

lemma shape_credits: "credits_ok s = shape (credits s)"
  by (simp add: credits_ok_def shape_def)

lemma shape_update: "shape cs \<Longrightarrow> length row = MACHINE_NUM \<Longrightarrow> shape (cs[v := row])"
  by (cases "v < length cs") (auto simp: shape_def nth_list_update)

lemma grants_ok:
  assumes "shape cs" "\<forall>k\<in>set ks. k < 3 * MACHINE_NUM"
    "\<And>vc i. vc < 3 \<Longrightarrow> i < MACHINE_NUM \<Longrightarrow> i \<noteq> me \<Longrightarrow> unat (cs ! vc ! i) + promised ks vc i \<le> CREDITS_FOR_EACH_CLIENT"
  shows "\<exists>cs'. fold_res (increment_credits LINEARIZABILITY) ks cs = Inr cs' \<and> shape cs' \<and>
    (\<forall>vc < 3. \<forall>i < MACHINE_NUM. i \<noteq> me \<longrightarrow> unat (cs' ! vc ! i) = unat (cs ! vc ! i) + promised ks vc i)"
  using assms
proof (induction ks arbitrary: cs)
  case (Cons k ks)
  obtain v j where v: "v < 3" "j < MACHINE_NUM" "k = imm_of v j" using Cons.prems(2) imm_of_cases[of k] by auto
  let ?n = CREDITS_IN_MESSAGE
  let ?c1 = "cs[v := (cs ! v)[j := cs ! v ! j + of_nat ?n]]"
  have l: "v < length cs" "j < length (cs ! v)" using Cons.prems(1) v by (simp_all add: shape_def)
  have g: "increment_credits LINEARIZABILITY k cs = Inr ?c1" using v l by (simp add: increment_credits_grant grant_def)
  have sh: "shape ?c1" using Cons.prems(1) v by (intro shape_update) (simp_all add: shape_def)
  have u: "unat (?c1 ! vc ! i) + promised ks vc i = unat (cs ! vc ! i) + promised (k # ks) vc i"
    if i: "vc < 3" "i < MACHINE_NUM" "i \<noteq> me" for vc i
  proof (cases "v = vc \<and> j = i")
    case True
    have "unat (cs ! vc ! i) + ?n < 256" using Cons.prems(3)[OF i] True v by (simp add: promised_def CREDITS_FOR_EACH_CLIENT_def)
    then show ?thesis using True v l by (auto simp: promised_def unat_add_of_nat)
  next
    case False
    then have "?c1 ! vc ! i = cs ! vc ! i" using l by (cases "v = vc") auto
    then show ?thesis using False v i by (auto simp: promised_def)
  qed
  obtain cs' where "fold_res (increment_credits LINEARIZABILITY) ks ?c1 = Inr cs'" "shape cs'"
    "\<And>vc i. vc < 3 \<Longrightarrow> i < MACHINE_NUM \<Longrightarrow> i \<noteq> me \<Longrightarrow> unat (cs' ! vc ! i) = unat (?c1 ! vc ! i) + promised ks vc i"
    using Cons.IH[OF sh] Cons.prems(2,3) u by (metis list.set_intros(2))
  then show ?case using g u by simp
qed (simp add: promised_def)

text \<open>What the polls may find: no more than what completes the credits of the channel, and
  nothing from the machine itself.\<close>

definition within :: "nat \<Rightarrow> nat list list \<Rightarrow> coherence \<Rightarrow> bool" where
  "within me polls s \<longleftrightarrow> credits_ok s \<and> (\<forall>k\<in>set (concat polls). k < 3 * MACHINE_NUM) \<and> (\<forall>vc < 3. promised (concat polls) vc me = 0) \<and>
     (\<forall>vc < 3. \<forall>i < MACHINE_NUM. i \<noteq> me \<longrightarrow> credit s vc i + promised (concat polls) vc i \<le> CREDITS_FOR_EACH_CLIENT)"

lemma promised_append [simp]: "promised (ks @ ls) vc i = promised ks vc i + promised ls vc i" "promised [] vc i = 0"
  by (simp_all add: promised_def add_mult_distrib2)

lemma poll_credits_ok:
  assumes "within me polls s"
  shows "\<exists>polls' cs. poll_credits LINEARIZABILITY (polls, s) = Inr (polls', s\<lparr>credits := cs\<rparr>) \<and> within me polls' (s\<lparr>credits := cs\<rparr>) \<and>
    (\<forall>vc < 3. \<forall>i < MACHINE_NUM. i \<noteq> me \<longrightarrow>
       credit (s\<lparr>credits := cs\<rparr>) vc i + promised (concat polls') vc i = credit s vc i + promised (concat polls) vc i)"
proof (cases polls)
  case Nil
  then show ?thesis using assms by (intro exI[of _ "[]"] exI[of _ "credits s"]) (simp add: poll_credits_def)
next
  case (Cons ks polls')
  have w: "shape (credits s)" "\<forall>k\<in>set ks. k < 3 * MACHINE_NUM" "\<forall>k\<in>set (concat polls'). k < 3 * MACHINE_NUM"
    "\<And>vc i. vc < 3 \<Longrightarrow> i < MACHINE_NUM \<Longrightarrow> i \<noteq> me \<Longrightarrow> credit s vc i + promised ks vc i + promised (concat polls') vc i \<le> CREDITS_FOR_EACH_CLIENT"
    using assms Cons by (auto simp: within_def shape_credits add_ac)
  have own: "\<forall>vc < 3. promised (concat polls') vc me = 0" using assms Cons by (simp add: within_def)
  have "unat (credits s ! vc ! i) + promised ks vc i \<le> CREDITS_FOR_EACH_CLIENT" if "vc < 3" "i < MACHINE_NUM" "i \<noteq> me" for vc i
    using w(4)[OF that] by (simp add: credit_def)
  from grants_ok[OF w(1,2), of me, OF this] obtain cs where c: "fold_res (increment_credits LINEARIZABILITY) ks (credits s) = Inr cs" "shape cs"
    "\<And>vc i. vc < 3 \<Longrightarrow> i < MACHINE_NUM \<Longrightarrow> i \<noteq> me \<Longrightarrow> unat (cs ! vc ! i) = credit s vc i + promised ks vc i"
    by (auto simp: credit_def)
  let ?s = "s\<lparr>credits := cs\<rparr>"
  have "poll_credits LINEARIZABILITY (polls, s) = Inr (polls', ?s)"
    using Cons c(1) by (simp add: poll_credits_def increment_credits_based_on_protocol_def)
  moreover have "within me polls' ?s" using c(2,3) w(3,4) own by (auto simp: within_def shape_credits credit_def add_ac)
  moreover have "\<forall>vc < 3. \<forall>i < MACHINE_NUM. i \<noteq> me \<longrightarrow> credit ?s vc i + promised (concat polls') vc i = credit s vc i + promised (concat polls) vc i"
    using c(3) Cons by (auto simp: credit_def)
  ultimately show ?thesis by blast
qed

text \<open>Polling for acknowledgements is the same routine.\<close>

lemma poll_credits_LIN_eq: "poll_credits_LIN = poll_credits LINEARIZABILITY"
proof -
  have "increment_credits LINEARIZABILITY = (\<lambda>imm cr. if imm \<ge> 2 * MACHINE_NUM then grant UPD_VC (imm - 2 * MACHINE_NUM) CREDITS_IN_MESSAGE cr
      else if imm \<ge> MACHINE_NUM then grant INV_VC (imm - MACHINE_NUM) CREDITS_IN_MESSAGE cr else grant ACK_VC imm CREDITS_IN_MESSAGE cr)"
    by (intro ext) (simp add: increment_credits_def)
  then show ?thesis
    by (intro ext) (simp add: poll_credits_LIN_def poll_credits_def increment_credits_based_on_protocol_def del: vcs split: prod.split list.split)
qed

end
