(* ===== verification/Flow_Sending.thy ===== *)
theory Flow_Sending
  imports Flow_Control
begin

text \<open>
  The sending half of a turn: broadcasts of invalidations and updates, acknowledgements and
  credits.  A message leaves only for a credit, what leaves a queue is counted, and for
  what has been counted credits are sent.
\<close>

section \<open>Broadcasts\<close>

lemma check_credits_ok:
  assumes "within me polls s"
  shows "\<exists>ok polls' cs d. check_broadcast_credits me LINEARIZABILITY vc (polls, s) = Inr (ok, polls', s\<lparr>credits := cs, credit_debug_cnt := d\<rparr>) \<and>
    within me polls' (s\<lparr>credits := cs\<rparr>) \<and> (ok \<longrightarrow> (\<forall>j < MACHINE_NUM. j \<noteq> me \<longrightarrow> cs ! vc ! j \<noteq> 0)) \<and>
    (\<forall>v < 3. \<forall>i < MACHINE_NUM. i \<noteq> me \<longrightarrow>
       credit (s\<lparr>credits := cs\<rparr>) v i + promised (concat polls') v i = credit s v i + promised (concat polls) v i)"
proof -
  obtain polls' cs where p: "(if no_credit me vc s then poll_credits LINEARIZABILITY (polls, s) else Inr (polls, s)) = Inr (polls', s\<lparr>credits := cs\<rparr>)"
    "within me polls' (s\<lparr>credits := cs\<rparr>)" "\<forall>v < 3. \<forall>i < MACHINE_NUM. i \<noteq> me \<longrightarrow>
       credit (s\<lparr>credits := cs\<rparr>) v i + promised (concat polls') v i = credit s v i + promised (concat polls) v i"
  proof (cases "no_credit me vc s")
    case True
    then show ?thesis using poll_credits_ok[OF assms] that by auto
  next
    case False
    then show ?thesis using assms that[of polls "credits s"] by simp
  qed
  let ?none = "no_credit me vc (s\<lparr>credits := cs\<rparr>)"
  have "check_broadcast_credits me LINEARIZABILITY vc (polls, s) =
      Inr (\<not> ?none, polls', s\<lparr>credits := cs, credit_debug_cnt := (if ?none then credit_debug_cnt s + 1 else 0)\<rparr>)"
    using p(1) by (simp add: check_broadcast_credits_def)
  moreover have "\<not> ?none \<longrightarrow> (\<forall>j < MACHINE_NUM. j \<noteq> me \<longrightarrow> cs ! vc ! j \<noteq> 0)" by (auto simp: no_credit_def list_ex_iff)
  ultimately show ?thesis using p(2,3) by blast
qed

text \<open>What the broadcasts leave alone.\<close>

definition kept :: "coherence \<Rightarrow> (cache_op list \<times> int \<times> cache_op list \<times> mica_resp list \<times> cache_op list \<times> mica_resp list) \<times>
    (cache_op list \<times> nat \<times> nat) \<times> (nat list \<times> nat list \<times> nat list \<times> nat \<times> nat) \<times> nat \<times> nat" where
  "kept s = ((incoming_reqs s, pull_ptr s, update_ops s, update_resp s, inv_ops s, inv_resp s),
     (inv_to_send_ops s, inv_push_ptr s, inv_size s), (acks_seen s, invs_seen s, upds_seen s, push_ptr s, coh_recvs s),
     ack_size s, ack_push_ptr s)"

text \<open>What the queues are made of.\<close>

definition queues :: "coherence \<Rightarrow> cache_op list \<times> nat \<times> nat \<times> nat \<times> cache_op list \<times> nat list list" where
  "queues s = (ack_bcast_ops s, ack_pop_ptr s, ack_push_ptr s, ack_size s, inv_to_send_ops s, coh_message_count s)"

lemma queues_eq:
  assumes "queues s' = queues s"
  shows "pending s' = pending s" "queue_ok s' = queue_ok s" "counted_or_held s' = counted_or_held s" "counts_ok s' = counts_ok s"
proof -
  show p: "pending s' = pending s" using assms by (simp add: queues_def pending_def)
  then show "queue_ok s' = queue_ok s" "counted_or_held s' = counted_or_held s" "counts_ok s' = counts_ok s"
    using assms by (simp_all add: queues_def queue_ok_def counted_or_held_def held_def counts_ok_def fun_eq_iff)
qed

lemma queue_head:
  assumes "queue_ok s" "0 < ack_size s"
  shows "ack_pop_ptr s < length (ack_bcast_ops s)" "pending s = (ack_bcast_ops s ! ack_pop_ptr s) # tl (pending s)"
    "from_machine (ack_bcast_ops s ! ack_pop_ptr s) < MACHINE_NUM"
proof -
  show l: "ack_pop_ptr s < length (ack_bcast_ops s)" using assms by (simp add: queue_ok_def)
  have "[0 ..< ack_size s] = 0 # [1 ..< ack_size s]" using assms(2) by (simp add: upt_rec)
  then show p: "pending s = (ack_bcast_ops s ! ack_pop_ptr s) # tl (pending s)" using l assms(1) by (simp add: pending_def queue_ok_def)
  have "ack_bcast_ops s ! ack_pop_ptr s \<in> set (pending s)" by (subst p) simp
  then show "from_machine (ack_bcast_ops s ! ack_pop_ptr s) < MACHINE_NUM" using assms(1) by (simp add: queue_ok_def)
qed

lemma set_head:
  assumes "queue_ok s" "0 < ack_size s" "from_machine op = from_machine (ack_bcast_ops s ! ack_pop_ptr s)"
  shows "queue_ok (s\<lparr>ack_bcast_ops := (ack_bcast_ops s)[ack_pop_ptr s := op]\<rparr>)"
    "pending (s\<lparr>ack_bcast_ops := (ack_bcast_ops s)[ack_pop_ptr s := op]\<rparr>) = op # tl (pending s)"
proof -
  let ?B = BCAST_TO_CACHE_BATCH and ?q = "(ack_bcast_ops s)[ack_pop_ptr s := op]"
  let ?s = "s\<lparr>ack_bcast_ops := ?q\<rparr>"
  note h = queue_head[OF assms(1,2)]
  have p: "ack_pop_ptr s < ?B" "length (ack_bcast_ops s) = ?B" "ack_size s \<le> ?B" using assms(1) by (simp_all add: queue_ok_def)
  have ne: "ack_pop_ptr s \<noteq> (ack_pop_ptr s + k) mod ?B" if "0 < k" "k < ?B" for k
    using mod_less_neq[OF that, of "ack_pop_ptr s"] p(1) by simp
  have u: "[0 ..< ack_size s] = 0 # [1 ..< ack_size s]" using assms(2) by (simp add: upt_rec)
  have "map (\<lambda>k. ?q ! ((ack_pop_ptr s + k) mod ?B)) [1 ..< ack_size s] = map (\<lambda>k. ack_bcast_ops s ! ((ack_pop_ptr s + k) mod ?B)) [1 ..< ack_size s]"
    using ne p(3) by (intro map_cong refl nth_list_update_neq) simp
  then show pd: "pending ?s = op # tl (pending s)" using p u by (simp add: pending_def)
  have "\<forall>op\<in>set (pending s). from_machine op < MACHINE_NUM" using assms(1) by (simp add: queue_ok_def)
  then have "\<forall>op\<in>set (pending ?s). from_machine op < MACHINE_NUM" unfolding pd using h(3) assms(3) by (subst (asm) h(2)) simp
  moreover have "opcode (?q ! ((ack_pop_ptr s + k) mod ?B)) \<noteq> CACHE_OP_ACK" if "ack_size s \<le> k \<and> k < ?B" for k
    using ne[of k] that assms(1,2) by (simp add: queue_ok_def)
  ultimately show "queue_ok ?s" using assms(1) by (simp add: queue_ok_def)
qed

lemma pop_head:
  assumes "queue_ok s" "0 < ack_size s" "opcode op \<noteq> CACHE_OP_ACK"
  shows "queue_ok (s\<lparr>ack_bcast_ops := (ack_bcast_ops s)[ack_pop_ptr s := op], ack_pop_ptr := HRD_MOD_ADD (ack_pop_ptr s) BCAST_TO_CACHE_BATCH,
      ack_size := ack_size s - 1\<rparr>)"
    "pending (s\<lparr>ack_bcast_ops := (ack_bcast_ops s)[ack_pop_ptr s := op], ack_pop_ptr := HRD_MOD_ADD (ack_pop_ptr s) BCAST_TO_CACHE_BATCH,
      ack_size := ack_size s - 1\<rparr>) = tl (pending s)"
proof -
  let ?B = BCAST_TO_CACHE_BATCH and ?q = "(ack_bcast_ops s)[ack_pop_ptr s := op]"
  let ?s = "s\<lparr>ack_bcast_ops := ?q, ack_pop_ptr := HRD_MOD_ADD (ack_pop_ptr s) ?B, ack_size := ack_size s - 1\<rparr>"
  have p: "ack_pop_ptr s < ?B" "length (ack_bcast_ops s) = ?B" "ack_size s \<le> ?B" "ack_push_ptr s = (ack_pop_ptr s + ack_size s) mod ?B"
    using assms(1) by (simp_all add: queue_ok_def)
  have ne: "ack_pop_ptr s \<noteq> (ack_pop_ptr s + k) mod ?B" if "0 < k" "k < ?B" for k
    using mod_less_neq[OF that, of "ack_pop_ptr s"] p(1) by simp
  have m: "(HRD_MOD_ADD (ack_pop_ptr s) ?B + k) mod ?B = (ack_pop_ptr s + Suc k) mod ?B" for k
    using HRD_MOD_ADD_mod[OF p(1)] by (simp add: mod_simps)
  have "tl (pending s) = map (\<lambda>k. ack_bcast_ops s ! ((ack_pop_ptr s + Suc k) mod ?B)) [0 ..< ack_size s - 1]"
    by (intro nth_equalityI) (auto simp: pending_def nth_tl)
  moreover have "?q ! ((ack_pop_ptr s + Suc k) mod ?B) = ack_bcast_ops s ! ((ack_pop_ptr s + Suc k) mod ?B)" if "k < ack_size s - 1" for k
    using ne[of "Suc k"] that p(3) by (intro nth_list_update_neq) simp
  ultimately show pd: "pending ?s = tl (pending s)" by (simp add: pending_def m)
  have "set (tl (pending s)) \<subseteq> set (pending s)" by (cases "pending s") auto
  then have "\<forall>op\<in>set (pending ?s). from_machine op < MACHINE_NUM" using assms(1) unfolding pd by (auto simp: queue_ok_def)
  moreover have "opcode (?q ! ((ack_pop_ptr s + Suc k) mod ?B)) \<noteq> CACHE_OP_ACK" if "ack_size s - 1 \<le> k \<and> k < ?B" for k
  proof (cases "Suc k = ?B")
    case True
    then show ?thesis using p(1,2) assms(3) by simp
  next
    case False
    then have k: "ack_size s \<le> Suc k \<and> Suc k < ?B" using that by auto
    then have "opcode (ack_bcast_ops s ! ((ack_pop_ptr s + Suc k) mod ?B)) \<noteq> CACHE_OP_ACK" using assms(1) unfolding queue_ok_def by blast
    then show ?thesis using ne[of "Suc k"] k by simp
  qed
  moreover have "HRD_MOD_ADD (ack_pop_ptr s) ?B < ?B" using HRD_MOD_ADD_mod[OF p(1)] batch_pos by simp
  moreover have "ack_push_ptr s = (HRD_MOD_ADD (ack_pop_ptr s) ?B + (ack_size s - 1)) mod ?B" using m[of "ack_size s - 1"] assms(2) p(4) by simp
  ultimately show "queue_ok ?s" using assms(2) p(2,3) by (auto simp: queue_ok_def m)
qed

text \<open>The loop over the hot writes and the queued updates, at index \<open>op_i\<close>: \<open>K\<close> is what the
  credits and the messages sent for them add up to, \<open>H\<close> what is counted or held.\<close>

definition rest :: "bcast \<Rightarrow> coherence \<Rightarrow> coherence" where
  "rest b s = s\<lparr>ack_size := ack_size s - b_updates_sent b\<rparr>"

definition bcast_msg :: "nat \<Rightarrow> cache_op \<Rightarrow> bool" where
  "bcast_msg me m \<longleftrightarrow> from_machine m = me \<and> opcode m \<in> {CACHE_OP_INV, CACHE_OP_UPD}"

definition paid :: "nat \<Rightarrow> (nat \<Rightarrow> nat \<Rightarrow> nat) \<Rightarrow> bcast \<Rightarrow> coherence \<Rightarrow> bool" where
  "paid me K b s \<longleftrightarrow> within me (b_polls b) s \<and> (\<forall>vc < 3. \<forall>i < MACHINE_NUM. i \<noteq> me \<longrightarrow>
     credit s vc i + promised (concat (b_polls b)) vc i + number (\<lambda>m. channel m = vc) (b_out b) = K vc i)"

definition bcast_ok :: "nat \<Rightarrow> (nat \<Rightarrow> nat \<Rightarrow> nat) \<Rightarrow> (nat \<Rightarrow> nat \<Rightarrow> nat) \<Rightarrow> coherence \<Rightarrow> nat \<Rightarrow> bcast \<Rightarrow> coherence \<Rightarrow> bool" where
  "bcast_ok me K H s0 op_i b s \<longleftrightarrow> paid me K b s \<and> counts_ok s \<and> buf_ok s \<and> kept s = kept s0 \<and>
     b_updates_sent b = op_i - CACHE_BATCH_SIZE \<and> b_updates_sent b \<le> ack_size s \<and> queue_ok (rest b s) \<and>
     b_credit_recv_counter b \<le> b_br_i b \<and> b_br_i b < MAX_BCAST_BATCH \<and> (\<forall>m\<in>set (b_out b). bcast_msg me m) \<and>
     (\<forall>vc < 3. \<forall>i < MACHINE_NUM. counted_or_held (rest b s) vc i = H vc i)"

lemma paid_frame:
  assumes "paid me K b s" "credits s' = credits s" "b_polls b' = b_polls b" "b_out b' = b_out b"
  shows "paid me K b' s'"
  using assms by (simp add: paid_def within_def credits_ok_def credit_def)

lemma bcast_okD:
  assumes "bcast_ok me K H s0 i b s"
  shows "paid me K b s" "buf_ok s" "b_credit_recv_counter b \<le> b_br_i b" "b_br_i b < MAX_BCAST_BATCH" "\<forall>m\<in>set (b_out b). bcast_msg me m"
    "ack_size s = ack_size s0"
  using assms by (simp_all add: bcast_ok_def kept_def)

lemma bcast_ok_frame:
  assumes "bcast_ok me K H s0 i b s" "paid me K b' s'" "queues s' = queues s" "kept s' = kept s" "buf_ok s'"
    "b_updates_sent b' = b_updates_sent b" "b_credit_recv_counter b' \<le> b_br_i b'" "b_br_i b' < MAX_BCAST_BATCH"
    "\<forall>m\<in>set (b_out b'). bcast_msg me m" "j - CACHE_BATCH_SIZE = i - CACHE_BATCH_SIZE"
  shows "bcast_ok me K H s0 j b' s'"
proof -
  have "queues (rest b' s') = queues (rest b s)" "ack_size s' = ack_size s" using assms(3,6) by (simp_all add: queues_def rest_def)
  then show ?thesis using assms queues_eq[of "rest b' s'" "rest b s"] queues_eq(4)[OF assms(3)] by (simp add: bcast_ok_def)
qed

lemma mark_update_ok:
  assumes "bcast_ok me K H s0 op_i b s" "CACHE_BATCH_SIZE \<le> op_i" "op_i < CACHE_BATCH_SIZE + ack_size s"
  shows "\<exists>s'. mark_update s = Inr s' \<and> bcast_ok me K H s0 op_i b s' \<and> ack_size s' = ack_size s \<and> opcode (ack_bcast_ops s' ! ack_pop_ptr s') = CACHE_OP_UPD"
proof -
  let ?op = "(ack_bcast_ops s ! ack_pop_ptr s)\<lparr>opcode := CACHE_OP_UPD\<rparr>"
  let ?s = "s\<lparr>ack_bcast_ops := (ack_bcast_ops s)[ack_pop_ptr s := ?op]\<rparr>"
  have q: "queue_ok (rest b s)" "0 < ack_size (rest b s)" using assms by (auto simp: bcast_ok_def rest_def)
  have r: "rest b ?s = (rest b s)\<lparr>ack_bcast_ops := (ack_bcast_ops (rest b s))[ack_pop_ptr (rest b s) := ?op]\<rparr>" by (simp add: rest_def)
  have o: "from_machine ?op = from_machine (ack_bcast_ops (rest b s) ! ack_pop_ptr (rest b s))" by (simp add: rest_def)
  note h = queue_head[OF q] set_head[OF q o]
  have "number (\<lambda>op. from_machine op = i) (pending (rest b ?s)) = number (\<lambda>op. from_machine op = i) (pending (rest b s))" for i
    using arg_cong[OF h(2), of "number (\<lambda>op. from_machine op = i)"] unfolding r h(5) by (simp add: rest_def)
  then have "counted_or_held (rest b ?s) vc i = counted_or_held (rest b s) vc i" for vc i
    by (simp add: counted_or_held_def held_def rest_def)
  then have "bcast_ok me K H s0 op_i b ?s"
    using assms(1) h(4) by (simp add: bcast_ok_def r paid_def within_def credits_ok_def credit_def counts_ok_def buf_ok_def kept_def)
  moreover have "mark_update s = Inr ?s" "opcode (ack_bcast_ops ?s ! ack_pop_ptr ?s) = CACHE_OP_UPD"
    using h(1) by (simp_all add: mark_update_def update_at_def rest_def)
  ultimately show ?thesis by auto
qed

lemma check_ok:
  assumes "bcast_ok me K H s0 op_i b s"
  shows "\<exists>ok polls s'. check_broadcast_credits me LINEARIZABILITY vc (b_polls b, s) = Inr (ok, polls, s') \<and>
    bcast_ok me K H s0 op_i (b\<lparr>b_polls := polls\<rparr>) s' \<and> (ok \<longrightarrow> (\<forall>j < MACHINE_NUM. j \<noteq> me \<longrightarrow> credits s' ! vc ! j \<noteq> 0)) \<and>
    ack_size s' = ack_size s \<and> ack_bcast_ops s' = ack_bcast_ops s \<and> ack_pop_ptr s' = ack_pop_ptr s"
proof -
  have p: "within me (b_polls b) s" "\<And>v i. v < 3 \<Longrightarrow> i < MACHINE_NUM \<Longrightarrow> i \<noteq> me \<Longrightarrow>
      credit s v i + promised (concat (b_polls b)) v i + number (\<lambda>m. channel m = v) (b_out b) = K v i"
    using assms by (auto simp: bcast_ok_def paid_def)
  obtain ok polls cs d where c: "check_broadcast_credits me LINEARIZABILITY vc (b_polls b, s) = Inr (ok, polls, s\<lparr>credits := cs, credit_debug_cnt := d\<rparr>)"
    "within me polls (s\<lparr>credits := cs\<rparr>)" "ok \<longrightarrow> (\<forall>j < MACHINE_NUM. j \<noteq> me \<longrightarrow> cs ! vc ! j \<noteq> 0)"
    "\<And>v i. v < 3 \<Longrightarrow> i < MACHINE_NUM \<Longrightarrow> i \<noteq> me \<Longrightarrow>
       credit (s\<lparr>credits := cs\<rparr>) v i + promised (concat polls) v i = credit s v i + promised (concat (b_polls b)) v i"
    using check_credits_ok[OF p(1), of vc] by blast
  let ?s = "s\<lparr>credits := cs, credit_debug_cnt := d\<rparr>"
  have "paid me K (b\<lparr>b_polls := polls\<rparr>) ?s"
    using c(2,4) p(2) by (simp add: paid_def within_def credits_ok_def credit_def)
  then have "bcast_ok me K H s0 op_i (b\<lparr>b_polls := polls\<rparr>) ?s"
    by (rule bcast_ok_frame[OF assms]) (use bcast_okD[OF assms] in \<open>simp_all add: queues_def buf_ok_def kept_def\<close>)
  then show ?thesis using c(1,3) by (intro exI[of _ ok] exI[of _ polls] exI[of _ ?s]) simp
qed

lemma spend_ok:
  assumes "paid me K b s" "vc < 3" "\<forall>j < MACHINE_NUM. j \<noteq> me \<longrightarrow> credits s ! vc ! j \<noteq> 0" "channel m = vc"
  shows "paid me K (b\<lparr>b_out := b_out b @ [m]\<rparr>) (spend vc s)"
proof -
  have sh: "shape (credits s)" using assms(1) by (simp add: paid_def within_def shape_credits)
  then have l: "vc < length (credits s)" "length (credits s ! vc) = MACHINE_NUM" using assms(2) by (simp_all add: shape_def)
  have c: "credit (spend vc s) v i + (if v = vc then 1 else 0) = credit s v i" if "v < 3" "i < MACHINE_NUM" "i \<noteq> me" for v i
  proof (cases "v = vc")
    case True
    have "0 < unat (credits s ! vc ! i)" using assms(3) that by (simp add: unat_gt_0)
    then show ?thesis using True l that assms(3) by (simp add: spend_def credit_def unat_minus_one)
  qed (simp add: spend_def credit_def)
  have "shape (credits (spend vc s))" using shape_update[OF sh, of "map (\<lambda>n. n - 1) (credits s ! vc)" vc] l by (simp add: spend_def)
  moreover have "credit (spend vc s) v i + promised (concat (b_polls b)) v i \<le> CREDITS_FOR_EACH_CLIENT"
    if i: "v < 3" "i < MACHINE_NUM" "i \<noteq> me" for v i
  proof -
    have "credit s v i + promised (concat (b_polls b)) v i \<le> CREDITS_FOR_EACH_CLIENT" using assms(1) i by (simp add: paid_def within_def)
    then show ?thesis using c[OF i] by linarith
  qed
  ultimately have "within me (b_polls b) (spend vc s)" using assms(1) by (simp add: paid_def within_def shape_credits)
  moreover have "credit (spend vc s) v i + promised (concat (b_polls b)) v i + number (\<lambda>m. channel m = v) (b_out b @ [m]) = K v i"
    if i: "v < 3" "i < MACHINE_NUM" "i \<noteq> me" for v i
  proof -
    have "credit s v i + promised (concat (b_polls b)) v i + number (\<lambda>m. channel m = v) (b_out b) = K v i" using assms(1) i by (simp add: paid_def)
    then show ?thesis using c[OF i] assms(4) by auto
  qed
  ultimately show ?thesis by (simp add: paid_def)
qed

lemma own_cid: "me < MACHINE_NUM \<Longrightarrow> unat (of_nat me :: u8) = me"
  by (simp add: unat_of_nat take_bit_nat_eq_self MACHINE_NUM_def)

text \<open>The copy of an update into the buffer of the network card.\<close>

lemma coh_buf_ok:
  assumes "buf_ok s"
  shows "\<exists>bf i. (if CLIENT_ENABLE_INLINING = 0
      then assert_res (ENABLE_ASSERTIONS \<noteq> 1 \<or> coh_buf_i s < COH_BUF_SLOTS)
        (bind_res (update_at (coh_buf_i s) (copy_op HERD_PUT_REQ_SIZE op) (coh_buf s)) (\<lambda>b.
         Inr (s\<lparr>coh_buf := b, coh_buf_i := MOD_ADD_WITH_BASE (coh_buf_i s) COH_BUF_SLOTS 0\<rparr>)))
      else Inr s) = Inr (s\<lparr>coh_buf := bf, coh_buf_i := i\<rparr>) \<and> buf_ok (s\<lparr>coh_buf := bf, coh_buf_i := i\<rparr>)"
proof (cases "CLIENT_ENABLE_INLINING = 0")
  case True
  let ?b = "(coh_buf s)[coh_buf_i s := copy_op HERD_PUT_REQ_SIZE op (coh_buf s ! coh_buf_i s)]"
  have "buf_ok (s\<lparr>coh_buf := ?b, coh_buf_i := MOD_ADD_WITH_BASE (coh_buf_i s) COH_BUF_SLOTS 0\<rparr>)"
    using assms by (auto simp: buf_ok_def MOD_ADD_WITH_BASE_def)
  then show ?thesis using True assms by (intro exI[of _ ?b] exI[of _ "MOD_ADD_WITH_BASE (coh_buf_i s) COH_BUF_SLOTS 0"]) (simp add: buf_ok_def update_at_def)
next
  case False
  then show ?thesis using assms by (intro exI[of _ "coh_buf s"] exI[of _ "coh_buf_i s"]) simp
qed

lemma forge_upd_ok:
  assumes b: "bcast_ok me K H s0 op_i b s" and i: "CACHE_BATCH_SIZE \<le> op_i" "op_i < CACHE_BATCH_SIZE + ack_size s"
    and h: "opcode (ack_bcast_ops s ! ack_pop_ptr s) = CACHE_OP_UPD" and me: "me < MACHINE_NUM"
  shows "\<exists>m s'. forge_upd me s = Inr (m, s') \<and> bcast_msg me m \<and> channel m = UPD_VC \<and>
    bcast_ok me K H s0 (op_i + 1) (b\<lparr>b_updates_sent := b_updates_sent b + 1\<rparr>) s' \<and> credits s' = credits s"
proof -
  let ?r = "rest b s" and ?op = "ack_bcast_ops s ! ack_pop_ptr s" and ?b = "b\<lparr>b_updates_sent := b_updates_sent b + 1\<rparr>"
  have q: "queue_ok ?r" "0 < ack_size ?r" "counts_ok s" "buf_ok s" using b i by (auto simp: bcast_ok_def rest_def)
  note hd = queue_head[OF q(1,2)]
  have rm: "from_machine ?op < MACHINE_NUM" using hd(3) by (simp add: rest_def)
  obtain cm where cm: "count_message ACK_VC (from_machine ?op) s = Inr (s\<lparr>coh_message_count := cm\<rparr>)" "counts_ok (s\<lparr>coh_message_count := cm\<rparr>)"
    "\<And>v i. cm ! v ! i = coh_message_count s ! v ! i + (if v = ACK_VC \<and> i = from_machine ?op then 1 else 0)"
    using count_message_ok[OF q(3) _ rm, of ACK_VC] by auto
  let ?s1 = "s\<lparr>coh_message_count := cm\<rparr>" and ?op' = "set_meta ((op_meta ?op)\<lparr>cid := of_nat me\<rparr>) ?op"
  let ?q = "(ack_bcast_ops s)[ack_pop_ptr s := ?op']"
  have "buf_ok ?s1" using q(4) by (simp add: buf_ok_def)
  then obtain bf k where bf: "(if CLIENT_ENABLE_INLINING = 0
      then assert_res (ENABLE_ASSERTIONS \<noteq> 1 \<or> coh_buf_i ?s1 < COH_BUF_SLOTS)
        (bind_res (update_at (coh_buf_i ?s1) (copy_op HERD_PUT_REQ_SIZE ?op') (coh_buf ?s1)) (\<lambda>b.
         Inr (?s1\<lparr>coh_buf := b, coh_buf_i := MOD_ADD_WITH_BASE (coh_buf_i ?s1) COH_BUF_SLOTS 0\<rparr>)))
      else Inr ?s1) = Inr (?s1\<lparr>coh_buf := bf, coh_buf_i := k\<rparr>)" "buf_ok (?s1\<lparr>coh_buf := bf, coh_buf_i := k\<rparr>)"
    using coh_buf_ok by blast
  let ?s = "?s1\<lparr>coh_buf := bf, coh_buf_i := k, ack_bcast_ops := ?q, ack_pop_ptr := HRD_MOD_ADD (ack_pop_ptr s) BCAST_TO_CACHE_BATCH,
      stats := (stats s)\<lparr>sent_updates := sent_updates (stats s) + 1\<rparr>\<rparr>"
  let ?t = "?r\<lparr>ack_bcast_ops := (ack_bcast_ops ?r)[ack_pop_ptr ?r := ?op'], ack_pop_ptr := HRD_MOD_ADD (ack_pop_ptr ?r) BCAST_TO_CACHE_BATCH,
      ack_size := ack_size ?r - 1\<rparr>"
  have f: "forge_upd me s = Inr (?op'\<lparr>value := take HERD_VALUE_SIZE (value ?op')\<rparr>, ?s)"
    using cm(1) bf(1) hd(1) by (simp add: forge_upd_def Let_def update_at_def rest_def)
  have "opcode ?op' \<noteq> CACHE_OP_ACK" using h by simp
  note pop = pop_head[OF q(1,2) this]
  have "queues (rest ?b ?s) = queues (?t\<lparr>coh_message_count := cm\<rparr>)" by (simp add: queues_def rest_def)
  note e = queues_eq[OF this]
  have "counted_or_held (rest ?b ?s) vc j = counted_or_held ?r vc j" for vc j
    using arg_cong[OF hd(2), of "number (\<lambda>op. from_machine op = j)"] unfolding e(3)
    by (simp add: counted_or_held_def held_def pop(2) cm(3) del: One_nat_def) (auto simp: rest_def)
  then have "bcast_ok me K H s0 (op_i + 1) ?b ?s"
    using b i e(2) pop(1) cm(2) bf(2)
    by (auto simp: bcast_ok_def paid_def within_def credits_ok_def credit_def counts_ok_def buf_ok_def kept_def rest_def)
  then show ?thesis using f h own_cid[OF me] by (auto simp: bcast_msg_def channel_def)
qed

lemma forge_ok:
  assumes b: "bcast_ok me K H s0 op_i b s" and i: "op_i < CACHE_BATCH_SIZE + ack_size s" and me: "me < MACHINE_NUM"
    and h: "CACHE_BATCH_SIZE \<le> op_i \<longrightarrow> opcode (ack_bcast_ops s ! ack_pop_ptr s) = CACHE_OP_UPD"
    and vc: "vc = (if op_i < CACHE_BATCH_SIZE then INV_VC else UPD_VC)"
    and cr: "\<forall>j < MACHINE_NUM. j \<noteq> me \<longrightarrow> credits s ! vc ! j \<noteq> 0"
  shows "\<exists>b' s' c'. forge_bcast_wrs_LIN me op_i (b, s, c) = Inr (b', s', c') \<and> bcast_ok me K H s0 (op_i + 1) b' (spend vc s') \<and>
    b_credit_recv_counter b' = b_credit_recv_counter b \<and> b_br_i b' = b_br_i b"
proof -
  have v: "vc < 3" using vc by auto
  obtain n m s1 c' where f: "(if op_i < CACHE_BATCH_SIZE then Inr (0, forge_inv me op_i (s, c))
      else bind_res (forge_upd me s) (\<lambda>(m, s). Inr (1, m, s, c))) = Inr (n, m, s1, c')" "bcast_msg me m" "channel m = vc"
    "bcast_ok me K H s0 (op_i + 1) (b\<lparr>b_updates_sent := b_updates_sent b + n\<rparr>) s1" "credits s1 = credits s"
  proof (cases "op_i < CACHE_BATCH_SIZE")
    case True
    obtain m s1 c' where x: "forge_inv me op_i (s, c) = (m, s1, c')" "s1 = s\<lparr>stats := (stats s)\<lparr>sent_invs := sent_invs (stats s) + 1\<rparr>\<rparr>"
      "opcode m = CACHE_OP_INV" "from_machine m = me"
      using own_cid[OF me] by (auto simp: forge_inv_def Let_def small_op_def)
    have "paid me K b s1" using b by (intro paid_frame[of me K b s s1 b]) (simp_all add: bcast_ok_def x(2))
    then have "bcast_ok me K H s0 (op_i + 1) b s1"
      by (rule bcast_ok_frame[OF b]) (use bcast_okD[OF b] True in \<open>simp_all add: queues_def buf_ok_def kept_def x(2)\<close>)
    then show ?thesis using that[of 0 m s1 c'] True x vc by (simp add: bcast_msg_def channel_def)
  next
    case False
    obtain m s1 where "forge_upd me s = Inr (m, s1)" "bcast_msg me m" "channel m = UPD_VC"
      "bcast_ok me K H s0 (op_i + 1) (b\<lparr>b_updates_sent := b_updates_sent b + 1\<rparr>) s1" "credits s1 = credits s"
      using forge_upd_ok[OF b _ i _ me] h False by auto
    then show ?thesis using that[of 1 m s1 c] False vc by simp
  qed
  let ?b1 = "b\<lparr>b_updates_sent := b_updates_sent b + n\<rparr>" and ?s2 = "s1\<lparr>br_tx := br_tx s1 + 1\<rparr>"
  let ?b2 = "?b1\<lparr>b_out := b_out ?b1 @ [m]\<rparr>"
  have "paid me K ?b1 ?s2" using bcast_okD(1)[OF f(4)] by (intro paid_frame[of me K ?b1 s1 ?s2 ?b1]) simp_all
  from spend_ok[OF this v _ f(3)] have p: "paid me K ?b2 (spend vc ?s2)" using cr f(5) by simp
  have "bcast_ok me K H s0 (op_i + 1) ?b2 (spend vc ?s2)"
    by (rule bcast_ok_frame[OF f(4) p]) (use bcast_okD[OF f(4)] f(2) in \<open>simp_all add: queues_def buf_ok_def kept_def spend_def\<close>)
  moreover have "forge_bcast_wrs_LIN me op_i (b, s, c) = Inr (?b2, ?s2, c')" using f(1) by (simp add: forge_bcast_wrs_LIN_def)
  ultimately show ?thesis by auto
qed

lemma post_credit_recvs_ok:
  assumes "k \<le> MAX_BCAST_BATCH"
  shows "\<exists>r. post_credit_recvs LINEARIZABILITY k s = Inr (s\<lparr>credit_recvs := r\<rparr>)"
proof -
  have "k * (MACHINE_NUM - 1) \<le> MAX_CREDIT_RECVS" using assms by (simp add: config)
  then have "post_credit_recvs LINEARIZABILITY k s = Inr (s\<lparr>credit_recvs := (if 0 < k then credit_recvs s + (MACHINE_NUM - 1) * k else credit_recvs s)\<rparr>)"
    by (simp add: post_credit_recvs_def)
  then show ?thesis by blast
qed

lemma broadcast_one_ok:
  assumes "bcast_ok me K H s0 op_i b s" "op_i < CACHE_BATCH_SIZE + ack_size s" "me < MACHINE_NUM"
    "CACHE_BATCH_SIZE \<le> op_i \<longrightarrow> opcode (ack_bcast_ops s ! ack_pop_ptr s) = CACHE_OP_UPD"
    "vc = (if op_i < CACHE_BATCH_SIZE then INV_VC else UPD_VC)" "\<forall>j < MACHINE_NUM. j \<noteq> me \<longrightarrow> credits s ! vc ! j \<noteq> 0"
  shows "\<exists>b' s' c'. broadcast_one me vc op_i (b, s, c) = Inr (b', s', c') \<and> bcast_ok me K H s0 (op_i + 1) b' s'"
proof -
  obtain b1 s1 c1 where f: "forge_bcast_wrs_LIN me op_i (b, s, c) = Inr (b1, s1, c1)" "bcast_ok me K H s0 (op_i + 1) b1 (spend vc s1)"
    "b_credit_recv_counter b1 = b_credit_recv_counter b" "b_br_i b1 = b_br_i b"
    using forge_ok[OF assms] by blast
  define s2 where "s2 = spend vc s1"
  let ?k = "if br_tx s2 mod CREDITS_IN_MESSAGE = 0 then b_credit_recv_counter b1 + 1 else b_credit_recv_counter b1"
  have k: "?k \<le> b_br_i b1 + 1" "b_br_i b1 < MAX_BCAST_BATCH" using f(2) by (auto simp: bcast_ok_def)
  show ?thesis
  proof (cases "b_br_i b1 + 1 = MAX_BCAST_BATCH")
    case True
    then obtain r where r: "post_credit_recvs LINEARIZABILITY ?k s2 = Inr (s2\<lparr>credit_recvs := r\<rparr>)"
      using post_credit_recvs_ok[of ?k s2] k(1) by auto
    let ?b = "b1\<lparr>b_br_i := 0, b_credit_recv_counter := 0\<rparr>" and ?s = "s2\<lparr>credit_recvs := r\<rparr>"
    have b1: "bcast_ok me K H s0 (op_i + 1) b1 s2" using f(2) by (simp add: s2_def)
    then have "paid me K ?b ?s" by (intro paid_frame[of me K b1 s2 ?s ?b]) (simp_all add: bcast_ok_def)
    then have "bcast_ok me K H s0 (op_i + 1) ?b ?s"
      by (rule bcast_ok_frame[OF b1]) (use bcast_okD[OF b1] in \<open>simp_all add: queues_def buf_ok_def kept_def\<close>)
    then show ?thesis using f(1) r True by (simp add: broadcast_one_def s2_def Let_def)
  next
    case False
    let ?b = "b1\<lparr>b_br_i := b_br_i b1 + 1, b_credit_recv_counter := ?k\<rparr>"
    have b1: "bcast_ok me K H s0 (op_i + 1) b1 s2" using f(2) by (simp add: s2_def)
    then have "paid me K ?b s2" by (intro paid_frame[of me K b1 s2 s2 ?b]) (simp_all add: bcast_ok_def)
    then have "bcast_ok me K H s0 (op_i + 1) ?b s2"
      by (rule bcast_ok_frame[OF b1]) (use bcast_okD[OF b1] k False in simp_all)
    then show ?thesis using f(1) False by (simp add: broadcast_one_def s2_def Let_def)
  qed
qed

text \<open>The loop ends with every broadcast paid for; it may end before the last update.\<close>

lemma bcast_loop_ok:
  assumes "bcast_ok me K H s0 op_i b s" "ack_size s = n" "op_i \<le> CACHE_BATCH_SIZE + n" "me < MACHINE_NUM"
  shows "\<exists>b' s' c' j. bcast_loop me n op_i (b, s, c) = Inr (b', s', c') \<and> bcast_ok me K H s0 j b' s'"
  using assms(1-3)
proof (induction "CACHE_BATCH_SIZE + n - op_i" arbitrary: op_i b s c rule: less_induct)
  case less
  let ?vc = "if op_i < CACHE_BATCH_SIZE then INV_VC else UPD_VC"
  note step = bcast_loop.simps[of me n op_i b s c]
  have nxt: "CACHE_BATCH_SIZE + n - (op_i + 1) < CACHE_BATCH_SIZE + n - op_i" "op_i + 1 \<le> CACHE_BATCH_SIZE + n" if "op_i < CACHE_BATCH_SIZE + n"
    using that by auto
  consider (finished) "\<not> op_i < CACHE_BATCH_SIZE + n"
    | (skip) "op_i < CACHE_BATCH_SIZE + n" "op_i < CACHE_BATCH_SIZE \<and> opcode (e_op (bufs c ! op_i)) \<noteq> CACHE_OP_BRC"
    | (go) "op_i < CACHE_BATCH_SIZE + n" "\<not> (op_i < CACHE_BATCH_SIZE \<and> opcode (e_op (bufs c ! op_i)) \<noteq> CACHE_OP_BRC)" by blast
  then show ?case
  proof cases
    case finished
    then show ?thesis using less.prems(1) by (auto simp: step)
  next
    case skip
    have "bcast_ok me K H s0 (op_i + 1) b s"
      by (rule bcast_ok_frame[OF less.prems(1)]) (use bcast_okD[OF less.prems(1)] skip(2) in simp_all)
    from less.hyps[OF nxt(1)[OF skip(1)] this less.prems(2) nxt(2)[OF skip(1)]] show ?thesis using skip by (simp add: step)
  next
    case go
    obtain s1 where s1: "(if op_i < CACHE_BATCH_SIZE then Inr s else mark_update s) = Inr s1" "bcast_ok me K H s0 op_i b s1" "ack_size s1 = n"
      "CACHE_BATCH_SIZE \<le> op_i \<longrightarrow> opcode (ack_bcast_ops s1 ! ack_pop_ptr s1) = CACHE_OP_UPD"
      using mark_update_ok[OF less.prems(1)] less.prems go(1) by (cases "op_i < CACHE_BATCH_SIZE") auto
    obtain ok polls s2 where s2: "check_broadcast_credits me LINEARIZABILITY ?vc (b_polls b, s1) = Inr (ok, polls, s2)"
      "bcast_ok me K H s0 op_i (b\<lparr>b_polls := polls\<rparr>) s2" "ok \<longrightarrow> (\<forall>j < MACHINE_NUM. j \<noteq> me \<longrightarrow> credits s2 ! ?vc ! j \<noteq> 0)"
      "ack_size s2 = n" "ack_bcast_ops s2 = ack_bcast_ops s1" "ack_pop_ptr s2 = ack_pop_ptr s1"
      using check_ok[OF s1(2), of ?vc] s1(3) by metis
    note run = step[unfolded if_P[OF go(1)] if_not_P[OF go(2)] Let_def s1(1) bind_res_simps s2(1) prod.case]
    show ?thesis
    proof (cases ok)
      case True
      then obtain b3 s3 c3 where s3: "broadcast_one me ?vc op_i (b\<lparr>b_polls := polls\<rparr>, s2, c) = Inr (b3, s3, c3)" "bcast_ok me K H s0 (op_i + 1) b3 s3"
        using broadcast_one_ok[OF s2(2) _ assms(4) _ refl, of c] s1(4) s2(3-6) go(1) by metis
      have "ack_size s3 = n" using bcast_okD(6)[OF s2(2)] s2(4) bcast_okD(6)[OF s3(2)] by simp
      from less.hyps[OF nxt(1)[OF go(1)] s3(2) this nxt(2)[OF go(1)], of c3]
      show ?thesis using True s3(1) by (simp add: run)
    next
      case False
      show ?thesis
      proof (cases "op_i < CACHE_BATCH_SIZE")
        case True
        have "bcast_ok me K H s0 CACHE_BATCH_SIZE (b\<lparr>b_polls := polls\<rparr>) s2"
          by (rule bcast_ok_frame[OF s2(2)]) (use bcast_okD[OF s2(2)] True in simp_all)
        from less.hyps[OF _ this s2(4), of c] show ?thesis using True False by (simp add: run)
      qed (use False s2(2) in \<open>auto simp: run\<close>)
    qed
  qed
qed

lemma perform_broadcasts_LIN_ok:
  assumes "queue_ok s" "counts_ok s" "buf_ok s" "within me polls s" "me < MACHINE_NUM"
  shows "\<exists>polls' bs s' c'. perform_broadcasts_LIN me polls (s, c) = Inr (polls', bs, s', c') \<and> queue_ok s' \<and> counts_ok s' \<and> buf_ok s' \<and>
    within me polls' s' \<and> (\<forall>m\<in>set bs. bcast_msg me m) \<and> kept (s'\<lparr>ack_size := ack_size s\<rparr>) = kept s \<and>
    (\<forall>vc < 3. \<forall>i < MACHINE_NUM. i \<noteq> me \<longrightarrow> credit s' vc i + promised (concat polls') vc i + number (\<lambda>m. channel m = vc) bs =
       credit s vc i + promised (concat polls) vc i) \<and>
    (\<forall>vc < 3. \<forall>i < MACHINE_NUM. counted_or_held s' vc i = counted_or_held s vc i)"
proof -
  let ?b = "\<lparr>b_br_i = 0, b_updates_sent = 0, b_credit_recv_counter = 0, b_polls = polls, b_out = []\<rparr>"
  define K where "K = (\<lambda>vc i. credit s vc i + promised (concat polls) vc i)"
  have "MAX_BCAST_BATCH = 4" by (simp add: MAX_BCAST_BATCH_def)
  then have "bcast_ok me K (counted_or_held s) s 0 ?b s" using assms by (simp add: bcast_ok_def paid_def rest_def K_def)
  from bcast_loop_ok[OF this refl _ assms(5), of c] obtain b s1 c1 j where
    l: "bcast_loop me (ack_size s) 0 (?b, s, c) = Inr (b, s1, c1)" and o: "bcast_ok me K (counted_or_held s) s j b s1" by auto
  obtain r where r: "post_credit_recvs LINEARIZABILITY (b_credit_recv_counter b) s1 = Inr (s1\<lparr>credit_recvs := r\<rparr>)"
    using post_credit_recvs_ok[of "b_credit_recv_counter b" s1] bcast_okD(3,4)[OF o] by auto
  let ?s = "s1\<lparr>credit_recvs := r, ack_size := ack_size s1 - b_updates_sent b\<rparr>"
  have p: "perform_broadcasts_LIN me polls (s, c) = Inr (b_polls b, b_out b, ?s, c1)" using l r by (simp add: perform_broadcasts_LIN_def)
  have "queues ?s = queues (rest b s1)" by (simp add: queues_def rest_def)
  note q = queues_eq[OF this]
  have qs: "queue_ok ?s" "counts_ok ?s" "\<forall>vc < 3. \<forall>i < MACHINE_NUM. counted_or_held ?s vc i = counted_or_held s vc i"
    unfolding q(2-4) using o by (auto simp: bcast_ok_def rest_def counts_ok_def)
  have "paid me K b ?s" using bcast_okD(1)[OF o] by (intro paid_frame[of me K b s1 ?s b]) simp_all
  moreover have "kept (?s\<lparr>ack_size := ack_size s\<rparr>) = kept s" using o by (simp add: bcast_ok_def kept_def)
  moreover have "buf_ok ?s" using bcast_okD(2)[OF o] by (simp add: buf_ok_def)
  ultimately show ?thesis using p qs bcast_okD(5)[OF o]
    by (intro exI[of _ "b_polls b"] exI[of _ "b_out b"] exI[of _ ?s] exI[of _ c1]) (simp add: paid_def K_def)
qed

section \<open>Acknowledgements\<close>

definition ack_msg_to :: "nat \<Rightarrow> nat \<times> cache_op \<Rightarrow> bool" where
  "ack_msg_to me = (\<lambda>(d, m). d < MACHINE_NUM \<and> from_machine m = me \<and> opcode m = CACHE_OP_ACK)"

definition acks_to :: "nat \<Rightarrow> nat \<Rightarrow> nat \<Rightarrow> (nat \<times> cache_op) list \<Rightarrow> nat" where
  "acks_to v vc i out = (if vc = v then number (\<lambda>m. fst m = i) out else 0)"

lemma acks_to_simps [simp]:
  "acks_to v vc i [] = 0" "acks_to v vc i (out @ [m]) = acks_to v vc i out + (if vc = v \<and> fst m = i then 1 else 0)"
  by (simp_all add: acks_to_def)

text \<open>The walk over the acknowledgements to send, after \<open>k\<close> of them.\<close>

definition acks_paid :: "nat \<Rightarrow> coherence \<Rightarrow> nat list list \<Rightarrow> acks_out \<Rightarrow> coherence \<Rightarrow> bool" where
  "acks_paid me s0 polls a s \<longleftrightarrow> within me (a_polls a) s \<and> (\<forall>vc < 3. \<forall>i < MACHINE_NUM. i \<noteq> me \<longrightarrow>
     credit s vc i + promised (concat (a_polls a)) vc i + acks_to ACK_VC vc i (a_out a) =
     credit s0 vc i + promised (concat polls) vc i)"

definition ack_kept :: "coherence \<Rightarrow> (cache_op list \<times> int \<times> cache_op list \<times> mica_resp list \<times> cache_op list \<times> mica_resp list) \<times>
    (cache_op list \<times> nat \<times> nat \<times> nat) \<times> (nat list \<times> nat list \<times> nat list \<times> nat \<times> nat) \<times> cache_op list \<times> nat" where
  "ack_kept s = ((incoming_reqs s, pull_ptr s, update_ops s, update_resp s, inv_ops s, inv_resp s),
     (ack_bcast_ops s, ack_pop_ptr s, ack_push_ptr s, ack_size s), (acks_seen s, invs_seen s, upds_seen s, push_ptr s, coh_recvs s),
     coh_buf s, coh_buf_i s)"

definition acks_ok :: "nat \<Rightarrow> coherence \<Rightarrow> nat list list \<Rightarrow> nat \<Rightarrow> acks_out \<Rightarrow> coherence \<Rightarrow> bool" where
  "acks_ok me s0 polls k a s \<longleftrightarrow> acks_paid me s0 polls a s \<and> counts_ok s \<and> invs_ok s \<and> ack_kept s = ack_kept s0 \<and>
     (\<forall>m\<in>set (a_out a). ack_msg_to me m) \<and> length (a_out a) \<le> k \<and> sent_ack_tx s = sent_ack_tx s0 + length (a_out a) \<and>
     a_recv_counter a + sent_ack_tx s0 div CREDITS_IN_MESSAGE = sent_ack_tx s div CREDITS_IN_MESSAGE \<and>
     (\<forall>vc < 3. \<forall>i < MACHINE_NUM. counted_or_held s vc i = counted_or_held s0 vc i \<and>
        coh_message_count s ! vc ! i = coh_message_count s0 ! vc ! i + acks_to INV_VC vc i (a_out a))"

lemma ack_polled:
  assumes "acks_ok me s0 polls k a s"
  shows "\<exists>polls' cs. (if c then poll_credits_LIN (a_polls a, s) else Inr (a_polls a, s)) = Inr (polls', s\<lparr>credits := cs\<rparr>) \<and>
    acks_ok me s0 polls k (a\<lparr>a_polls := polls'\<rparr>) (s\<lparr>credits := cs\<rparr>)"
proof (cases c)
  case True
  have p: "within me (a_polls a) s" using assms by (simp add: acks_ok_def acks_paid_def)
  from poll_credits_ok[OF p] obtain polls' cs where r: "poll_credits LINEARIZABILITY (a_polls a, s) = Inr (polls', s\<lparr>credits := cs\<rparr>)"
    "within me polls' (s\<lparr>credits := cs\<rparr>)" "\<forall>vc < 3. \<forall>i < MACHINE_NUM. i \<noteq> me \<longrightarrow>
       credit (s\<lparr>credits := cs\<rparr>) vc i + promised (concat polls') vc i = credit s vc i + promised (concat (a_polls a)) vc i" by blast
  let ?s = "s\<lparr>credits := cs\<rparr>"
  have "queues ?s = queues s" by (simp add: queues_def)
  note q = queues_eq[OF this]
  have "acks_paid me s0 polls (a\<lparr>a_polls := polls'\<rparr>) ?s" using assms r(2,3) by (simp add: acks_ok_def acks_paid_def)
  then have "acks_ok me s0 polls k (a\<lparr>a_polls := polls'\<rparr>) ?s" using assms q by (simp add: acks_ok_def invs_ok_def ack_kept_def)
  then show ?thesis using True r(1) by (auto simp: poll_credits_LIN_eq)
next
  case False
  then show ?thesis using assms by (intro exI[of _ "a_polls a"] exI[of _ "credits s"]) simp
qed

lemma acks_okD:
  assumes "acks_ok me s0 polls k a s"
  shows "acks_paid me s0 polls a s" "counts_ok s" "invs_ok s" "ack_kept s = ack_kept s0" "\<forall>m\<in>set (a_out a). ack_msg_to me m" "length (a_out a) \<le> k"
    "sent_ack_tx s = sent_ack_tx s0 + length (a_out a)" "a_recv_counter a + sent_ack_tx s0 div CREDITS_IN_MESSAGE = sent_ack_tx s div CREDITS_IN_MESSAGE"
    "vc < 3 \<Longrightarrow> i < MACHINE_NUM \<Longrightarrow> counted_or_held s vc i = counted_or_held s0 vc i"
    "vc < 3 \<Longrightarrow> i < MACHINE_NUM \<Longrightarrow> coh_message_count s ! vc ! i = coh_message_count s0 ! vc ! i + acks_to INV_VC vc i (a_out a)"
  using assms by (simp_all add: acks_ok_def)

text \<open>The credit for one acknowledgement.\<close>

lemma ack_spend:
  assumes p: "acks_paid me s0 polls a s" and rm: "rm < MACHINE_NUM" and c: "credits s ! ACK_VC ! rm \<noteq> 0" and o: "a_out a' = a_out a @ [(rm, m)]" "a_polls a' = a_polls a"
    and s': "credits s' = (credits s)[ACK_VC := (credits s ! ACK_VC)[rm := credits s ! ACK_VC ! rm - 1]]"
  shows "acks_paid me s0 polls a' s'"
proof -
  have sh: "shape (credits s)" using p by (simp add: acks_paid_def within_def shape_credits)
  then have l: "ACK_VC < length (credits s)" "rm < length (credits s ! ACK_VC)" "length (credits s ! ACK_VC) = MACHINE_NUM" using rm by (simp_all add: shape_def)
  have cr: "credit s' vc i + (if vc = ACK_VC \<and> rm = i then 1 else 0) = credit s vc i" for vc i
  proof (cases "vc = ACK_VC \<and> rm = i")
    case True
    have "0 < unat (credits s ! ACK_VC ! rm)" using c by (simp add: unat_gt_0)
    then show ?thesis using True l c by (simp add: credit_def s' unat_minus_one)
  next
    case False
    then have "credits s' ! vc ! i = credits s ! vc ! i" using l unfolding s' by (cases "vc = ACK_VC") auto
    then show ?thesis using False by (auto simp: credit_def)
  qed
  have w: "credit s vc i + promised (concat (a_polls a)) vc i \<le> CREDITS_FOR_EACH_CLIENT"
    "credit s vc i + promised (concat (a_polls a)) vc i + acks_to ACK_VC vc i (a_out a) = credit s0 vc i + promised (concat polls) vc i"
    if "vc < 3" "i < MACHINE_NUM" "i \<noteq> me" for vc i using p that by (simp_all add: acks_paid_def within_def)
  have "shape (credits s')" unfolding s' using shape_update[OF sh] l(3) by simp
  moreover have "credit s' vc i + promised (concat (a_polls a)) vc i \<le> CREDITS_FOR_EACH_CLIENT" if "vc < 3" "i < MACHINE_NUM" "i \<noteq> me" for vc i
    using w(1)[OF that] cr[of vc i] by linarith
  moreover have "credit s' vc i + promised (concat (a_polls a)) vc i + acks_to ACK_VC vc i (a_out a') = credit s0 vc i + promised (concat polls) vc i"
    if "vc < 3" "i < MACHINE_NUM" "i \<noteq> me" for vc i using w(2)[OF that] cr[of vc i] o(1) by simp
  ultimately show ?thesis using p o(2) by (simp add: acks_paid_def within_def shape_credits)
qed

lemma asked_sent:
  assumes "invs_ok s" "k < BCAST_TO_CACHE_BATCH" "asked_ack (inv_to_send_ops s ! k)" "\<not> asked_ack op"
    "inv_to_send_ops s' = (inv_to_send_ops s)[k := op]" "inv_size s' = inv_size s - 1" "inv_push_ptr s' = inv_push_ptr s"
  shows "invs_ok s'" "held s' INV_VC i + (if from_machine (inv_to_send_ops s ! k) = i then 1 else 0) = held s INV_VC i"
proof -
  have k: "k < length (inv_to_send_ops s)" using assms(1,2) by (simp add: invs_ok_def)
  have "number asked_ack (inv_to_send_ops s') + 1 = number asked_ack (inv_to_send_ops s)"
    using number_update[OF k, of asked_ack op] assms(3-5) by simp
  then show "invs_ok s'" using assms by (auto simp: invs_ok_def dest!: set_update_subset_insert[THEN subsetD])
  show "held s' INV_VC i + (if from_machine (inv_to_send_ops s ! k) = i then 1 else 0) = held s INV_VC i"
    using number_update[OF k, of "\<lambda>op. asked_ack op \<and> from_machine op = i" op] assms(3-5) by (simp add: held_def)
qed

lemma ack_leaves:
  assumes a: "acks_ok me s0 polls k a s" and k: "k < BCAST_TO_CACHE_BATCH" and b: "asked_ack (inv_to_send_ops s ! k)" and me: "me < MACHINE_NUM"
    and rm: "rm = from_machine (inv_to_send_ops s ! k)" "credits s ! ACK_VC ! rm \<noteq> 0"
    and op: "op = set_meta ((op_meta (inv_to_send_ops s ! k))\<lparr>cid := of_nat me\<rparr>) ((inv_to_send_ops s ! k)\<lparr>opcode := CACHE_OP_ACK\<rparr>)"
    and s1: "s1 = s\<lparr>credits := (credits s)[ACK_VC := (credits s ! ACK_VC)[rm := credits s ! ACK_VC ! rm - 1]]\<rparr>"
    and a': "a' = a\<lparr>a_out := a_out a @ [(rm, op)],
      a_recv_counter := (if (sent_ack_tx s + 1) mod CREDITS_IN_MESSAGE = 0 then a_recv_counter a + 1 else a_recv_counter a)\<rparr>"
  shows "\<exists>cm. count_message INV_VC rm s1 = Inr (s1\<lparr>coh_message_count := cm\<rparr>) \<and>
    acks_ok me s0 polls (k + 1) a' (s1\<lparr>coh_message_count := cm, inv_to_send_ops := (inv_to_send_ops s)[k := op], inv_size := inv_size s - 1,
      sent_ack_tx := sent_ack_tx s + 1, stats := st\<rparr>)"
proof -
  note d = acks_okD[OF a]
  have l: "k < length (inv_to_send_ops s)" using d(3) k by (simp add: invs_ok_def)
  have rml: "rm < MACHINE_NUM" using d(3) b l unfolding rm(1) invs_ok_def by (meson nth_mem)
  have "counts_ok s1" using d(2) by (simp add: s1 counts_ok_def)
  then obtain cm where cm: "count_message INV_VC rm s1 = Inr (s1\<lparr>coh_message_count := cm\<rparr>)" "counts_ok (s1\<lparr>coh_message_count := cm\<rparr>)"
    "\<And>v i. cm ! v ! i = coh_message_count s ! v ! i + (if v = INV_VC \<and> i = rm then 1 else 0)"
    using count_message_ok[of s1 INV_VC rm] rml by (auto simp: s1)
  let ?s = "s1\<lparr>coh_message_count := cm, inv_to_send_ops := (inv_to_send_ops s)[k := op], inv_size := inv_size s - 1,
      sent_ack_tx := sent_ack_tx s + 1, stats := st\<rparr>"
  have "\<not> asked_ack op" by (simp add: op asked_ack_def)
  note sent = asked_sent[OF d(3) k b this, of ?s]
  have p: "acks_paid me s0 polls a' ?s" by (rule ack_spend[OF d(1) rml rm(2)]) (simp_all add: a' s1)
  have t: "a_recv_counter a' + sent_ack_tx s0 div CREDITS_IN_MESSAGE = sent_ack_tx ?s div CREDITS_IN_MESSAGE"
    using d(8) by (simp add: a' div_Suc)
  have m: "ack_msg_to me (rm, op)" using rml own_cid[OF me] by (simp add: ack_msg_to_def op)
  have hs: "held ?s vc i = held s vc i" if "vc \<noteq> INV_VC" for vc i using that by (simp add: held_def pending_def s1)
  have hi: "held ?s INV_VC i + (if rm = i then 1 else 0) = held s INV_VC i" for i unfolding rm(1) by (rule sent(2)) (simp_all add: s1)
  have h: "counted_or_held ?s vc i = counted_or_held s vc i" for vc i
  proof (cases "vc = INV_VC")
    case True
    then show ?thesis using hi[of i] cm(3)[of vc i] by (auto simp: counted_or_held_def s1)
  next
    case False
    then show ?thesis using hs cm(3)[of vc i] by (simp add: counted_or_held_def s1)
  qed
  have "acks_ok me s0 polls (k + 1) a' ?s" unfolding acks_ok_def
  proof (intro conjI allI impI)
    show "invs_ok ?s" by (rule sent(1)) (simp_all add: s1)
    show "counted_or_held ?s vc i = counted_or_held s0 vc i" if "vc < 3" "i < MACHINE_NUM" for vc i using h d(9)[OF that] by simp
    show "coh_message_count ?s ! vc ! i = coh_message_count s0 ! vc ! i + acks_to INV_VC vc i (a_out a')" if "vc < 3" "i < MACHINE_NUM" for vc i
      using d(10)[OF that] cm(3)[of vc i] by (auto simp: a')
  qed (use p t m cm(2) d(4-7) in \<open>simp_all add: a' s1 counts_ok_def ack_kept_def\<close>)
  then show ?thesis using cm(1) by blast
qed

lemma send_ack_ok:
  assumes "acks_ok me s0 polls k a s" "k < BCAST_TO_CACHE_BATCH" "me < MACHINE_NUM"
  shows "\<exists>a' s'. send_ack me k (a, s) = Inr (a', s') \<and> acks_ok me s0 polls (k + 1) a' s'"
proof (cases "asked_ack (inv_to_send_ops s ! k)")
  case False
  then show ?thesis using assms(1) by (auto simp: send_ack_def Let_def asked_ack_def acks_ok_def)
next
  case True
  let ?rm = "from_machine (inv_to_send_ops s ! k)"
  note d = acks_okD[OF assms(1)]
  have rm: "?rm < MACHINE_NUM" using d(3) True assms(2) unfolding invs_ok_def by (metis nth_mem)
  have "length (credits s ! ACK_VC) = MACHINE_NUM" using d(1) by (simp add: acks_paid_def within_def credits_ok_def)
  then have l: "\<not> ?rm \<ge> length (credits s ! ACK_VC)" using rm by simp
  have o: "\<not> opcode (inv_to_send_ops s ! k) \<noteq> CACHE_OP_BRC" using True by (simp add: asked_ack_def)
  obtain polls' cs where q: "(if credits s ! ACK_VC ! ?rm = 0 then poll_credits_LIN (a_polls a, s) else Inr (a_polls a, s)) = Inr (polls', s\<lparr>credits := cs\<rparr>)"
    "acks_ok me s0 polls k (a\<lparr>a_polls := polls'\<rparr>) (s\<lparr>credits := cs\<rparr>)" using ack_polled[OF assms(1)] by blast
  have run: "send_ack me k (a, s) = (if cs ! ACK_VC ! ?rm = 0 then Inr (a\<lparr>a_polls := polls'\<rparr>, s\<lparr>credits := cs\<rparr>) else t)"
    if "t = (let s = s\<lparr>credits := cs[ACK_VC := (cs ! ACK_VC)[?rm := cs ! ACK_VC ! ?rm - 1]]\<rparr>; a = a\<lparr>a_polls := polls'\<rparr> in
         bind_res (count_message INV_VC ?rm s) (\<lambda>s.
         let op = set_meta ((op_meta (inv_to_send_ops s ! k))\<lparr>cid := of_nat me\<rparr>) ((inv_to_send_ops s ! k)\<lparr>opcode := CACHE_OP_ACK\<rparr>) in
         bind_res (update_at k (\<lambda>_. op) (inv_to_send_ops s)) (\<lambda>q.
         Inr (a\<lparr>a_out := a_out a @ [(?rm, op)],
             a_recv_counter := (if (sent_ack_tx s + 1) mod CREDITS_IN_MESSAGE = 0 then a_recv_counter a + 1 else a_recv_counter a)\<rparr>,
           s\<lparr>inv_to_send_ops := q, inv_size := inv_size s - 1, sent_ack_tx := sent_ack_tx s + 1,
             stats := (stats s)\<lparr>sent_acks := sent_acks (stats s) + 1\<rparr>\<rparr>))))" for t
    unfolding that send_ack_def Let_def prod.case if_not_P[OF o] if_not_P[OF l] q(1) bind_res_simps
    by (auto simp: count_message_def Let_def)
  show ?thesis
  proof (cases "cs ! ACK_VC ! ?rm = 0")
    case z: True
    have "acks_ok me s0 polls (k + 1) (a\<lparr>a_polls := polls'\<rparr>) (s\<lparr>credits := cs\<rparr>)" using q(2) by (auto simp: acks_ok_def)
    then show ?thesis using run[OF refl] z by auto
  next
    case nz: False
    from ack_leaves[OF q(2) assms(2) _ assms(3) refl _ refl refl refl, where st = "(stats s)\<lparr>sent_acks := sent_acks (stats s) + 1\<rparr>"] True nz
    show ?thesis using assms(2) d(3) by (auto simp: run[OF refl] Let_def update_at_def invs_ok_def)
  qed
qed

lemma acks_sent_ok:
  assumes "acks_ok me s0 polls 0 a s" "n \<le> BCAST_TO_CACHE_BATCH" "me < MACHINE_NUM"
  shows "\<exists>a' s'. fold_res (send_ack me) [0 ..< n] (a, s) = Inr (a', s') \<and> acks_ok me s0 polls n a' s'"
  using assms(2)
proof (induction n)
  case (Suc n)
  then obtain a1 s1 where "fold_res (send_ack me) [0 ..< n] (a, s) = Inr (a1, s1)" "acks_ok me s0 polls n a1 s1" by auto
  then show ?case using send_ack_ok[of me s0 polls n a1 s1] Suc.prems assms(3) by (auto simp: fold_res_append)
qed (use assms(1) in simp)

lemma send_acks_ok:
  assumes "within me polls s" "counts_ok s" "invs_ok s" "me < MACHINE_NUM"
  shows "\<exists>polls' acks s' k. (if inv_size s > 0 then send_acks me polls s else Inr (polls, [], s)) = Inr (polls', acks, s') \<and>
    acks_ok me s polls BCAST_TO_CACHE_BATCH \<lparr>a_polls = polls', a_recv_counter = k, a_out = acks\<rparr> s'"
proof (cases "inv_size s > 0")
  case False
  then show ?thesis using assms(1-3) by (intro exI[of _ polls] exI[of _ "[]"] exI[of _ s] exI[of _ 0]) (simp add: acks_ok_def acks_paid_def)
next
  case True
  let ?a = "\<lparr>a_polls = polls, a_recv_counter = 0, a_out = []\<rparr>"
  have "acks_ok me s polls 0 ?a s" using assms(1-3) by (simp add: acks_ok_def acks_paid_def)
  from acks_sent_ok[OF this order_refl assms(4)] obtain a s1 where
    f: "fold_res (send_ack me) [0 ..< BCAST_TO_CACHE_BATCH] (?a, s) = Inr (a, s1)" and o: "acks_ok me s polls BCAST_TO_CACHE_BATCH a s1" by blast
  have k: "CREDITS_IN_MESSAGE = 30" "BCAST_TO_CACHE_BATCH = 500" "MAX_CREDIT_RECVS = 17" by (simp_all add: config)
  have "(t + l) div 30 \<le> t div 30 + 17" if "l \<le> 500" for t l :: nat
  proof -
    have "l div 30 \<le> 16" "(t mod 30 + l mod 30) div 30 \<le> 1" using that by (auto simp: less_Suc_eq_le[symmetric] div_less_iff_less_mult)
    then show ?thesis using div_add1_eq[of t l 30] by simp
  qed
  from this[of "length (a_out a)" "sent_ack_tx s"] have "a_recv_counter a \<le> MAX_CREDIT_RECVS" using acks_okD(6-8)[OF o] unfolding k by linarith
  moreover have "MAX_CREDIT_RECVS \<le> BCAST_TO_CACHE_BATCH" by (simp add: k)
  ultimately have p: "post_recvs_and_send (a_recv_counter a) (length (a_out a)) MAX_CREDIT_RECVS BCAST_TO_CACHE_BATCH s1 =
      Inr (s1\<lparr>credit_recvs := credit_recvs s1 + a_recv_counter a\<rparr>)" by (simp add: post_recvs_and_send_def)
  let ?s = "s1\<lparr>credit_recvs := credit_recvs s1 + a_recv_counter a\<rparr>"
  have "queues ?s = queues s1" by (simp add: queues_def)
  from queues_eq[OF this] have "acks_ok me s polls BCAST_TO_CACHE_BATCH \<lparr>a_polls = a_polls a, a_recv_counter = a_recv_counter a, a_out = a_out a\<rparr> ?s"
    using o by (simp add: acks_ok_def acks_paid_def within_def credits_ok_def credit_def invs_ok_def ack_kept_def)
  moreover have "send_acks me polls s = Inr (a_polls a, a_out a, ?s)" using f p by (simp add: send_acks_def)
  ultimately show ?thesis using True by (intro exI[of _ "a_polls a"] exI[of _ "a_out a"] exI[of _ ?s] exI[of _ "a_recv_counter a"]) simp
qed

section \<open>Credits sent\<close>

lemma number_all: "\<forall>x\<in>set xs. P x \<Longrightarrow> number P xs = length xs" "\<forall>x\<in>set xs. \<not> P x \<Longrightarrow> number P xs = 0"
  by (induction xs) auto

text \<open>A machine's messages of the turn are credited channel by channel.\<close>

lemma channel_number:
  assumes "vc < 3"
  shows "number (\<lambda>i. channel_of s rm i = vc) [0 ..< fc_message_count s rm] = coh_message_count s ! vc ! rm"
proof -
  let ?a = "coh_message_count s ! ACK_VC ! rm" and ?b = "coh_message_count s ! INV_VC ! rm" and ?c = "coh_message_count s ! UPD_VC ! rm"
  let ?n = "\<lambda>i j. number (\<lambda>i. channel_of s rm i = vc) [i ..< j]"
  have "[0 ..< fc_message_count s rm] = [0 ..< ?a] @ [?a ..< ?a + ?b] @ [?a + ?b ..< ?a + ?b + ?c]"
    using upt_add_eq_append[of 0 ?a "?b + ?c"] upt_add_eq_append[of ?a "?a + ?b" ?c] by (simp add: fc_message_count_def add.assoc)
  moreover have "?n 0 ?a = (if vc = ACK_VC then ?a else 0)" by (cases "vc = ACK_VC") (auto simp: channel_of_def number_all)
  moreover have "?n ?a (?a + ?b) = (if vc = INV_VC then ?b else 0)" by (cases "vc = INV_VC") (auto simp: channel_of_def number_all)
  moreover have "?n (?a + ?b) (?a + ?b + ?c) = (if vc = UPD_VC then ?c else 0)" by (cases "vc = UPD_VC") (auto simp: channel_of_def number_all)
  ultimately show ?thesis using assms by (auto simp: less_Suc_eq numeral_3_eq_3)
qed

definition lengths_ok :: "coherence \<Rightarrow> bool" where
  "lengths_ok s \<longleftrightarrow> length (acks_seen s) = MACHINE_NUM \<and> length (invs_seen s) = MACHINE_NUM \<and> length (upds_seen s) = MACHINE_NUM"

lemma see_parts:
  assumes "lengths_ok s" "vc < 3" "rm < MACHINE_NUM"
  shows "lengths_ok (see vc rm f s)" "v < 3 \<Longrightarrow> seen (see vc rm f s) v i = (if v = vc \<and> i = rm then f (seen s v i) else seen s v i)"
    "coh_message_count (see vc rm f s) = coh_message_count s"
proof -
  show "lengths_ok (see vc rm f s)" "coh_message_count (see vc rm f s) = coh_message_count s" using assms(1) by (auto simp: see_def lengths_ok_def)
  show "v < 3 \<Longrightarrow> seen (see vc rm f s) v i = (if v = vc \<and> i = rm then f (seen s v i) else seen s v i)"
    using assms by (auto simp: see_def seen_def lengths_ok_def nth_list_update)
qed

definition tot :: "(nat \<Rightarrow> nat \<Rightarrow> nat) \<Rightarrow> nat" where
  "tot g = (\<Sum>p\<in>{..<3} \<times> {..<MACHINE_NUM}. g (fst p) (snd p))"

lemma tot_change:
  assumes "v < 3" "i < MACHINE_NUM" "\<And>w j. w < 3 \<Longrightarrow> j < MACHINE_NUM \<Longrightarrow> (w, j) \<noteq> (v, i) \<Longrightarrow> g w j = h w j"
  shows "tot g + h v i = tot h + g v i"
proof -
  let ?P = "{..<3 :: nat} \<times> {..<MACHINE_NUM}"
  have p: "finite ?P" "(v, i) \<in> ?P" using assms(1,2) by auto
  have "(\<Sum>p\<in>?P - {(v, i)}. g (fst p) (snd p)) = (\<Sum>p\<in>?P - {(v, i)}. h (fst p) (snd p))" by (rule sum.cong[OF refl], rule assms(3)) auto
  then show ?thesis unfolding tot_def using sum.remove[OF p, of "\<lambda>p. g (fst p) (snd p)"] sum.remove[OF p, of "\<lambda>p. h (fst p) (snd p)"] by simp
qed

lemma tot_mono: "(\<And>w j. w < 3 \<Longrightarrow> j < MACHINE_NUM \<Longrightarrow> g w j \<le> h w j) \<Longrightarrow> tot g \<le> tot h"
  unfolding tot_def by (rule sum_mono) auto

lemma tot_cong: "(\<And>w j. w < 3 \<Longrightarrow> j < MACHINE_NUM \<Longrightarrow> g w j = h w j) \<Longrightarrow> tot g = tot h"
  unfolding tot_def by (rule sum.cong) auto

lemma tot_add: "tot (\<lambda>w j. g w j + h w j) = tot g + tot h"
  by (simp add: tot_def sum.distrib)

lemma tot_ge: "v < 3 \<Longrightarrow> i < MACHINE_NUM \<Longrightarrow> g v i \<le> tot g"
  unfolding tot_def using member_le_sum[of "(v, i)" "{..<3} \<times> {..<MACHINE_NUM}" "\<lambda>p. g (fst p) (snd p)"] by simp

text \<open>While credits are forged: \<open>D\<close> is what has been credited so far of every machine and channel.\<close>

definition fc_kept :: "coherence \<Rightarrow> coherence \<Rightarrow> bool" where
  "fc_kept s0 s \<longleftrightarrow> s\<lparr>acks_seen := [], invs_seen := [], upds_seen := [], credit_tx := 0\<rparr> =
     s0\<lparr>acks_seen := [], invs_seen := [], upds_seen := [], credit_tx := 0\<rparr>"

definition credits_for :: "nat \<Rightarrow> (nat \<times> nat) list \<Rightarrow> nat \<Rightarrow> nat \<Rightarrow> nat" where
  "credits_for me out v i = number (\<lambda>x. x = (i, imm_of v me)) out"

definition forging :: "nat \<Rightarrow> coherence \<Rightarrow> (nat \<Rightarrow> nat \<Rightarrow> nat) \<Rightarrow> coherence \<Rightarrow> (nat \<times> nat) list \<Rightarrow> bool" where
  "forging me s0 D s out \<longleftrightarrow> fc_kept s0 s \<and> lengths_ok s \<and>
     (\<forall>v < 3. \<forall>i < MACHINE_NUM. seen s v i < CREDITS_IN_MESSAGE \<and> seen s v i + CREDITS_IN_MESSAGE * credits_for me out v i = seen s0 v i + D v i) \<and>
     CREDITS_IN_MESSAGE * length out + tot (seen s) = tot (seen s0) + tot D \<and>
     (\<forall>x\<in>set out. fst x < MACHINE_NUM \<and> (\<exists>v < 3. snd x = imm_of v me))"

definition one_more :: "nat \<Rightarrow> nat \<Rightarrow> (nat \<Rightarrow> nat \<Rightarrow> nat) \<Rightarrow> nat \<Rightarrow> nat \<Rightarrow> nat" where
  "one_more vc rm D v i = (if v = vc \<and> i = rm then D v i + 1 else D v i)"

lemma tot_one_more: "vc < 3 \<Longrightarrow> rm < MACHINE_NUM \<Longrightarrow> tot (one_more vc rm D) = tot D + 1"
  using tot_change[of vc rm "one_more vc rm D" D] by (auto simp: one_more_def)

lemma see_kept: "fc_kept s0 s \<Longrightarrow> fc_kept s0 (see vc rm f s)" "fc_kept s0 s \<Longrightarrow> fc_kept s0 (s\<lparr>credit_tx := k\<rparr>)"
  by (simp_all add: fc_kept_def see_def)

lemma seen_tx [simp]: "seen (s\<lparr>credit_tx := k\<rparr>) = seen s"
  by (simp add: seen_def fun_eq_iff)

lemma seen_three: "(acks_seen s ! rm = n \<or> invs_seen s ! rm = n \<or> upds_seen s ! rm = n) \<longleftrightarrow> (\<exists>v < 3. seen s v rm = n)"
  by (auto simp: seen_def numeral_3_eq_3 less_Suc_eq)

lemma credit_for_ok:
  assumes f: "forging me s0 D s out" and rm: "rm < MACHINE_NUM" "me < MACHINE_NUM" and b: "tot (seen s0) + tot D + 1 \<le> LIN_CLT_BUF_SLOTS"
    and vc: "vc = channel_of s rm i"
  shows "\<exists>s' out'. credit_for me rm i (s, out) = Inr (s', out') \<and> forging me s0 (one_more vc rm D) s' out'"
proof -
  have v: "vc < 3" by (simp add: vc channel_of_def)
  define s1 where "s1 = see vc rm (\<lambda>n. n + 1) s"
  have g: "fc_kept s0 s" "lengths_ok s" "CREDITS_IN_MESSAGE * length out + tot (seen s) = tot (seen s0) + tot D"
    "\<forall>x\<in>set out. fst x < MACHINE_NUM \<and> (\<exists>v < 3. snd x = imm_of v me)"
    "\<And>v i. v < 3 \<Longrightarrow> i < MACHINE_NUM \<Longrightarrow> seen s v i < CREDITS_IN_MESSAGE"
    "\<And>v i. v < 3 \<Longrightarrow> i < MACHINE_NUM \<Longrightarrow> seen s v i + CREDITS_IN_MESSAGE * credits_for me out v i = seen s0 v i + D v i"
    using f by (auto simp: forging_def)
  note s1 = see_parts[OF g(2) v rm(1), where f = "\<lambda>n. n + 1", folded s1_def]
  have ne: "seen s w rm \<noteq> CREDITS_IN_MESSAGE" if "w < 3" for w using g(5)[OF that rm(1)] by simp
  have full: "(acks_seen s1 ! rm = CREDITS_IN_MESSAGE \<or> invs_seen s1 ! rm = CREDITS_IN_MESSAGE \<or> upds_seen s1 ! rm = CREDITS_IN_MESSAGE) \<longleftrightarrow>
      seen s vc rm + 1 = CREDITS_IN_MESSAGE"
    unfolding seen_three using v s1(2) ne by (auto split: if_splits)
  show ?thesis
  proof (cases "seen s vc rm + 1 = CREDITS_IN_MESSAGE")
    case False
    have "tot (seen s1) = tot (seen s) + 1" using tot_change[OF v rm(1), of "seen s1" "seen s"] s1(2) v by auto
    moreover have "seen s1 w j < CREDITS_IN_MESSAGE \<and> seen s1 w j + CREDITS_IN_MESSAGE * credits_for me out w j = seen s0 w j + one_more vc rm D w j"
      if "w < 3" "j < MACHINE_NUM" for w j
      using g(5,6)[OF that] False g(5)[OF v rm(1)] by (auto simp: s1(2)[OF that(1)] one_more_def)
    ultimately have "forging me s0 (one_more vc rm D) s1 out"
      using g see_kept(1)[OF g(1), of vc rm "\<lambda>n. n + 1", folded s1_def] s1(1) tot_one_more[OF v rm(1), of D] by (simp add: forging_def)
    moreover have "credit_for me rm i (s, out) = Inr (s1, out)" using False full by (simp add: credit_for_def Let_def s1_def vc)
    ultimately show ?thesis by blast
  next
    case True
    define s2 where "s2 = see vc rm (\<lambda>_. 0) (s1\<lparr>credit_tx := credit_tx s1 + 1\<rparr>)"
    let ?out = "out @ [(rm, imm_of vc me)]"
    have l1: "lengths_ok (s1\<lparr>credit_tx := credit_tx s1 + 1\<rparr>)" using s1(1) by (simp add: lengths_ok_def)
    note s2 = see_parts[OF l1 v rm(1), where f = "\<lambda>_. 0", folded s2_def]
    have e: "seen s2 w j = (if w = vc \<and> j = rm then 0 else seen s w j)" if "w < 3" for w j
      using s2(2)[OF that, of j] s1(2)[OF that, of j] by simp
    have "seen s2 w j = seen s w j" if "w < 3" "j < MACHINE_NUM" "(w, j) \<noteq> (vc, rm)" for w j using e[OF that(1)] that(3) by auto
    from tot_change[OF v rm(1), of "seen s2" "seen s", OF this] have t: "tot (seen s2) + seen s vc rm = tot (seen s)" using e[OF v, of rm] by simp
    have c: "credits_for me ?out w j = credits_for me out w j + (if w = vc \<and> j = rm then 1 else 0)" if "w < 3" for w j
      using rm(2) by (auto simp: credits_for_def)
    have "seen s2 w j < CREDITS_IN_MESSAGE \<and> seen s2 w j + CREDITS_IN_MESSAGE * credits_for me ?out w j = seen s0 w j + one_more vc rm D w j"
      if "w < 3" "j < MACHINE_NUM" for w j
      using g(5,6)[OF that] True by (auto simp: e[OF that(1)] c[OF that(1)] one_more_def)
    then have "forging me s0 (one_more vc rm D) s2 ?out" using g t True v rm(1) see_kept(1)[OF see_kept(2)[OF see_kept(1)[OF g(1), of vc rm "\<lambda>n. n + 1", folded s1_def]], of vc rm "\<lambda>_. 0" "credit_tx s1 + 1", folded s2_def] s2(1) tot_one_more[OF v rm(1), of D]
      by (auto simp: forging_def)
    moreover have "length out < MAX_CREDIT_WRS" using g(3) b True tot_ge[OF v rm(1), of "seen s"] by (simp add: config)
    ultimately show ?thesis using True full by (auto simp: credit_for_def Let_def s1_def s2_def vc imm_of_def config)
  qed
qed

text \<open>What has been credited when the walk is at message \<open>i\<close> of machine \<open>rm\<close>.\<close>

definition credited :: "coherence \<Rightarrow> nat \<Rightarrow> nat \<Rightarrow> nat \<Rightarrow> nat \<Rightarrow> nat" where
  "credited s rm i v j = (if j < rm then coh_message_count s ! v ! j else if j = rm then number (\<lambda>m. channel_of s rm m = v) [0 ..< i] else 0)"

lemma credited_next:
  assumes "v < 3"
  shows "credited s rm (Suc i) v j = one_more (channel_of s rm i) rm (credited s rm i) v j"
    "credited s rm (fc_message_count s rm) v j = credited s (Suc rm) 0 v j"
    "i \<le> fc_message_count s rm \<Longrightarrow> credited s rm i v j \<le> coh_message_count s ! v ! j"
proof -
  show "credited s rm (Suc i) v j = one_more (channel_of s rm i) rm (credited s rm i) v j" by (auto simp: credited_def one_more_def)
  show "credited s rm (fc_message_count s rm) v j = credited s (Suc rm) 0 v j" using channel_number[OF assms, of s rm] by (auto simp: credited_def less_Suc_eq)
  assume "i \<le> fc_message_count s rm"
  then have "[0 ..< fc_message_count s rm] = [0 ..< i] @ [i ..< fc_message_count s rm]" using upt_add_eq_append[of 0 i "fc_message_count s rm - i"] by simp
  then have "number (\<lambda>m. channel_of s rm m = v) [0 ..< i] \<le> coh_message_count s ! v ! rm" using channel_number[OF assms, of s rm] by simp
  then show "credited s rm i v j \<le> coh_message_count s ! v ! j" by (simp add: credited_def)
qed

lemma forging_cong:
  assumes "forging me s0 D s out" "\<And>v j. v < 3 \<Longrightarrow> D v j = E v j"
  shows "forging me s0 E s out"
  using assms tot_cong[of D E] by (simp add: forging_def)

lemma fc_kept_counts: "fc_kept s0 s \<Longrightarrow> coh_message_count s = coh_message_count s0"
  by (cases s; cases s0; simp add: fc_kept_def)

lemma credits_of_machine:
  assumes me: "me < MACHINE_NUM" and bound: "tot (seen s0) + tot (\<lambda>v i. coh_message_count s0 ! v ! i) \<le> LIN_CLT_BUF_SLOTS" and rm: "rm < MACHINE_NUM"
    and f: "forging me s0 (credited s0 rm 0) s out" and n: "n \<le> fc_message_count s0 rm"
  shows "\<exists>s' out'. fold_res (credit_for me rm) [0 ..< n] (s, out) = Inr (s', out') \<and> forging me s0 (credited s0 rm n) s' out'"
  using n
proof (induction n)
  case (Suc n)
  then obtain s1 out1 where s1: "fold_res (credit_for me rm) [0 ..< n] (s, out) = Inr (s1, out1)" "forging me s0 (credited s0 rm n) s1 out1" by auto
  have "coh_message_count s1 = coh_message_count s0" using s1(2) fc_kept_counts by (simp add: forging_def)
  then have ch: "channel_of s1 rm n = channel_of s0 rm n" by (simp add: channel_of_def)
  have c: "channel_of s0 rm n < 3" by (simp add: channel_of_def)
  have "tot (credited s0 rm (Suc n)) = tot (credited s0 rm n) + 1"
    using tot_one_more[OF c rm, of "credited s0 rm n"] tot_cong[of "credited s0 rm (Suc n)"] credited_next(1) by metis
  moreover have "tot (credited s0 rm (Suc n)) \<le> tot (\<lambda>v i. coh_message_count s0 ! v ! i)" using credited_next(3) Suc.prems by (intro tot_mono) blast
  ultimately have b: "tot (seen s0) + tot (credited s0 rm n) + 1 \<le> LIN_CLT_BUF_SLOTS" using bound by simp
  from credit_for_ok[OF s1(2) rm me b refl, of n] obtain s2 out2 where
    "credit_for me rm n (s1, out1) = Inr (s2, out2)" "forging me s0 (one_more (channel_of s0 rm n) rm (credited s0 rm n)) s2 out2" unfolding ch by blast
  moreover from forging_cong[OF this(2)] have "forging me s0 (credited s0 rm (Suc n)) s2 out2" using credited_next(1) by simp
  ultimately show ?case using s1(1) by (auto simp: fold_res_append)
qed (use f in simp)

lemma credits_of_machines:
  assumes me: "me < MACHINE_NUM" and bound: "tot (seen s0) + tot (\<lambda>v i. coh_message_count s0 ! v ! i) \<le> LIN_CLT_BUF_SLOTS" and n: "n \<le> MACHINE_NUM"
    and f: "forging me s0 (credited s0 0 0) s0 []"
  shows "\<exists>s' out'. fold_res (\<lambda>rm (s, out). fold_res (credit_for me rm) [0 ..< fc_message_count s rm] (s, out)) [0 ..< n] (s0, []) = Inr (s', out') \<and>
    forging me s0 (credited s0 n 0) s' out'"
  using n
proof (induction n)
  case (Suc n)
  then obtain s1 out1 where s1: "fold_res (\<lambda>rm (s, out). fold_res (credit_for me rm) [0 ..< fc_message_count s rm] (s, out)) [0 ..< n] (s0, []) = Inr (s1, out1)"
    "forging me s0 (credited s0 n 0) s1 out1" by auto
  have "coh_message_count s1 = coh_message_count s0" using s1(2) fc_kept_counts by (simp add: forging_def)
  then have fc: "fc_message_count s1 n = fc_message_count s0 n" by (simp add: fc_message_count_def)
  have "n < MACHINE_NUM" using Suc.prems by simp
  from credits_of_machine[OF me bound this s1(2) order_refl] obtain s2 out2 where
    s2: "fold_res (credit_for me n) [0 ..< fc_message_count s0 n] (s1, out1) = Inr (s2, out2)" "forging me s0 (credited s0 n (fc_message_count s0 n)) s2 out2" by blast
  from forging_cong[OF s2(2)] have "forging me s0 (credited s0 (Suc n) 0) s2 out2" using credited_next(2) by simp
  then show ?case using s1(1) s2(1) fc by (auto simp: fold_res_append)
qed (use f in simp)

lemma forge_credits_ok:
  assumes "me < MACHINE_NUM" "tot (seen s) + tot (\<lambda>v i. coh_message_count s ! v ! i) \<le> LIN_CLT_BUF_SLOTS" "seen_ok s"
  shows "\<exists>s' crs. forge_credits_LIN me s = Inr (s', crs) \<and> fc_kept s s' \<and> seen_ok s' \<and>
    (\<forall>v < 3. \<forall>i < MACHINE_NUM. seen s' v i + CREDITS_IN_MESSAGE * credits_for me crs v i = seen s v i + coh_message_count s ! v ! i) \<and>
    (\<forall>x\<in>set crs. fst x < MACHINE_NUM \<and> (\<exists>v < 3. snd x = imm_of v me))"
proof -
  have z: "tot (credited s 0 0) = 0" by (simp add: tot_def credited_def)
  have "forging me s (credited s 0 0) s []" using assms(3) z
    by (simp add: forging_def fc_kept_def lengths_ok_def seen_ok_def credits_for_def credited_def)
  from credits_of_machines[OF assms(1,2) order_refl this] obtain s' out where
    "forge_credits_LIN me s = Inr (s', out)" "forging me s (credited s MACHINE_NUM 0) s' out" by (auto simp: forge_credits_LIN_def)
  moreover from this(2) have "seen_ok s'" by (simp add: forging_def seen_ok_def lengths_ok_def)
  ultimately show ?thesis by (intro exI[of _ s'] exI[of _ out]) (simp add: forging_def credited_def)
qed

section \<open>The sending half of a turn\<close>

definition sent :: "nat \<Rightarrow> nat list list \<Rightarrow> coherence \<Rightarrow> nat list list \<Rightarrow> cache_op list \<Rightarrow> (nat \<times> cache_op) list \<Rightarrow> (nat \<times> nat) list \<Rightarrow> coherence \<Rightarrow> bool" where
  "sent me polls s polls' bs acks crs s' \<longleftrightarrow> node_ok s' \<and> within me polls' s' \<and> incoming_reqs s' = incoming_reqs s \<and> pull_ptr s' = pull_ptr s \<and>
     coh_recvs s' = coh_recvs s + CREDITS_IN_MESSAGE * length crs \<and>
     (\<forall>m\<in>set bs. bcast_msg me m) \<and> (\<forall>m\<in>set acks. ack_msg_to me m) \<and> (\<forall>x\<in>set crs. fst x < MACHINE_NUM \<and> (\<exists>v < 3. snd x = imm_of v me)) \<and>
     (\<forall>vc < 3. \<forall>i < MACHINE_NUM. i \<noteq> me \<longrightarrow> credit s' vc i + promised (concat polls') vc i + (number (\<lambda>m. channel m = vc) bs + acks_to ACK_VC vc i acks) =
        credit s vc i + promised (concat polls) vc i) \<and>
     (\<forall>vc < 3. \<forall>i < MACHINE_NUM. held s' vc i + seen s' vc i + CREDITS_IN_MESSAGE * credits_for me crs vc i = counted_or_held s vc i + seen s vc i) \<and>
     (\<forall>i < MACHINE_NUM. acks_to INV_VC INV_VC i acks \<le> counted_or_held s INV_VC i)"

lemma kept_fields:
  assumes "kept (s'\<lparr>ack_size := k\<rparr>) = kept s"
  shows "incoming_reqs s' = incoming_reqs s" "pull_ptr s' = pull_ptr s" "arrays_ok s' = arrays_ok s" "ring_ok s' = ring_ok s" "invs_ok s' = invs_ok s"
    "seen s' = seen s" "seen_ok s' = seen_ok s" "coh_recvs s' = coh_recvs s"
  using assms by (auto simp: kept_def arrays_ok_def ring_ok_def invs_ok_def seen_def seen_ok_def fun_eq_iff)

lemma ack_kept_fields:
  assumes "ack_kept s' = ack_kept s"
  shows "incoming_reqs s' = incoming_reqs s" "pull_ptr s' = pull_ptr s" "arrays_ok s' = arrays_ok s" "ring_ok s' = ring_ok s" "queue_ok s' = queue_ok s"
    "seen s' = seen s" "seen_ok s' = seen_ok s" "coh_recvs s' = coh_recvs s" "buf_ok s' = buf_ok s"
  using assms by (auto simp: ack_kept_def arrays_ok_def ring_ok_def queue_ok_def pending_def seen_def seen_ok_def buf_ok_def fun_eq_iff)

lemma fc_kept_fields:
  assumes "fc_kept s s'"
  shows "incoming_reqs s' = incoming_reqs s" "pull_ptr s' = pull_ptr s" "arrays_ok s' = arrays_ok s" "ring_ok s' = ring_ok s" "queue_ok s' = queue_ok s"
    "invs_ok s' = invs_ok s" "credits s' = credits s" "coh_recvs s' = coh_recvs s" "buf_ok s' = buf_ok s" "held s' = held s"
proof -
  have e: "s'\<lparr>acks_seen := [], invs_seen := [], upds_seen := [], credit_tx := 0\<rparr> = s\<lparr>acks_seen := [], invs_seen := [], upds_seen := [], credit_tx := 0\<rparr>"
    using assms by (simp add: fc_kept_def)
  show "incoming_reqs s' = incoming_reqs s" "pull_ptr s' = pull_ptr s" "arrays_ok s' = arrays_ok s" "ring_ok s' = ring_ok s" "queue_ok s' = queue_ok s"
    "invs_ok s' = invs_ok s" "credits s' = credits s" "coh_recvs s' = coh_recvs s" "buf_ok s' = buf_ok s" "held s' = held s"
    using e by (cases s; cases s'; simp add: arrays_ok_def ring_ok_def queue_ok_def pending_def invs_ok_def buf_ok_def held_def fun_eq_iff)+
qed

lemma send_credits_fields:
  "node_ok (send_credits k n slots s) = node_ok s" "incoming_reqs (send_credits k n slots s) = incoming_reqs s"
  "pull_ptr (send_credits k n slots s) = pull_ptr s" "coh_recvs (send_credits k n slots s) = coh_recvs s + k * n"
  "credits (send_credits k n slots s) = credits s" "held (send_credits k n slots s) = held s" "seen (send_credits k n slots s) = seen s"
proof -
  let ?s = "send_credits k n slots s"
  show h: "held ?s = held s" "seen ?s = seen s" "credits ?s = credits s" "incoming_reqs ?s = incoming_reqs s" "pull_ptr ?s = pull_ptr s"
    "coh_recvs ?s = coh_recvs s + k * n" by (simp_all add: send_credits_def held_def pending_def seen_def fun_eq_iff)
  have "queues ?s = queues s" by (simp add: queues_def send_credits_def)
  from queues_eq(2)[OF this] show "node_ok ?s = node_ok s"
    using h(2) by (simp add: node_ok_def ring_ok_def arrays_ok_def invs_ok_def seen_ok_def credits_ok_def buf_ok_def send_credits_def)
qed

lemma send_messages_ok:
  assumes n: "node_ok s" "counts_ok s" and w: "within me polls s" "me < MACHINE_NUM"
    and b: "tot (seen s) + tot (counted_or_held s) \<le> LIN_CLT_BUF_SLOTS"
  shows "\<exists>polls' s' c' bs acks crs. send_messages me polls (s, c) = Inr (polls', s', c', bs, acks, crs) \<and> sent me polls s polls' bs acks crs s'"
proof -
  have k: "ring_ok s" "arrays_ok s" "queue_ok s" "invs_ok s" "seen_ok s" "credits_ok s" "buf_ok s" using n(1) by (simp_all add: node_ok_def)
  obtain p1 bs s1 c1 where b1: "perform_broadcasts_LIN me polls (s, c) = Inr (p1, bs, s1, c1)" "queue_ok s1" "counts_ok s1" "buf_ok s1"
    "within me p1 s1" "\<forall>m\<in>set bs. bcast_msg me m" "kept (s1\<lparr>ack_size := ack_size s\<rparr>) = kept s"
    "\<And>vc i. vc < 3 \<Longrightarrow> i < MACHINE_NUM \<Longrightarrow> i \<noteq> me \<Longrightarrow>
      credit s1 vc i + promised (concat p1) vc i + number (\<lambda>m. channel m = vc) bs = credit s vc i + promised (concat polls) vc i"
    "\<And>vc i. vc < 3 \<Longrightarrow> i < MACHINE_NUM \<Longrightarrow> counted_or_held s1 vc i = counted_or_held s vc i"
    using perform_broadcasts_LIN_ok[OF k(3) n(2) k(7) w, of c] by metis
  note f1 = kept_fields[OF b1(7)]
  obtain p2 acks s2 a where a2: "(if inv_size s1 > 0 then send_acks me p1 s1 else Inr (p1, [], s1)) = Inr (p2, acks, s2)"
    "acks_ok me s1 p1 BCAST_TO_CACHE_BATCH \<lparr>a_polls = p2, a_recv_counter = a, a_out = acks\<rparr> s2"
    using send_acks_ok[OF b1(5,3) _ w(2)] f1(5) k(4) by blast
  note d = acks_okD[OF a2(2), simplified]
  note f2 = ack_kept_fields[OF d(4)]
  have c2: "counted_or_held s2 vc i = counted_or_held s vc i" if "vc < 3" "i < MACHINE_NUM" for vc i using d(9)[OF that] b1(9)[OF that] by simp
  have "tot (\<lambda>v i. coh_message_count s2 ! v ! i) \<le> tot (counted_or_held s)" using c2 by (intro tot_mono) (metis counted_or_held_def le_add1)
  then have b2: "tot (seen s2) + tot (\<lambda>v i. coh_message_count s2 ! v ! i) \<le> LIN_CLT_BUF_SLOTS" using b by (simp add: f1(6) f2(6))
  have so: "seen_ok s2" using k(5) by (simp add: f1(7) f2(7))
  obtain s3 crs where c3: "forge_credits_LIN me s2 = Inr (s3, crs)" "fc_kept s2 s3" "seen_ok s3"
    "\<And>v i. v < 3 \<Longrightarrow> i < MACHINE_NUM \<Longrightarrow> seen s3 v i + CREDITS_IN_MESSAGE * credits_for me crs v i = seen s2 v i + coh_message_count s2 ! v ! i"
    "\<forall>x\<in>set crs. fst x < MACHINE_NUM \<and> (\<exists>v < 3. snd x = imm_of v me)"
    using forge_credits_ok[OF w(2) b2 so] by metis
  note f3 = fc_kept_fields[OF c3(2)]
  let ?s = "if length crs > 0 then send_credits (length crs) CREDITS_IN_MESSAGE LIN_CLT_BUF_SLOTS s3 else s3"
  have f: "node_ok ?s = node_ok s3" "incoming_reqs ?s = incoming_reqs s3" "pull_ptr ?s = pull_ptr s3" "credits ?s = credits s3" "held ?s = held s3" "seen ?s = seen s3"
    "coh_recvs ?s = coh_recvs s3 + CREDITS_IN_MESSAGE * length crs" by (simp_all add: send_credits_fields)
  have r: "send_messages me polls (s, c) = Inr (p2, ?s, c1, bs, acks, crs)" using b1(1) a2(1) c3(1) by (simp add: send_messages_def)
  have "node_ok s3" using k b1(2,4) d(1,3) c3(3) by (simp add: node_ok_def f1 f2 f3 acks_paid_def within_def credits_ok_def)
  moreover have "credit ?s vc i + promised (concat p2) vc i + (number (\<lambda>m. channel m = vc) bs + acks_to ACK_VC vc i acks) =
      credit s vc i + promised (concat polls) vc i" if i: "vc < 3" "i < MACHINE_NUM" "i \<noteq> me" for vc i
  proof -
    have "credit s2 vc i + promised (concat p2) vc i + acks_to ACK_VC vc i acks = credit s1 vc i + promised (concat p1) vc i"
      using d(1) i by (simp add: acks_paid_def)
    then show ?thesis using b1(8)[OF i] f(4) f3(7) by (simp add: credit_def)
  qed
  moreover have "held ?s vc i + seen ?s vc i + CREDITS_IN_MESSAGE * credits_for me crs vc i = counted_or_held s vc i + seen s vc i" if i: "vc < 3" "i < MACHINE_NUM" for vc i
    using c3(4)[OF i] c2[OF i] f(5,6) f1(6) f2(6) f3(10) by (simp add: counted_or_held_def)
  moreover have "acks_to INV_VC INV_VC i acks \<le> counted_or_held s INV_VC i" if "i < MACHINE_NUM" for i
    using d(10)[of INV_VC i] c2[of INV_VC i] that by (simp add: counted_or_held_def)
  moreover have "within me p2 ?s" using d(1) f(4) f3(7) by (simp add: acks_paid_def within_def credits_ok_def credit_def)
  ultimately have "sent me polls s p2 bs acks crs ?s" using b1(6) d(5) c3(5) unfolding sent_def f(1-3,7) by (simp add: f1 f2 f3)
  then show ?thesis using r by blast
qed

end
