(* ===== verification/Flow_System.thy ===== *)
theory Flow_System
  imports Flow_Sending Requests_Correct LIN_Correct "HOL-Library.Multiset"
begin

text \<open>
  The machines and the network between them.  Every message under way has a receive posted
  for it and an empty slot to go to, the credits add up, and with a well-formed cache the
  turn of a client returns.
\<close>

section \<open>A turn\<close>

text \<open>The client's own batch, between the two halves of what the other machines have sent, is
  an argument.\<close>

definition lin_turn :: "nat \<Rightarrow> int \<Rightarrow> nat list list \<Rightarrow> (cache \<times> client \<Rightarrow> (cache \<times> client) result) \<Rightarrow> cache \<times> coherence \<times> client \<Rightarrow>
    (nat list list \<times> (cache \<times> coherence \<times> client) \<times> cache_op list \<times> (nat \<times> cache_op) list \<times> (nat \<times> nat) list) result" where
  "lin_turn machine_id useconds polls own x =
    bind_res (take_messages machine_id useconds x) (\<lambda>(inv_ops_i, ch, s, c).
    bind_res (own (ch, c)) (\<lambda>(ch, c).
    bind_res (take_invs machine_id inv_ops_i (ch, s)) (\<lambda>(ch, s).
    bind_res (send_messages machine_id polls (s, c)) (\<lambda>(polls, s, c, bs, acks, crs).
    Inr (polls, (ch, s, c), bs, acks, crs)))))"

definition arrived :: "coherence \<Rightarrow> nat \<Rightarrow> nat \<Rightarrow> nat" where
  "arrived s vc i = in_ring s vc i + held s vc i + seen s vc i"

definition turned :: "nat \<Rightarrow> nat list list \<Rightarrow> coherence \<Rightarrow> nat list list \<Rightarrow> cache_op list \<Rightarrow> (nat \<times> cache_op) list \<Rightarrow> (nat \<times> nat) list \<Rightarrow> coherence \<Rightarrow> bool" where
  "turned me polls s polls' bs acks crs s' \<longleftrightarrow> node_ok s' \<and> within me polls' s' \<and> (\<forall>w. unread s w \<longrightarrow> unread s' w) \<and>
     coh_recvs s' = coh_recvs s + CREDITS_IN_MESSAGE * length crs \<and>
     (\<forall>m\<in>set bs. bcast_msg me m) \<and> (\<forall>m\<in>set acks. ack_msg_to me m) \<and> (\<forall>x\<in>set crs. fst x < MACHINE_NUM \<and> (\<exists>v < 3. snd x = imm_of v me)) \<and>
     (\<forall>vc < 3. \<forall>i < MACHINE_NUM. i \<noteq> me \<longrightarrow> credit s' vc i + promised (concat polls') vc i + (number (\<lambda>m. channel m = vc) bs + acks_to ACK_VC vc i acks) =
        credit s vc i + promised (concat polls) vc i) \<and>
     (\<forall>vc < 3. \<forall>i < MACHINE_NUM. arrived s' vc i + CREDITS_IN_MESSAGE * credits_for me crs vc i = arrived s vc i) \<and>
     (\<forall>i < MACHINE_NUM. acks_to INV_VC INV_VC i acks \<le> arrived s INV_VC i)"

lemma turn_sent:
  assumes t: "took_all s s1" and x: "sent me polls s1 polls' bs acks crs s'"
  shows "turned me polls s polls' bs acks crs s'"
proof -
  have tk: "sending s1 = sending s" "\<forall>w. unread s w \<longrightarrow> unread s1 w" "\<And>vc i. vc < 3 \<Longrightarrow> i < MACHINE_NUM \<Longrightarrow> total s1 vc i = in_ring s vc i + held s vc i"
    using t by (simp_all add: took_all_def)
  have c: "credits s1 = credits s" "coh_recvs s1 = coh_recvs s" using tk(1) by (simp_all add: sending_def)
  have r: "in_ring s' = in_ring s1" "unread s' = unread s1" using x by (simp_all add: sent_def in_ring_def unread_def rd_def fun_eq_iff)
  have a: "arrived s' vc i + CREDITS_IN_MESSAGE * credits_for me crs vc i = arrived s vc i" if i: "vc < 3" "i < MACHINE_NUM" for vc i
  proof -
    have "held s' vc i + seen s' vc i + CREDITS_IN_MESSAGE * credits_for me crs vc i = counted_or_held s1 vc i + seen s1 vc i" using x i by (simp add: sent_def)
    then show ?thesis using tk(3)[OF i] sending_ok(4)[OF tk(1), of vc i] r(1) by (simp add: arrived_def total_def)
  qed
  have "acks_to INV_VC INV_VC i acks \<le> arrived s INV_VC i" if "i < MACHINE_NUM" for i
  proof -
    have "acks_to INV_VC INV_VC i acks \<le> counted_or_held s1 INV_VC i" using x that by (simp add: sent_def del: vcs)
    then show ?thesis using tk(3)[of INV_VC i] that by (simp add: arrived_def total_def)
  qed
  then show ?thesis using x a tk(2) r(2) c by (simp add: turned_def sent_def credit_def del: vcs)
qed

text \<open>Once messages have been taken, sending returns and keeps the account.\<close>

lemma turn_sends:
  assumes a: "took_all s s2" and w: "within me polls s" "me < MACHINE_NUM" and b: "tot (arrived s) \<le> LIN_CLT_BUF_SLOTS"
  shows "\<exists>polls' s3 c3 bs acks crs. send_messages me polls (s2, c) = Inr (polls', s3, c3, bs, acks, crs) \<and> turned me polls s polls' bs acks crs s3"
proof -
  have sd: "sending s2 = sending s" "node_ok s2" "counts_ok s2" using a by (simp_all add: took_all_def)
  have "within me polls s2" using w(1) sd(1) by (simp add: within_def credits_ok_def credit_def sending_def)
  moreover have "total s2 v i = in_ring s v i + held s v i" if "v < 3" "i < MACHINE_NUM" for v i using a that by (simp add: took_all_def)
  then have "seen s2 v i + counted_or_held s2 v i \<le> arrived s v i" if "v < 3" "i < MACHINE_NUM" for v i
    using that sending_ok(4)[OF sd(1), of v i] by (fastforce simp: total_def arrived_def)
  then have "tot (\<lambda>v i. seen s2 v i + counted_or_held s2 v i) \<le> tot (arrived s)" by (rule tot_mono)
  then have "tot (seen s2) + tot (counted_or_held s2) \<le> LIN_CLT_BUF_SLOTS" using b unfolding tot_add by simp
  ultimately obtain polls' s3 c3 bs acks crs where
    "send_messages me polls (s2, c) = Inr (polls', s3, c3, bs, acks, crs)" "sent me polls s2 polls' bs acks crs s3"
    using send_messages_ok[OF sd(2,3) _ w(2), of polls c] by blast
  then show ?thesis using turn_sent[OF a] by blast
qed

lemma lin_turn_ok:
  assumes n: "node_ok s" and w: "within me polls s" "me < MACHINE_NUM" and b: "tot (arrived s) \<le> LIN_CLT_BUF_SLOTS"
    and l: "0 < us" "latency_ok (latency_count c)" and t: "lin_turn me us polls own (ch, s, c) = Inr (polls', (ch', s', c'), bs, acks, crs)"
  shows "turned me polls s polls' bs acks crs s'"
proof -
  obtain k ch1 s1 c1 ch2 c2 ch3 s2 where x: "take_messages me us (ch, s, c) = Inr (k, ch1, s1, c1)" "own (ch1, c1) = Inr (ch2, c2)"
    "take_invs me k (ch2, s1) = Inr (ch3, s2)" "send_messages me polls (s2, c2) = Inr (polls', s', c', bs, acks, crs)"
    using t unfolding lin_turn_def bind_res_Inr_iff by (auto simp: res_simps split: prod.splits)
  have "took s k s1" using take_messages_ok[OF n l, of me ch] x(1) by simp
  then have "took_all s s2" using take_invs_ok[of s k s1 me ch2] x(3) by simp
  then show ?thesis using turn_sends[OF _ w b, of s2 c2] x(4) by auto
qed

text \<open>A message fits the cache if it is an update as long as the object it names, or an
  invalidation with an even version; acknowledgements always do.\<close>

definition message_fits :: "cache \<Rightarrow> cache_op \<Rightarrow> bool" where
  "message_fits ch m \<longleftrightarrow>
     (opcode m = CACHE_OP_UPD \<longrightarrow> (\<forall>e. kv_abs (hash_table ch) (key m) = Some e \<longrightarrow>
        val_len m = val_len e \<and> unat (val_len e) \<le> HERD_VALUE_SIZE \<and> unat (val_len e) \<le> length (value m))) \<and>
     (opcode m = CACHE_OP_INV \<longrightarrow> even (version (op_meta m)))"

lemma batch_sizes: "BCAST_TO_CACHE_BATCH \<le> CACHE_BATCH_SIZE"
  by (simp add: BCAST_TO_CACHE_BATCH_def CACHE_BATCH_SIZE_def)

lemma lin_batch_total:
  assumes "lin_cache_ok ch" "length ops \<le> CACHE_BATCH_SIZE"
    "\<forall>(op, r)\<in>set ops. lin_skipped r \<or> (\<forall>e. kv_abs (hash_table ch) (key op) = Some e \<longrightarrow> lin_op_ok (val_len e) op)"
  shows "\<exists>kv' out. cache_batch (lin_handler i) lin_skipped (hash_table ch) ops = Inr (kv', out) \<and> lin_cache_ok (ch\<lparr>protocol := p, hash_table := kv'\<rparr>)"
proof -
  from assms(1) have wf: "kv_wf (hash_table ch)" "in_first_lap (hash_table ch)" and
    ob: "\<forall>k e. kv_abs (hash_table ch) k = Some e \<longrightarrow> lin_obj e" by (auto simp: lin_cache_ok_def)
  from lin.cache_batch_returns[where P = lin_obj and Q = lin_op_ok and skip = lin_skipped and i = i, OF lin_handler_ok wf assms(2) ob assms(3)]
  show ?thesis by (auto simp: lin_cache_ok_def)
qed

text \<open>The batches of incoming messages return.\<close>

lemma upd_ack_returns:
  assumes "lin_cache_ok ch" "from_ring s ops" "ring_ok s" "\<forall>m\<in>set (incoming_reqs s). live m \<longrightarrow> message_fits ch m"
  shows "\<exists>ch' out. cache_batch_op_lin_with_cache_op mid ops ch = Inr (ch', out) \<and> lin_cache_ok ch'"
proof -
  have op: "opcode op \<in> {CACHE_OP_UPD, CACHE_OP_ACK} \<and> (\<forall>e. kv_abs (hash_table ch) (key op) = Some e \<longrightarrow> lin_op_ok (val_len e) op)"
    if x: "(op, r) \<in> set ops" for op r
  proof -
    obtain m slot where m: "m \<in> set (incoming_reqs s)" "live m" "opcode m \<noteq> CACHE_OP_INV" "op = polled m slot"
      using assms(2) x by (fastforce simp: from_ring_def)
    then have "opcode m \<in> {CACHE_OP_UPD, CACHE_OP_ACK}" "message_fits ch m" using assms(3,4) by (auto simp: ring_ok_def message_ok_def)
    then show ?thesis by (auto simp: m(4) polled_def copy_op_def message_fits_def lin_op_ok_def config)
  qed
  have "cache_batch (lin_upd_ack_handler mid) lin_skipped (hash_table ch) ops = cache_batch (lin_handler mid) lin_skipped (hash_table ch) ops"
    by (rule cache_batch_cong) (use op in \<open>fastforce simp: lin_upd_ack_handler_def lin_handler_def\<close>)
  moreover have "length ops \<le> CACHE_BATCH_SIZE" using assms(2) batch_sizes by (simp add: from_ring_def)
  moreover have "\<forall>(op, r)\<in>set ops. lin_skipped r \<or> (\<forall>e. kv_abs (hash_table ch) (key op) = Some e \<longrightarrow> lin_op_ok (val_len e) op)"
    using op by blast
  ultimately show ?thesis using lin_batch_total[OF assms(1), of ops mid LINEARIZABILITY]
    by (auto simp: cache_batch_op_lin_with_cache_op_def Let_def)
qed

lemma inv_returns:
  assumes "lin_cache_ok ch" "invs_from_ring s n s'" "n \<le> BCAST_TO_CACHE_BATCH" "\<forall>m\<in>set (incoming_reqs s). live m \<longrightarrow> message_fits ch0 m"
  shows "\<exists>ch' out. cache_batch_op_lin_with_small_cache_op mid (zip (take n (inv_ops s')) rs) ch = Inr (ch', out) \<and> lin_cache_ok ch'"
proof -
  let ?ops = "zip (take n (inv_ops s')) rs"
  have op: "opcode op = CACHE_OP_INV \<and> even (version (op_meta op))" if "(op, r) \<in> set ?ops" for op r
    using assms(2,4) set_zip_leftD[OF that] by (fastforce simp: invs_from_ring_def message_fits_def)
  have "cache_batch (lin_inv_handler mid) lin_skipped (hash_table ch) ?ops = cache_batch (lin_handler mid) lin_skipped (hash_table ch) ?ops"
    by (rule cache_batch_cong) (use op in \<open>fastforce simp: lin_inv_handler_def lin_handler_def\<close>)
  moreover have "length ?ops \<le> CACHE_BATCH_SIZE" using assms(3) batch_sizes by simp
  moreover have "\<forall>(op, r)\<in>set ?ops. lin_skipped r \<or> (\<forall>e. kv_abs (hash_table ch) (key op) = Some e \<longrightarrow> lin_op_ok (val_len e) op)"
    using op by (fastforce simp: lin_op_ok_def)
  ultimately show ?thesis using lin_batch_total[OF assms(1), of ?ops mid LINEARIZABILITY]
    by (auto simp: cache_batch_op_lin_with_small_cache_op_def Let_def)
qed

lemma lin_turn_total:
  assumes n: "node_ok s" and w: "within me polls s" "me < MACHINE_NUM" and b: "tot (arrived s) \<le> LIN_CLT_BUF_SLOTS"
    and l: "0 < us" "latency_ok (latency_count c)" and ch: "lin_cache_ok ch" "\<forall>m\<in>set (incoming_reqs s). live m \<longrightarrow> message_fits ch m"
    and own: "\<And>ch c. lin_cache_ok ch \<Longrightarrow> latency_ok (latency_count c) \<Longrightarrow> \<exists>ch' c'. own (ch, c) = Inr (ch', c') \<and> lin_cache_ok ch'"
  shows "\<exists>polls' ch' s' c' bs acks crs. lin_turn me us polls own (ch, s, c) = Inr (polls', (ch', s', c'), bs, acks, crs) \<and> lin_cache_ok ch'"
proof -
  have r: "ring_ok s" using n by (simp add: node_ok_def)
  obtain k ch1 s1 c1 where x: "take_messages me us (ch, s, c) = Inr (k, ch1, s1, c1)" "took s k s1" "latency_ok (latency_count c1)"
    "invs_from_ring s k s1" "lin_cache_ok ch1"
  proof (cases "take_messages me us (ch, s, c)")
    case (Inl f)
    then show ?thesis using take_messages_ok[OF n l, of me ch] upd_ack_returns[OF ch(1) _ r ch(2), of _ me] by fastforce
  next
    case (Inr z)
    obtain k ch1 s1 c1 where z: "z = (k, ch1, s1, c1)" by (cases z)
    then have k: "took s k s1" "latency_ok (latency_count c1)" "invs_from_ring s k s1"
      "ch1 = ch \<or> (\<exists>ops out. cache_batch_op_lin_with_cache_op me ops ch = Inr (ch1, out) \<and> from_ring s ops)"
      using take_messages_ok[OF n l, of me ch] Inr by simp_all
    have "lin_cache_ok ch1" using k(4) ch(1) upd_ack_returns[OF ch(1) _ r ch(2), of _ me] by fastforce
    then show ?thesis using that Inr z k(1-3) by blast
  qed
  obtain ch2 c2 where y: "own (ch1, c1) = Inr (ch2, c2)" "lin_cache_ok ch2" using own[OF x(5,3)] by blast
  have "k \<le> BCAST_TO_CACHE_BATCH" using x(2) by (simp add: took_def)
  from inv_returns[OF y(2) x(4) this ch(2), of me "inv_resp s1"] obtain ch' out where
    o: "cache_batch_op_lin_with_small_cache_op me (zip (take k (inv_ops s1)) (inv_resp s1)) ch2 = Inr (ch', out)" "lin_cache_ok ch'" by blast
  obtain ch3 s2 where v: "take_invs me k (ch2, s1) = Inr (ch3, s2)" "took_all s s2" "lin_cache_ok ch3"
  proof (cases "take_invs me k (ch2, s1)")
    case (Inr z)
    then show ?thesis using that take_invs_ok[OF x(2), of me ch2] o y(2) by (cases z) auto
  qed (use take_invs_ok[OF x(2), of me ch2] o in simp)
  show ?thesis using turn_sends[OF v(2) w b, of c2] x(1) y(1) v(1,3) by (auto simp: lin_turn_def)
qed

section \<open>The start\<close>

text \<open>The variables of the client before its loop; the buffers that \<open>malloc\<close> and \<open>memalign\<close>
  return are arguments, the ring is zeroed.\<close>

definition lin_client_start :: "cache_op list \<Rightarrow> cache_op list \<Rightarrow> cache_op list \<Rightarrow> cache_op list \<Rightarrow> mica_resp list \<Rightarrow> mica_resp list \<Rightarrow>
    cache_op list \<Rightarrow> coherence" where
  "lin_client_start uops abops iops itsops ur ir cbuf =
    (let (uops, abops, iops, itsops, ur, ir) = setup_coh_ops uops abops iops itsops ur ir;
         (ptr, posted) = post_coh_recvs BROADCAST_CREDITS LIN_CLT_BUF_SLOTS (0, 0)
     in \<lparr>incoming_reqs = replicate LIN_CLT_BUF_SLOTS blank, pull_ptr = -1, push_ptr = ptr, update_ops = uops, update_resp = ur,
         inv_ops = iops, inv_resp = ir, ack_bcast_ops = abops, ack_push_ptr = 0, ack_pop_ptr = 0, ack_size = 0,
         inv_to_send_ops = itsops, inv_push_ptr = 0, inv_size = 0, credits = setup_credits LINEARIZABILITY,
         coh_message_count = replicate VIRTUAL_CHANNELS (replicate MACHINE_NUM 0),
         acks_seen = replicate MACHINE_NUM 0, invs_seen = replicate MACHINE_NUM 0, upds_seen = replicate MACHINE_NUM 0,
         br_tx = 0, sent_ack_tx = 0, credit_tx = 0, credit_debug_cnt = 0, credit_recvs = 0, coh_recvs = posted,
         coh_buf = cbuf, coh_buf_i = 0,
         stats = \<lparr>received_acks = 0, received_updates = 0, received_invs = 0, sent_invs = 0, sent_updates = 0, sent_acks = 0\<rparr>\<rparr>)"

text \<open>The client asserts that a slot of the queue of updates does not hold an acknowledgement
  before it first writes the slot, so the start needs that of what \<open>malloc\<close> returns.\<close>

definition lin_started :: "coherence \<Rightarrow> bool" where
  "lin_started s \<longleftrightarrow> (\<exists>uops abops iops itsops ur ir cbuf. s = lin_client_start uops abops iops itsops ur ir cbuf \<and>
     length uops = BCAST_TO_CACHE_BATCH \<and> length abops = BCAST_TO_CACHE_BATCH \<and> length iops = BCAST_TO_CACHE_BATCH \<and>
     length itsops = BCAST_TO_CACHE_BATCH \<and> length ur = BCAST_TO_CACHE_BATCH \<and> length ir = BCAST_TO_CACHE_BATCH \<and>
     length cbuf = COH_BUF_SLOTS \<and> (\<forall>op\<in>set abops. opcode op \<noteq> CACHE_OP_ACK))"

section \<open>The network\<close>

text \<open>\<open>net\<close> holds the messages under way, each with its destination, and \<open>due\<close> the credit
  messages; \<open>nic\<close> is the slot of the ring that the network card of a machine fills next, and
  \<open>delivered\<close> the receives it has used up.\<close>

record cluster =
  node :: "nat \<Rightarrow> coherence"
  net :: "(nat \<times> cache_op) multiset"
  due :: "(nat \<times> nat) multiset"
  nic :: "nat \<Rightarrow> nat"
  delivered :: "nat \<Rightarrow> nat"

definition cluster_start :: "cluster \<Rightarrow> bool" where
  "cluster_start x \<longleftrightarrow> (\<forall>i < MACHINE_NUM. lin_started (node x i) \<and> nic x i = 0 \<and> delivered x i = 0) \<and> net x = {#} \<and> due x = {#}"

definition to_other_machines :: "nat \<Rightarrow> cache_op list \<Rightarrow> (nat \<times> cache_op) list" where
  "to_other_machines me bs = concat (map (\<lambda>m. map (\<lambda>d. (d, m)) (filter (\<lambda>d. d \<noteq> me) [0 ..< MACHINE_NUM])) bs)"

inductive cluster_step :: "cluster \<Rightarrow> cluster \<Rightarrow> bool" where
  deliver: "(d, m) \<in># net x \<Longrightarrow>
    cluster_step x (x\<lparr>
      node := (node x)(d := (node x d)\<lparr>incoming_reqs := (incoming_reqs (node x d))[nic x d := polled m (incoming_reqs (node x d) ! nic x d)]\<rparr>),
      net := net x - {#(d, m)#}, nic := (nic x)(d := HRD_MOD_ADD (nic x d) LIN_CLT_BUF_SLOTS), delivered := (delivered x)(d := delivered x d + 1)\<rparr>)"
| turn: "j < MACHINE_NUM \<Longrightarrow> 0 < us \<Longrightarrow> latency_ok (latency_count c) \<Longrightarrow> mset (map (Pair j) (concat polls)) \<subseteq># due x \<Longrightarrow>
    lin_turn j us polls own (ch, node x j, c) = Inr (polls', (ch', s', c'), bs, acks, crs) \<Longrightarrow>
    cluster_step x (x\<lparr>node := (node x)(j := s'), net := net x + mset (to_other_machines j bs) + mset acks,
      due := due x - mset (map (Pair j) (concat polls)) + mset (map (Pair j) (concat polls')) + mset crs\<rparr>)"

section \<open>Conservation\<close>

definition on_net :: "cluster \<Rightarrow> nat \<Rightarrow> nat \<Rightarrow> nat \<Rightarrow> nat" where
  "on_net x vc i j = size (filter_mset (\<lambda>p. fst p = j \<and> sent_by vc i (snd p)) (net x))"

definition owed :: "cluster \<Rightarrow> nat \<Rightarrow> nat \<Rightarrow> nat \<Rightarrow> nat" where
  "owed x vc i j = on_net x vc i j + arrived (node x j) vc i + CREDITS_IN_MESSAGE * count (due x) (i, imm_of vc j)"

definition conserved :: "cluster \<Rightarrow> bool" where
  "conserved x \<longleftrightarrow> (\<forall>vc < 3. \<forall>i < MACHINE_NUM. \<forall>j < MACHINE_NUM.
     if i = j then owed x vc i j = 0 else credit (node x i) vc j + owed x vc i j = CREDITS_FOR_EACH_CLIENT)"

definition cluster_ok :: "cluster \<Rightarrow> bool" where
  "cluster_ok x \<longleftrightarrow> conserved x \<and>
     (\<forall>j < MACHINE_NUM. node_ok (node x j) \<and> unread (node x j) (nic x j) \<and> nic x j < LIN_CLT_BUF_SLOTS \<and>
        coh_recvs (node x j) + tot (arrived (node x j)) = LIN_CLT_BUF_SLOTS + delivered x j) \<and>
     (\<forall>p\<in>#net x. fst p < MACHINE_NUM \<and> message_ok (snd p)) \<and>
     (\<forall>p\<in>#due x. fst p < MACHINE_NUM \<and> (\<exists>v < 3. \<exists>i < MACHINE_NUM. snd p = imm_of v i))"

lemma started_ok:
  assumes "lin_started s"
  shows "node_ok s" "unread s 0" "vc < 3 \<Longrightarrow> i < MACHINE_NUM \<Longrightarrow> arrived s vc i = 0" "vc < 3 \<Longrightarrow> i < MACHINE_NUM \<Longrightarrow> credit s vc i = CREDITS_FOR_EACH_CLIENT"
    "coh_recvs s = LIN_CLT_BUF_SLOTS"
proof -
  let ?B = BCAST_TO_CACHE_BATCH
  have slots: "(MACHINE_NUM - 1) * BROADCAST_CREDITS = LIN_CLT_BUF_SLOTS" "0 < CREDITS_IN_MESSAGE" "VIRTUAL_CHANNELS = 3" "0 < COH_BUF_SLOTS" "EMPTY \<noteq> CACHE_OP_BRC"
    by (simp_all add: config)
  have s: "incoming_reqs s = replicate LIN_CLT_BUF_SLOTS blank" "pull_ptr s = -1" "ack_push_ptr s = 0" "ack_pop_ptr s = 0" "ack_size s = 0" "inv_push_ptr s = 0" "inv_size s = 0"
    "credits s = setup_credits LINEARIZABILITY" "acks_seen s = replicate MACHINE_NUM 0" "invs_seen s = replicate MACHINE_NUM 0" "upds_seen s = replicate MACHINE_NUM 0"
    "coh_buf_i s = 0" "length (update_ops s) = ?B" "length (update_resp s) = ?B" "length (inv_ops s) = ?B" "length (inv_resp s) = ?B" "length (ack_bcast_ops s) = ?B"
    "length (inv_to_send_ops s) = ?B" "length (coh_buf s) = COH_BUF_SLOTS" "\<forall>op\<in>set (ack_bcast_ops s). opcode op \<noteq> CACHE_OP_ACK" "\<forall>op\<in>set (inv_to_send_ops s). opcode op = EMPTY"
    "coh_recvs s = LIN_CLT_BUF_SLOTS"
    using assms slots(1) by (auto simp: lin_started_def lin_client_start_def setup_coh_ops_def post_coh_recvs_def Let_def)
  have live: "\<not> live blank" by (simp add: live_def blank_def)
  have na: "\<forall>op\<in>set (inv_to_send_ops s). \<not> asked_ack op" using s(21) slots(5) by (auto simp: asked_ack_def)
  then have n: "number asked_ack (inv_to_send_ops s) = 0" by (rule number_all)
  have "in_ring s vc i = 0" "held s vc i = 0" "seen s vc i = 0" if "vc < 3" "i < MACHINE_NUM" for vc i
    using that live na by (auto simp: in_ring_def held_def pending_def seen_def s intro!: number_all)
  then show "vc < 3 \<Longrightarrow> i < MACHINE_NUM \<Longrightarrow> arrived s vc i = 0" by (simp add: arrived_def)
  then have "seen s v j = 0" if "v < 3" "j < MACHINE_NUM" for v j using that by (simp add: seen_def s)
  moreover have cs: "credits s = replicate 3 (replicate MACHINE_NUM (of_nat CREDITS_FOR_EACH_CLIENT))"
    by (simp add: s setup_credits_def numeral_3_eq_3 ACK_CREDITS_def INV_CREDITS_def UPD_CREDITS_def SEQUENTIAL_CONSISTENCY_def LINEARIZABILITY_def)
  ultimately show "node_ok s" using slots(2,4) n live batch_pos slots_pos s(13-21)
    by (auto simp: node_ok_def ring_ok_def arrays_ok_def queue_ok_def pending_def invs_ok_def seen_ok_def credits_ok_def buf_ok_def s(1-12) asked_ack_def slots(5))
  show "unread s 0" using live slots_pos by (auto simp: unread_def rd_def s)
  show "vc < 3 \<Longrightarrow> i < MACHINE_NUM \<Longrightarrow> credit s vc i = CREDITS_FOR_EACH_CLIENT" by (simp add: credit_def cs CREDITS_FOR_EACH_CLIENT_def)
  show "coh_recvs s = LIN_CLT_BUF_SLOTS" by (rule s)
qed

lemma start_ok:
  assumes "cluster_start x"
  shows "cluster_ok x"
proof -
  have x: "lin_started (node x i)" "nic x i = 0" "delivered x i = 0" if "i < MACHINE_NUM" for i using assms that by (simp_all add: cluster_start_def)
  have e: "net x = {#}" "due x = {#}" using assms by (simp_all add: cluster_start_def)
  have "tot (arrived (node x j)) = 0" if "j < MACHINE_NUM" for j using started_ok(3)[OF x(1)[OF that]] by (simp add: tot_def)
  moreover have "conserved x" using started_ok(3,4)[OF x(1)] by (simp add: conserved_def owed_def on_net_def e)
  ultimately show ?thesis using started_ok(1,2,5)[OF x(1)] x(2,3) e slots_pos by (simp add: cluster_ok_def)
qed

section \<open>Room for every message\<close>

lemma tot_partition:
  assumes "\<forall>x\<in>set xs. P x \<longrightarrow> (\<exists>v < 3. \<exists>i < MACHINE_NUM. \<forall>w j. Q w j x \<longleftrightarrow> w = v \<and> j = i)"
  shows "tot (\<lambda>v i. number (\<lambda>x. P x \<and> Q v i x) xs) = number P xs"
  using assms
proof (induction xs)
  case Nil
  then show ?case by (simp add: tot_def)
next
  case (Cons x xs)
  have "tot (\<lambda>v i. if P x \<and> Q v i x then 1 else 0) = (if P x then 1 else 0)"
  proof (cases "P x")
    case True
    then obtain v i where v: "v < 3" "i < MACHINE_NUM" "\<And>w j. Q w j x \<longleftrightarrow> w = v \<and> j = i" using Cons.prems by auto
    have "tot (\<lambda>w j. if w = v \<and> j = i then 1 else 0 :: nat) = 1" using tot_change[OF v(1,2), of "\<lambda>w j. if w = v \<and> j = i then 1 else 0" "\<lambda>_ _. 0"]
      by (simp add: tot_def)
    then show ?thesis using True v(3) by simp
  qed (simp add: tot_def)
  then show ?case using Cons tot_add[of "\<lambda>v i. if P x \<and> Q v i x then 1 else 0" "\<lambda>v i. number (\<lambda>x. P x \<and> Q v i x) xs"] by simp
qed

definition cap :: "nat \<Rightarrow> nat \<Rightarrow> nat \<Rightarrow> nat" where
  "cap j v i = (if i = j then 0 else CREDITS_FOR_EACH_CLIENT)"

lemma tot_cap:
  assumes "j < MACHINE_NUM"
  shows "tot (cap j) = LIN_CLT_BUF_SLOTS"
proof -
  have "tot (cap j) = (\<Sum>v<3. \<Sum>i<MACHINE_NUM. cap j v i)" unfolding tot_def by (simp add: sum.cartesian_product case_prod_beta)
  also have "\<dots> = LIN_CLT_BUF_SLOTS" using assms
    by (auto simp: cap_def MACHINE_NUM_def numeral_eq_Suc less_Suc_eq CREDITS_FOR_EACH_CLIENT_def LIN_CLT_BUF_SLOTS_def BROADCAST_CREDITS_def
        UPD_CREDITS_def ACK_CREDITS_def INV_CREDITS_def)
  finally show ?thesis .
qed

lemma conservedD:
  assumes "conserved x" "vc < 3" "i < MACHINE_NUM" "j < MACHINE_NUM"
  shows "i = j \<Longrightarrow> owed x vc i j = 0" "i \<noteq> j \<Longrightarrow> credit (node x i) vc j + owed x vc i j = CREDITS_FOR_EACH_CLIENT"
  using assms unfolding conserved_def by metis+

lemma owed_cap:
  assumes "cluster_ok x" "vc < 3" "i < MACHINE_NUM" "j < MACHINE_NUM"
  shows "owed x vc i j \<le> cap j vc i"
proof -
  have "conserved x" using assms(1) by (simp add: cluster_ok_def)
  from conservedD[OF this assms(2-4)] show ?thesis by (cases "i = j") (simp_all add: cap_def)
qed

lemma arrived_room:
  assumes "cluster_ok x" "j < MACHINE_NUM"
  shows "tot (arrived (node x j)) \<le> LIN_CLT_BUF_SLOTS"
proof -
  have "arrived (node x j) v i \<le> cap j v i" if "v < 3" "i < MACHINE_NUM" for v i using owed_cap[OF assms(1) that assms(2)] by (simp add: owed_def)
  then show ?thesis using tot_mono[of "arrived (node x j)" "cap j"] tot_cap[OF assms(2)] by simp
qed

lemma message_channel: "message_ok m \<Longrightarrow> \<exists>v < 3. \<exists>i < MACHINE_NUM. \<forall>w j. sent_by w j m \<longleftrightarrow> w = v \<and> j = i"
  by (intro exI[of _ "channel m"] conjI exI[of _ "from_machine m"]) (auto simp: sent_by_def message_ok_def)

lemma room_for_message:
  assumes x: "cluster_ok x" and m: "(d, m) \<in># net x"
  shows "d < MACHINE_NUM" "message_ok m" "tot (arrived (node x d)) < LIN_CLT_BUF_SLOTS" "from_machine m \<noteq> d"
proof -
  show d: "d < MACHINE_NUM" "message_ok m" using x m by (auto simp: cluster_ok_def)
  let ?i = "from_machine m" and ?v = "channel m"
  have i: "?v < 3" "?i < MACHINE_NUM" using d(2) by (simp_all add: message_ok_def)
  have "(d, m) \<in># filter_mset (\<lambda>p. fst p = d \<and> sent_by ?v ?i (snd p)) (net x)" using m by (simp add: sent_by_def)
  then have o: "0 < on_net x ?v ?i d" unfolding on_net_def by (auto simp: nonempty_has_size[symmetric])
  note c = owed_cap[OF x i d(1)]
  then have "arrived (node x d) ?v ?i < cap d ?v ?i" using o by (simp add: owed_def)
  moreover have "arrived (node x d) v i \<le> cap d v i" if "v < 3" "i < MACHINE_NUM" for v i using owed_cap[OF x that d(1)] by (simp add: owed_def)
  ultimately have "tot (arrived (node x d)) < tot (cap d)" unfolding tot_def using i by (intro sum_strict_mono_ex1) auto
  then show "tot (arrived (node x d)) < LIN_CLT_BUF_SLOTS" using tot_cap[OF d(1)] by simp
  show "?i \<noteq> d" using c o by (auto simp: owed_def cap_def split: if_splits)
qed

lemma slot_free:
  assumes s: "node_ok s" "unread s w" "tot (arrived s) < LIN_CLT_BUF_SLOTS"
  shows "w < LIN_CLT_BUF_SLOTS" "\<not> live (incoming_reqs s ! w)"
    "\<exists>u < LIN_CLT_BUF_SLOTS. w = (rd s + u) mod LIN_CLT_BUF_SLOTS \<and>
      (\<forall>k < LIN_CLT_BUF_SLOTS. live (incoming_reqs s ! ((rd s + k) mod LIN_CLT_BUF_SLOTS)) \<longleftrightarrow> k < u)"
proof -
  let ?N = LIN_CLT_BUF_SLOTS
  obtain u where u: "u \<le> ?N" "w = (rd s + u) mod ?N" "\<And>k. k < ?N \<Longrightarrow> live (incoming_reqs s ! ((rd s + k) mod ?N)) \<longleftrightarrow> k < u"
    using s(2) unfolding unread_def by blast
  have r: "length (incoming_reqs s) = ?N" "\<forall>m\<in>set (incoming_reqs s). live m \<longrightarrow> message_ok m" using s(1) by (simp_all add: node_ok_def ring_ok_def)
  have "u \<noteq> ?N"
  proof
    assume a: "u = ?N"
    have "live (incoming_reqs s ! q)" if q: "q < ?N" for q
    proof -
      define r k where "r = rd s mod ?N" and "k = (if r \<le> q then q - r else ?N - r + q)"
      have "r < ?N" using slots_pos by (simp add: r_def)
      then have "k < ?N" "r + k = q \<or> r + k = ?N + q" using q by (auto simp: k_def)
      moreover from this(2) have "(rd s + k) mod ?N = q" using q by (auto simp: r_def mod_add_left_eq[of "rd s" ?N k, symmetric])
      ultimately show ?thesis using u(3)[of k] a by simp
    qed
    then have "number live (incoming_reqs s) = ?N" using r(1) by (subst number_all(1)) (auto simp: in_set_conv_nth)
    moreover have "tot (in_ring s) = number live (incoming_reqs s)" unfolding in_ring_def using r(2) message_channel by (intro tot_partition) blast
    moreover have "tot (in_ring s) \<le> tot (arrived s)" by (rule tot_mono) (simp add: arrived_def)
    ultimately show False using s(3) by simp
  qed
  then have "u < ?N" using u(1) by simp
  then show "w < ?N" "\<not> live (incoming_reqs s ! w)" "\<exists>u < ?N. w = (rd s + u) mod ?N \<and> (\<forall>k < ?N. live (incoming_reqs s ! ((rd s + k) mod ?N)) \<longleftrightarrow> k < u)"
    using u slots_pos by auto
qed

section \<open>Delivery\<close>

definition landed :: "nat \<Rightarrow> cache_op \<Rightarrow> coherence \<Rightarrow> coherence" where
  "landed w m s = s\<lparr>incoming_reqs := (incoming_reqs s)[w := polled m (incoming_reqs s ! w)]\<rparr>"

lemma landed_ok:
  assumes s: "node_ok s" "unread s w" "tot (arrived s) < LIN_CLT_BUF_SLOTS" and m: "message_ok m"
  shows "node_ok (landed w m s)" "unread (landed w m s) (HRD_MOD_ADD w LIN_CLT_BUF_SLOTS)"
    "arrived (landed w m s) vc i = arrived s vc i + (if sent_by vc i m then 1 else 0)"
proof -
  let ?N = LIN_CLT_BUF_SLOTS and ?m = "polled m (incoming_reqs s ! w)"
  note f = slot_free[OF s]
  obtain u where u: "u < ?N" "w = (rd s + u) mod ?N" "\<And>k. k < ?N \<Longrightarrow> live (incoming_reqs s ! ((rd s + k) mod ?N)) \<longleftrightarrow> k < u" using f(3) by blast
  have l: "w < length (incoming_reqs s)" using f(1) s(1) by (simp add: node_ok_def ring_ok_def)
  have lm: "live ?m" "message_ok ?m" using m by (auto simp: message_ok_def live_def polled_parts)
  have "queues (landed w m s) = queues s" by (simp add: queues_def landed_def)
  note q = queues_eq[OF this]
  have sd: "sending (landed w m s) = sending s" by (simp add: sending_def landed_def)
  have "ring_ok (landed w m s)" using s(1) lm(2) by (auto simp: node_ok_def ring_ok_def landed_def dest!: set_update_subset_insert[THEN subsetD])
  then show "node_ok (landed w m s)" using s(1) q(2) sending_ok[OF sd] by (simp add: node_ok_def arrays_ok_def invs_ok_def landed_def)
  have "in_ring (landed w m s) vc i = in_ring s vc i + (if sent_by vc i m then 1 else 0)"
    using number_update[OF l, of "\<lambda>m. live m \<and> sent_by vc i m" ?m] f(2) lm(1) by (simp add: in_ring_def landed_def polled_parts)
  moreover have "held (landed w m s) vc i = held s vc i" using q(1) by (simp add: held_def landed_def)
  ultimately show "arrived (landed w m s) vc i = arrived s vc i + (if sent_by vc i m then 1 else 0)" using sending_ok(4)[OF sd] by (simp add: arrived_def)
  have "live ((incoming_reqs s)[w := ?m] ! ((rd s + k) mod ?N)) \<longleftrightarrow> k < Suc u" if k: "k < ?N" for k
  proof (cases "k = u")
    case True
    then show ?thesis using u(2) l lm(1) by simp
  next
    case False
    then have "w \<noteq> (rd s + k) mod ?N" using mod_inj[of "rd s" k ?N u] u(1,2) k by auto
    then show ?thesis using u(3)[OF k] False by auto
  qed
  moreover have "HRD_MOD_ADD w ?N = (rd s + Suc u) mod ?N" using HRD_MOD_ADD_mod[OF f(1)] u(2) by (simp add: mod_Suc_eq)
  ultimately show "unread (landed w m s) (HRD_MOD_ADD w ?N)" using u(1) unfolding unread_def
    by (intro exI[of _ "Suc u"]) (simp add: landed_def rd_def)
qed

lemma tot_sent:
  assumes "message_ok m"
  shows "tot (\<lambda>v i. if sent_by v i m then 1 else 0) = 1"
  using tot_partition[of "[m]" "\<lambda>_. True" sent_by] message_channel[OF assms] by simp

lemma filter_remove: "a \<in># M \<Longrightarrow> size (filter_mset P M) = size (filter_mset P (M - {#a#})) + (if P a then 1 else 0)"
  by (auto dest!: multi_member_split)

lemma deliver_ok:
  assumes x: "cluster_ok x" and m: "(d, m) \<in># net x"
  shows "cluster_ok (x\<lparr>node := (node x)(d := landed (nic x d) m (node x d)), net := net x - {#(d, m)#},
    nic := (nic x)(d := HRD_MOD_ADD (nic x d) LIN_CLT_BUF_SLOTS), delivered := (delivered x)(d := delivered x d + 1)\<rparr>)" (is "cluster_ok ?y")
proof -
  note r = room_for_message[OF x m]
  have o: "conserved x" "node_ok (node x j)" "unread (node x j) (nic x j)" "nic x j < LIN_CLT_BUF_SLOTS"
    "coh_recvs (node x j) + tot (arrived (node x j)) = LIN_CLT_BUF_SLOTS + delivered x j" if "j < MACHINE_NUM" for j
    using x that by (simp_all add: cluster_ok_def)
  note l = landed_ok[OF o(2,3)[OF r(1)] r(3,2)]
  have a: "arrived (node ?y j) vc i = arrived (node x j) vc i + (if j = d \<and> sent_by vc i m then 1 else 0)" for vc i j using l(3) by simp
  have nt: "on_net x vc i j = on_net ?y vc i j + (if j = d \<and> sent_by vc i m then 1 else 0)" for vc i j
    using filter_remove[OF m, of "\<lambda>p. fst p = j \<and> sent_by vc i (snd p)"] by (auto simp: on_net_def)
  have "owed ?y vc i j = owed x vc i j" for vc i j using a[of j vc i] nt[of vc i j] by (simp add: owed_def)
  moreover have "credit (node ?y i) vc j = credit (node x i) vc j" for vc i j by (simp add: credit_def landed_def)
  ultimately have "conserved ?y" using o(1)[OF r(1)] unfolding conserved_def by simp
  moreover have "tot (arrived (node ?y d)) = tot (arrived (node x d)) + 1"
    using tot_add[of "arrived (node x d)" "\<lambda>v i. if sent_by v i m then 1 else 0"] tot_sent[OF r(2)] a[of d]
      tot_cong[of "arrived (node ?y d)" "\<lambda>v i. arrived (node x d) v i + (if sent_by v i m then 1 else 0)"] by simp
  moreover have "HRD_MOD_ADD (nic x d) LIN_CLT_BUF_SLOTS < LIN_CLT_BUF_SLOTS" using HRD_MOD_ADD_mod[OF o(4)[OF r(1)]] slots_pos by simp
  ultimately show ?thesis using o l(1,2) x r(1) by (auto simp: cluster_ok_def landed_def dest: in_diffD)
qed

section \<open>Turns\<close>

lemma size_filter_list: "size (filter_mset P (mset xs)) = number P xs"
  by (simp add: number_def flip: mset_filter size_mset)

lemma count_pairs: "count (image_mset (Pair j) (mset ks)) (a, k) = (if a = j then number (\<lambda>l. l = k) ks else 0)"
  by (induction ks) auto

lemma count_list_number: "count (mset xs) y = number (\<lambda>x. x = y) xs"
  by (induction xs) auto

lemma number_unique: "distinct xs \<Longrightarrow> number (\<lambda>x. x = y \<and> C) xs = (if y \<in> set xs \<and> C then 1 else 0)"
  by (induction xs) auto

lemma number_broadcast:
  assumes "\<forall>m\<in>set bs. bcast_msg j m" "b < MACHINE_NUM"
  shows "number (\<lambda>p. fst p = b \<and> sent_by vc a (snd p)) (to_other_machines j bs) = (if a = j \<and> b \<noteq> j then number (\<lambda>m. channel m = vc) bs else 0)"
  using assms(1)
proof (induction bs)
  case (Cons m bs)
  have "number (\<lambda>p. fst p = b \<and> sent_by vc a (snd p)) (map (\<lambda>d. (d, m)) (filter (\<lambda>d. d \<noteq> j) [0 ..< MACHINE_NUM])) =
      number (\<lambda>d. d = b \<and> sent_by vc a m) (filter (\<lambda>d. d \<noteq> j) [0 ..< MACHINE_NUM])" by (simp add: number_map)
  also have "\<dots> = (if b \<noteq> j \<and> sent_by vc a m then 1 else 0)" using assms(2) by (subst number_unique) auto
  finally show ?case using Cons by (auto simp: to_other_machines_def sent_by_def bcast_msg_def)
qed (simp add: to_other_machines_def)

lemma number_acks:
  assumes "\<forall>m\<in>set acks. ack_msg_to j m"
  shows "number (\<lambda>p. fst p = b \<and> sent_by vc a (snd p)) acks = (if a = j then acks_to ACK_VC vc b acks else 0)"
proof -
  have "channel m = ACK_VC \<and> from_machine m = j" if "(d, m) \<in> set acks" for d m
    using assms that by (auto simp: ack_msg_to_def channel_def)
  then have "(fst p = b \<and> sent_by vc a (snd p)) = (fst p = b \<and> ACK_VC = vc \<and> j = a)" if "p \<in> set acks" for p
    using that by (cases p) (auto simp: sent_by_def)
  then have "number (\<lambda>p. fst p = b \<and> sent_by vc a (snd p)) acks = number (\<lambda>p. fst p = b \<and> ACK_VC = vc \<and> j = a) acks" by (rule number_cong)
  then show ?thesis by (auto simp: acks_to_def number_all)
qed

lemma number_credits:
  assumes "\<forall>x\<in>set crs. fst x < MACHINE_NUM \<and> (\<exists>v < 3. snd x = imm_of v j)" "b < MACHINE_NUM" "j < MACHINE_NUM"
  shows "count (mset crs) (a, imm_of vc b) = (if b = j then credits_for j crs vc a else 0)" "tot (credits_for j crs) = length crs"
proof -
  show "count (mset crs) (a, imm_of vc b) = (if b = j then credits_for j crs vc a else 0)"
    using assms by (auto simp: count_list_number credits_for_def intro!: number_all(2))
  have "tot (\<lambda>v i. number (\<lambda>x. True \<and> x = (i, imm_of v j)) crs) = number (\<lambda>_. True) crs"
    using assms(1,3) by (intro tot_partition) (fastforce simp: imm_of_eq)
  then show "tot (credits_for j crs) = length crs" by (simp add: credits_for_def[abs_def] number_all)
qed

lemma polls_within:
  assumes x: "cluster_ok x" and j: "j < MACHINE_NUM" and p: "mset (map (Pair j) (concat polls)) \<subseteq># due x"
  shows "within j polls (node x j)"
proof -
  have c: "conserved x" "node_ok (node x j)" using x j by (simp_all add: cluster_ok_def)
  have n: "number (\<lambda>k. k = imm_of vc i) (concat polls) \<le> count (due x) (j, imm_of vc i)" for vc i
    using mset_subset_eq_count[OF p, of "(j, imm_of vc i)"] by (simp add: count_pairs)
  have pr: "promised (concat polls) vc i \<le> owed x vc j i" for vc i unfolding promised_def owed_def using mult_le_mono2[OF n[of vc i], of CREDITS_IN_MESSAGE] by linarith
  have "k < 3 * MACHINE_NUM" if "k \<in> set (concat polls)" for k
  proof -
    have "(j, k) \<in># due x" using mset_subset_eqD[OF p, of "(j, k)"] that by auto
    then obtain v i where "v < 3" "i < MACHINE_NUM" "k = imm_of v i" using x by (auto simp: cluster_ok_def)
    then show ?thesis by (auto simp: imm_of_def MACHINE_NUM_def)
  qed
  moreover have "promised (concat polls) vc j = 0" if "vc < 3" for vc using pr[of vc j] conservedD(1)[OF c(1) that j j] by simp
  moreover have "credit (node x j) vc i + promised (concat polls) vc i \<le> CREDITS_FOR_EACH_CLIENT" if "vc < 3" "i < MACHINE_NUM" "i \<noteq> j" for vc i
    using conservedD(2)[OF c(1) that(1) j that(2)] that(3) pr[of vc i] by simp
  ultimately show ?thesis using c(2) by (simp add: within_def node_ok_def)
qed

definition after_turn :: "nat \<Rightarrow> nat list list \<Rightarrow> nat list list \<Rightarrow> cache_op list \<Rightarrow> (nat \<times> cache_op) list \<Rightarrow> (nat \<times> nat) list \<Rightarrow> coherence \<Rightarrow> cluster \<Rightarrow> cluster" where
  "after_turn j polls polls' bs acks crs s' x = x\<lparr>node := (node x)(j := s'), net := net x + mset (to_other_machines j bs) + mset acks,
      due := due x - mset (map (Pair j) (concat polls)) + mset (map (Pair j) (concat polls')) + mset crs\<rparr>"

lemma after_turn_parts:
  assumes t: "turned j polls (node x j) polls' bs acks crs s'" and p: "mset (map (Pair j) (concat polls)) \<subseteq># due x" and i: "b < MACHINE_NUM" "j < MACHINE_NUM"
    and y: "y = after_turn j polls polls' bs acks crs s' x"
  shows "on_net y vc a b = on_net x vc a b + (if a = j then (if b \<noteq> j then number (\<lambda>m. channel m = vc) bs else 0) + acks_to ACK_VC vc b acks else 0)"
    "CREDITS_IN_MESSAGE * count (due y) (a, imm_of vc b) + (if a = j then promised (concat polls) vc b else 0) =
      CREDITS_IN_MESSAGE * count (due x) (a, imm_of vc b) + (if a = j then promised (concat polls') vc b else 0) +
      (if b = j then CREDITS_IN_MESSAGE * credits_for j crs vc a else 0)"
proof -
  have tt: "\<forall>m\<in>set bs. bcast_msg j m" "\<forall>m\<in>set acks. ack_msg_to j m" "\<forall>x\<in>set crs. fst x < MACHINE_NUM \<and> (\<exists>v < 3. snd x = imm_of v j)"
    using t by (simp_all add: turned_def)
  show "on_net y vc a b = on_net x vc a b + (if a = j then (if b \<noteq> j then number (\<lambda>m. channel m = vc) bs else 0) + acks_to ACK_VC vc b acks else 0)"
    using number_broadcast[OF tt(1) i(1), of vc a] number_acks[OF tt(2), of b vc a] by (simp add: y after_turn_def on_net_def size_filter_list)
  let ?n = "\<lambda>ks. if a = j then number (\<lambda>k. k = imm_of vc b) (concat ks) else 0"
  have "?n polls \<le> count (due x) (a, imm_of vc b)" using mset_subset_eq_count[OF p, of "(a, imm_of vc b)"] by (simp add: count_pairs)
  then have "count (due y) (a, imm_of vc b) + ?n polls = count (due x) (a, imm_of vc b) + ?n polls' + (if b = j then credits_for j crs vc a else 0)"
    using number_credits(1)[OF tt(3) i, of a vc] by (simp add: y after_turn_def count_pairs)
  from arg_cong[OF this, of "\<lambda>n. CREDITS_IN_MESSAGE * n"]
  show "CREDITS_IN_MESSAGE * count (due y) (a, imm_of vc b) + (if a = j then promised (concat polls) vc b else 0) =
      CREDITS_IN_MESSAGE * count (due x) (a, imm_of vc b) + (if a = j then promised (concat polls') vc b else 0) +
      (if b = j then CREDITS_IN_MESSAGE * credits_for j crs vc a else 0)" by (auto simp: promised_def algebra_simps)
qed

lemma turn_conserves:
  assumes c: "conserved x" and t: "turned j polls (node x j) polls' bs acks crs s'" and p: "mset (map (Pair j) (concat polls)) \<subseteq># due x"
    and j: "j < MACHINE_NUM" and w: "within j polls (node x j)"
  shows "conserved (after_turn j polls polls' bs acks crs s' x)" (is "conserved ?y")
  unfolding conserved_def
proof (intro allI impI)
  fix vc a b :: nat assume i: "vc < 3" "a < MACHINE_NUM" "b < MACHINE_NUM"
  note on = after_turn_parts(1)[OF t p i(3) j refl, of vc a] and du = after_turn_parts(2)[OF t p i(3) j refl, of a vc]
  have ar: "arrived s' vc k + CREDITS_IN_MESSAGE * credits_for j crs vc k = arrived (node x j) vc k" if "k < MACHINE_NUM" for k
    using t i(1) that by (simp add: turned_def)
  have n: "node ?y b = (if b = j then s' else node x b)" "node ?y a = (if a = j then s' else node x a)" by (simp_all add: after_turn_def)
  have own: "promised (concat polls') vc j = 0" "promised (concat polls) vc j = 0" using t w i(1) by (simp_all add: turned_def within_def)
  show "if a = b then owed ?y vc a b = 0 else credit (node ?y a) vc b + owed ?y vc a b = CREDITS_FOR_EACH_CLIENT"
  proof (cases "a = j")
    case False
    then have "owed ?y vc a b = owed x vc a b" using on du ar[OF i(2)] n(1) by (auto simp: owed_def)
    then show ?thesis using conservedD[OF c i] n(2) False by auto
  next
    case aj: True
    show ?thesis
    proof (cases "b = j")
      case True
      have z: "owed x v j j = 0" if "v < 3" for v using conservedD(1)[OF c that j j] by simp
      have "acks_to INV_VC INV_VC j acks \<le> arrived (node x j) INV_VC j" using t j by (simp add: turned_def del: vcs)
      then have "acks_to ACK_VC vc j acks = 0" using z[of INV_VC] by (simp add: owed_def acks_to_def)
      then show ?thesis using True aj on du ar[OF j] n(1) own z[OF i(1)] by (auto simp: owed_def)
    next
      case False
      have "credit s' vc b + promised (concat polls') vc b + (number (\<lambda>m. channel m = vc) bs + acks_to ACK_VC vc b acks) =
          credit (node x j) vc b + promised (concat polls) vc b" using t i False by (simp add: turned_def)
      then have "credit (node ?y a) vc b + owed ?y vc a b = credit (node x a) vc b + owed x vc a b" using False aj on du n by (simp add: owed_def)
      then show ?thesis using conservedD(2)[OF c i] False aj by simp
    qed
  qed
qed

lemma turn_ok:
  assumes x: "cluster_ok x" and t: "turned j polls (node x j) polls' bs acks crs s'" and p: "mset (map (Pair j) (concat polls)) \<subseteq># due x" and j: "j < MACHINE_NUM"
  shows "cluster_ok (after_turn j polls polls' bs acks crs s' x)" (is "cluster_ok ?y")
proof -
  have o: "conserved x" "\<And>i. i < MACHINE_NUM \<Longrightarrow> node_ok (node x i) \<and> unread (node x i) (nic x i) \<and> nic x i < LIN_CLT_BUF_SLOTS \<and>
      coh_recvs (node x i) + tot (arrived (node x i)) = LIN_CLT_BUF_SLOTS + delivered x i"
    "\<forall>p\<in>#net x. fst p < MACHINE_NUM \<and> message_ok (snd p)" "\<forall>p\<in>#due x. fst p < MACHINE_NUM \<and> (\<exists>v < 3. \<exists>i < MACHINE_NUM. snd p = imm_of v i)"
    using x by (simp_all add: cluster_ok_def)
  have tt: "node_ok s'" "\<forall>w. unread (node x j) w \<longrightarrow> unread s' w" "coh_recvs s' = coh_recvs (node x j) + CREDITS_IN_MESSAGE * length crs"
    "\<forall>m\<in>set bs. bcast_msg j m" "\<forall>m\<in>set acks. ack_msg_to j m" "\<forall>x\<in>set crs. fst x < MACHINE_NUM \<and> (\<exists>v < 3. snd x = imm_of v j)"
    "\<forall>k\<in>set (concat polls'). k < 3 * MACHINE_NUM"
    "\<And>vc i. vc < 3 \<Longrightarrow> i < MACHINE_NUM \<Longrightarrow> arrived s' vc i + CREDITS_IN_MESSAGE * credits_for j crs vc i = arrived (node x j) vc i"
    using t by (simp_all add: turned_def within_def)
  have "tot (arrived s') + tot (\<lambda>v i. CREDITS_IN_MESSAGE * credits_for j crs v i) = tot (arrived (node x j))"
    unfolding tot_add[symmetric] by (rule tot_cong) (rule tt(8))
  moreover have "tot (\<lambda>v i. CREDITS_IN_MESSAGE * credits_for j crs v i) = CREDITS_IN_MESSAGE * length crs"
    using number_credits(2)[OF tt(6) j j] by (simp add: tot_def sum_distrib_left[symmetric])
  ultimately have r: "coh_recvs s' + tot (arrived s') = LIN_CLT_BUF_SLOTS + delivered x j" using tt(3) o(2)[OF j] by simp
  have nt: "\<forall>p\<in>#net ?y. fst p < MACHINE_NUM \<and> message_ok (snd p)"
    using o(3) tt(4,5) j by (auto simp: after_turn_def to_other_machines_def message_ok_def bcast_msg_def ack_msg_to_def)
  have du: "\<forall>p\<in>#due ?y. fst p < MACHINE_NUM \<and> (\<exists>v < 3. \<exists>i < MACHINE_NUM. snd p = imm_of v i)"
  proof
    fix p assume "p \<in># due ?y"
    then consider "p \<in># due x" | k where "p = (j, k)" "k \<in> set (concat polls')" | "p \<in> set crs" by (auto simp: after_turn_def dest!: in_diffD)
    then show "fst p < MACHINE_NUM \<and> (\<exists>v < 3. \<exists>i < MACHINE_NUM. snd p = imm_of v i)"
    proof cases
      case 2
      then obtain v i where "v < 3" "i < MACHINE_NUM" "k = imm_of v i" using imm_of_cases[of k] tt(7) by metis
      then show ?thesis using 2 j by auto
    qed (use o(4) tt(6) j in blast)+
  qed
  have "conserved ?y" by (rule turn_conserves[OF o(1) t p j polls_within[OF x j p]])
  then show ?thesis using o(2) tt(1,2) r nt du by (simp add: cluster_ok_def after_turn_def)
qed

lemma step_ok:
  assumes "cluster_step x y" "cluster_ok x"
  shows "cluster_ok y"
  using assms
proof cases
  case (deliver d m)
  then show ?thesis using deliver_ok[OF assms(2)] by (simp add: landed_def)
next
  case (turn j us c polls own ch polls' ch' s' c' bs acks crs)
  have n: "node_ok (node x j)" using assms(2) turn(2) by (simp add: cluster_ok_def)
  note w = polls_within[OF assms(2) turn(2,5)] and b = arrived_room[OF assms(2) turn(2)]
  have "turned j polls (node x j) polls' bs acks crs s'"
    by (rule lin_turn_ok[OF n w turn(2) b turn(3,4,6)])
  from turn_ok[OF assms(2) this turn(5,2)] show ?thesis using turn(1) by (simp add: after_turn_def)
qed

lemma reachable_ok:
  assumes "cluster_step\<^sup>*\<^sup>* x y" "cluster_start x"
  shows "cluster_ok y"
  using assms by (induction rule: rtranclp_induct) (auto intro: start_ok step_ok)

section \<open>A first turn\<close>

text \<open>A machine with one hot write in its batch broadcasts an invalidation.\<close>

definition demo_lin :: coherence where
  "demo_lin = (let ops = replicate BCAST_TO_CACHE_BATCH blank; rs = replicate BCAST_TO_CACHE_BATCH (e_resp (demo_entry EMPTY)) in
     lin_client_start ops ops ops ops rs rs (replicate COH_BUF_SLOTS blank))"

definition demo_brc :: entry where
  "demo_brc = (demo_entry EMPTY)\<lparr>e_op := (e_op (demo_entry EMPTY))\<lparr>opcode := CACHE_OP_BRC\<rparr>\<rparr>"

definition demo_writer :: client where
  "demo_writer = demo_client\<lparr>bufs := demo_brc # replicate (CACHE_BATCH_SIZE - 1) (demo_entry EMPTY)\<rparr>"

definition demo_inv :: cache_op where
  "demo_inv = small_op (set_meta ((op_meta (e_op demo_brc))\<lparr>cid := 0\<rparr>) ((e_op demo_brc)\<lparr>opcode := CACHE_OP_INV\<rparr>))"

lemma demo_lin_started: "lin_started demo_lin"
  unfolding lin_started_def demo_lin_def Let_def
  by (intro exI conjI, rule refl) (auto simp: blank_def)

lemma demo_lin_fields:
  "incoming_reqs demo_lin = replicate LIN_CLT_BUF_SLOTS blank" "pull_ptr demo_lin = -1" "ack_size demo_lin = 0" "inv_size demo_lin = 0" "br_tx demo_lin = 0"
  "credits demo_lin = setup_credits LINEARIZABILITY" "coh_message_count demo_lin = replicate VIRTUAL_CHANNELS (replicate MACHINE_NUM 0)"
  by (simp_all add: demo_lin_def Let_def lin_client_start_def setup_coh_ops_def post_coh_recvs_def)

lemma bcast_loop_skips:
  assumes "\<forall>k. op_i \<le> k \<and> k < CACHE_BATCH_SIZE \<longrightarrow> opcode (e_op (bufs c ! k)) \<noteq> CACHE_OP_BRC" "op_i \<le> CACHE_BATCH_SIZE"
  shows "bcast_loop me 0 op_i (b, s, c) = Inr (b, s, c)"
  using assms
proof (induction "CACHE_BATCH_SIZE - op_i" arbitrary: op_i)
  case 0
  then show ?case by (simp add: bcast_loop.simps)
next
  case (Suc n)
  then have "bcast_loop me 0 (op_i + 1) (b, s, c) = Inr (b, s, c)" by simp
  then show ?case using Suc.prems Suc.hyps(2) by (subst bcast_loop.simps) simp
qed

lemma demo_polls: "take_messages me us (ch, demo_lin, c) = Inr (0, ch, demo_lin, c)"
proof -
  have "opcode (incoming demo_lin) = 0" by (simp add: incoming_def demo_lin_fields blank_def slots_pos)
  moreover have "demo_lin\<lparr>coh_message_count := replicate VIRTUAL_CHANNELS (replicate MACHINE_NUM 0)\<rparr> = demo_lin" by (simp flip: demo_lin_fields(7))
  ultimately show ?thesis by (simp add: take_messages_def poll_coherence_LIN_def poll_loop.simps Let_def batch_pos)
qed

lemma demo_broadcast: "\<exists>s c. perform_broadcasts_LIN 0 [] (demo_lin, demo_writer) = Inr ([], [demo_inv], s, c) \<and> inv_size s = 0 \<and>
    coh_message_count s = replicate VIRTUAL_CHANNELS (replicate MACHINE_NUM 0)"
proof -
  let ?b = "\<lparr>b_br_i = 0, b_updates_sent = 0, b_credit_recv_counter = 0, b_polls = [], b_out = []\<rparr>"
  have "credits demo_lin = replicate 3 (replicate MACHINE_NUM 60)"
    by (simp add: demo_lin_fields setup_credits_def numeral_3_eq_3 config)
  then have "\<not> no_credit 0 INV_VC demo_lin" by (simp add: no_credit_def list_ex_iff)
  then have ck: "check_broadcast_credits 0 LINEARIZABILITY INV_VC ([], demo_lin) = Inr (True, [], demo_lin\<lparr>credit_debug_cnt := 0\<rparr>)"
    by (simp add: check_broadcast_credits_def no_credit_def)
  have f: "forge_inv 0 0 (demo_lin\<lparr>credit_debug_cnt := 0\<rparr>, demo_writer) = (demo_inv,
      demo_lin\<lparr>credit_debug_cnt := 0, stats := (stats demo_lin)\<lparr>sent_invs := sent_invs (stats demo_lin) + 1\<rparr>\<rparr>,
      demo_writer\<lparr>bufs := demo_brc\<lparr>e_op := set_meta ((op_meta (e_op demo_brc))\<lparr>cid := 0\<rparr>) ((e_op demo_brc)\<lparr>opcode := CACHE_OP_INV\<rparr>)\<rparr> #
        replicate (CACHE_BATCH_SIZE - 1) (demo_entry EMPTY)\<rparr>)" by (simp add: forge_inv_def demo_writer_def demo_inv_def Let_def)
  obtain s c where one: "broadcast_one 0 INV_VC 0 (?b, demo_lin\<lparr>credit_debug_cnt := 0\<rparr>, demo_writer) = Inr (?b\<lparr>b_br_i := 1, b_out := [demo_inv]\<rparr>, s, c)"
    "inv_size s = 0" "ack_size s = 0" "coh_message_count s = replicate VIRTUAL_CHANNELS (replicate MACHINE_NUM 0)" "tl (bufs c) = replicate (CACHE_BATCH_SIZE - 1) (demo_entry EMPTY)"
    by (simp add: broadcast_one_def forge_bcast_wrs_LIN_def f Let_def spend_def demo_lin_fields CACHE_BATCH_SIZE_def CREDITS_IN_MESSAGE_def
        CREDITS_FOR_EACH_CLIENT_def LIN_CREDIT_DIVIDER_def MAX_BCAST_BATCH_def del: vcs)
  have "opcode (e_op (bufs c ! k)) \<noteq> CACHE_OP_BRC" if "1 \<le> k" "k < CACHE_BATCH_SIZE" for k
  proof -
    have "bufs c ! k = tl (bufs c) ! (k - 1)" using that one(5) by (subst nth_tl) (auto simp flip: one(5))
    then show ?thesis using that by (simp add: one(5) demo_entry_def)
  qed
  then have r: "bcast_loop 0 0 1 (?b\<lparr>b_br_i := 1, b_out := [demo_inv]\<rparr>, s, c) = Inr (?b\<lparr>b_br_i := 1, b_out := [demo_inv]\<rparr>, s, c)"
    by (intro bcast_loop_skips) (auto simp: CACHE_BATCH_SIZE_def)
  have "bcast_loop 0 0 0 (?b, demo_lin, demo_writer) = Inr (?b\<lparr>b_br_i := 1, b_out := [demo_inv]\<rparr>, s, c)"
    using ck one(1) r by (subst bcast_loop.simps) (simp add: CACHE_BATCH_SIZE_def demo_writer_def demo_brc_def Let_def del: vcs)
  then have "perform_broadcasts_LIN 0 [] (demo_lin, demo_writer) = Inr ([], [demo_inv], s, c)"
    using one(3) by (simp add: perform_broadcasts_LIN_def demo_lin_fields post_credit_recvs_def)
  then show ?thesis using one by blast
qed

lemma demo_turn: "\<exists>s c. lin_turn 0 us [] Inr (ch, demo_lin, demo_writer) = Inr ([], (ch, s, c), [demo_inv], [], [])"
proof -
  obtain s c where b: "perform_broadcasts_LIN 0 [] (demo_lin, demo_writer) = Inr ([], [demo_inv], s, c)" "inv_size s = 0"
    "coh_message_count s = replicate VIRTUAL_CHANNELS (replicate MACHINE_NUM 0)" using demo_broadcast by blast
  have "fc_message_count s rm = 0" if "rm < MACHINE_NUM" for rm using that by (simp add: fc_message_count_def b(3) VIRTUAL_CHANNELS_def)
  then have "forge_credits_LIN 0 s = Inr (s, [])" by (simp add: forge_credits_LIN_def MACHINE_NUM_def upt_rec numeral_eq_Suc)
  then show ?thesis using b(1,2) by (simp add: lin_turn_def demo_polls take_invs_def send_messages_def)
qed

definition demo_cluster :: cluster where
  "demo_cluster = \<lparr>node = (\<lambda>_. demo_lin), net = {#}, due = {#}, nic = (\<lambda>_. 0), delivered = (\<lambda>_. 0)\<rparr>"

lemma demo_cluster_start: "cluster_start demo_cluster"
  by (simp add: cluster_start_def demo_cluster_def demo_lin_started)

lemma demo_writer_latency: "latency_ok (latency_count demo_writer)"
  by (simp add: demo_writer_def demo_client_def latency_ok_def zero_counters_def)

lemma demo_reached: "\<exists>y. cluster_step\<^sup>*\<^sup>* demo_cluster y \<and> (1, demo_inv) \<in># net y \<and> node y 1 = demo_lin \<and> nic y 1 = 0"
proof -
  obtain s c where t: "lin_turn 0 1 [] Inr (undefined, node demo_cluster 0, demo_writer) = Inr ([], (undefined, s, c), [demo_inv], [], [])"
    using demo_turn[of 1 undefined] by (auto simp: demo_cluster_def)
  define y where "y = demo_cluster\<lparr>node := (node demo_cluster)(0 := s), net := net demo_cluster + mset (to_other_machines 0 [demo_inv]) + mset [],
      due := due demo_cluster - mset (map (Pair 0) (concat [])) + mset (map (Pair 0) (concat [])) + mset []\<rparr>"
  have "cluster_step demo_cluster y" unfolding y_def by (rule turn[OF _ _ demo_writer_latency _ t]) (simp_all add: MACHINE_NUM_def)
  moreover have "(1, demo_inv) \<in># net y" by (simp add: y_def to_other_machines_def MACHINE_NUM_def)
  moreover have "node y 1 = demo_lin" "nic y 1 = 0" by (simp_all add: y_def demo_cluster_def)
  ultimately show ?thesis by (intro exI[of _ y]) (simp add: r_into_rtranclp)
qed

section \<open>Flow control\<close>

text \<open>Property C9: in every reachable state of the machines running the linearizable client,
  every coherence message under way has a receive posted for it at its destination, and the
  slot of the ring that the network card fills next is there and empty: no message is lost and
  no message that has not been taken is overwritten.\<close>

theorem messages_find_room:
  assumes "cluster_start x" "cluster_step\<^sup>*\<^sup>* x y" "(d, m) \<in># net y"
  shows "d < MACHINE_NUM \<and> delivered y d < coh_recvs (node y d) \<and> nic y d < length (incoming_reqs (node y d)) \<and>
    opcode (incoming_reqs (node y d) ! nic y d) = 0"
proof -
  have y: "cluster_ok y" by (rule reachable_ok[OF assms(2,1)])
  note r = room_for_message[OF y assms(3)]
  have n: "node_ok (node y d)" "unread (node y d) (nic y d)"
    "coh_recvs (node y d) + tot (arrived (node y d)) = LIN_CLT_BUF_SLOTS + delivered y d" using y r(1) by (simp_all add: cluster_ok_def)
  note f = slot_free[OF n(1,2) r(3)]
  show ?thesis using r(1,3) n f(1,2) by (simp add: node_ok_def ring_ok_def live_def)
qed

theorem messages_find_room_witness:
  "\<exists>y :: cluster. (1, demo_inv) \<in># net y \<and> delivered y 1 < coh_recvs (node y 1) \<and> opcode (incoming_reqs (node y 1) ! nic y 1) = 0"
proof -
  obtain y where y: "cluster_step\<^sup>*\<^sup>* demo_cluster y" "(1, demo_inv) \<in># net y" using demo_reached by blast
  show ?thesis using messages_find_room[OF demo_cluster_start y] y(2) by blast
qed

text \<open>Property C10: credits are conserved.  For a sender, a receiver and a channel, the sender's
  credits, its messages under way, those in the receiver's ring, those in the receiver's queues,
  those the receiver has taken and not yet sent credits for, and the credits in the messages on
  their way back always add up to the credits of the start.\<close>

theorem credits_conserved:
  assumes "cluster_start x" "cluster_step\<^sup>*\<^sup>* x y" "vc < VIRTUAL_CHANNELS" "i < MACHINE_NUM" "j < MACHINE_NUM" "i \<noteq> j"
  shows "unat (credits (node y i) ! vc ! j) + on_net y vc i j + (in_ring (node y j) vc i + held (node y j) vc i + seen (node y j) vc i) +
    CREDITS_IN_MESSAGE * count (due y) (i, j + vc * MACHINE_NUM) = CREDITS_FOR_EACH_CLIENT"
proof -
  have "conserved y" using reachable_ok[OF assms(2,1)] by (simp add: cluster_ok_def)
  moreover have "vc < 3" using assms(3) by (simp add: VIRTUAL_CHANNELS_def)
  ultimately show ?thesis using conservedD(2)[OF _ _ assms(4-6)] by (simp add: credit_def owed_def arrived_def imm_of_def add.assoc)
qed

theorem credits_conserved_witness:
  "\<exists>y :: cluster. (1, demo_inv) \<in># net y \<and> unat (credits (node y 0) ! INV_VC ! 1) + on_net y INV_VC 0 1 +
     (in_ring (node y 1) INV_VC 0 + held (node y 1) INV_VC 0 + seen (node y 1) INV_VC 0) +
     CREDITS_IN_MESSAGE * count (due y) (0, 1 + INV_VC * MACHINE_NUM) = CREDITS_FOR_EACH_CLIENT"
proof -
  have k: "INV_VC < VIRTUAL_CHANNELS" "0 < MACHINE_NUM" "1 < MACHINE_NUM" "(0 :: nat) \<noteq> 1" by (simp_all add: VIRTUAL_CHANNELS_def MACHINE_NUM_def)
  obtain y where y: "cluster_step\<^sup>*\<^sup>* demo_cluster y" "(1, demo_inv) \<in># net y" using demo_reached by blast
  show ?thesis using credits_conserved[OF demo_cluster_start y(1) k] y(2) by blast
qed

text \<open>Property C11: in every reachable state the coherence part of a turn returns.  If the cache is
  well formed, every message in the ring fits it, and the client's own batch returns and keeps the
  cache well formed, then no assertion of the polling, of the bookkeeping, of the broadcasts, of the acknowledgements or of the
  credits fails and no queue or array is overrun, whatever credit messages that are under way
  the polls find; the cache is well formed again, and no more credit messages are made than there is room for.\<close>

theorem lin_turn_returns:
  assumes "cluster_start x" "cluster_step\<^sup>*\<^sup>* x y" "j < MACHINE_NUM" "0 < us" "latency_ok (latency_count c)"
    "mset (map (Pair j) (concat polls)) \<subseteq># due y" "lin_cache_ok ch"
    "\<forall>m\<in>set (incoming_reqs (node y j)). opcode m \<noteq> 0 \<longrightarrow> message_fits ch m"
    "\<And>ch c. lin_cache_ok ch \<Longrightarrow> latency_ok (latency_count c) \<Longrightarrow> \<exists>ch' c'. own (ch, c) = Inr (ch', c') \<and> lin_cache_ok ch'"
  shows "\<exists>polls' ch' s' c' bs acks crs. lin_turn j us polls own (ch, node y j, c) = Inr (polls', (ch', s', c'), bs, acks, crs) \<and>
    lin_cache_ok ch' \<and> length crs \<le> MAX_CREDIT_WRS"
proof -
  have y: "cluster_ok y" by (rule reachable_ok[OF assms(2,1)])
  have n: "node_ok (node y j)" using y assms(3) by (simp add: cluster_ok_def)
  note k = n polls_within[OF y assms(3,6)] assms(3) arrived_room[OF y assms(3)] assms(4,5)
  have "length crs \<le> MAX_CREDIT_WRS" if t: "turned j polls (node y j) polls' bs acks crs s'" for polls' bs acks crs s'
  proof -
    have "CREDITS_IN_MESSAGE * credits_for j crs v i \<le> arrived (node y j) v i" if "v < 3" "i < MACHINE_NUM" for v i
      using t that unfolding turned_def by (metis le_add2)
    then have "tot (\<lambda>v i. CREDITS_IN_MESSAGE * credits_for j crs v i) \<le> tot (arrived (node y j))" by (rule tot_mono)
    moreover have "tot (\<lambda>v i. CREDITS_IN_MESSAGE * credits_for j crs v i) = CREDITS_IN_MESSAGE * length crs"
      using number_credits(2)[OF _ assms(3,3), of crs] t by (simp add: tot_def turned_def sum_distrib_left[symmetric])
    ultimately show ?thesis using arrived_room[OF y assms(3)] by (simp add: config)
  qed
  moreover have "\<forall>m\<in>set (incoming_reqs (node y j)). live m \<longrightarrow> message_fits ch m" using assms(8) by (simp add: live_def)
  then obtain polls' ch' s' c' bs acks crs where
    t: "lin_turn j us polls own (ch, node y j, c) = Inr (polls', (ch', s', c'), bs, acks, crs)" "lin_cache_ok ch'"
    using lin_turn_total[OF k assms(7), of own] assms(9) by blast
  ultimately show ?thesis using lin_turn_ok[OF k t(1)] by blast
qed

theorem lin_turn_returns_witness:
  "\<exists>(y :: cluster) ch polls' ch' s' c' bs acks crs. opcode (incoming_reqs (node y 1) ! 0) = CACHE_OP_INV \<and> lin_cache_ok ch \<and>
    lin_turn 1 1 [] Inr (ch, node y 1, demo_writer) = Inr (polls', (ch', s', c'), bs, acks, crs) \<and> lin_cache_ok ch' \<and>
    length crs \<le> MAX_CREDIT_WRS"
proof -
  obtain x where x: "cluster_step\<^sup>*\<^sup>* demo_cluster x" "(1, demo_inv) \<in># net x" "node x 1 = demo_lin" "nic x 1 = 0" using demo_reached by blast
  obtain y where y: "cluster_step x y" "incoming_reqs (node y 1) = (replicate LIN_CLT_BUF_SLOTS blank)[0 := polled demo_inv blank]"
    using deliver[OF x(2)] x(3,4) slots_pos by (fastforce simp: demo_lin_fields)
  have r: "cluster_step\<^sup>*\<^sup>* demo_cluster y" using x(1) y(1) by simp
  obtain ch where ch: "lin_cache_ok ch" by (rule demo_lin_cache)
  have k: "1 < MACHINE_NUM" "(0 :: int) < 1" "mset (map (Pair 1) (concat [])) \<subseteq># due y" by (simp_all add: MACHINE_NUM_def)
  have "opcode (polled demo_inv blank) = CACHE_OP_INV" "even (version (op_meta (polled demo_inv blank)))"
    by (simp_all add: polled_parts demo_inv_def demo_brc_def demo_entry_def demo_op_def demo_meta_def)
  then have m: "message_fits ch (polled demo_inv blank)" "opcode (incoming_reqs (node y 1) ! 0) = CACHE_OP_INV"
    unfolding y(2) using slots_pos by (simp_all add: message_fits_def)
  have "\<forall>m\<in>set (incoming_reqs (node y 1)). opcode m \<noteq> 0 \<longrightarrow> message_fits ch m"
    using m(1) unfolding y(2) by (auto simp: blank_def dest!: set_update_subset_insert[THEN subsetD])
  from lin_turn_returns[OF demo_cluster_start r k(1,2) demo_writer_latency k(3) ch this, of Inr] show ?thesis using m(2) ch by blast
qed

end
