(* ===== verification/Spec2Isabelle.thy ===== *)
theory Spec2Isabelle
  imports SC_System_Correct LIN_System_Correct Client_Correct Flow_System
begin

text \<open>
  A verification library for ccKVS, a distributed key-value store whose machines
  cache the hottest keys and keep the caches coherent with one of two protocols,
  a sequentially consistent one and a linearizable one.

  \<^bold>\<open>Parts of the program.\<close>  A machine runs worker threads, each serving a
  MICA store (\<open>mica.c\<close>) with the cold keys, and client threads that read a trace,
  try the cache (\<open>cache.c\<close>, itself a MICA store whose objects carry the metadata of
  a sequence lock, \<open>optik_mod.h\<close>), broadcast the writes that hit, and send the misses
  to the workers (\<open>client-sc.c\<close>, \<open>client-lin.c\<close>, \<open>worker.c\<close>, \<open>inline_util.h\<close>).

  \<^bold>\<open>Theories: foundations.\<close>
  \<open>Prelude\<close> has machine integers, results (every abort of the program is a value) and byte memory.
  \<open>Config\<close> has the constants of the headers and the static checks of \<open>main\<close>.
  \<open>Optik\<close> has the metadata of an object, its lock and the comparison of versions.
  \<open>Layout\<close> has objects and messages as records and their layout in memory.
  \<open>Interfaces\<close> has the contracts between components, as locales; two more, for the handlers
  that a batch of the cache runs and for the walks over a batch of the client, are in
  \<open>Cache\<close> and \<open>Requests_Correct\<close>.

  \<^bold>\<open>Theories: the stores.\<close>
  \<open>City\<close> has the hash functions of \<open>city.c\<close>.
  \<open>Mica\<close>, \<open>Mica_Store\<close>, \<open>Mica_Ops\<close> and \<open>Mica_Correct\<close> have the store of a worker: its
  operations, its invariant and abstraction to a map, and its properties.  \<open>Mica_Crcw\<close> has the
  store that the workers share, with its locks.

  \<^bold>\<open>Theories: the caches.\<close>
  \<open>Cache\<close> and \<open>Cache_State\<close> have the shape shared by the batches of the cache, its state,
  statistics and initialisation.
  \<open>SC\<close> and \<open>SC_Correct\<close> have the sequentially consistent cache of one machine, \<open>LIN\<close>,
  \<open>LIN_Spec\<close> and \<open>LIN_Correct\<close> the linearizable one: a batch on the bytes of the store is the
  batch on the map of objects, and on well-formed operations it neither aborts nor spins.

  \<^bold>\<open>Theories: the protocols.\<close>
  \<open>History\<close>, \<open>SC_System\<close> and \<open>SC_System_Correct\<close> have the machines that run the first protocol
  together, and that its histories are sequentially consistent and its replicas converge.
  \<open>Linearizability\<close>, \<open>Invalidation\<close>, \<open>LIN_System\<close> and \<open>LIN_System_Correct\<close> have the second:
  the criterion, the protocol without machine words, the protocol with the handlers of the
  cache, and that this refines the former, that its timestamps are linearizable and that it can
  always come to rest.

  \<^bold>\<open>Theories: the clients and workers.\<close>
  \<open>Latency\<close> has the measurement of latencies.
  \<open>Requests\<close> and \<open>Requests_Correct\<close> have the walk of a client over its batch
  (\<open>handle_cold_requests\<close>), which loses, repeats and reorders no request.
  \<open>Transport\<close> and \<open>Transport_Correct\<close> have the messages between clients and workers and the turn
  of a worker.
  \<open>Trace\<close> and \<open>Trace_Correct\<close> have the parsing of a trace and the refill of a batch.
  \<open>Client\<close> and \<open>Client_Correct\<close> have the loop of the sequentially consistent client, which
  never fails from a well-formed start, on a well-formed trace in which no hot key is read too often.

  \<^bold>\<open>Theories: the coherence messages of the linearizable client.\<close>
  \<open>Coherence\<close> has the ring of incoming messages, the bookkeeping, the credits, and the messages
  sent (\<open>poll_coherence_LIN\<close> to \<open>forge_credits_LIN\<close> of \<open>inline_util.h\<close>).
  \<open>Coherence_Correct\<close>, \<open>Flow_Control\<close> and \<open>Flow_Sending\<close> show what its functions keep of the
  invariant of one machine.  \<open>Flow_System\<close> puts the machines and their network together: a
  message always finds a posted receive and an empty slot, credits are conserved, and a
  turn returns if the cache is well formed and the messages fit it.

  \<^bold>\<open>State, errors and loops.\<close>  A structure of the program is a record, a function on it takes
  and returns the record, and a failed assertion, an access out of bounds or a lock that is never
  released is a value of \<open>fault\<close>.  Words keep their width where the program lets them wrap:
  versions, metadata, hashes and credits.  Every loop is a total function, by structural recursion or a measure;
  there is no fuel.  What the program reads from outside (lines of a file, random numbers,
  elapsed times, messages delivered, memory that \<open>malloc\<close> returns) is an argument.  The constants are those
  of the headers, so the results on clusters that mention \<open>MACHINE_NUM\<close> are for the configured
  number of machines.

  \<^bold>\<open>What goes wrong.\<close>  Some theorems show faults of the program: the log of the store is overrun on its second
  lap, statistics abort on a failed write, the updates of the linearizable protocol carry
  leftover bytes, so that linearizability holds of timestamps and not of values, and the second update of a message
  is misread.  The clients' start states assume of uninitialised variables what the program needs of them.

  \<^bold>\<open>Not modelled.\<close>  The steps of a cache operation are not interleaved with those of another
  thread: a handler runs as one step, as its lock intends.  Not modelled are the
  libraries below (eRPC, libhrd, libibverbs) and the work requests and completions that drive them, the creation of threads
  and connections, printing and the statistics thread, the
  loop of the linearizable client outside its coherence messages, and functions of the headers
  that nothing calls.
\<close>

end
